(* ===== verification/Prelude.thy ===== *)
theory Prelude
  imports Main "HOL-Library.Word"
begin

section \<open>Shared vocabulary of the development\<close>

text \<open>
  The types, the result monad and the generic lemmas the component theories share.

  A C++ function that can throw, run into undefined behaviour or loop for ever returns a value
  of type \<open>('e, 'a) res\<close>: \<open>None\<close> when the loop never ends, \<open>Some (Inl e)\<close> when it throws
  (or would be undefined), \<open>Some (Inr x)\<close> when it returns.  Loops that may not end are
  \<^theory_text>\<open>partial_function (option)\<close> definitions over this monad, so every statement that
  such a loop returns has to be proved.
\<close>

unbundle bit_operations_syntax

type_synonym u8 = "8 word"
type_synonym u16 = "16 word"
type_synonym u32 = "32 word"
type_synonym u64 = "64 word"

type_synonym ('e, 'a) res = "('e + 'a) option"

named_theorems res_simps \<open>evaluation of the result monad\<close>
named_theorems word_enc \<open>what constructors and selectors of an encoded word give\<close>

subsection \<open>The result monad\<close>

abbreviation ok :: "'a \<Rightarrow> ('e, 'a) res" where
  "ok x \<equiv> Some (Inr x)"

abbreviation throw :: "'e \<Rightarrow> ('e, 'a) res" where
  "throw e \<equiv> Some (Inl e)"

definition bindR :: "('e, 'a) res \<Rightarrow> ('a \<Rightarrow> ('e, 'b) res) \<Rightarrow> ('e, 'b) res" where
  "bindR m f = Option.bind m (\<lambda>r. case r of Inl e \<Rightarrow> throw e | Inr x \<Rightarrow> f x)"

lemma bindR_simps [simp, res_simps]:
  "bindR None f = None"
  "bindR (throw e) f = throw e"
  "bindR (ok x) f = f x"
  by (simp_all add: bindR_def)

lemma bindR_ok_iff: "bindR m f = ok y \<longleftrightarrow> (\<exists>x. m = ok x \<and> f x = ok y)"
  by (cases m; cases "the m") (auto simp: bindR_def)

lemma bindR_okE:
  assumes "bindR m f = ok y"
  obtains x where "m = ok x" and "f x = ok y"
  using assms by (auto simp: bindR_ok_iff)

lemma bindR_assoc [simp]: "bindR (bindR m f) g = bindR m (\<lambda>x. bindR (f x) g)"
  by (cases m; cases "the m") (auto simp: bindR_def)

lemma bindR_cong [fundef_cong]:
  assumes "m = m'" and "\<And>x. m' = ok x \<Longrightarrow> f x = f' x"
  shows "bindR m f = bindR m' f'"
  using assms by (cases m'; cases "the m'") (auto simp: bindR_def)

lemma bindR_mono [partial_function_mono]:
  assumes "mono_option B" and "\<And>y. mono_option (\<lambda>f. C y f)"
  shows "mono_option (\<lambda>f. bindR (B f) (\<lambda>y. C y f))"
proof -
  have "mono_option (\<lambda>f. Option.bind (B f) (\<lambda>r. case r of Inl e \<Rightarrow> throw e | Inr x \<Rightarrow> C x f))"
  proof (rule bind_mono [OF assms(1)])
    show "mono_option (\<lambda>f. case r of Inl e \<Rightarrow> throw e | Inr x \<Rightarrow> C x f)" for r
      using assms(2) by (cases r) (auto intro: option.const_mono)
  qed
  then show ?thesis by (simp add: bindR_def)
qed

end
