(* ===== verification/Bits.thy ===== *)
theory Bits
  imports Prelude
begin

section \<open>Bit tricks and little-endian buffers\<close>

text \<open>
  \<^verbatim>\<open>src/src/common/bits.hpp\<close>: the de Bruijn tables behind \<open>lsb\<close> and \<open>msb\<close>, the table-driven bit
  reversal, and the readers and writers of little-endian integers in byte buffers.  The locale
  \<open>byte_codec\<close> is the contract of the readers and writers; the serializer relies on it.
\<close>

definition LSB_64_TABLE :: "nat list" where
  "LSB_64_TABLE =
    [63, 30,  3, 32, 59, 14, 11, 33,
     60, 24, 50,  9, 55, 19, 21, 34,
     61, 29,  2, 53, 51, 23, 41, 18,
     56, 28,  1, 43, 46, 27,  0, 35,
     62, 31, 58,  4,  5, 49, 54,  6,
     15, 52, 12, 40,  7, 42, 45, 16,
     25, 57, 48, 13, 10, 39,  8, 44,
     20, 47, 38, 22, 17, 37, 36, 26]"

definition LSB_32_TABLE :: "nat list" where
  "LSB_32_TABLE =
    [0, 1, 28, 2, 29, 14, 24, 3, 30, 22, 20, 15, 25, 17, 4, 8,
     31, 27, 13, 23, 21, 19, 16, 7, 26, 12, 18, 6, 11, 5, 10, 9]"

definition lsb64_folded :: "u64 \<Rightarrow> u32" where
  "lsb64_folded b = (let b = b XOR (b - 1) in ucast (scast (ucast b :: u32) XOR drop_bit 32 b :: u64))"

definition lsb64 :: "u64 \<Rightarrow> nat" where
  "lsb64 b = LSB_64_TABLE ! unat (drop_bit 26 (lsb64_folded b * 0x78291acf))"

definition lsb32 :: "u32 \<Rightarrow> nat" where
  "lsb32 b = LSB_32_TABLE ! unat (drop_bit 27 ((b AND - b) * 0x077CB531))"

definition bit_rev_table_256 :: "u8 list" where
  "bit_rev_table_256 =
   [0x00, 0x80, 0x40, 0xC0, 0x20, 0xA0, 0x60, 0xE0, 0x10, 0x90, 0x50, 0xD0, 0x30, 0xB0, 0x70, 0xF0,
    0x08, 0x88, 0x48, 0xC8, 0x28, 0xA8, 0x68, 0xE8, 0x18, 0x98, 0x58, 0xD8, 0x38, 0xB8, 0x78, 0xF8,
    0x04, 0x84, 0x44, 0xC4, 0x24, 0xA4, 0x64, 0xE4, 0x14, 0x94, 0x54, 0xD4, 0x34, 0xB4, 0x74, 0xF4,
    0x0C, 0x8C, 0x4C, 0xCC, 0x2C, 0xAC, 0x6C, 0xEC, 0x1C, 0x9C, 0x5C, 0xDC, 0x3C, 0xBC, 0x7C, 0xFC,
    0x02, 0x82, 0x42, 0xC2, 0x22, 0xA2, 0x62, 0xE2, 0x12, 0x92, 0x52, 0xD2, 0x32, 0xB2, 0x72, 0xF2,
    0x0A, 0x8A, 0x4A, 0xCA, 0x2A, 0xAA, 0x6A, 0xEA, 0x1A, 0x9A, 0x5A, 0xDA, 0x3A, 0xBA, 0x7A, 0xFA,
    0x06, 0x86, 0x46, 0xC6, 0x26, 0xA6, 0x66, 0xE6, 0x16, 0x96, 0x56, 0xD6, 0x36, 0xB6, 0x76, 0xF6,
    0x0E, 0x8E, 0x4E, 0xCE, 0x2E, 0xAE, 0x6E, 0xEE, 0x1E, 0x9E, 0x5E, 0xDE, 0x3E, 0xBE, 0x7E, 0xFE,
    0x01, 0x81, 0x41, 0xC1, 0x21, 0xA1, 0x61, 0xE1, 0x11, 0x91, 0x51, 0xD1, 0x31, 0xB1, 0x71, 0xF1,
    0x09, 0x89, 0x49, 0xC9, 0x29, 0xA9, 0x69, 0xE9, 0x19, 0x99, 0x59, 0xD9, 0x39, 0xB9, 0x79, 0xF9,
    0x05, 0x85, 0x45, 0xC5, 0x25, 0xA5, 0x65, 0xE5, 0x15, 0x95, 0x55, 0xD5, 0x35, 0xB5, 0x75, 0xF5,
    0x0D, 0x8D, 0x4D, 0xCD, 0x2D, 0xAD, 0x6D, 0xED, 0x1D, 0x9D, 0x5D, 0xDD, 0x3D, 0xBD, 0x7D, 0xFD,
    0x03, 0x83, 0x43, 0xC3, 0x23, 0xA3, 0x63, 0xE3, 0x13, 0x93, 0x53, 0xD3, 0x33, 0xB3, 0x73, 0xF3,
    0x0B, 0x8B, 0x4B, 0xCB, 0x2B, 0xAB, 0x6B, 0xEB, 0x1B, 0x9B, 0x5B, 0xDB, 0x3B, 0xBB, 0x7B, 0xFB,
    0x07, 0x87, 0x47, 0xC7, 0x27, 0xA7, 0x67, 0xE7, 0x17, 0x97, 0x57, 0xD7, 0x37, 0xB7, 0x77, 0xF7,
    0x0F, 0x8F, 0x4F, 0xCF, 0x2F, 0xAF, 0x6F, 0xEF, 0x1F, 0x9F, 0x5F, 0xDF, 0x3F, 0xBF, 0x7F, 0xFF]"

definition bitrev32 :: "u32 \<Rightarrow> u32" where
  "bitrev32 b =
     push_bit 24 (ucast (bit_rev_table_256 ! unat (b AND 0xff))) OR
     push_bit 16 (ucast (bit_rev_table_256 ! unat (drop_bit 8 b AND 0xff))) OR
     push_bit 8 (ucast (bit_rev_table_256 ! unat (drop_bit 16 b AND 0xff))) OR
     ucast (bit_rev_table_256 ! unat (drop_bit 24 b AND 0xff))"

definition bitrev64 :: "u64 \<Rightarrow> u64" where
  "bitrev64 b = ucast (bitrev32 (ucast (drop_bit 32 b))) OR push_bit 32 (ucast (bitrev32 (ucast b)))"

definition msb32 :: "u32 \<Rightarrow> nat" where
  "msb32 b = 31 - lsb32 (bitrev32 b)"

definition msb64 :: "u64 \<Rightarrow> nat" where
  "msb64 b = 63 - lsb64 (bitrev64 b)"

definition read_uint32 :: "u8 list \<Rightarrow> u32" where
  "read_uint32 buf =
     (ucast (buf ! 0) AND 0xff) OR
     push_bit 8 (ucast (buf ! 1) AND 0xff) OR
     push_bit 16 (ucast (buf ! 2) AND 0xff) OR
     push_bit 24 (ucast (buf ! 3) AND 0xff)"

definition write_uint32 :: "u32 \<Rightarrow> u8 list" where
  "write_uint32 v =
     [ucast (v AND 0xff), ucast (drop_bit 8 v AND 0xff),
      ucast (drop_bit 16 v AND 0xff), ucast (drop_bit 24 v AND 0xff)]"

definition read_uint64 :: "u8 list \<Rightarrow> u64" where
  "read_uint64 buf =
     (ucast (buf ! 0) AND 0xff) OR
     push_bit 8 (ucast (buf ! 1) AND 0xff) OR
     push_bit 16 (ucast (buf ! 2) AND 0xff) OR
     push_bit 24 (ucast (buf ! 3) AND 0xff) OR
     push_bit 32 (ucast (buf ! 4) AND 0xff) OR
     push_bit 40 (ucast (buf ! 5) AND 0xff) OR
     push_bit 48 (ucast (buf ! 6) AND 0xff) OR
     push_bit 56 (ucast (buf ! 7) AND 0xff)"

definition write_uint64 :: "u64 \<Rightarrow> u8 list" where
  "write_uint64 v =
     [ucast (v AND 0xff), ucast (drop_bit 8 v AND 0xff),
      ucast (drop_bit 16 v AND 0xff), ucast (drop_bit 24 v AND 0xff),
      ucast (drop_bit 32 v AND 0xff), ucast (drop_bit 40 v AND 0xff),
      ucast (drop_bit 48 v AND 0xff), ucast (drop_bit 56 v AND 0xff)]"

subsection \<open>The lowest set bit\<close>

definition lowest_bit :: "'a::len word \<Rightarrow> nat \<Rightarrow> bool" where
  "lowest_bit b k \<longleftrightarrow> bit b k \<and> (\<forall>j<k. \<not> bit b j)"

definition highest_bit :: "'a::len word \<Rightarrow> nat \<Rightarrow> bool" where
  "highest_bit b k \<longleftrightarrow> bit b k \<and> (\<forall>j>k. \<not> bit b j)"

lemma lowest_bit_less: "lowest_bit (b :: 'a::len word) k \<Longrightarrow> k < LENGTH('a)"
  by (auto simp: lowest_bit_def dest: bit_imp_le_length)

lemma lowest_bit_unique: "lowest_bit b k \<Longrightarrow> lowest_bit b k' \<Longrightarrow> k = k'"
  by (metis linorder_neqE_nat lowest_bit_def)

lemma lowest_bit_exists:
  fixes b :: "'a::len word"
  assumes "b \<noteq> 0"
  obtains k where "lowest_bit b k"
proof -
  from assms have "\<exists>k. bit b k"
    by (metis bit_0_eq bit_eqI bot_apply bot_bool_def)
  then have "lowest_bit b (LEAST k. bit b k)"
    unfolding lowest_bit_def using not_less_Least by (blast intro: LeastI_ex)
  then show thesis by (rule that)
qed

lemma bit_lowest: "lowest_bit b k \<Longrightarrow> n \<le> k \<Longrightarrow> bit b n \<longleftrightarrow> n = k"
  by (auto simp: lowest_bit_def le_less)

lemma minus_one_lowest:
  fixes b :: "'a::len word"
  assumes k: "lowest_bit b k"
  shows "b - 1 = (b AND NOT (mask (Suc k))) OR mask k"
proof -
  have kl: "k < LENGTH('a)" using k by (rule lowest_bit_less)
  have "b = (b AND NOT (mask (Suc k))) OR 2 ^ k"
    using bit_lowest [OF k] kl by (intro bit_word_eqI) (auto simp: bit_simps less_Suc_eq_le)
  also have "\<dots> = (b AND NOT (mask (Suc k))) + 2 ^ k"
    by (rule disjunctive_add [symmetric]) (auto simp: bit_simps)
  finally have "b - 1 = (b AND NOT (mask (Suc k))) + mask k"
    by (metis add_diff_eq mask_eq_decr_exp)
  also have "\<dots> = (b AND NOT (mask (Suc k))) OR mask k"
    by (rule disjunctive_add) (auto simp: bit_simps)
  finally show ?thesis .
qed

lemma bit_minus_one_lowest:
  fixes b :: "'a::len word"
  assumes k: "lowest_bit b k" and n: "n < LENGTH('a)"
  shows "bit (b - 1) n \<longleftrightarrow> n < k \<or> k < n \<and> bit b n"
  using n by (subst minus_one_lowest [OF k]) (auto simp: bit_simps)

lemma and_minus_lowest:
  fixes b :: "'a::len word"
  assumes k: "lowest_bit b k"
  shows "b AND - b = 2 ^ k"
  unfolding minus_eq_not_minus_1
  using bit_lowest [OF k] lowest_bit_less [OF k]
  by (intro bit_word_eqI) (auto simp: bit_simps bit_minus_one_lowest [OF k] not_less le_less)

lemma xor_minus_one_lowest:
  fixes b :: "'a::len word"
  assumes k: "lowest_bit b k"
  shows "b XOR (b - 1) = mask (Suc k)"
  using bit_lowest [OF k] lowest_bit_less [OF k]
  by (intro bit_word_eqI) (auto simp: bit_simps bit_minus_one_lowest [OF k] less_Suc_eq not_less)

lemma all_less_upt: "(\<forall>k<n. P k) \<longleftrightarrow> list_all P [0..<n]"
  by (auto simp: list_all_iff)

lemma lsb32_table: "\<forall>k<32. LSB_32_TABLE ! unat (drop_bit 27 ((2 ^ k :: u32) * 0x077CB531)) = k"
  unfolding all_less_upt by code_simp

lemma lsb64_table:
  "\<forall>k<64. LSB_64_TABLE ! unat (drop_bit 26 (ucast (scast (ucast (mask (Suc k) :: u64) :: u32)
     XOR drop_bit 32 (mask (Suc k)) :: u64) * 0x78291acf :: u32)) = k"
  unfolding all_less_upt by code_simp

lemma lsb32_lowest: "lowest_bit b k \<Longrightarrow> lsb32 b = k"
  using lsb32_table lowest_bit_less [of b k] by (simp add: lsb32_def and_minus_lowest)

lemma lsb64_lowest: "lowest_bit b k \<Longrightarrow> lsb64 b = k"
  using lsb64_table lowest_bit_less [of b k]
  by (simp add: lsb64_def lsb64_folded_def xor_minus_one_lowest Let_def)

subsection \<open>Bit reversal and the highest set bit\<close>

definition rev8 :: "nat \<Rightarrow> nat" where
  "rev8 x = horner_sum of_bool 2 (map (\<lambda>j. bit x (7 - j)) [0..<8])"

lemma rev8_arith:
  "rev8 x = x div 128 mod 2 + 2 * (x div 64 mod 2) + 4 * (x div 32 mod 2) + 8 * (x div 16 mod 2)
     + 16 * (x div 8 mod 2) + 32 * (x div 4 mod 2) + 64 * (x div 2 mod 2) + 128 * (x mod 2)"
  by (simp add: rev8_def upt_conv_Cons bit_iff_odd of_bool_odd_eq_mod_2)

lemma bit_rev_table_256_map: "map unat bit_rev_table_256 = map rev8 [0..<256]"
  by (simp add: bit_rev_table_256_def rev8_arith upt_conv_Cons)

lemma bit_rev_table_256_byte:
  assumes x: "x < 256" and j: "j < 8"
  shows "bit (bit_rev_table_256 ! x) j = bit x (7 - j)"
proof -
  have l: "length bit_rev_table_256 = 256"
    by (simp add: bit_rev_table_256_def)
  have "unat (bit_rev_table_256 ! x) = map unat bit_rev_table_256 ! x"
    using x l by simp
  also have "\<dots> = rev8 x"
    using x by (simp add: bit_rev_table_256_map)
  finally have "bit (unat (bit_rev_table_256 ! x)) j = bit (rev8 x) j" by simp
  then show ?thesis
    using j by (simp add: rev8_def bit_horner_sum_bit_iff bit_unsigned_iff)
qed

lemma bit_rev_byte:
  fixes b :: "'a::len word"
  assumes j: "j < 8" and l: "8 \<le> LENGTH('a)"
  shows "bit (bit_rev_table_256 ! unat (drop_bit n b AND 0xff)) j = bit b (n + (7 - j))"
proof -
  have m: "(0xff :: 'a word) = mask 8" by (simp add: mask_eq_exp_minus_1)
  have "unat (drop_bit n b AND 0xff) < 256"
    using take_bit_nat_less_exp [of 8 "unat (drop_bit n b)"]
    by (simp only: m take_bit_eq_mask [symmetric] unsigned_take_bit_eq) simp
  from bit_rev_table_256_byte [OF this j] show ?thesis
    using j l by (auto simp: m bit_simps bit_unsigned_iff dest: bit_imp_le_length)
qed

lemma bit_u8_high [simp]: "8 \<le> n \<Longrightarrow> \<not> bit (x :: u8) n"
  by (auto dest: bit_imp_le_length)

lemma bit_rev_byte0:
  "j < 8 \<Longrightarrow> bit (bit_rev_table_256 ! unat ((b :: u32) AND 0xff)) j = bit b (7 - j)"
  using bit_rev_byte [of j 0 b] by simp

lemma bit_bitrev32:
  assumes j: "j < 32"
  shows "bit (bitrev32 b) j = bit b (31 - j)"
proof -
  consider "j < 8" | "8 \<le> j" "j < 16" | "16 \<le> j" "j < 24" | "24 \<le> j" "j < 32"
    using j by linarith
  then show ?thesis
    by cases
      (simp_all add: bitrev32_def bit_simps bit_rev_byte bit_rev_byte0 less_imp_diff_less)
qed

lemma bit_bitrev64:
  assumes j: "j < 64"
  shows "bit (bitrev64 b) j = bit b (63 - j)"
proof (cases "j < 32")
  case True
  then show ?thesis
    by (simp add: bitrev64_def bit_simps bit_bitrev32 less_imp_diff_less)
next
  case False
  then show ?thesis
    using j bit_bitrev32 [of "j - 32" "ucast b"]
    by (auto simp: bitrev64_def bit_simps dest: bit_imp_le_length)
qed

text \<open>\<open>msb\<close> mirrors \<open>lsb\<close>: the highest bit of \<open>b\<close> is the lowest bit of its reversal.\<close>

lemma lowest_bit_reversed:
  fixes b b' :: "'a::len word"
  assumes rev: "\<And>j. j < LENGTH('a) \<Longrightarrow> bit b' j = bit b (LENGTH('a) - 1 - j)"
    and k: "highest_bit b k"
  shows "lowest_bit b' (LENGTH('a) - 1 - k)"
proof -
  have kl: "k < LENGTH('a)"
    using k by (auto simp: highest_bit_def dest: bit_imp_le_length)
  show ?thesis
    using k kl by (auto simp: lowest_bit_def highest_bit_def rev)
qed

lemma msb32_highest: "highest_bit b k \<Longrightarrow> msb32 b = k"
proof -
  assume k: "highest_bit b k"
  then have "k < 32" by (auto simp: highest_bit_def dest: bit_imp_le_length)
  have "lowest_bit (bitrev32 b) (31 - k)"
    using lowest_bit_reversed [of "bitrev32 b" b k] k by (simp add: bit_bitrev32)
  with \<open>k < 32\<close> show ?thesis
    by (simp add: msb32_def lsb32_lowest)
qed

lemma msb64_highest: "highest_bit b k \<Longrightarrow> msb64 b = k"
proof -
  assume k: "highest_bit b k"
  then have "k < 64" by (auto simp: highest_bit_def dest: bit_imp_le_length)
  have "lowest_bit (bitrev64 b) (63 - k)"
    using lowest_bit_reversed [of "bitrev64 b" b k] k by (simp add: bit_bitrev64)
  with \<open>k < 64\<close> show ?thesis
    by (simp add: msb64_def lsb64_lowest)
qed

lemma highest_bit_exists:
  fixes b :: "'a::len word"
  assumes "b \<noteq> 0"
  obtains k where "highest_bit b k"
proof -
  let ?S = "{k. bit b k}"
  have fin: "finite ?S"
    by (rule finite_subset [of _ "{..<LENGTH('a)}"]) (auto dest: bit_imp_le_length)
  moreover from assms have "?S \<noteq> {}"
    by (metis (mono_tags) bit_0_eq bit_eqI bot_apply bot_bool_def empty_Collect_eq)
  ultimately have "Max ?S \<in> ?S" by (rule Max_in)
  moreover have "j \<le> Max ?S" if "bit b j" for j
    using fin that by (simp add: Max_ge)
  ultimately have "highest_bit b (Max ?S)"
    by (auto simp: highest_bit_def not_le [symmetric])
  then show thesis by (rule that)
qed

subsection \<open>Little-endian words in byte buffers\<close>

lemma length_write_uint [simp]: "length (write_uint32 v) = 4" "length (write_uint64 w) = 8"
  by (simp_all add: write_uint32_def write_uint64_def)

lemma mask8: "(0xff :: 'a::len word) = mask 8"
  by (simp add: mask_eq_exp_minus_1)

text \<open>Byte \<open>m div 8\<close> of a word, put back in its place.\<close>

lemma bit_byte_in_place:
  fixes v :: "'a::len word"
  assumes "n < LENGTH('a)" "8 \<le> LENGTH('a)"
  shows "bit (push_bit m (ucast (ucast (drop_bit m v AND mask 8) :: u8) AND mask 8) :: 'a word) n
     \<longleftrightarrow> m \<le> n \<and> n < m + 8 \<and> bit v n"
  using assms by (auto simp: bit_simps)

lemma bit_byte_in_place0:
  fixes v :: "'a::len word"
  assumes "n < LENGTH('a)" "8 \<le> LENGTH('a)"
  shows "bit (ucast (ucast (v AND mask 8) :: u8) AND mask 8 :: 'a word) n \<longleftrightarrow> n < 8 \<and> bit v n"
  using bit_byte_in_place [OF assms, of 0 v] by simp

lemma read_write_uint32 [simp]: "read_uint32 (write_uint32 v @ rest) = v"
proof (rule bit_word_eqI)
  fix n assume n: "n < LENGTH(32)"
  then consider "n < 8" | "8 \<le> n" "n < 16" | "16 \<le> n" "n < 24" | "24 \<le> n" "n < 32"
    by fastforce
  then show "bit (read_uint32 (write_uint32 v @ rest)) n = bit v n"
    by cases (simp_all add: read_uint32_def write_uint32_def mask8 bit_or_iff
        bit_byte_in_place bit_byte_in_place0 del: push_bit_and)
qed

lemma read_write_uint64 [simp]: "read_uint64 (write_uint64 v @ rest) = v"
proof (rule bit_word_eqI)
  fix n assume n: "n < LENGTH(64)"
  then consider "n < 8" | "8 \<le> n" "n < 16" | "16 \<le> n" "n < 24" | "24 \<le> n" "n < 32"
    | "32 \<le> n" "n < 40" | "40 \<le> n" "n < 48" | "48 \<le> n" "n < 56" | "56 \<le> n" "n < 64"
    by fastforce
  then show "bit (read_uint64 (write_uint64 v @ rest)) n = bit v n"
    by cases (simp_all add: read_uint64_def write_uint64_def mask8 bit_or_iff
        bit_byte_in_place bit_byte_in_place0 del: push_bit_and)
qed

lemma bit_placed_byte:
  fixes b :: u8
  assumes "n < LENGTH('a)" "8 \<le> LENGTH('a)"
  shows "bit (push_bit m (ucast b AND mask 8) :: 'a::len word) n \<longleftrightarrow> m \<le> n \<and> n < m + 8 \<and> bit b (n - m)"
  using assms by (auto simp: bit_simps)

lemma bit_placed_byte0:
  fixes b :: u8
  assumes "n < LENGTH('a)" "8 \<le> LENGTH('a)"
  shows "bit (ucast b AND mask 8 :: 'a::len word) n \<longleftrightarrow> n < 8 \<and> bit b n"
  using bit_placed_byte [OF assms, of 0 b] by simp

lemma write_read_uint32: "write_uint32 (read_uint32 [b0, b1, b2, b3]) = [b0, b1, b2, b3]"
  unfolding read_uint32_def write_uint32_def mask8
  by (auto intro!: bit_word_eqI
      simp: bit_ucast_iff bit_and_iff bit_drop_bit_eq bit_mask_iff bit_or_iff
        bit_placed_byte bit_placed_byte0 simp del: push_bit_and)

lemma write_read_uint64:
  "write_uint64 (read_uint64 [b0, b1, b2, b3, b4, b5, b6, b7]) = [b0, b1, b2, b3, b4, b5, b6, b7]"
  unfolding read_uint64_def write_uint64_def mask8
  by (auto intro!: bit_word_eqI
      simp: bit_ucast_iff bit_and_iff bit_drop_bit_eq bit_mask_iff bit_or_iff
        bit_placed_byte bit_placed_byte0 simp del: push_bit_and)

subsection \<open>Fixed-width codecs\<close>

text \<open>What a pair of a writer and a reader of fixed-width values promises, and what follows for a
  buffer that holds a sequence of them.\<close>

locale byte_codec =
  fixes enc :: "'a \<Rightarrow> u8 list" and dec :: "u8 list \<Rightarrow> 'a" and width :: nat
  assumes enc_length: "length (enc v) = width"
    and dec_enc: "dec (enc v @ rest) = v"
begin

definition encode_seq :: "'a list \<Rightarrow> u8 list" where
  "encode_seq vs = concat (map enc vs)"

lemma encode_seq_length: "length (encode_seq vs) = width * length vs"
  by (induction vs) (simp_all add: encode_seq_def enc_length)

lemma encode_seq_append: "encode_seq (vs @ ws) = encode_seq vs @ encode_seq ws"
  by (simp add: encode_seq_def)

lemma drop_encode_seq: "drop (width * i) (encode_seq vs @ rest) = encode_seq (drop i vs) @ rest"
  if "i \<le> length vs"
  using that
proof (induction vs arbitrary: i)
  case (Cons v vs)
  then show ?case
    by (cases i) (auto simp: encode_seq_def enc_length)
qed (simp add: encode_seq_def)

lemma decode_nth: "i < length vs \<Longrightarrow> dec (drop (width * i) (encode_seq vs @ rest)) = vs ! i"
proof -
  assume i: "i < length vs"
  then have "drop i vs = vs ! i # drop (Suc i) vs" by (simp add: Cons_nth_drop_Suc)
  moreover have "drop (width * i) (encode_seq vs @ rest) = encode_seq (drop i vs) @ rest"
    by (rule drop_encode_seq) (use i in simp)
  ultimately show ?thesis by (simp add: encode_seq_def dec_enc)
qed

lemma enc_inject: "enc v = enc w \<longleftrightarrow> v = w"
  by (metis append_Nil2 dec_enc)

end

interpretation uint32_codec: byte_codec write_uint32 read_uint32 4
  by unfold_locales simp_all

interpretation uint64_codec: byte_codec write_uint64 read_uint64 8
  by unfold_locales simp_all

subsection \<open>Properties\<close>

text \<open>on every non-zero word \<open>lsb\<close> and \<open>msb\<close> return the position of the lowest and of the highest
  set bit, in both widths.\<close>

theorem lsb_msb_correct:
  assumes "b \<noteq> 0" "c \<noteq> 0"
  shows "lowest_bit b (lsb64 b) \<and> highest_bit b (msb64 b) \<and> lowest_bit c (lsb32 c) \<and> highest_bit c (msb32 c)"
proof -
  obtain i j k l where "lowest_bit b i" "highest_bit b j" "lowest_bit c k" "highest_bit c l"
    using lowest_bit_exists highest_bit_exists assms by metis
  then show ?thesis
    by (simp add: lsb64_lowest msb64_highest lsb32_lowest msb32_highest)
qed

theorem lsb_msb_correct_witness:
  "lowest_bit (40 :: u64) (lsb64 40) \<and> highest_bit (40 :: u64) (msb64 40) \<and>
   lowest_bit (6 :: u32) (lsb32 6) \<and> highest_bit (6 :: u32) (msb32 6)"
  by (rule lsb_msb_correct) simp_all

text \<open>the little-endian readers and writers are inverse to each other: a written integer reads
  back whatever follows it in the buffer, and the bytes read are the bytes written back.\<close>

theorem uint_roundtrip:
  "read_uint32 (write_uint32 v @ rest) = v \<and> read_uint64 (write_uint64 w @ rest) = w \<and>
   write_uint32 (read_uint32 [b0, b1, b2, b3]) = [b0, b1, b2, b3] \<and>
   write_uint64 (read_uint64 [b0, b1, b2, b3, b4, b5, b6, b7]) = [b0, b1, b2, b3, b4, b5, b6, b7]"
  using uint32_codec.dec_enc uint64_codec.dec_enc write_read_uint32 write_read_uint64 by blast

end
