(* ===== verification/Cells.thy ===== *)
theory Cells
  imports Bits
begin

section \<open>Cells: tagged 64-bit words\<close>

text \<open>
  \<^verbatim>\<open>src/src/common/term.hpp\<close> and \<^verbatim>\<open>term.cpp\<close>: a term is a 64-bit word whose low three bits are a tag.
  A cell is a \<^typ>\<open>u64\<close>; every class derived from \<open>cell\<close> is a group of functions on it.
  The enumerators carry the suffix \<open>_T\<close>.
\<close>

type_synonym cell = u64

datatype kind_t = REF_T | RFW_T | INT_T | BIG_T | CON_T | STR_T | DAT_T | FWD_T

fun kind_code :: "kind_t \<Rightarrow> u64" where
  "kind_code REF_T = 0"
| "kind_code RFW_T = 1"
| "kind_code INT_T = 2"
| "kind_code BIG_T = 3"
| "kind_code CON_T = 4"
| "kind_code STR_T = 5"
| "kind_code DAT_T = 6"
| "kind_code FWD_T = 7"

definition is_ref :: "kind_t \<Rightarrow> bool" where
  "is_ref k \<longleftrightarrow> kind_code k AND 6 = 0"

subsection \<open>The class cell\<close>

definition cell_tagged :: "kind_t \<Rightarrow> u64 \<Rightarrow> cell" where
  "cell_tagged t v = (kind_code t AND 7) OR push_bit 3 v"

definition cell_tag :: "cell \<Rightarrow> kind_t" where
  "cell_tag c = (let t = c AND 7 in
     if t = 0 then REF_T else if t = 1 then RFW_T else if t = 2 then INT_T else if t = 3 then BIG_T
     else if t = 4 then CON_T else if t = 5 then STR_T else if t = 6 then DAT_T else FWD_T)"

definition cell_value :: "cell \<Rightarrow> u64" where
  "cell_value c = drop_bit 3 c"

definition set_value :: "cell \<Rightarrow> u64 \<Rightarrow> cell" where
  "set_value c v = push_bit 3 v OR (c AND 7)"

definition value_signed :: "cell \<Rightarrow> int" where
  "value_signed c = sint c div 2 ^ 3"

subsection \<open>Pointer cells\<close>

definition ptr_cell :: "kind_t \<Rightarrow> nat \<Rightarrow> cell" where
  "ptr_cell t index = cell_tagged t (of_nat index)"

definition cell_index :: "cell \<Rightarrow> nat" where
  "cell_index c = unat (cell_value c)"

definition set_index :: "cell \<Rightarrow> nat \<Rightarrow> cell" where
  "set_index c index = set_value c (of_nat index)"

definition ref_cell :: "nat \<Rightarrow> cell" where
  "ref_cell index = ptr_cell REF_T index"

definition rfw_cell :: "nat \<Rightarrow> cell" where
  "rfw_cell index = ptr_cell RFW_T index"

definition watch_ref :: "cell \<Rightarrow> cell" where
  "watch_ref c = rfw_cell (cell_index c)"

definition unwatch :: "cell \<Rightarrow> cell" where
  "unwatch c = ref_cell (cell_index c)"

definition watched_ref :: "cell \<Rightarrow> bool" where
  "watched_ref c \<longleftrightarrow> cell_tag c = RFW_T"

definition str_cell :: "nat \<Rightarrow> cell" where
  "str_cell index = ptr_cell STR_T index"

definition fwd_cell :: "nat \<Rightarrow> cell" where
  "fwd_cell index = ptr_cell FWD_T index"

definition big_cell :: "nat \<Rightarrow> cell" where
  "big_cell index = ptr_cell BIG_T index"

definition is_ptr_cell :: "cell \<Rightarrow> bool" where
  "is_ptr_cell c \<longleftrightarrow> cell_tag c \<in> {REF_T, RFW_T, STR_T, BIG_T}"

lemma kind_code_and7 [simp]: "kind_code t AND 7 = kind_code t"
  by (cases t) simp_all

lemma mask3: "(7 :: u64) = mask 3"
  by (simp add: mask_eq_exp_minus_1)

lemma bit_kind_codeD: "bit (kind_code t) n \<Longrightarrow> n < 3"
  by (metis bit_and_iff bit_mask_iff kind_code_and7 mask3)

lemma cell_tagged_and7 [simp]: "cell_tagged t v AND 7 = kind_code t"
  by (rule bit_word_eqI) (auto simp: cell_tagged_def mask3 bit_simps dest: bit_kind_codeD)

lemma cell_tag_tagged [simp, word_enc]: "cell_tag (cell_tagged t v) = t"
  by (cases t) (simp_all add: cell_tag_def)

lemma cell_value_tagged: "cell_value (cell_tagged t v) = take_bit 61 v"
  by (rule bit_word_eqI)
    (auto simp: cell_value_def cell_tagged_def bit_simps dest: bit_kind_codeD)

lemma kind_code_tag: "kind_code (cell_tag c) = c AND 7"
proof -
  have "c AND 7 \<le> 7" by (rule word_and_le1)
  then have "c AND 7 \<in> {0, 1, 2, 3, 4, 5, 6, 7}"
    by (simp add: word_le_nat_alt word_unat_eq_iff) linarith
  then show ?thesis by (auto simp: cell_tag_def)
qed

lemma cell_tagged_tag_value [simp, word_enc]: "cell_tagged (cell_tag c) (cell_value c) = c"
proof (rule bit_word_eqI)
  fix n assume "n < LENGTH(64)"
  then show "bit (cell_tagged (cell_tag c) (cell_value c)) n = bit c n"
    by (cases "n < 3") (auto simp: cell_tagged_def kind_code_tag cell_value_def mask3 bit_simps)
qed

lemma cell_eq_iff: "c = d \<longleftrightarrow> cell_tag c = cell_tag d \<and> cell_value c = cell_value d"
  by (metis cell_tagged_tag_value)

text \<open>Indices occupy the upper 61 bits of a cell.\<close>

definition addr_limit :: nat where
  "addr_limit = 2 ^ 61"

lemma cell_index_bound [simp]: "cell_index c < addr_limit"
proof -
  have "unat c < 2 ^ 64" using unsigned_less [of c] by simp
  then have "unat c div 2 ^ 3 < 2 ^ 61" by (simp add: less_mult_imp_div_less)
  then show ?thesis
    by (simp add: addr_limit_def cell_index_def cell_value_def drop_bit_eq_div unat_div)
qed

lemma ptr_cell_tag [simp, word_enc]: "cell_tag (ptr_cell t i) = t"
  by (simp add: ptr_cell_def)

lemma ptr_cell_index [simp, word_enc]: "i < addr_limit \<Longrightarrow> cell_index (ptr_cell t i) = i"
  by (simp add: ptr_cell_def cell_index_def cell_value_tagged unsigned_take_bit_eq
      take_bit_nat_eq_self unsigned_of_nat addr_limit_def)

lemma ptr_cell_tag_index [simp, word_enc]: "ptr_cell (cell_tag c) (cell_index c) = c"
  by (simp add: ptr_cell_def cell_index_def)

lemma ptr_cell_eqI: "cell_tag c = t \<Longrightarrow> cell_index c = i \<Longrightarrow> c = ptr_cell t i"
  by auto

lemma set_value_tag [simp, word_enc]: "cell_tag (set_value c v) = cell_tag c"
proof -
  have "set_value c v AND 7 = c AND 7"
    by (rule bit_word_eqI) (auto simp: set_value_def mask3 bit_simps)
  then show ?thesis by (simp add: cell_tag_def)
qed

lemma set_value_value: "cell_value (set_value c v) = take_bit 61 v"
  by (rule bit_word_eqI) (auto simp: cell_value_def set_value_def mask3 bit_simps)

lemma set_value_conv: "set_value c v = cell_tagged (cell_tag c) v"
  by (simp add: cell_eq_iff set_value_value cell_value_tagged)

lemma set_index_conv [simp, word_enc]: "set_index c i = ptr_cell (cell_tag c) i"
  by (simp add: set_index_def ptr_cell_def set_value_conv)

lemmas ref_cell_defs = ref_cell_def rfw_cell_def str_cell_def fwd_cell_def big_cell_def

lemma ref_cells_tag [simp, word_enc]:
  "cell_tag (ref_cell i) = REF_T" "cell_tag (rfw_cell i) = RFW_T" "cell_tag (str_cell i) = STR_T"
  "cell_tag (fwd_cell i) = FWD_T" "cell_tag (big_cell i) = BIG_T"
  by (simp_all add: ref_cell_defs)

lemma ref_cells_index [simp, word_enc]:
  assumes "i < addr_limit"
  shows "cell_index (ref_cell i) = i" "cell_index (rfw_cell i) = i" "cell_index (str_cell i) = i"
    "cell_index (fwd_cell i) = i" "cell_index (big_cell i) = i"
  using assms by (simp_all add: ref_cell_defs)

lemma is_ref_iff: "is_ref k \<longleftrightarrow> k = REF_T \<or> k = RFW_T"
  by (cases k) (simp_all add: is_ref_def)

lemma unwatch_REF [simp]: "cell_tag c = REF_T \<Longrightarrow> unwatch c = c"
  using ptr_cell_tag_index [of c] by (simp add: unwatch_def ref_cell_def)

lemma unwatch_watch [simp]: "unwatch (watch_ref c) = unwatch c"
  by (simp add: unwatch_def watch_ref_def)

subsection \<open>Characters as bytes\<close>

definition char_byte :: "char \<Rightarrow> u8" where
  "char_byte ch = of_nat (of_char ch)"

definition byte_char :: "u8 \<Rightarrow> char" where
  "byte_char b = char_of (unat b)"

definition ascii :: "char \<Rightarrow> bool" where
  "ascii ch \<longleftrightarrow> (of_char ch :: nat) < 128"

lemma unat_char_byte [simp]: "unat (char_byte ch) = of_char ch"
proof -
  have "(of_char ch :: nat) < 256" by simp
  then show ?thesis by (simp add: char_byte_def unsigned_of_nat take_bit_nat_eq_self)
qed

lemma byte_char_char_byte [simp]: "byte_char (char_byte ch) = ch"
  by (simp add: byte_char_def)

lemma char_byte_byte_char [simp]: "char_byte (byte_char b) = b"
proof -
  have "unat b < 256" using unsigned_less [of b] by simp
  then show ?thesis
    by (intro word_unat_eq_iff [THEN iffD2]) (simp add: byte_char_def of_char_of take_bit_eq_mod)
qed

lemma char_byte_inject [simp]: "char_byte a = char_byte b \<longleftrightarrow> a = b"
  by (metis byte_char_char_byte)

lemma ascii_bit7: "ascii ch \<longleftrightarrow> \<not> bit (char_byte ch) 7"
proof -
  have "bit (char_byte ch) 7 \<longleftrightarrow> bit (of_char ch :: nat) 7"
    by (subst unat_char_byte [symmetric]) (simp add: bit_unsigned_iff del: unat_char_byte)
  also have "\<dots> \<longleftrightarrow> odd ((of_char ch :: nat) div 128)" by (simp add: bit_iff_odd)
  also have "\<dots> \<longleftrightarrow> 128 \<le> (of_char ch :: nat)"
  proof -
    have "odd (x div 128) \<longleftrightarrow> 128 \<le> x" if "x < 256" for x :: nat
    proof (cases "x < 128")
      case False
      with that have "x div 128 = 1" by (intro div_nat_eqI) auto
      with False show ?thesis by simp
    qed simp
    then show ?thesis by simp
  qed
  finally show ?thesis by (simp add: ascii_def not_le)
qed

subsection \<open>Constant cells\<close>

text \<open>
  A name of at most seven characters with an arity of at most 31 is packed into the cell: bit 60 of
  the cell's value marks the direct form, character \<open>i\<close> occupies the byte at bit \<open>53 - 8 * i\<close>
  (with its own bit 7 set) and the arity the lowest five bits.  Otherwise the value is an index into
  the atom table above 13 bits of arity.
\<close>

definition use_compacted :: "string \<Rightarrow> nat \<Rightarrow> bool" where
  "use_compacted name arity \<longleftrightarrow> length name \<le> 7 \<and> arity \<le> 31"

definition name_byte :: "char \<Rightarrow> u64" where
  "name_byte ch = (ucast (char_byte ch) AND 0x7f) OR 0x80"

primrec con_name_loop :: "string \<Rightarrow> nat \<Rightarrow> u64 \<Rightarrow> u64" where
  "con_name_loop [] i v = v"
| "con_name_loop (ch # s) i v = con_name_loop s (Suc i) (v OR push_bit (53 - i * 8) (name_byte ch))"

definition con_cell_direct :: "string \<Rightarrow> nat \<Rightarrow> cell" where
  "con_cell_direct name arity =
     set_value (cell_tagged CON_T 0) (con_name_loop name 0 (push_bit 60 1) OR of_nat arity)"

text \<open>The constructor asserts that the compact form applies.\<close>

definition con_cell :: "string \<Rightarrow> nat \<Rightarrow> cell option" where
  "con_cell name arity = (if use_compacted name arity then Some (con_cell_direct name arity) else None)"

definition con_cell_index :: "nat \<Rightarrow> nat \<Rightarrow> cell" where
  "con_cell_index atom_index arity =
     set_value (cell_tagged CON_T 0) (push_bit 13 (of_nat atom_index) OR of_nat arity)"

definition is_direct :: "cell \<Rightarrow> bool" where
  "is_direct c \<longleftrightarrow> drop_bit 60 (cell_value c) AND 1 \<noteq> 0"

definition arity :: "cell \<Rightarrow> nat" where
  "arity c = (if is_direct c then unat (cell_value c AND 0x1f)
     else unat (cell_value c AND (push_bit 12 1 - 1)))"

definition to_atom :: "cell \<Rightarrow> cell" where
  "to_atom c = set_value c (cell_value c AND NOT 0x1f)"

definition atom_index :: "cell \<Rightarrow> nat" where
  "atom_index c = unat (drop_bit 13 (cell_value c))"

definition get_name_byte :: "cell \<Rightarrow> nat \<Rightarrow> u8" where
  "get_name_byte c index = ucast (drop_bit (53 - index * 8) (cell_value c) AND 0xff)"

primrec name_length_loop :: "cell \<Rightarrow> nat \<Rightarrow> nat \<Rightarrow> nat" where
  "name_length_loop c i 0 = i"
| "name_length_loop c i (Suc k) =
     (if get_name_byte c i AND 0x80 = 0 then i else name_length_loop c (Suc i) k)"

definition name_length :: "cell \<Rightarrow> nat" where
  "name_length c = name_length_loop c 0 7"

definition con_name :: "cell \<Rightarrow> string" where
  "con_name c = map (\<lambda>i. byte_char (get_name_byte c i AND 0x7f)) [0..<name_length c]"

definition EMPTY_LIST :: cell where "EMPTY_LIST = con_cell_direct ''[]'' 0"
definition DOTTED_PAIR :: cell where "DOTTED_PAIR = con_cell_direct ''.'' 2"
definition COMMA :: cell where "COMMA = con_cell_direct '','' 2"
definition COIN :: cell where "COIN = con_cell_direct ''$coin'' 2"

lemma bit_name_byte: "bit (name_byte ch) n \<longleftrightarrow> n = 7 \<or> n < 7 \<and> bit (char_byte ch) n"
proof -
  have m: "(0x7f :: u64) = mask 7" by (simp add: mask_eq_exp_minus_1)
  have "bit (0x80 :: u64) n \<longleftrightarrow> n = 7"
    using bit_exp_iff [of 7 n, where ?'a = u64] by auto
  then show ?thesis
    unfolding name_byte_def m by (auto simp: bit_simps)
qed

definition in_byte :: "nat \<Rightarrow> nat \<Rightarrow> bool" where
  "in_byte k n \<longleftrightarrow> 53 - k * 8 \<le> n \<and> n < 61 - k * 8"

lemma in_byte_iff: "k < 7 \<Longrightarrow> j < 7 \<Longrightarrow> n < 8 \<Longrightarrow> in_byte k (53 - j * 8 + n) \<longleftrightarrow> k = j"
  by (auto simp: in_byte_def)

lemma bit_con_name_loop:
  assumes "i + length s \<le> 7"
  shows "bit (con_name_loop s i v) n \<longleftrightarrow> bit v n \<or>
     (\<exists>k<length s. in_byte (i + k) n \<and> bit (name_byte (s ! k)) (n - (53 - (i + k) * 8)))"
  using assms
proof (induction s arbitrary: i v)
  case Nil
  then show ?case by simp
next
  case (Cons ch s)
  have "bit (push_bit (53 - i * 8) (name_byte ch)) n \<longleftrightarrow>
      in_byte i n \<and> bit (name_byte ch) (n - (53 - i * 8))"
    using Cons.prems by (auto simp: in_byte_def bit_push_bit_iff bit_name_byte)
  then show ?case
    using Cons.prems by (simp add: Cons.IH bit_or_iff Ex_less_Suc2 disj_assoc)
qed

lemma con_cells_tag [simp, word_enc]:
  "cell_tag (con_cell_direct name n) = CON_T" "cell_tag (con_cell_index i n) = CON_T"
  "cell_tag (to_atom c) = cell_tag c"
  by (simp_all add: con_cell_direct_def con_cell_index_def to_atom_def)

lemma bit_of_nat_arity:
  assumes "a < 2 ^ m"
  shows "bit (of_nat a :: u64) n \<Longrightarrow> n < m"
  using assms by (metis bit_take_bit_iff of_nat_take_bit take_bit_nat_eq_self)

lemma bit_con_value:
  assumes c: "use_compacted name a" and n: "n < 61"
  shows "bit (cell_value (con_cell_direct name a)) n \<longleftrightarrow> n = 60 \<or> bit (of_nat a :: u64) n \<or>
     (\<exists>k<length name. in_byte k n \<and> bit (name_byte (name ! k)) (n - (53 - k * 8)))"
proof -
  have "bit (push_bit 60 1 :: u64) n \<longleftrightarrow> n = 60"
    using bit_exp_iff [of 60 n, where ?'a = u64] by auto
  with c n show ?thesis
    by (auto simp: con_cell_direct_def set_value_value bit_take_bit_iff bit_or_iff use_compacted_def
        bit_con_name_loop simp del: push_bit_of_1 push_bit_numeral)
qed

lemma is_direct_bit: "is_direct c \<longleftrightarrow> bit (cell_value c) 60"
  by (simp add: is_direct_def and_one_eq bit_iff_odd_drop_bit odd_iff_mod_2_eq_one)

lemma con_cell_is_direct [simp]: "use_compacted name a \<Longrightarrow> is_direct (con_cell_direct name a)"
  by (simp add: is_direct_bit bit_con_value)

lemma con_cell_arity [simp]:
  assumes c: "use_compacted name a"
  shows "arity (con_cell_direct name a) = a"
proof -
  have a: "a < 2 ^ 5" and l: "length name \<le> 7" using c by (auto simp: use_compacted_def)
  have m: "(0x1f :: u64) = mask 5" by (simp add: mask_eq_exp_minus_1)
  have "cell_value (con_cell_direct name a) AND 0x1f = of_nat a"
  proof (rule bit_word_eqI)
    fix n assume "n < LENGTH(64)"
    show "bit (cell_value (con_cell_direct name a) AND 0x1f) n = bit (of_nat a :: u64) n"
      using l bit_of_nat_arity [OF a, of n]
      by (cases "n < 5") (auto simp: m bit_simps bit_con_value [OF c] in_byte_def)
  qed
  then show ?thesis
    using a c by (simp add: arity_def unsigned_of_nat take_bit_nat_eq_self)
qed

lemma get_name_byte_con:
  assumes c: "use_compacted name a" and j: "j < 7" and n: "n < 8"
  shows "bit (get_name_byte (con_cell_direct name a) j) n \<longleftrightarrow>
     j = 0 \<and> n = 7 \<or> j < length name \<and> bit (name_byte (name ! j)) n"
proof -
  have l: "length name \<le> 7" and a: "a < 2 ^ 5" using c by (auto simp: use_compacted_def)
  have na: "\<not> bit (of_nat a :: u64) (53 - j * 8 + n)"
    using bit_of_nat_arity [OF a, of "53 - j * 8 + n"] j by auto
  have "bit (get_name_byte (con_cell_direct name a) j) n \<longleftrightarrow>
      bit (cell_value (con_cell_direct name a)) (53 - j * 8 + n)"
    using n by (simp add: get_name_byte_def mask8 bit_simps)
  also have "\<dots> \<longleftrightarrow> j = 0 \<and> n = 7 \<or> j < length name \<and> bit (name_byte (name ! j)) n"
  proof -
    have "(\<exists>k<length name. in_byte k (53 - j * 8 + n) \<and>
        bit (name_byte (name ! k)) (53 - j * 8 + n - (53 - k * 8)))
      \<longleftrightarrow> j < length name \<and> bit (name_byte (name ! j)) n"
      using in_byte_iff [OF _ j n] l by (auto simp: order_less_le_trans)
    moreover have "53 - j * 8 + n = 60 \<longleftrightarrow> j = 0 \<and> n = 7" using j n by auto
    moreover have "53 - j * 8 + n < 61" using n by auto
    ultimately show ?thesis using na by (simp add: bit_con_value [OF c])
  qed
  finally show ?thesis .
qed

lemma get_name_byte_eq:
  assumes c: "use_compacted name a" and j: "j < 7" and nn: "name \<noteq> []"
  shows "get_name_byte (con_cell_direct name a) j =
     (if j < length name then (char_byte (name ! j) AND 0x7f) OR 0x80 else 0)"
proof (rule bit_word_eqI)
  fix n assume "n < LENGTH(8)"
  then have n: "n < 8" by simp
  have m: "(0x7f :: u8) = mask 7" by (simp add: mask_eq_exp_minus_1)
  have b: "bit (0x80 :: u8) n \<longleftrightarrow> n = 7"
    using bit_exp_iff [of 7 n, where ?'a = u8] n by auto
  show "bit (get_name_byte (con_cell_direct name a) j) n =
      bit (if j < length name then (char_byte (name ! j) AND 0x7f) OR 0x80 else 0) n"
    using nn b n by (subst get_name_byte_con [OF c j n])
      (auto simp: bit_name_byte bit_or_iff bit_and_iff m bit_mask_iff)
qed

lemma byte_and80: "(b AND 0x80 :: u8) = 0 \<longleftrightarrow> \<not> bit b 7"
proof -
  have "(0x80 :: u8) = 2 ^ 7" by simp
  then show ?thesis by (metis and_exp_eq_0_iff_not_bit)
qed

lemma name_length_loop_con:
  assumes c: "use_compacted name a" and nn: "name \<noteq> []"
  shows "i + k = 7 \<Longrightarrow> i \<le> length name \<Longrightarrow> name_length_loop (con_cell_direct name a) i k = length name"
proof (induction k arbitrary: i)
  case 0
  then show ?case using c by (simp add: use_compacted_def)
next
  case (Suc k)
  have "bit ((0x80 :: u8)) 7" by simp
  then show ?case
    using Suc.prems Suc.IH [of "Suc i"]
    by (cases "i < length name") (auto simp: get_name_byte_eq [OF c _ nn] byte_and80 bit_or_iff)
qed

lemma name_length_con [simp]:
  "use_compacted name a \<Longrightarrow> name \<noteq> [] \<Longrightarrow> name_length (con_cell_direct name a) = length name"
  by (simp add: name_length_def name_length_loop_con)

lemma ascii_and7f: "ascii ch \<Longrightarrow> char_byte ch AND 0x7f = char_byte ch"
proof (rule bit_word_eqI)
  fix n assume a: "ascii ch" and "n < LENGTH(8)"
  then have "n < 7 \<or> n = 7" by auto
  with a show "bit (char_byte ch AND 0x7f) n = bit (char_byte ch) n"
    using ascii_bit7 [of ch]
    by (auto simp: mask_eq_exp_minus_1 [of 7, where ?'a = u8, simplified, symmetric] bit_simps)
qed

lemma con_name_con_cell:
  assumes c: "use_compacted name a" and nn: "name \<noteq> []" and asc: "\<forall>ch\<in>set name. ascii ch"
  shows "con_name (con_cell_direct name a) = name"
proof (rule nth_equalityI)
  show "length (con_name (con_cell_direct name a)) = length name"
    using c nn by (simp add: con_name_def)
  fix i assume "i < length (con_name (con_cell_direct name a))"
  then have i: "i < length name" "i < 7" using c nn by (simp_all add: con_name_def use_compacted_def)
  have "((char_byte (name ! i) AND 0x7f) OR 0x80) AND 0x7f = char_byte (name ! i) AND 0x7f"
    by (simp add: bit.conj_disj_distrib2 and.assoc)
  then show "con_name (con_cell_direct name a) ! i = name ! i"
    using i asc c nn by (simp add: con_name_def get_name_byte_eq ascii_and7f)
qed

text \<open>The indexed form.  Bit 60 of the value is bit 47 of the atom index, and the accessor masks only
  twelve of the thirteen arity bits.\<close>

lemma bit_con_index_value:
  assumes "a < 2 ^ 13" "n < 61"
  shows "bit (cell_value (con_cell_index i a)) n \<longleftrightarrow>
    (if n < 13 then bit (of_nat a :: u64) n else bit (of_nat i :: u64) (n - 13))"
  using assms bit_of_nat_arity [OF assms(1), of n]
  by (auto simp: con_cell_index_def set_value_value bit_simps)

lemma con_index_not_direct [simp]:
  assumes "i < 2 ^ 47" "a < 2 ^ 13"
  shows "\<not> is_direct (con_cell_index i a)"
  using bit_of_nat_arity [OF assms(1), of 47]
  by (auto simp: is_direct_bit bit_con_index_value [OF assms(2)])

lemma atom_index_con_index [simp]:
  assumes "i < 2 ^ 47" "a < 2 ^ 13"
  shows "atom_index (con_cell_index i a) = i"
proof -
  have "drop_bit 13 (cell_value (con_cell_index i a)) = of_nat i"
  proof (rule bit_word_eqI)
    fix n assume "n < LENGTH(64)"
    have "bit (cell_value (con_cell_index i a)) m \<Longrightarrow> m < 61" for m
      by (auto simp: con_cell_index_def set_value_value bit_take_bit_iff bit_or_iff)
    then show "bit (drop_bit 13 (cell_value (con_cell_index i a))) n = bit (of_nat i :: u64) n"
      using bit_of_nat_arity [OF assms(1), of n]
      by (cases "n + 13 < 61")
        (force simp: bit_drop_bit_eq bit_con_index_value [OF assms(2)] add.commute)+
  qed
  then show ?thesis
    using assms by (simp add: atom_index_def unsigned_of_nat take_bit_nat_eq_self)
qed

lemma arity_con_index:
  assumes "i < 2 ^ 47" "a < 2 ^ 13"
  shows "arity (con_cell_index i a) = a mod 4096"
proof -
  have m: "(push_bit 12 1 - 1 :: u64) = mask 12" by (simp add: mask_eq_exp_minus_1)
  have "cell_value (con_cell_index i a) AND mask 12 = of_nat (take_bit 12 a)"
  proof (rule bit_word_eqI)
    fix n assume "n < LENGTH(64)"
    then show "bit (cell_value (con_cell_index i a) AND mask 12) n = bit (of_nat (take_bit 12 a) :: u64) n"
      by (cases "n < 12") (auto simp: bit_and_iff bit_mask_iff bit_con_index_value [OF assms(2)]
          of_nat_take_bit bit_take_bit_iff)
  qed
  moreover have "take_bit 12 a < 2 ^ 64" by (simp add: take_bit_eq_mod)
  ultimately show ?thesis
    using con_index_not_direct [OF assms]
    by (simp add: arity_def m unsigned_of_nat take_bit_nat_eq_self take_bit_eq_mod del: push_bit_of_1)
qed

subsection \<open>Integer cells\<close>

text \<open>
  \<open>int_cell\<close> keeps the low 61 bits of an \<open>int64_t\<close> and \<open>value()\<close> reads them back with an arithmetic
  shift.  The machine integer is an \<open>int\<close>; the binary operators work on \<open>int64_t\<close>, where a result
  outside 64 bits (only a product can be) or a division by zero is undefined, so \<open>None\<close>.
\<close>

definition int_cell :: "int \<Rightarrow> cell" where
  "int_cell v = cell_tagged INT_T (word_of_int v)"

definition int_value :: "cell \<Rightarrow> int" where
  "int_value c = value_signed c"

definition int64_range :: "int \<Rightarrow> bool" where
  "int64_range v \<longleftrightarrow> - (2 ^ 63) \<le> v \<and> v < 2 ^ 63"

definition int_cell_max :: cell where
  "int_cell_max = int_cell ((2 ^ 63 - 1) div 2 ^ 3)"

definition int_cell_min :: cell where
  "int_cell_min = int_cell (- (2 ^ 63) div 2 ^ 3)"

definition saturate :: "int \<Rightarrow> int" where
  "saturate v = (if v < int_value int_cell_min then int_value int_cell_min
     else if v > int_value int_cell_max then int_value int_cell_max else v)"

definition bin_op :: "(int \<Rightarrow> int \<Rightarrow> int) \<Rightarrow> cell \<Rightarrow> cell \<Rightarrow> cell option" where
  "bin_op f a b = (let v = f (int_value a) (int_value b) in
     if int64_range v then Some (int_cell v) else None)"

definition int_cell_add :: "cell \<Rightarrow> cell \<Rightarrow> cell option" where
  "int_cell_add = bin_op (+)"

definition int_cell_sub :: "cell \<Rightarrow> cell \<Rightarrow> cell option" where
  "int_cell_sub = bin_op (-)"

definition int_cell_mul :: "cell \<Rightarrow> cell \<Rightarrow> cell option" where
  "int_cell_mul = bin_op (*)"

text \<open>C++ division truncates towards zero.\<close>

definition trunc_div :: "int \<Rightarrow> int \<Rightarrow> int" where
  "trunc_div a b = sgn a * sgn b * (\<bar>a\<bar> div \<bar>b\<bar>)"

definition int_cell_div :: "cell \<Rightarrow> cell \<Rightarrow> cell option" where
  "int_cell_div a b = (if int_value b = 0 then None else bin_op trunc_div a b)"

definition int_cell_inc :: "cell \<Rightarrow> cell" where
  "int_cell_inc c = set_value c (word_of_int (int_value c + 1))"

definition int_cell_dec :: "cell \<Rightarrow> cell" where
  "int_cell_dec c = set_value c (word_of_int (int_value c - 1))"

definition is_negative :: "cell \<Rightarrow> bool" where
  "is_negative c \<longleftrightarrow> int_value c < 0"

definition int_cell_negate :: "cell \<Rightarrow> cell" where
  "int_cell_negate c = int_cell (saturate (- int_value c))"

definition int_cell_abs :: "cell \<Rightarrow> cell" where
  "int_cell_abs c = (if is_negative c then int_cell (saturate (- int_value c)) else c)"

definition int_cell_sign :: "cell \<Rightarrow> cell" where
  "int_cell_sign c = (if is_negative c then int_cell (- 1) else int_cell 1)"

definition int61_range :: "int \<Rightarrow> bool" where
  "int61_range v \<longleftrightarrow> - (2 ^ 60) \<le> v \<and> v < 2 ^ 60"

lemma int_cell_tag [simp, word_enc]: "cell_tag (int_cell v) = INT_T"
  by (simp add: int_cell_def)

lemma bit_value_signed: "bit (value_signed c) n = bit c (min 63 (n + 3))"
proof -
  have "value_signed c = drop_bit 3 (sint c)" by (simp only: value_signed_def drop_bit_eq_div)
  moreover have l: "LENGTH(64) - Suc 0 = 63" by simp
  have "bit (sint c) m = bit c (min 63 m)" for m
    using bit_signed_iff [of c m, unfolded l, where ?'a = int] by simp
  ultimately show ?thesis by (simp add: bit_drop_bit_eq add.commute)
qed

lemma value_signed_eq: "value_signed c = signed_take_bit 60 (uint (cell_value c))"
  by (rule bit_eqI)
    (auto simp: bit_value_signed bit_signed_take_bit_iff bit_unsigned_iff cell_value_def bit_drop_bit_eq min_def
      not_le add.commute)

lemma int_value_int_cell: "int_value (int_cell v) = signed_take_bit 60 v"
  by (rule bit_eqI)
    (auto simp: int_value_def value_signed_eq int_cell_def cell_value_tagged bit_signed_take_bit_iff
      bit_unsigned_iff bit_take_bit_iff bit_word_of_int_iff min_def)

lemma int_value_id [simp, word_enc]: "int61_range v \<Longrightarrow> int_value (int_cell v) = v"
  by (simp add: int_value_int_cell int61_range_def signed_take_bit_int_eq_self)

lemma int_value_range [simp]: "int61_range (int_value c)"
  unfolding int61_range_def int_value_def value_signed_eq
  using signed_take_bit_int_greater_eq_minus_exp [of 60] signed_take_bit_int_less_exp [of 60] by blast

lemma int_cell_value [simp, word_enc]: "cell_tag c = INT_T \<Longrightarrow> int_cell (int_value c) = c"
proof -
  assume t: "cell_tag c = INT_T"
  have "take_bit 61 (word_of_int (int_value c) :: u64) = cell_value c"
  proof (rule bit_word_eqI)
    fix n assume "n < LENGTH(64)"
    then show "bit (take_bit 61 (word_of_int (int_value c) :: u64)) n = bit (cell_value c) n"
      using bit_imp_le_length [of c "n + 3"]
      by (cases "n < 60"; cases "n = 60") (auto simp: int_value_def bit_value_signed bit_take_bit_iff
          bit_word_of_int_iff cell_value_def bit_drop_bit_eq min_def add.commute)
  qed
  with t show ?thesis
    by (subst cell_eq_iff) (simp add: int_cell_def cell_value_tagged)
qed

lemma int_value_max [simp]: "int_value int_cell_max = 2 ^ 60 - 1"
  and int_value_min [simp]: "int_value int_cell_min = - (2 ^ 60)"
  by (simp_all add: int_cell_max_def int_cell_min_def int61_range_def)

lemma saturate_range: "int61_range (saturate v)"
  by (simp add: saturate_def int61_range_def)

text \<open>The operators: sums and differences always fit in an \<open>int64_t\<close> but wrap to 61 bits in the
  cell; negation and absolute value saturate.\<close>

lemma int_cell_add_value:
  "\<exists>c. int_cell_add a b = Some c \<and> int_value c = signed_take_bit 60 (int_value a + int_value b)"
  and int_cell_sub_value:
  "\<exists>c. int_cell_sub a b = Some c \<and> int_value c = signed_take_bit 60 (int_value a - int_value b)"
  using int_value_range [of a] int_value_range [of b]
  by (auto simp: int_cell_add_def int_cell_sub_def bin_op_def int64_range_def int61_range_def
      int_value_int_cell)

lemma int_cell_negate_value:
  "int_value (int_cell_negate c) = (if int_value c = - (2 ^ 60) then 2 ^ 60 - 1 else - int_value c)"
proof -
  have "int_value (int_cell_negate c) = saturate (- int_value c)"
    by (simp add: int_cell_negate_def saturate_range)
  then show ?thesis
    using int_value_range [of c] by (auto simp: saturate_def int61_range_def)
qed

lemma int_cell_abs_value: "int_value (int_cell_abs c) = min \<bar>int_value c\<bar> (2 ^ 60 - 1)"
proof (cases "is_negative c")
  case True
  then have "int_value (int_cell_abs c) = saturate (- int_value c)"
    by (simp add: int_cell_abs_def saturate_range)
  with True show ?thesis
    using int_value_range [of c] by (auto simp: saturate_def int61_range_def is_negative_def)
next
  case False
  then show ?thesis
    using int_value_range [of c] by (auto simp: int_cell_abs_def is_negative_def int61_range_def)
qed

subsection \<open>Character chunks\<close>

text \<open>Strings are stored as \<open>INT\<close> cells of up to seven characters; the lowest bit says whether more
  chunks follow.\<close>

definition is_valid_char :: "u8 \<Rightarrow> bool" where
  "is_valid_char ch \<longleftrightarrow> 1 \<le> ch \<and> ch \<le> 127"

definition chunk_byte :: "int \<Rightarrow> nat \<Rightarrow> u8" where
  "chunk_byte v i = word_of_int (drop_bit ((6 - i) * 8 + 5) v AND 0xff)"

definition lowest_5_bits :: "int \<Rightarrow> u8" where
  "lowest_5_bits v = word_of_int v AND 0x1f"

primrec char_chunk_loop :: "int \<Rightarrow> nat \<Rightarrow> nat \<Rightarrow> bool" where
  "char_chunk_loop v i 0 = True"
| "char_chunk_loop v i (Suc k) =
     (let ch = chunk_byte v i in
      if ch = 0 then True else if \<not> is_valid_char ch then False else char_chunk_loop v (Suc i) k)"

definition is_char_chunk :: "cell \<Rightarrow> bool" where
  "is_char_chunk c = (let v = int_value c in
     if lowest_5_bits v \<noteq> 0 \<and> lowest_5_bits v \<noteq> 1 then False else char_chunk_loop v 0 7)"

primrec as_char_chunk_loop :: "int \<Rightarrow> nat \<Rightarrow> nat \<Rightarrow> string" where
  "as_char_chunk_loop v i 0 = []"
| "as_char_chunk_loop v i (Suc k) =
     (let ch = chunk_byte v i in
      if ch = 0 then [] else byte_char ch # as_char_chunk_loop v (Suc i) k)"

definition as_char_chunk :: "cell \<Rightarrow> string" where
  "as_char_chunk c = as_char_chunk_loop (int_value c) 0 7"

definition is_last_char_chunk :: "cell \<Rightarrow> bool" where
  "is_last_char_chunk c \<longleftrightarrow> lowest_5_bits (int_value c) = 0"

primrec encode_str_loop :: "string \<Rightarrow> nat \<Rightarrow> int \<Rightarrow> int" where
  "encode_str_loop [] k v = v"
| "encode_str_loop (ch # s) k v =
     encode_str_loop s (Suc k) (v OR push_bit (5 + (6 - k) * 8) 1 * uint (char_byte ch))"

text \<open>\<open>None\<close> is the failed assertion \<open>to - from <= 7\<close>.\<close>

definition encode_str :: "string \<Rightarrow> nat \<Rightarrow> nat \<Rightarrow> bool \<Rightarrow> cell option" where
  "encode_str str from to has_more =
     (if from \<le> to \<and> to - from \<le> 7 then
        (let fin = (if to > length str then length str else to);
             v = encode_str_loop (take (fin - from) (drop from str)) 0 0
         in Some (int_cell (if has_more then v OR 1 else v)))
      else None)"

definition encode_str_all :: "string \<Rightarrow> bool \<Rightarrow> cell option" where
  "encode_str_all str has_more = encode_str str 0 (length str) has_more"

definition valid_chars :: "string \<Rightarrow> bool" where
  "valid_chars s \<longleftrightarrow> (\<forall>ch\<in>set s. is_valid_char (char_byte ch))"

definition chunk_value :: "string \<Rightarrow> bool \<Rightarrow> int" where
  "chunk_value s more = (if more then encode_str_loop s 0 0 OR 1 else encode_str_loop s 0 0)"

definition in_chunk :: "nat \<Rightarrow> nat \<Rightarrow> bool" where
  "in_chunk k n \<longleftrightarrow> 5 + (6 - k) * 8 \<le> n \<and> n < 13 + (6 - k) * 8"

lemma bit_encode_str_loop:
  assumes "i + length s \<le> 7"
  shows "bit (encode_str_loop s i v) n \<longleftrightarrow> bit v n \<or>
     (\<exists>k<length s. in_chunk (i + k) n \<and> bit (char_byte (s ! k)) (n - (5 + (6 - (i + k)) * 8)))"
  using assms
proof (induction s arbitrary: i v)
  case Nil
  then show ?case by simp
next
  case (Cons ch s)
  have "push_bit (5 + (6 - i) * 8) 1 * uint (char_byte ch) = push_bit (5 + (6 - i) * 8) (uint (char_byte ch))"
    by (simp add: push_bit_eq_mult)
  moreover have "bit (push_bit (5 + (6 - i) * 8) (uint (char_byte ch))) n \<longleftrightarrow>
      in_chunk i n \<and> bit (char_byte ch) (n - (5 + (6 - i) * 8))"
    using bit_imp_le_length [of "char_byte ch" "n - (5 + (6 - i) * 8)"]
    by (auto simp: in_chunk_def bit_push_bit_iff bit_unsigned_iff)
  ultimately show ?case
    using Cons.prems by (simp add: Cons.IH bit_or_iff Ex_less_Suc2 disj_assoc)
qed

lemma bit_chunk_value:
  assumes "length s \<le> 7"
  shows "bit (chunk_value s more) n \<longleftrightarrow> n = 0 \<and> more \<or>
     (\<exists>k<length s. in_chunk k n \<and> bit (char_byte (s ! k)) (n - (5 + (6 - k) * 8)))"
  using assms by (auto simp: chunk_value_def bit_encode_str_loop bit_or_iff bit_1_iff)

lemma chunk_byte_value:
  assumes l: "length s \<le> 7" and i: "i < 7"
  shows "chunk_byte (chunk_value s more) i = (if i < length s then char_byte (s ! i) else 0)"
proof (rule bit_word_eqI)
  fix n assume "n < LENGTH(8)"
  then have n: "n < 8" by simp
  have m: "(0xff :: int) = mask 8" by (simp add: mask_eq_exp_minus_1)
  have c: "in_chunk k ((6 - i) * 8 + 5 + n) \<longleftrightarrow> k = i" if "k < 7" for k
    using that i n by (auto simp: in_chunk_def)
  show "bit (chunk_byte (chunk_value s more) i) n = bit (if i < length s then char_byte (s ! i) else 0) n"
    using n l c
    by (auto simp: chunk_byte_def m bit_word_of_int_iff bit_and_iff bit_drop_bit_eq bit_mask_iff
        bit_chunk_value [OF l] order_less_le_trans add.commute)
qed

lemma lowest_5_bits_value:
  assumes l: "length s \<le> 7"
  shows "lowest_5_bits (chunk_value s more) = of_bool more"
proof (rule bit_word_eqI)
  fix n assume "n < LENGTH(8)"
  have m: "(0x1f :: u8) = mask 5" by (simp add: mask_eq_exp_minus_1)
  show "bit (lowest_5_bits (chunk_value s more)) n = bit (of_bool more :: u8) n"
    by (auto simp: lowest_5_bits_def m bit_and_iff bit_mask_iff bit_word_of_int_iff
        bit_chunk_value [OF l] in_chunk_def bit_1_iff)
qed

lemma valid_char_ascii: "is_valid_char (char_byte ch) \<longleftrightarrow> ascii ch \<and> char_byte ch \<noteq> 0"
  by (auto simp: is_valid_char_def ascii_def word_le_nat_alt word_unat_eq_iff)

lemma chunk_value_range:
  assumes l: "length s \<le> 7" and v: "valid_chars s"
  shows "int61_range (chunk_value s more)"
proof -
  have "\<not> bit (chunk_value s more) n" if "60 \<le> n" for n
  proof
    assume "bit (chunk_value s more) n"
    with that obtain k where k: "k < length s" "in_chunk k n"
      and b: "bit (char_byte (s ! k)) (n - (5 + (6 - k) * 8))"
      by (auto simp: bit_chunk_value [OF l])
    from k that have "n = 60" "k = 0" by (auto simp: in_chunk_def)
    with b have "bit (char_byte (s ! k)) 7" by simp
    moreover have "ascii (s ! k)"
      using v k by (auto simp: valid_chars_def valid_char_ascii)
    ultimately show False by (simp add: ascii_bit7)
  qed
  then have "take_bit 60 (chunk_value s more) = chunk_value s more"
    by (intro bit_eqI) (use not_le in \<open>auto simp: bit_take_bit_iff\<close>)
  moreover note take_bit_int_less_exp [of 60 "chunk_value s more"]
    take_bit_nonnegative [of 60 "chunk_value s more"]
  ultimately show ?thesis by (simp add: int61_range_def)
qed

lemma chunk_loops:
  assumes l: "length s \<le> 7" and v: "valid_chars s"
  shows "i + k = 7 \<Longrightarrow> char_chunk_loop (chunk_value s more) i k \<and>
     as_char_chunk_loop (chunk_value s more) i k = drop i s"
proof (induction k arbitrary: i)
  case (Suc k)
  have ch: "i < length s \<Longrightarrow> is_valid_char (char_byte (s ! i)) \<and> char_byte (s ! i) \<noteq> 0"
    using v by (auto simp: valid_chars_def valid_char_ascii)
  from Suc.prems have "i < 7" "Suc i + k = 7" by simp_all
  then show ?case
    using ch Suc.IH [of "Suc i"]
    by (cases "i < length s") (simp_all add: chunk_byte_value [OF l] Let_def Cons_nth_drop_Suc)
qed (use l in simp)

lemma encode_str_chunk:
  assumes "from \<le> to" "to - from \<le> 7"
  shows "encode_str str from to more = Some (int_cell (chunk_value (take (to - from) (drop from str)) more))"
  using assms by (simp add: encode_str_def chunk_value_def Let_def not_less)

lemma encode_str_decode:
  assumes r: "from \<le> to" "to - from \<le> 7" and v: "valid_chars (take (to - from) (drop from str))"
  obtains c where "encode_str str from to more = Some c" "cell_tag c = INT_T" "is_char_chunk c"
    "as_char_chunk c = take (to - from) (drop from str)" "is_last_char_chunk c \<longleftrightarrow> \<not> more"
proof
  let ?s = "take (to - from) (drop from str)"
  have l: "length ?s \<le> 7" using r by simp
  have val: "int_value (int_cell (chunk_value ?s more)) = chunk_value ?s more"
    by (rule int_value_id [OF chunk_value_range [OF l v]])
  show "is_char_chunk (int_cell (chunk_value ?s more))"
    using chunk_loops [OF l v, of 0 7] by (simp add: is_char_chunk_def val lowest_5_bits_value [OF l])
  show "as_char_chunk (int_cell (chunk_value ?s more)) = ?s"
    using chunk_loops [OF l v, of 0 7] by (simp add: as_char_chunk_def val)
  show "is_last_char_chunk (int_cell (chunk_value ?s more)) \<longleftrightarrow> \<not> more"
    by (simp add: is_last_char_chunk_def val lowest_5_bits_value [OF l])
qed (simp_all add: encode_str_chunk [OF r])

subsection \<open>Data headers\<close>

definition dat_cell :: "nat \<Rightarrow> cell" where
  "dat_cell num_bits = cell_tagged DAT_T (of_nat num_bits)"

definition num_bits :: "cell \<Rightarrow> nat" where
  "num_bits c = unat ((word_of_int (int_value c) :: u64) AND (push_bit 29 1 - 1))"

definition num_half_cells :: "cell \<Rightarrow> nat" where
  "num_half_cells c = 1 + (num_bits c + 32 - 1) div 32"

definition num_cells :: "cell \<Rightarrow> nat" where
  "num_cells c = (num_half_cells c + 1) div 2"

lemma dat_cell_tag [simp, word_enc]: "cell_tag (dat_cell n) = DAT_T"
  by (simp add: dat_cell_def)

lemma num_bits_value: "num_bits c = unat (take_bit 29 (cell_value c))"
proof -
  have "(word_of_int (int_value c) :: u64) AND mask 29 = take_bit 29 (cell_value c)"
    by (rule bit_word_eqI) (auto simp: bit_simps int_value_def bit_value_signed
        bit_word_of_int_iff cell_value_def add.commute)
  then show ?thesis by (simp add: num_bits_def mask_eq_exp_minus_1)
qed

lemma num_bits_dat [simp, word_enc]: "n < 2 ^ 29 \<Longrightarrow> num_bits (dat_cell n) = n"
  by (simp add: num_bits_value dat_cell_def cell_value_tagged unsigned_take_bit_eq unsigned_of_nat
      take_bit_nat_eq_self)

lemma num_cells_pos [simp]: "0 < num_cells c"
  by (simp add: num_cells_def num_half_cells_def)

subsection \<open>Bytes of a cell\<close>

definition set_byte :: "u64 \<Rightarrow> nat \<Rightarrow> u8 \<Rightarrow> u64" where
  "set_byte cached index v =
     (let bit_off = 8 * (index mod 8)
      in (cached AND NOT (push_bit bit_off 0xff)) OR push_bit bit_off (ucast v))"

definition get_byte :: "u64 \<Rightarrow> nat \<Rightarrow> u8" where
  "get_byte cached index = ucast (drop_bit (8 * (index mod 8)) cached)"

lemma get_set_byte: "get_byte (set_byte w i v) j = (if i mod 8 = j mod 8 then v else get_byte w j)"
proof (rule bit_word_eqI)
  fix n assume "n < LENGTH(8)"
  then have n: "n < 8" by simp
  have m: "(0xff :: u64) = mask 8" by (simp add: mask_eq_exp_minus_1)
  have p: "8 * (j mod 8) + n < 64" using n by presburger
  have off: "(8 * (i mod 8) \<le> 8 * (j mod 8) + n \<and> 8 * (j mod 8) + n - 8 * (i mod 8) < 8) \<longleftrightarrow> i mod 8 = j mod 8"
    using n by linarith
  have "bit (get_byte (set_byte w i v) j) n \<longleftrightarrow>
      (if i mod 8 = j mod 8 then bit v n else bit w (8 * (j mod 8) + n))"
    using n p off
    by (auto simp: get_byte_def set_byte_def Let_def m bit_ucast_iff bit_drop_bit_eq bit_or_iff bit_and_iff
        bit_not_iff bit_push_bit_iff bit_mask_iff not_less)
  then show "bit (get_byte (set_byte w i v) j) n = bit (if i mod 8 = j mod 8 then v else get_byte w j) n"
    using n by (simp add: get_byte_def bit_ucast_iff bit_drop_bit_eq)
qed

subsection \<open>Properties\<close>

text \<open>C21: a cell is determined by its tag and its 61-bit value: the tagged constructor stores the tag
  and the low 61 bits of the value, the accessors read them back, \<open>set_value\<close> changes the value and
  keeps the tag, and every word is the cell built from its own tag and value.\<close>

theorem cell_encoding:
  "cell_tag (cell_tagged t v) = t \<and> cell_value (cell_tagged t v) = take_bit 61 v \<and>
   cell_tag (set_value c v) = cell_tag c \<and> cell_value (set_value c v) = take_bit 61 v \<and>
   cell_tagged (cell_tag c) (cell_value c) = c"
  by (simp add: cell_value_tagged set_value_value)

text \<open>C22: a constant whose name is one to seven ASCII characters and whose arity is at most 31 is
  packed into one cell without loss: the cell is a direct \<open>CON\<close> cell, and its name, name length and
  arity read back as given.\<close>

theorem con_cell_roundtrip:
  assumes "name \<noteq> []" "length name \<le> 7" "\<forall>ch\<in>set name. ascii ch" "a \<le> 31"
  shows "\<exists>c. con_cell name a = Some c \<and> cell_tag c = CON_T \<and> is_direct c \<and> arity c = a \<and>
    name_length c = length name \<and> con_name c = name"
proof -
  have "use_compacted name a" using assms by (simp add: use_compacted_def)
  then show ?thesis using assms by (simp add: con_cell_def con_name_con_cell)
qed

theorem con_cell_roundtrip_witness:
  "\<exists>c. con_cell ''foo'' 3 = Some c \<and> cell_tag c = CON_T \<and> is_direct c \<and> arity c = 3 \<and>
    name_length c = length ''foo'' \<and> con_name c = ''foo''"
  by (rule con_cell_roundtrip) (simp_all add: ascii_def)

text \<open>C23: an indexed constant keeps its atom index, is never taken for a direct one, and its arity
  reads back modulo 4096: the accessor masks twelve of the thirteen bits the constructor stores, so an
  arity in 4096 .. 8191, which \<open>MAX_ARITY\<close> admits, is not recovered.\<close>

theorem con_cell_index_roundtrip:
  assumes "i < 2 ^ 47" "a < 2 ^ 13"
  shows "cell_tag (con_cell_index i a) = CON_T \<and> \<not> is_direct (con_cell_index i a) \<and>
    atom_index (con_cell_index i a) = i \<and> arity (con_cell_index i a) = a mod 4096"
  using assms by (simp add: arity_con_index)

theorem con_cell_index_roundtrip_witness:
  "cell_tag (con_cell_index 5 4097) = CON_T \<and> \<not> is_direct (con_cell_index 5 4097) \<and>
    atom_index (con_cell_index 5 4097) = 5 \<and> arity (con_cell_index 5 4097) = 4097 mod 4096"
  by (rule con_cell_index_roundtrip) simp_all

text \<open>C24: integer cells hold exactly the integers of 61 bits: every such integer reads back as
  written, every \<open>INT\<close> cell is the encoding of its value, and a value that does not fit is stored
  modulo \<open>2 ^ 61\<close> (the sign-extended low 61 bits).\<close>

theorem int_cell_roundtrip:
  "int_value (int_cell v) = signed_take_bit 60 v \<and> (int61_range v \<longrightarrow> int_value (int_cell v) = v) \<and>
   int61_range (int_value c) \<and> (cell_tag c = INT_T \<longrightarrow> int_cell (int_value c) = c)"
  using int_value_int_cell [of v] int_value_id [of v] by simp

theorem int_cell_roundtrip_witness:
  "int61_range (- 7) \<and> int_value (int_cell (- 7)) = - 7 \<and> cell_tag (int_cell 5) = INT_T \<and>
   int_cell (int_value (int_cell 5)) = int_cell 5"
  using int_cell_roundtrip [of "- 7" "int_cell 5"] by (simp add: int61_range_def)

text \<open>C25: the arithmetic of integer cells: addition and subtraction never overflow the \<open>int64_t\<close>
  they are computed in and wrap to 61 bits in the cell, while negation and absolute value saturate at
  the largest cell integer.\<close>

theorem int_cell_arithmetic:
  "map_option int_value (int_cell_add a b) = Some (signed_take_bit 60 (int_value a + int_value b)) \<and>
   map_option int_value (int_cell_sub a b) = Some (signed_take_bit 60 (int_value a - int_value b)) \<and>
   int_value (int_cell_negate a) = min (- int_value a) (2 ^ 60 - 1) \<and>
   int_value (int_cell_abs a) = min \<bar>int_value a\<bar> (2 ^ 60 - 1)"
  using int_cell_add_value [of a b] int_cell_sub_value [of a b] int_value_range [of a]
  by (auto simp: int_cell_negate_value int_cell_abs_value int61_range_def)

text \<open>a substring of at most seven characters, each in 1 .. 127, is stored in one \<open>INT\<close> cell that
  is recognised as a character chunk, reads back as the same substring, and says whether more chunks
  follow.\<close>

theorem char_chunk_roundtrip:
  assumes "from \<le> to" "to - from \<le> 7" "valid_chars (take (to - from) (drop from str))"
  shows "\<exists>c. encode_str str from to more = Some c \<and> cell_tag c = INT_T \<and> is_char_chunk c \<and>
    as_char_chunk c = take (to - from) (drop from str) \<and> (is_last_char_chunk c \<longleftrightarrow> \<not> more)"
  using encode_str_decode [OF assms] by metis

theorem char_chunk_roundtrip_witness:
  "\<exists>c. encode_str ''hello world'' 4 11 True = Some c \<and> cell_tag c = INT_T \<and> is_char_chunk c \<and>
    as_char_chunk c = ''o world'' \<and> (is_last_char_chunk c \<longleftrightarrow> \<not> True)"
  using char_chunk_roundtrip [of 4 11 "''hello world''" True]
  by (simp add: valid_chars_def valid_char_ascii ascii_def word_unat_eq_iff)

end
