(* ===== verification/Heap.thy ===== *)
theory Heap
  imports Cells "HOL-Library.AList"
begin

section \<open>The term heap\<close>

text \<open>
  The classes \<open>heap_block\<close> and \<open>heap\<close> of \<^verbatim>\<open>src/src/common/term.hpp\<close> and \<^verbatim>\<open>term.cpp\<close>: a stack of blocks of
  8192 cells, the atom tables, the watch list, and the operations that allocate and inspect terms.
  The block, atom and trim callbacks are the default ones.  A cell that has never been written reads as
  undefined.  Addresses are natural numbers; a pointer cell holds 61 bits of them.
\<close>

datatype term_error =
    Heap_index_out_of_range nat nat
  | Expected_con_cell nat cell
  | Expected_str_cell cell
  | Coin_security
  | Assertion_failed
  | Undefined_behaviour

type_synonym 'a tres = "(term_error, 'a) res"

definition MAX_SIZE :: nat where "MAX_SIZE = 8192"

record heap_block =
  hb_index :: nat
  hb_size :: nat
  hb_changed :: bool
  hb_cells :: "nat \<Rightarrow> cell option"

definition hb_offset :: "heap_block \<Rightarrow> nat" where
  "hb_offset b = hb_index b * MAX_SIZE"

definition new_heap_block :: "nat \<Rightarrow> heap_block" where
  "new_heap_block index = \<lparr>hb_index = index, hb_size = 0, hb_changed = False, hb_cells = Map.empty\<rparr>"

definition is_full :: "heap_block \<Rightarrow> bool" where
  "is_full b \<longleftrightarrow> hb_size b = MAX_SIZE"

definition can_allocate :: "heap_block \<Rightarrow> nat \<Rightarrow> bool" where
  "can_allocate b n \<longleftrightarrow> hb_size b + n \<le> MAX_SIZE"

definition block_allocate :: "heap_block \<Rightarrow> nat \<Rightarrow> heap_block \<times> nat" where
  "block_allocate b n = (b\<lparr>hb_size := hb_size b + n\<rparr>, hb_offset b + hb_size b)"

definition block_allocate0 :: "heap_block \<Rightarrow> nat \<Rightarrow> heap_block \<times> nat" where
  "block_allocate0 b n = block_allocate
     (b\<lparr>hb_cells := (\<lambda>k. if hb_size b \<le> k \<and> k < hb_size b + n then Some 0 else hb_cells b k)\<rparr>) n"

record heap =
  hp_size :: nat
  blocks :: "heap_block list"
  head_block :: "nat option"
  watched :: "nat list"
  coin_security_enabled :: bool
  atom_index_to_name_table :: "(nat \<times> string) list"
  atom_name_to_index_table :: "(string \<times> nat) list"

definition heap_new :: heap where
  "heap_new = \<lparr>hp_size = 0, blocks = [], head_block = None, watched = [], coin_security_enabled = True,
     atom_index_to_name_table = [], atom_name_to_index_table = []\<rparr>"

definition heap_reset :: "heap \<Rightarrow> heap" where
  "heap_reset h = h\<lparr>blocks := [], watched := [], hp_size := 0, head_block := None,
     atom_index_to_name_table := [], atom_name_to_index_table := []\<rparr>"

definition num_blocks :: "heap \<Rightarrow> nat" where
  "num_blocks h = (hp_size h + MAX_SIZE - 1) div MAX_SIZE"

subsection \<open>Blocks and cells\<close>

definition find_block_index :: "nat \<Rightarrow> nat" where
  "find_block_index addr = addr div MAX_SIZE"

definition find_block :: "heap \<Rightarrow> nat \<Rightarrow> heap_block tres" where
  "find_block h addr = (let i = find_block_index addr in
     if i < length (blocks h) then ok (blocks h ! i) else throw Undefined_behaviour)"

text \<open>\<open>block_put\<close> is \<open>(*block)[addr] = c\<close> for the block at position \<open>i\<close>.\<close>

definition block_put :: "heap \<Rightarrow> nat \<Rightarrow> nat \<Rightarrow> cell \<Rightarrow> heap tres" where
  "block_put h i addr c =
     (if i < length (blocks h) then
        (let b = blocks h ! i in
         if hb_offset b \<le> addr \<and> addr < hb_offset b + MAX_SIZE then
           ok (h\<lparr>blocks := (blocks h)[i := b\<lparr>hb_changed := True,
                 hb_cells := (hb_cells b)(addr - hb_offset b \<mapsto> c)\<rparr>]\<rparr>)
         else throw Undefined_behaviour)
      else throw Undefined_behaviour)"

definition check_index :: "heap \<Rightarrow> nat \<Rightarrow> unit tres" where
  "check_index h index = (if hp_size h \<le> index then throw (Heap_index_out_of_range index (hp_size h)) else ok ())"

text \<open>The two forms of \<open>operator []\<close>: the one on a mutable heap does not compare the address with the size (it also
  marks the block as changed; reading is modelled without that mark), the one on a constant heap is \<open>get\<close>.\<close>

definition heap_peek :: "heap \<Rightarrow> nat \<Rightarrow> cell tres" where
  "heap_peek h addr = bindR (find_block h addr) (\<lambda>b.
     if hb_offset b \<le> addr \<and> addr < hb_offset b + MAX_SIZE then
       (case hb_cells b (addr - hb_offset b) of Some c \<Rightarrow> ok c | None \<Rightarrow> throw Undefined_behaviour)
     else throw Undefined_behaviour)"

definition heap_get :: "heap \<Rightarrow> nat \<Rightarrow> cell tres" where
  "heap_get h addr = bindR (check_index h addr) (\<lambda>_. heap_peek h addr)"

definition heap_set :: "heap \<Rightarrow> nat \<Rightarrow> cell \<Rightarrow> heap tres" where
  "heap_set h addr c = block_put h (find_block_index addr) addr c"

definition set_head_block :: "heap \<Rightarrow> nat \<Rightarrow> heap_block \<Rightarrow> heap" where
  "set_head_block h i b = h\<lparr>head_block := Some i, hp_size := hb_index b * MAX_SIZE + hb_size b\<rparr>"

definition new_block_default :: "heap \<Rightarrow> heap" where
  "new_block_default h = (let block = new_heap_block (length (blocks h)) in
     (set_head_block h (length (blocks h)) block)\<lparr>blocks := blocks h @ [block]\<rparr>)"

definition head :: "heap \<Rightarrow> heap_block option" where
  "head h = (case head_block h of Some i \<Rightarrow> if i < length (blocks h) then Some (blocks h ! i) else None | None \<Rightarrow> None)"

definition update_head :: "heap \<Rightarrow> heap_block \<Rightarrow> heap" where
  "update_head h b = (case head_block h of Some i \<Rightarrow> h\<lparr>blocks := (blocks h)[i := b]\<rparr> | None \<Rightarrow> h)"

text \<open>The callback \<open>get_block_default\<close> adds a block and then forms a reference to \<open>blocks_[blocks_.size()]\<close>, one entry past
  the end of the vector.  Both callers drop that reference, so only the addition of the block is modelled; in the C++
  abstract machine the expression is out of range on each allocation that starts a block.\<close>

definition ensure_allocate :: "heap \<Rightarrow> nat \<Rightarrow> heap" where
  "ensure_allocate h n = (case head h of
       None \<Rightarrow> new_block_default h
     | Some b \<Rightarrow> if can_allocate b n then h else new_block_default h)"

definition ensure_head :: "heap \<Rightarrow> heap" where
  "ensure_head h = (case head h of
       None \<Rightarrow> new_block_default h
     | Some b \<Rightarrow> if is_full b then new_block_default h else h)"

text \<open>The spanning loop; it also yields the position of the first block it allocates in.\<close>

function ensure_allocate_span :: "heap \<Rightarrow> nat \<Rightarrow> nat option \<Rightarrow> (heap \<times> nat option) tres" where
  "ensure_allocate_span h n block =
     (if n = 0 then ok (h, block)
      else let h = ensure_head h in
        case head h of
          None \<Rightarrow> throw Undefined_behaviour
        | Some b \<Rightarrow>
            (let block = (case block of None \<Rightarrow> head_block h | Some i \<Rightarrow> Some i);
                 next_alloc = min n (MAX_SIZE - hb_size b)
             in if next_alloc = 0 then None
                else ensure_allocate_span (update_head h (fst (block_allocate0 b next_alloc))) (n - next_alloc) block))"
  by pat_completeness auto
termination
  by (relation "measure (\<lambda>(h, n, block). n)") auto

declare ensure_allocate_span.simps [simp del]

definition set_size_to_head :: "heap \<Rightarrow> heap" where
  "set_size_to_head h = (case head h of None \<Rightarrow> h | Some b \<Rightarrow> h\<lparr>hp_size := hb_offset b + hb_size b\<rparr>)"

definition allocate :: "heap \<Rightarrow> kind_t \<Rightarrow> nat \<Rightarrow> (heap \<times> nat) tres" where
  "allocate h tag n =
     (let h = ensure_allocate h n in
      case (head_block h, head h) of
        (Some i, Some b) \<Rightarrow>
          (let (b', addr) = block_allocate b n;
               h = set_size_to_head (update_head h b')
           in bindR (block_put h i addr (ptr_cell tag addr)) (\<lambda>h. ok (h, addr)))
      | _ \<Rightarrow> throw Undefined_behaviour)"

definition allocate_span :: "heap \<Rightarrow> kind_t \<Rightarrow> nat \<Rightarrow> (heap \<times> nat) tres" where
  "allocate_span h tag n =
     (let addr = hp_size h in
      bindR (ensure_allocate_span h n None) (\<lambda>(h, block).
        case block of
          None \<Rightarrow> throw Undefined_behaviour
        | Some i \<Rightarrow> bindR (block_put (set_size_to_head h) i addr (ptr_cell tag addr)) (\<lambda>h. ok (h, addr))))"

text \<open>\<open>internal_trim\<close>: the cells above the new size stay in memory; the blocks above are freed.\<close>

definition internal_trim :: "heap \<Rightarrow> nat \<Rightarrow> heap tres" where
  "internal_trim h new_size =
     (if hp_size h = 0 then ok h
      else let heap_end = (if new_size > 0 then new_size - 1 else 0);
               block_index = find_block_index heap_end
        in bindR (find_block h heap_end) (\<lambda>block.
           if new_size < hb_offset block then throw Undefined_behaviour
           else ok (h\<lparr>blocks := take (block_index + 1) ((blocks h)[block_index := block\<lparr>hb_size := new_size - hb_offset block\<rparr>]),
                  hp_size := new_size, head_block := Some block_index\<rparr>)))"

subsection \<open>Atoms\<close>

definition resolve_atom_index :: "heap \<Rightarrow> string \<Rightarrow> heap \<times> nat" where
  "resolve_atom_index h name = (case map_of (atom_name_to_index_table h) name of
       Some i \<Rightarrow> (h, i)
     | None \<Rightarrow> (let new_index = length (atom_name_to_index_table h)
         in (h\<lparr>atom_name_to_index_table := AList.update name new_index (atom_name_to_index_table h),
               atom_index_to_name_table := AList.update new_index name (atom_index_to_name_table h)\<rparr>, new_index)))"

definition set_atom_index :: "heap \<Rightarrow> string \<Rightarrow> nat \<Rightarrow> heap" where
  "set_atom_index h name index = h\<lparr>atom_name_to_index_table := AList.update name index (atom_name_to_index_table h),
     atom_index_to_name_table := AList.update index name (atom_index_to_name_table h)\<rparr>"

definition get_atom_index :: "heap \<Rightarrow> string \<Rightarrow> nat" where
  "get_atom_index h name = (case map_of (atom_name_to_index_table h) name of None \<Rightarrow> 0 | Some i \<Rightarrow> i)"

definition clear_atom_index :: "heap \<Rightarrow> string \<Rightarrow> nat \<Rightarrow> heap" where
  "clear_atom_index h name index = h\<lparr>atom_name_to_index_table := AList.delete name (atom_name_to_index_table h),
     atom_index_to_name_table := AList.delete index (atom_index_to_name_table h)\<rparr>"

definition con_cell_r :: "string \<Rightarrow> nat \<Rightarrow> cell tres" where
  "con_cell_r name n = (case con_cell name n of Some c \<Rightarrow> ok c | None \<Rightarrow> throw Assertion_failed)"

definition atom :: "heap \<Rightarrow> string \<Rightarrow> (heap \<times> cell) tres" where
  "atom h name =
     (if length name > 7 then (case resolve_atom_index h name of (h', i) \<Rightarrow> ok (h', con_cell_index i 0))
      else bindR (con_cell_r name 0) (\<lambda>c. ok (h, c)))"

definition atom_name :: "heap \<Rightarrow> cell \<Rightarrow> string tres" where
  "atom_name h c =
     (if is_direct c then ok (con_name c)
      else case map_of (atom_index_to_name_table h) (atom_index c) of
        Some name \<Rightarrow> ok name | None \<Rightarrow> throw Undefined_behaviour)"

definition MAX_NAME_LENGTH :: nat where "MAX_NAME_LENGTH = 256"

definition new_functor :: "heap \<Rightarrow> string \<Rightarrow> nat \<Rightarrow> (heap \<times> cell) tres" where
  "new_functor h name n =
     (if length name > 7 then
        (if length name < MAX_NAME_LENGTH
         then (case resolve_atom_index h name of (h', i) \<Rightarrow> ok (h', con_cell_index i n))
         else throw Assertion_failed)
      else bindR (con_cell_r name n) (\<lambda>c. ok (h, c)))"

definition heap_to_atom :: "heap \<Rightarrow> cell \<Rightarrow> (heap \<times> cell) tres" where
  "heap_to_atom h c =
     (if is_direct c then ok (h, set_value c (cell_value c AND NOT 0x1f))
      else bindR (atom_name h c) (\<lambda>name. new_functor h name 0))"

definition to_functor :: "heap \<Rightarrow> cell \<Rightarrow> nat \<Rightarrow> (heap \<times> cell) tres" where
  "to_functor h a n =
     (if n \<ge> 32 then bindR (atom_name h a) (\<lambda>name. new_functor h name n)
      else if is_direct a then ok (h, set_value a (cell_value a OR of_nat n))
      else bindR (atom_name h a) (\<lambda>name. new_functor h name n))"

definition is_name :: "heap \<Rightarrow> cell \<Rightarrow> string \<Rightarrow> bool tres" where
  "is_name h c name = (if is_direct c then ok (con_name c = name) else bindR (atom_name h c) (\<lambda>n. ok (n = name)))"

definition is_dollar_atom_name :: "heap \<Rightarrow> cell \<Rightarrow> bool tres" where
  "is_dollar_atom_name h c =
     (if is_direct c then ok (name_length c \<ge> 1 \<and> get_name_byte c 0 AND 0x7f = char_byte (CHR ''$''))
      else bindR (atom_name h c) (\<lambda>n. ok (n \<noteq> [] \<and> hd n = CHR ''$'')))"

subsection \<open>Dereferencing and inspecting terms\<close>

partial_function (option) deref :: "heap \<Rightarrow> cell \<Rightarrow> cell tres" where
  "deref h c = (if is_ref (cell_tag c) then
       bindR (heap_get h (cell_index c)) (\<lambda>referred. if referred = c then ok c else deref h referred)
     else ok c)"

partial_function (option) deref_cost_loop :: "heap \<Rightarrow> cell \<Rightarrow> u64 \<Rightarrow> (cell \<times> u64) tres" where
  "deref_cost_loop h c cost_tmp = (if is_ref (cell_tag c) then
       bindR (heap_get h (cell_index c)) (\<lambda>referred.
         if referred = c then ok (c, cost_tmp) else deref_cost_loop h referred (cost_tmp + 1))
     else ok (c, cost_tmp))"

definition deref_with_cost :: "heap \<Rightarrow> cell \<Rightarrow> (cell \<times> u64) tres" where
  "deref_with_cost h c = deref_cost_loop h c 1"

definition functor_str :: "heap \<Rightarrow> cell \<Rightarrow> cell tres" where
  "functor_str h s = bindR (check_index h (cell_index s)) (\<lambda>_. bindR (heap_get h (cell_index s)) (\<lambda>c.
     if cell_tag c \<noteq> CON_T then throw (Expected_con_cell (cell_index s) c) else ok c))"

definition functor_of :: "heap \<Rightarrow> cell \<Rightarrow> cell tres" where
  "functor_of h s = bindR (deref h s) (\<lambda>ds.
     if cell_tag ds = CON_T then ok ds
     else if cell_tag ds \<noteq> STR_T then throw (Expected_str_cell ds)
     else functor_str h ds)"

definition is_con_or_str :: "heap \<Rightarrow> cell \<Rightarrow> cell \<Rightarrow> bool tres" where
  "is_con_or_str h c k =
     (if cell_tag c = CON_T then ok (c = k)
      else if cell_tag c = STR_T then bindR (functor_of h c) (\<lambda>f. ok (f = k))
      else ok False)"

definition is_empty_list :: "heap \<Rightarrow> cell \<Rightarrow> bool tres" where
  "is_empty_list h c = is_con_or_str h c EMPTY_LIST"

definition is_dotted_pair :: "heap \<Rightarrow> cell \<Rightarrow> bool tres" where
  "is_dotted_pair h c = is_con_or_str h c DOTTED_PAIR"

definition is_comma :: "heap \<Rightarrow> cell \<Rightarrow> bool tres" where
  "is_comma h c = is_con_or_str h c COMMA"

definition arg :: "heap \<Rightarrow> cell \<Rightarrow> nat \<Rightarrow> cell tres" where
  "arg h c index = bindR (deref h c) (\<lambda>dc. bindR (heap_get h (cell_index dc + index + 1)) (deref h))"

definition set_arg :: "heap \<Rightarrow> cell \<Rightarrow> nat \<Rightarrow> cell \<Rightarrow> heap tres" where
  "set_arg h str index c = bindR (deref h str) (\<lambda>dc. heap_set h (cell_index dc + index + 1) c)"

definition in_range :: "heap \<Rightarrow> nat \<Rightarrow> bool" where
  "in_range h addr \<longleftrightarrow> addr < hp_size h"

definition check_functor :: "heap \<Rightarrow> cell \<Rightarrow> bool tres" where
  "check_functor h c =
     (if cell_tag c \<noteq> STR_T then ok False
      else if \<not> in_range h (cell_index c) then ok False
      else bindR (heap_get h (cell_index c)) (\<lambda>fc. ok (cell_tag fc = CON_T)))"

partial_function (option) is_list_loop :: "heap \<Rightarrow> cell \<Rightarrow> bool tres" where
  "is_list_loop h l = (if l = EMPTY_LIST then ok True
     else bindR (check_functor h l) (\<lambda>b. if \<not> b then ok False
     else bindR (functor_of h l) (\<lambda>f. if f \<noteq> DOTTED_PAIR then ok False
     else bindR (arg h l 1) (is_list_loop h))))"

definition is_list :: "heap \<Rightarrow> cell \<Rightarrow> bool tres" where
  "is_list h c = bindR (deref h c) (is_list_loop h)"

text \<open>The loop of \<open>list_length\<close> yields the count and the cell it stopped at.\<close>

partial_function (option) list_length_loop :: "heap \<Rightarrow> cell \<Rightarrow> nat \<Rightarrow> (nat \<times> cell) tres" where
  "list_length_loop h lst n =
     (if lst = EMPTY_LIST then ok (n, lst)
      else if cell_tag lst \<noteq> STR_T then ok (Suc n, lst)
      else bindR (functor_of h lst) (\<lambda>f. if f \<noteq> DOTTED_PAIR then ok (Suc n, lst)
      else bindR (arg h lst 1) (\<lambda>l. list_length_loop h l (Suc n))))"

definition list_length :: "heap \<Rightarrow> cell \<Rightarrow> nat tres" where
  "list_length h lst0 = bindR (list_length_loop h lst0 0) (\<lambda>(n, lst). ok (if lst \<noteq> EMPTY_LIST then Suc n else n))"

partial_function (option) list_to_string :: "heap \<Rightarrow> cell \<Rightarrow> string \<Rightarrow> string tres" where
  "list_to_string h lst s = bindR (is_dotted_pair h lst) (\<lambda>b. if \<not> b then ok s
     else bindR (arg h lst 0) (\<lambda>hd. bindR (arg h lst 1) (\<lambda>lst.
       if cell_tag hd \<noteq> INT_T then list_to_string h lst s
       else if 0 \<le> int_value hd \<and> int_value hd \<le> 255
         then list_to_string h lst (s @ [byte_char (word_of_int (int_value hd))])
       else list_to_string h lst s)))"

text \<open>The common loop of \<open>is_string\<close> and \<open>is_prefer_string\<close> counts the printable characters; \<open>None\<close> is the
  early \<open>return false\<close>.\<close>

partial_function (option) string_loop :: "heap \<Rightarrow> cell \<Rightarrow> nat \<Rightarrow> nat option tres" where
  "string_loop h lst n = bindR (is_dotted_pair h lst) (\<lambda>b. if \<not> b then ok (Some n)
     else bindR (arg h lst 0) (\<lambda>hd.
       if cell_tag hd \<noteq> INT_T then ok None
       else if int_value hd < 0 \<or> int_value hd > 255 then ok None
       else bindR (arg h lst 1) (\<lambda>lst. string_loop h lst (if int_value hd \<ge> 32 then Suc n else n))))"

definition heap_is_string :: "heap \<Rightarrow> cell \<Rightarrow> bool tres" where
  "heap_is_string h lst = bindR (is_empty_list h lst) (\<lambda>b. if b then ok False
     else bindR (string_loop h lst 0) (\<lambda>r. ok (case r of None \<Rightarrow> False | Some n \<Rightarrow> n \<noteq> 0)))"

definition is_prefer_string :: "heap \<Rightarrow> cell \<Rightarrow> bool tres" where
  "is_prefer_string h lst = bindR (is_empty_list h lst) (\<lambda>b. if b then ok False
     else bindR (string_loop h lst 0) (\<lambda>r. ok (case r of None \<Rightarrow> False | Some n \<Rightarrow> n \<ge> 7)))"

subsection \<open>Creating terms\<close>

definition coin_security_check :: "heap \<Rightarrow> cell \<Rightarrow> unit tres" where
  "coin_security_check h c = (if coin_security_enabled h \<and> c = COIN then throw Coin_security else ok ())"

text \<open>\<open>p[i] = ...\<close> for the cells of a structure: \<open>p\<close> points into the block at position \<open>i\<close>.\<close>

primrec put_refs :: "heap \<Rightarrow> nat \<Rightarrow> nat \<Rightarrow> nat \<Rightarrow> heap tres" where
  "put_refs h i addr 0 = ok h"
| "put_refs h i addr (Suc k) = bindR (block_put h i addr (ref_cell addr)) (\<lambda>h. put_refs h i (Suc addr) k)"

definition new_str :: "heap \<Rightarrow> cell \<Rightarrow> (heap \<times> cell) tres" where
  "new_str h con = bindR (coin_security_check h con) (\<lambda>_.
     bindR (allocate h STR_T (2 + arity con)) (\<lambda>(h, index).
       let i = the (head_block h); c = set_index (ptr_cell STR_T index) (index + 1) in
       bindR (block_put h i index c) (\<lambda>h.
       bindR (block_put h i (index + 1) con) (\<lambda>h.
       bindR (put_refs h i (index + 2) (arity con)) (\<lambda>h. ok (h, c))))))"

definition new_con0 :: "heap \<Rightarrow> cell \<Rightarrow> (heap \<times> cell) tres" where
  "new_con0 h con = bindR (coin_security_check h con) (\<lambda>_.
     bindR (allocate (ensure_allocate h (1 + arity con)) CON_T 1) (\<lambda>(h, index).
     bindR (block_put h (the (head_block h)) index con) (\<lambda>h. ok (h, str_cell index))))"

definition new_str0 :: "heap \<Rightarrow> cell \<Rightarrow> (heap \<times> cell) tres" where
  "new_str0 h con = bindR (coin_security_check h con) (\<lambda>_.
     bindR (allocate (ensure_allocate h (2 + arity con)) STR_T 2) (\<lambda>(h, index).
     bindR (block_put h (the (head_block h)) index (set_index (ptr_cell STR_T index) (index + 1))) (\<lambda>h.
     bindR (block_put h (the (head_block h)) (index + 1) con) (\<lambda>h. ok (h, str_cell (index + 1))))))"

definition new_ref :: "heap \<Rightarrow> (heap \<times> cell) tres" where
  "new_ref h = bindR (allocate h REF_T 1) (\<lambda>(h, index).
     bindR (block_put h (the (head_block h)) index (set_index (ptr_cell REF_T index) index)) (\<lambda>h.
       ok (h, set_index (ptr_cell REF_T index) index)))"

primrec new_refs :: "heap \<Rightarrow> nat \<Rightarrow> heap tres" where
  "new_refs h 0 = ok h"
| "new_refs h (Suc cnt) = bindR (new_ref h) (\<lambda>(h, _). new_refs h cnt)"

definition new_cell0 :: "heap \<Rightarrow> cell \<Rightarrow> bool \<Rightarrow> (heap \<times> nat) tres" where
  "new_cell0 h c has_tag =
     (let h = (if has_tag \<and> cell_tag c = CON_T then ensure_allocate h (1 + arity c) else h)
      in bindR (allocate h STR_T 1) (\<lambda>(h, index).
         bindR (block_put h (the (head_block h)) index c) (\<lambda>h. ok (h, index))))"

definition new_dat_cell :: "heap \<Rightarrow> cell \<Rightarrow> heap tres" where
  "new_dat_cell h c = bindR (allocate_span h DAT_T 1) (\<lambda>(h, index). heap_set h index c)"

definition new_dotted_pair :: "heap \<Rightarrow> cell \<Rightarrow> cell \<Rightarrow> (heap \<times> cell) tres" where
  "new_dotted_pair h a b = bindR (new_str h DOTTED_PAIR) (\<lambda>(h, t).
     bindR (set_arg h t 0 a) (\<lambda>h. bindR (set_arg h t 1 b) (\<lambda>h. ok (h, t))))"

definition big_num_cells :: "nat \<Rightarrow> nat" where
  "big_num_cells bits = (let num_bytes = (bits + 7) div 8
     in if num_bytes \<le> 4 then 1 else 1 + ((num_bytes - 4 + 8 - 1) div 8))"

definition new_big :: "heap \<Rightarrow> nat \<Rightarrow> (heap \<times> cell) tres" where
  "new_big h bits = bindR (allocate_span h DAT_T (big_num_cells bits)) (\<lambda>(h, index).
     bindR (heap_set h index (dat_cell bits)) (\<lambda>h. ok (h, big_cell index)))"

subsection \<open>Watched addresses\<close>

definition add_watched :: "heap \<Rightarrow> nat \<Rightarrow> heap" where
  "add_watched h addr = (if addr \<in> set (watched h) then h else h\<lparr>watched := watched h @ [addr]\<rparr>)"

definition clear_watched :: "heap \<Rightarrow> heap" where
  "clear_watched h = h\<lparr>watched := []\<rparr>"

definition heap_watch :: "heap \<Rightarrow> nat \<Rightarrow> bool \<Rightarrow> heap tres" where
  "heap_watch h addr v = bindR (find_block h addr) (\<lambda>b. let k = addr - hb_offset b in
     if hb_offset b \<le> addr \<and> k < MAX_SIZE then
       (case hb_cells b k of
          None \<Rightarrow> throw Undefined_behaviour
        | Some c \<Rightarrow>
            (let c' = (if cell_tag c = REF_T \<and> v then rfw_cell (cell_index c)
                       else if cell_tag c = RFW_T \<and> \<not> v then ref_cell (cell_index c) else c)
             in ok (h\<lparr>blocks := (blocks h)[find_block_index addr := b\<lparr>hb_cells := (hb_cells b)(k \<mapsto> c')\<rparr>]\<rparr>)))
     else throw Undefined_behaviour)"

subsection \<open>Big numbers\<close>

text \<open>A \<open>cell_byte\<close> refers to one byte of a run of cells: \<open>cb_base\<close> is the address of the cell its pointer is at and
  \<open>cb_index\<close> counts bytes from there.  It works on a copy of the current cell, which is written back when the next
  cell is entered and when the object is destroyed.  \<open>base_[k]\<close> stays inside the block of the base cell.\<close>

record cell_byte =
  cb_base :: nat
  cb_index :: nat
  cb_n :: nat
  cb_cached :: cell
  cb_dirty :: bool

definition cb_get :: "cell_byte \<Rightarrow> u8" where
  "cb_get cb = get_byte (cb_cached cb) (cb_index cb)"

definition cb_set :: "cell_byte \<Rightarrow> u8 \<Rightarrow> cell_byte" where
  "cb_set cb v = cb\<lparr>cb_cached := set_byte (cb_cached cb) (cb_index cb) v, cb_dirty := True\<rparr>"

definition base_addr :: "cell_byte \<Rightarrow> nat \<Rightarrow> nat tres" where
  "base_addr cb k = (if cb_base cb mod MAX_SIZE + k < MAX_SIZE then ok (cb_base cb + k) else throw Undefined_behaviour)"

definition cb_flush :: "heap \<Rightarrow> cell_byte \<Rightarrow> (heap \<times> cell_byte) tres" where
  "cb_flush h cb = (if cb_dirty cb then bindR (base_addr cb (cb_index cb div 8)) (\<lambda>a.
     bindR (heap_set h a (cb_cached cb)) (\<lambda>h. ok (h, cb\<lparr>cb_dirty := False\<rparr>))) else ok (h, cb))"

definition set_address :: "heap \<Rightarrow> cell_byte \<Rightarrow> nat \<Rightarrow> nat \<Rightarrow> (heap \<times> cell_byte) tres" where
  "set_address h cb base index = bindR (heap_peek h base) (\<lambda>_. bindR (cb_flush h cb) (\<lambda>(h, cb).
     bindR (heap_peek h base) (\<lambda>c. ok (h, cb\<lparr>cb_base := base, cb_index := index, cb_cached := c\<rparr>))))"

definition cb_next :: "heap \<Rightarrow> cell_byte \<Rightarrow> (heap \<times> cell_byte) tres" where
  "cb_next h cb = (let i = cb_index cb + 1 in
     if i mod 8 = 0 then
       bindR (cb_flush h cb) (\<lambda>(h, cb).
         if i < cb_n cb then bindR (base_addr cb (i div 8)) (\<lambda>a. bindR (heap_peek h a) (\<lambda>c.
           ok (h, cb\<lparr>cb_cached := c, cb_index := i\<rparr>)))
         else ok (h, cb\<lparr>cb_index := i\<rparr>))
     else ok (h, cb\<lparr>cb_index := i\<rparr>))"

text \<open>The iterator over the bytes of a big number, which start at byte 4 of its header cell.  Stepping to the first
  byte of a block moves the base there; this look-up also happens after the last byte of the number.\<close>

record big_iterator =
  bi_index :: nat
  bi_i :: nat
  bi_cell :: cell_byte

definition big_iterator_new :: "heap \<Rightarrow> nat \<Rightarrow> nat \<Rightarrow> big_iterator tres" where
  "big_iterator_new h index num = bindR (heap_peek h index) (\<lambda>c. ok \<lparr>bi_index = index, bi_i = 4,
     bi_cell = \<lparr>cb_base = index, cb_index = 4, cb_n = num + 4, cb_cached = c, cb_dirty = False\<rparr>\<rparr>)"

definition big_next :: "heap \<Rightarrow> big_iterator \<Rightarrow> (heap \<times> big_iterator) tres" where
  "big_next h it = (let i = bi_i it + 1 in
     if i mod 8 = 0 then
       (let index = bi_index it + 1 in
        bindR (if index mod MAX_SIZE = 0 then set_address h (bi_cell it) index 0 else cb_next h (bi_cell it)) (\<lambda>(h, cb).
          ok (h, it\<lparr>bi_index := index, bi_i := i, bi_cell := cb\<rparr>)))
     else bindR (cb_next h (bi_cell it)) (\<lambda>(h, cb). ok (h, it\<lparr>bi_i := i, bi_cell := cb\<rparr>)))"

abbreviation big_get :: "big_iterator \<Rightarrow> u8" where
  "big_get it \<equiv> cb_get (bi_cell it)"

abbreviation big_put :: "big_iterator \<Rightarrow> u8 \<Rightarrow> big_iterator" where
  "big_put it v \<equiv> it\<lparr>bi_cell := cb_set (bi_cell it) v\<rparr>"

text \<open>The destructor of the iterator's byte.\<close>

definition big_close :: "heap \<Rightarrow> big_iterator \<Rightarrow> heap tres" where
  "big_close h it = bindR (cb_flush h (bi_cell it)) (\<lambda>(h, _). ok h)"

definition big_begin :: "heap \<Rightarrow> cell \<Rightarrow> big_iterator tres" where
  "big_begin h big = bindR (deref h big) (\<lambda>b. bindR (heap_peek h (cell_index b)) (\<lambda>hdr.
     big_iterator_new h (cell_index b) ((num_bits hdr + 7) div 8)))"

definition heap_num_bits :: "heap \<Rightarrow> cell \<Rightarrow> nat tres" where
  "heap_num_bits h big = bindR (heap_get h (cell_index big)) (\<lambda>hdr. ok (num_bits hdr))"

definition heap_num_bytes :: "heap \<Rightarrow> cell \<Rightarrow> nat tres" where
  "heap_num_bytes h big = bindR (heap_num_bits h big) (\<lambda>n. ok ((n + 7) div 8))"

primrec set_big_loop :: "heap \<Rightarrow> big_iterator \<Rightarrow> u8 list \<Rightarrow> heap tres" where
  "set_big_loop h it [] = big_close h it"
| "set_big_loop h it (b # bs) = bindR (big_next h (big_put it b)) (\<lambda>(h, it). set_big_loop h it bs)"

definition set_big :: "heap \<Rightarrow> cell \<Rightarrow> u8 list \<Rightarrow> heap tres" where
  "set_big h big bytes = bindR (deref h big) (\<lambda>b. bindR (check_index h (cell_index b)) (\<lambda>_.
     bindR (big_begin h b) (\<lambda>it. set_big_loop h it bytes)))"

primrec get_big_loop :: "heap \<Rightarrow> big_iterator \<Rightarrow> nat \<Rightarrow> u8 list tres" where
  "get_big_loop h it 0 = ok []"
| "get_big_loop h it (Suc n) = (let b = big_get it in bindR (big_next h it) (\<lambda>(h, it).
     bindR (get_big_loop h it n) (\<lambda>bs. ok (b # bs))))"

definition get_big :: "heap \<Rightarrow> cell \<Rightarrow> nat \<Rightarrow> u8 list tres" where
  "get_big h big n = bindR (deref h big) (\<lambda>b. bindR (check_index h (cell_index b)) (\<lambda>_.
     bindR (check_index h (unat ((of_nat (cell_index b) + (of_nat n + 8 - 1) div 8 - 1) :: u64))) (\<lambda>_.
       bindR (big_begin h b) (\<lambda>it. get_big_loop h it n))))"

text \<open>The variants with a \<open>cpp_int\<close>: \<open>msb\<close>, \<open>export_bits\<close> and \<open>import_bits\<close> are Boost's, so they are parameters.
  They step the iterator after each byte they write or read.  The number of leading bytes to skip is computed in
  \<open>size_t\<close>.\<close>

definition set_big_skip :: "(int \<Rightarrow> nat) \<Rightarrow> nat \<Rightarrow> int \<Rightarrow> nat" where
  "set_big_skip msb nbits i =
     (if i \<noteq> 0 then unat (((of_nat nbits :: u64) - of_nat (((msb i + 7) div 8) * 8)) div 8) else 0)"

primrec big_skip :: "heap \<Rightarrow> big_iterator \<Rightarrow> nat \<Rightarrow> (heap \<times> big_iterator) tres" where
  "big_skip h it 0 = ok (h, it)"
| "big_skip h it (Suc n) = bindR (big_next h it) (\<lambda>(h, it). big_skip h it n)"

definition set_big_int :: "(int \<Rightarrow> nat) \<Rightarrow> (int \<Rightarrow> u8 list) \<Rightarrow> heap \<Rightarrow> cell \<Rightarrow> int \<Rightarrow> heap tres" where
  "set_big_int msb export_bits h big i = bindR (deref h big) (\<lambda>b. bindR (heap_num_bits h b) (\<lambda>nbits.
     bindR (big_begin h b) (\<lambda>it. bindR (big_skip h it (set_big_skip msb nbits i)) (\<lambda>(h, it).
       set_big_loop h it (export_bits i)))))"

definition get_big_int :: "(u8 list \<Rightarrow> int) \<Rightarrow> heap \<Rightarrow> cell \<Rightarrow> (int \<times> nat) tres" where
  "get_big_int import_bits h big = bindR (deref h big) (\<lambda>b. bindR (heap_num_bits h b) (\<lambda>nbits.
     bindR (big_begin h b) (\<lambda>it. bindR (get_big_loop h it ((nbits + 7) div 8)) (\<lambda>bytes.
       ok (import_bits bytes, nbits)))))"

text \<open>\<open>big_equal\<close> and \<open>big_compare\<close> walk over the bytes; the cost counts them.  Both numbers have the same
  number of bytes when the walk starts.\<close>

primrec big_equal_loop :: "heap \<Rightarrow> big_iterator \<Rightarrow> big_iterator \<Rightarrow> nat \<Rightarrow> u64 \<Rightarrow> (bool \<times> u64) tres" where
  "big_equal_loop h it1 it2 0 cost = ok (True, cost)"
| "big_equal_loop h it1 it2 (Suc n) cost = (let cost = cost + 1 in
     if big_get it1 \<noteq> big_get it2 then ok (False, cost)
     else bindR (big_next h it1) (\<lambda>(h, it1). bindR (big_next h it2) (\<lambda>(h, it2). big_equal_loop h it1 it2 n cost)))"

definition big_equal :: "heap \<Rightarrow> cell \<Rightarrow> cell \<Rightarrow> (bool \<times> u64) tres" where
  "big_equal h big1 big2 =
     bindR (heap_num_bits h big1) (\<lambda>n1. bindR (heap_num_bits h big2) (\<lambda>n2.
       if n1 \<noteq> n2 then ok (False, 1)
       else bindR (big_begin h big1) (\<lambda>it1. bindR (big_begin h big2) (\<lambda>it2.
         big_equal_loop h it1 it2 ((n1 + 7) div 8) 1))))"

primrec big_compare_loop :: "heap \<Rightarrow> big_iterator \<Rightarrow> big_iterator \<Rightarrow> nat \<Rightarrow> u64 \<Rightarrow> (int \<times> u64) tres" where
  "big_compare_loop h it1 it2 0 cost = ok (0, cost)"
| "big_compare_loop h it1 it2 (Suc n) cost = (let cost = cost + 1 in
     if big_get it1 < big_get it2 then ok (- 1, cost) else if big_get it2 < big_get it1 then ok (1, cost)
     else bindR (big_next h it1) (\<lambda>(h, it1). bindR (big_next h it2) (\<lambda>(h, it2). big_compare_loop h it1 it2 n cost)))"

definition big_compare :: "heap \<Rightarrow> cell \<Rightarrow> cell \<Rightarrow> (int \<times> u64) tres" where
  "big_compare h big1 big2 =
     bindR (heap_num_bits h big1) (\<lambda>n1. bindR (heap_num_bits h big2) (\<lambda>n2.
       if n1 \<noteq> n2 then ok (if n1 < n2 then - 1 else 1, 1)
       else bindR (big_begin h big1) (\<lambda>it1. bindR (big_begin h big2) (\<lambda>it2.
         big_compare_loop h it1 it2 ((n1 + 7) div 8) 1))))"

subsection \<open>The heap as a partial map from addresses to cells\<close>

definition heap_inv :: "heap \<Rightarrow> bool" where
  "heap_inv h \<longleftrightarrow> (\<forall>i<length (blocks h). hb_index (blocks h ! i) = i \<and> hb_size (blocks h ! i) \<le> MAX_SIZE) \<and>
     (if blocks h = [] then head_block h = None \<and> hp_size h = 0
      else head_block h = Some (length (blocks h) - 1) \<and>
        hp_size h = (length (blocks h) - 1) * MAX_SIZE + hb_size (last (blocks h)))"

definition mem :: "heap \<Rightarrow> nat \<Rightarrow> cell option" where
  "mem h a = (if a < hp_size h \<and> a div MAX_SIZE < length (blocks h)
     then hb_cells (blocks h ! (a div MAX_SIZE)) (a mod MAX_SIZE) else None)"

lemma MAX_SIZE_pos [simp]: "0 < MAX_SIZE"
  by (simp add: MAX_SIZE_def)

lemma heap_new_inv: "heap_inv heap_new"
  by (simp add: heap_inv_def heap_new_def)

lemma heap_inv_block:
  assumes "heap_inv h" "i < length (blocks h)"
  shows "hb_index (blocks h ! i) = i" "hb_offset (blocks h ! i) = i * MAX_SIZE" "hb_size (blocks h ! i) \<le> MAX_SIZE"
  using assms by (auto simp: heap_inv_def hb_offset_def)

lemma heap_size_blocks:
  assumes inv: "heap_inv h" and a: "a < hp_size h"
  shows "a div MAX_SIZE < length (blocks h)"
proof -
  have "blocks h \<noteq> []" using inv a by (auto simp: heap_inv_def)
  then have l: "last (blocks h) = blocks h ! (length (blocks h) - 1)" "length (blocks h) - 1 < length (blocks h)"
    by (simp_all add: last_conv_nth)
  have "hp_size h = (length (blocks h) - 1) * MAX_SIZE + hb_size (last (blocks h))"
    using inv \<open>blocks h \<noteq> []\<close> by (simp add: heap_inv_def)
  then have "a < (length (blocks h) - 1) * MAX_SIZE + MAX_SIZE"
    using a heap_inv_block(3) [OF inv l(2)] unfolding l(1) by linarith
  then have "a < length (blocks h) * MAX_SIZE"
    using \<open>blocks h \<noteq> []\<close> by (cases "length (blocks h)") simp_all
  then show ?thesis by (simp add: less_mult_imp_div_less)
qed

lemma offset_div: "(a :: nat) - a div m * m = a mod m"
  by (simp add: modulo_nat_def)

lemma addr_in_block: "a div MAX_SIZE * MAX_SIZE \<le> a \<and> a < a div MAX_SIZE * MAX_SIZE + MAX_SIZE"
  using div_mult_mod_eq [of a MAX_SIZE] mod_less_divisor [OF MAX_SIZE_pos, of a] by linarith

lemma heap_get_mem:
  assumes "heap_inv h"
  shows "heap_get h a = (if hp_size h \<le> a then throw (Heap_index_out_of_range a (hp_size h))
     else case mem h a of Some c \<Rightarrow> ok c | None \<Rightarrow> throw Undefined_behaviour)"
proof (cases "a < hp_size h")
  case True
  note d = heap_size_blocks [OF assms True]
  then show ?thesis
    using True heap_inv_block [OF assms d] addr_in_block [of a]
    by (simp add: heap_get_def heap_peek_def check_index_def find_block_def find_block_index_def mem_def offset_div Let_def)
qed (simp add: heap_get_def check_index_def)

lemma mem_size: "mem h a = Some c \<Longrightarrow> a < hp_size h"
  by (simp add: mem_def split: if_splits)

lemma heap_peek_mem:
  assumes "heap_inv h" "mem h a = Some c"
  shows "heap_peek h a = ok c"
  using assms heap_get_mem [of h a] mem_size [of h a c] by (simp add: heap_get_def check_index_def)

lemma heap_get_ok: "heap_inv h \<Longrightarrow> heap_get h a = ok c \<longleftrightarrow> mem h a = Some c"
  by (auto simp: heap_get_mem dest: mem_size split: option.splits)

text \<open>What writing a cell keeps.\<close>

definition same_frame :: "heap \<Rightarrow> heap \<Rightarrow> bool" where
  "same_frame h h' \<longleftrightarrow> hp_size h' = hp_size h \<and> watched h' = watched h \<and>
     coin_security_enabled h' = coin_security_enabled h \<and> head_block h' = head_block h \<and>
     atom_index_to_name_table h' = atom_index_to_name_table h \<and>
     atom_name_to_index_table h' = atom_name_to_index_table h \<and>
     length (blocks h') = length (blocks h)"

lemma same_frame_refl [simp]: "same_frame h h"
  by (simp add: same_frame_def)

lemma same_frame_trans: "same_frame h h' \<Longrightarrow> same_frame h' h'' \<Longrightarrow> same_frame h h''"
  by (simp add: same_frame_def)

lemma block_upd_inv:
  assumes inv: "heap_inv h" and i: "i < length (blocks h)"
    and b: "hb_index b = i" "hb_size b = hb_size (blocks h ! i)"
  shows "heap_inv (h\<lparr>blocks := (blocks h)[i := b]\<rparr>)"
proof -
  have "blocks h \<noteq> []" using i by auto
  then have "last (blocks h) = blocks h ! (length (blocks h) - 1)"
    "last ((blocks h)[i := b]) = (blocks h)[i := b] ! (length (blocks h) - 1)"
    by (simp_all add: last_conv_nth)
  then have "hb_size (last ((blocks h)[i := b])) = hb_size (last (blocks h))"
    using i b by (simp add: nth_list_update)
  then show ?thesis
    using inv i b \<open>blocks h \<noteq> []\<close> heap_inv_block [OF inv] by (auto simp: heap_inv_def nth_list_update)
qed

lemma same_addr: "x div m = a div m \<Longrightarrow> x mod m = a mod m \<Longrightarrow> x = (a :: nat)"
  by (metis div_mult_mod_eq)

lemma mem_block_upd:
  assumes inv: "heap_inv h" and i: "a div MAX_SIZE < length (blocks h)"
    and b: "hb_cells b = (hb_cells (blocks h ! (a div MAX_SIZE)))(a mod MAX_SIZE \<mapsto> c)" and x: "x < hp_size h"
  shows "mem (h\<lparr>blocks := (blocks h)[a div MAX_SIZE := b]\<rparr>) x = (if x = a then Some c else mem h x)"
  using x heap_size_blocks [OF inv x] i b same_addr [of x MAX_SIZE a]
  by (auto simp: mem_def nth_list_update)

lemma block_put_mem:
  assumes inv: "heap_inv h" and i: "i < length (blocks h)" and a: "a div MAX_SIZE = i"
  obtains h' where "block_put h i a c = ok h'" "heap_inv h'" "same_frame h h'"
    "\<And>x. x < hp_size h \<Longrightarrow> mem h' x = (if x = a then Some c else mem h x)"
proof -
  let ?b = "(blocks h ! i)\<lparr>hb_changed := True, hb_cells := (hb_cells (blocks h ! i))(a mod MAX_SIZE \<mapsto> c)\<rparr>"
  let ?h = "h\<lparr>blocks := (blocks h)[i := ?b]\<rparr>"
  note b = heap_inv_block [OF inv i]
  show thesis
  proof (rule that)
    show "block_put h i a c = ok ?h"
      using i b(2) a addr_in_block [of a] offset_div [of a MAX_SIZE] by (simp add: block_put_def Let_def)
    show "heap_inv ?h" by (rule block_upd_inv [OF inv i]) (use b in simp_all)
    show "same_frame h ?h" by (simp add: same_frame_def)
    show "mem ?h x = (if x = a then Some c else mem h x)" if "x < hp_size h" for x
      using mem_block_upd [OF inv _ _ that, of a ?b c] i a by simp
  qed
qed

lemma heap_set_mem:
  assumes inv: "heap_inv h" and a: "a < hp_size h"
  obtains h' where "heap_set h a c = ok h'" "heap_inv h'" "same_frame h h'" "mem h' = (mem h)(a \<mapsto> c)"
proof -
  obtain h' where h': "block_put h (a div MAX_SIZE) a c = ok h'" "heap_inv h'" "same_frame h h'"
    "\<And>x. x < hp_size h \<Longrightarrow> mem h' x = (if x = a then Some c else mem h x)"
    using block_put_mem [OF inv heap_size_blocks [OF inv a] refl] by blast
  have "mem h' x = ((mem h)(a \<mapsto> c)) x" for x
    using h'(3,4) a by (cases "x < hp_size h") (auto simp: mem_def same_frame_def)
  then show thesis
    using that h' by (simp add: heap_set_def find_block_index_def ext)
qed

lemma heap_watch_mem:
  assumes inv: "heap_inv h" and m: "mem h a = Some c"
  obtains h' where "heap_watch h a v = ok h'" "heap_inv h'" "same_frame h h'"
    "mem h' = (mem h)(a \<mapsto> (if cell_tag c = REF_T \<and> v then rfw_cell (cell_index c)
       else if cell_tag c = RFW_T \<and> \<not> v then ref_cell (cell_index c) else c))"
proof -
  let ?c = "if cell_tag c = REF_T \<and> v then rfw_cell (cell_index c)
       else if cell_tag c = RFW_T \<and> \<not> v then ref_cell (cell_index c) else c"
  let ?i = "a div MAX_SIZE"
  let ?b = "(blocks h ! ?i)\<lparr>hb_cells := (hb_cells (blocks h ! ?i))(a mod MAX_SIZE \<mapsto> ?c)\<rparr>"
  let ?h = "h\<lparr>blocks := (blocks h)[?i := ?b]\<rparr>"
  note a = mem_size [OF m] note i = heap_size_blocks [OF inv a] note b = heap_inv_block [OF inv i]
  have hc: "hb_cells (blocks h ! ?i) (a mod MAX_SIZE) = Some c" using m by (simp add: mem_def split: if_splits)
  show thesis
  proof (rule that)
    show "heap_watch h a v = ok ?h"
      using i b(2) hc addr_in_block [of a]
      by (simp add: heap_watch_def find_block_def find_block_index_def offset_div Let_def)
    show "heap_inv ?h" by (rule block_upd_inv [OF inv i]) (use b in simp_all)
    show "same_frame h ?h" by (simp add: same_frame_def)
    show "mem ?h = (mem h)(a \<mapsto> ?c)"
    proof
      fix x
      show "mem ?h x = ((mem h)(a \<mapsto> ?c)) x"
        using mem_block_upd [OF inv i, of ?b ?c x] a
        by (cases "x < hp_size h") (simp_all add: mem_def)
    qed
  qed
qed

subsection \<open>Allocation\<close>

text \<open>\<open>heap_ext h h'\<close>: \<open>h'\<close> has everything \<open>h\<close> has, and perhaps more cells.\<close>

definition heap_ext :: "heap \<Rightarrow> heap \<Rightarrow> bool" where
  "heap_ext h h' \<longleftrightarrow> heap_inv h' \<and> hp_size h \<le> hp_size h' \<and> (\<forall>x<hp_size h. mem h' x = mem h x) \<and>
     watched h' = watched h \<and> coin_security_enabled h' = coin_security_enabled h \<and>
     atom_index_to_name_table h' = atom_index_to_name_table h \<and>
     atom_name_to_index_table h' = atom_name_to_index_table h"

lemma heap_ext_refl: "heap_inv h \<Longrightarrow> heap_ext h h"
  by (simp add: heap_ext_def)

lemma heap_ext_trans: "heap_ext h h' \<Longrightarrow> heap_ext h' h'' \<Longrightarrow> heap_ext h h''"
  by (auto simp: heap_ext_def)

lemma heap_extD: "heap_ext h h' \<Longrightarrow> heap_inv h'" "heap_ext h h' \<Longrightarrow> hp_size h \<le> hp_size h'"
  "heap_ext h h' \<Longrightarrow> x < hp_size h \<Longrightarrow> mem h' x = mem h x"
  by (simp_all add: heap_ext_def)

lemma head_some:
  assumes "heap_inv h" "blocks h \<noteq> []"
  shows "head h = Some (last (blocks h))" "head_block h = Some (length (blocks h) - 1)"
    "last (blocks h) = blocks h ! (length (blocks h) - 1)"
    "hp_size h = (length (blocks h) - 1) * MAX_SIZE + hb_size (last (blocks h))"
    "hb_offset (last (blocks h)) = (length (blocks h) - 1) * MAX_SIZE"
    "hb_size (last (blocks h)) \<le> MAX_SIZE"
  using assms heap_inv_block [OF assms(1), of "length (blocks h) - 1"]
  by (simp_all add: head_def heap_inv_def last_conv_nth)

lemma head_none: "heap_inv h \<Longrightarrow> blocks h = [] \<Longrightarrow> head h = None \<and> hp_size h = 0"
  by (simp add: heap_inv_def head_def)

lemma size_le_blocks: "heap_inv h \<Longrightarrow> hp_size h \<le> length (blocks h) * MAX_SIZE"
proof (cases "blocks h = []")
  case False
  assume "heap_inv h"
  with False show ?thesis using head_some(4,6) [of h] by (cases "length (blocks h)") auto
qed (simp add: heap_inv_def)

lemma new_block_default_spec:
  assumes inv: "heap_inv h"
  shows "heap_ext h (new_block_default h)" "blocks (new_block_default h) = blocks h @ [new_heap_block (length (blocks h))]"
    "hp_size (new_block_default h) \<le> hp_size h + MAX_SIZE"
proof -
  let ?h = "new_block_default h"
  have h: "blocks ?h = blocks h @ [new_heap_block (length (blocks h))]"
    "head_block ?h = Some (length (blocks h))" "hp_size ?h = length (blocks h) * MAX_SIZE"
    by (simp_all add: new_block_default_def set_head_block_def new_heap_block_def Let_def)
  show "blocks ?h = blocks h @ [new_heap_block (length (blocks h))]" by (rule h(1))
  show "hp_size ?h \<le> hp_size h + MAX_SIZE"
  proof (cases "blocks h = []")
    case False
    then show ?thesis using head_some(4) [OF inv False] by (cases "length (blocks h)") (simp_all add: h(3))
  qed (simp add: h(3))
  have "heap_inv ?h"
    using heap_inv_block [OF inv] by (auto simp: heap_inv_def h nth_append new_heap_block_def less_Suc_eq)
  moreover have "mem ?h x = mem h x" if "x < hp_size h" for x
    using heap_size_blocks [OF inv that] that size_le_blocks [OF inv] by (simp add: mem_def h nth_append)
  ultimately show "heap_ext h ?h"
    using size_le_blocks [OF inv]
    by (simp add: heap_ext_def h(3)) (simp add: new_block_default_def set_head_block_def Let_def)
qed

lemma ensure_allocate_spec:
  assumes inv: "heap_inv h" and n: "n \<le> MAX_SIZE"
  shows "heap_ext h (ensure_allocate h n)" "blocks (ensure_allocate h n) \<noteq> []"
    "hb_size (last (blocks (ensure_allocate h n))) + n \<le> MAX_SIZE" "hp_size (ensure_allocate h n) \<le> hp_size h + MAX_SIZE"
proof -
  note nb = new_block_default_spec [OF inv]
  have nh: "hb_size (last (blocks (new_block_default h))) + n \<le> MAX_SIZE"
    using n nb(2) by (simp add: new_heap_block_def)
  have "heap_ext h (ensure_allocate h n) \<and> blocks (ensure_allocate h n) \<noteq> [] \<and>
    hb_size (last (blocks (ensure_allocate h n))) + n \<le> MAX_SIZE \<and> hp_size (ensure_allocate h n) \<le> hp_size h + MAX_SIZE"
    using nb nh heap_ext_refl [OF inv] head_some(1) [OF inv] head_none [OF inv]
    by (cases "blocks h = []") (auto simp: ensure_allocate_def can_allocate_def)
  then show "heap_ext h (ensure_allocate h n)" "blocks (ensure_allocate h n) \<noteq> []"
    "hb_size (last (blocks (ensure_allocate h n))) + n \<le> MAX_SIZE" "hp_size (ensure_allocate h n) \<le> hp_size h + MAX_SIZE" by blast+
qed

text \<open>Growing the head block.\<close>

lemma grow_head:
  assumes inv: "heap_inv h" and ne: "blocks h \<noteq> []"
    and b: "hb_index b = hb_index (last (blocks h))" "hb_size b \<le> MAX_SIZE" "hb_size (last (blocks h)) \<le> hb_size b"
    and c: "\<And>k. k < hb_size (last (blocks h)) \<Longrightarrow> hb_cells b k = hb_cells (last (blocks h)) k"
  defines "h' \<equiv> set_size_to_head (update_head h b)"
  shows "heap_ext h h'" "blocks h' = (blocks h)[length (blocks h) - 1 := b]"
    "hp_size h' = hb_offset (last (blocks h)) + hb_size b"
    "head_block h' = Some (length (blocks h) - 1)"
proof -
  let ?l = "length (blocks h) - 1"
  note hd = head_some [OF inv ne]
  have l: "?l < length (blocks h)" using ne by simp
  have u: "update_head h b = h\<lparr>blocks := (blocks h)[?l := b]\<rparr>" by (simp add: update_head_def hd(2))
  have "head (update_head h b) = Some b" using l by (simp add: u head_def hd(2))
  then have h': "h' = h\<lparr>blocks := (blocks h)[?l := b], hp_size := hb_offset b + hb_size b\<rparr>"
    by (simp add: h'_def set_size_to_head_def u)
  have o: "hb_offset b = hb_offset (last (blocks h))" using b(1) by (simp add: hb_offset_def)
  show "blocks h' = (blocks h)[?l := b]" "hp_size h' = hb_offset (last (blocks h)) + hb_size b"
    "head_block h' = Some ?l"
    by (simp_all add: h' o hd(2))
  have last: "last ((blocks h)[?l := b]) = b" using ne by (simp add: last_list_update)
  have "hb_index b = ?l" using b(1) hd(3) heap_inv_block(1) [OF inv l] by simp
  then have "heap_inv h'"
    using heap_inv_block [OF inv] b(2) ne
    by (auto simp: heap_inv_def h' nth_list_update last [unfolded One_nat_def] hd(2) hb_offset_def)
  moreover have "mem h' x = mem h x" if x: "x < hp_size h" for x
  proof -
    have "x < hp_size h'" using x hd(4,5) b(3) by (simp add: h' o)
    moreover have "x mod MAX_SIZE < hb_size (last (blocks h))" if "x div MAX_SIZE = ?l"
      using x hd(4) that div_mult_mod_eq [of x MAX_SIZE] by simp
    ultimately show ?thesis
      using x heap_size_blocks [OF inv x] c hd(3) by (auto simp: mem_def h' nth_list_update)
  qed
  ultimately show "heap_ext h h'"
    using hd(4,5) b(3) by (simp add: heap_ext_def) (simp add: h' o)
qed

lemma allocate_spec:
  assumes inv: "heap_inv h" and n: "0 < n" "n \<le> MAX_SIZE"
  obtains h' addr where "allocate h tag n = ok (h', addr)" "heap_ext h h'" "hp_size h \<le> addr"
    "hp_size h' = addr + n" "mem h' addr = Some (ptr_cell tag addr)"
    "the (head_block h') < length (blocks h')"
    "\<And>a. addr \<le> a \<Longrightarrow> a < addr + n \<Longrightarrow> a div MAX_SIZE = the (head_block h')" "addr \<le> hp_size h + MAX_SIZE"
proof -
  let ?h1 = "ensure_allocate h n"
  note e = ensure_allocate_spec [OF inv n(2)]
  note inv1 = heap_extD(1) [OF e(1)]
  note hd = head_some [OF inv1 e(2)]
  let ?b = "last (blocks ?h1)" and ?l = "length (blocks ?h1) - 1"
  let ?b' = "?b\<lparr>hb_size := hb_size ?b + n\<rparr>" and ?addr = "hb_offset ?b + hb_size ?b"
  let ?h2 = "set_size_to_head (update_head ?h1 ?b')"
  have g: "heap_ext ?h1 ?h2" "blocks ?h2 = (blocks ?h1)[?l := ?b']"
    "hp_size ?h2 = hb_offset ?b + hb_size ?b'" "head_block ?h2 = Some ?l"
    by (rule grow_head [OF inv1 e(2)]; use e(3) in simp)+
  have l: "?l < length (blocks ?h2)" using e(2) g(2) by simp
  have div: "a div MAX_SIZE = ?l" if "?addr \<le> a" "a < ?addr + n" for a
    using that hd(5) e(3) by (intro div_nat_eqI) (auto simp: mult.commute)
  have al: "?addr div MAX_SIZE = ?l" using div [of ?addr] n by simp
  obtain h3 where h3: "block_put ?h2 ?l ?addr (ptr_cell tag ?addr) = ok h3" "heap_inv h3" "same_frame ?h2 h3"
    "\<And>x. x < hp_size ?h2 \<Longrightarrow> mem h3 x = (if x = ?addr then Some (ptr_cell tag ?addr) else mem ?h2 x)"
    using block_put_mem [OF heap_extD(1) [OF g(1)] l al, of "ptr_cell tag ?addr"] by blast
  have s1: "hp_size ?h1 = ?addr" using hd(4,5) by simp
  have ext: "heap_ext h h3"
  proof -
    have "heap_ext h ?h2" using heap_ext_trans [OF e(1) g(1)] .
    moreover have "hp_size h \<le> ?addr" using heap_extD(2) [OF e(1)] s1 by simp
    ultimately show ?thesis using h3(2-4) by (auto simp: heap_ext_def same_frame_def)
  qed
  show thesis
  proof (rule that)
    show "allocate h tag n = ok (h3, ?addr)"
      using hd(1,2) h3(1) by (simp add: allocate_def block_allocate_def Let_def)
    show "hp_size h \<le> ?addr" using heap_extD(2) [OF e(1)] s1 by simp
    show "?addr \<le> hp_size h + MAX_SIZE" using e(4) s1 by simp
    show "hp_size h3 = ?addr + n" using h3(3) g(3) by (simp add: same_frame_def)
    show "mem h3 ?addr = Some (ptr_cell tag ?addr)" using h3(4) [of ?addr] g(3) n by simp
    show "the (head_block h3) < length (blocks h3)" using h3(3) g(4) l by (simp add: same_frame_def)
    show "a div MAX_SIZE = the (head_block h3)" if "?addr \<le> a" "a < ?addr + n" for a
      using div [OF that] h3(3) g(4) by (simp add: same_frame_def)
  qed (rule ext)
qed

text \<open>Spanning allocation: the loop leaves \<open>size_\<close> to its caller, so its result is stated for the heap with
  the size put right.\<close>

lemma ensure_head_spec:
  assumes inv: "heap_inv h"
  shows "heap_ext h (ensure_head h)" "blocks (ensure_head h) \<noteq> []" "hp_size (ensure_head h) = hp_size h"
    "hb_size (last (blocks (ensure_head h))) < MAX_SIZE"
proof -
  note nb = new_block_default_spec [OF inv]
  have "hb_size (last (blocks (new_block_default h))) = 0" using nb(2) by (simp add: new_heap_block_def)
  moreover have "hp_size (new_block_default h) = hp_size h"
    if "blocks h = [] \<or> hb_size (last (blocks h)) = MAX_SIZE"
  proof (cases "blocks h = []")
    case False
    then have "hp_size h = (length (blocks h) - 1) * MAX_SIZE + MAX_SIZE"
      using that head_some(4) [OF inv False] by simp
    then have "hp_size h = length (blocks h) * MAX_SIZE" using False by (cases "length (blocks h)") simp_all
    then show ?thesis by (simp add: new_block_default_def set_head_block_def new_heap_block_def Let_def)
  qed (use head_none [OF inv] in \<open>simp add: new_block_default_def set_head_block_def new_heap_block_def Let_def\<close>)
  ultimately have "heap_ext h (ensure_head h) \<and> blocks (ensure_head h) \<noteq> [] \<and> hp_size (ensure_head h) = hp_size h \<and>
    hb_size (last (blocks (ensure_head h))) < MAX_SIZE"
    using nb heap_ext_refl [OF inv] head_some(1,6) [OF inv] head_none [OF inv]
    by (cases "blocks h = []") (auto simp: ensure_head_def is_full_def)
  then show "heap_ext h (ensure_head h)" "blocks (ensure_head h) \<noteq> []" "hp_size (ensure_head h) = hp_size h"
    "hb_size (last (blocks (ensure_head h))) < MAX_SIZE" by blast+
qed

lemma head_size_upd [simp]: "head (h\<lparr>hp_size := s\<rparr>) = head h"
  by (simp add: head_def split: option.split)

lemma ensure_head_size: "\<exists>s'. ensure_head (h\<lparr>hp_size := s\<rparr>) = (ensure_head h)\<lparr>hp_size := s'\<rparr>"
proof -
  have "new_block_default (h\<lparr>hp_size := s\<rparr>) = (new_block_default h)\<lparr>hp_size := hp_size (new_block_default h)\<rparr>"
    by (simp add: new_block_default_def set_head_block_def Let_def)
  then show ?thesis by (cases "head h") (auto simp: ensure_head_def intro: exI [of _ s] exI [of _ "hp_size (new_block_default h)"])
qed

lemma span_step:
  assumes inv: "heap_inv h" and m: "0 < m" "m \<le> MAX_SIZE - hb_size (last (blocks h))" and ne: "blocks h \<noteq> []"
  defines "h2 \<equiv> set_size_to_head (update_head h (fst (block_allocate0 (last (blocks h)) m)))"
  shows "heap_ext h h2" "hp_size h2 = hp_size h + m"
    "\<And>x. hp_size h \<le> x \<Longrightarrow> x < hp_size h + m \<Longrightarrow> mem h2 x = Some 0"
    "update_head (h\<lparr>hp_size := s\<rparr>) (fst (block_allocate0 (last (blocks h)) m)) = h2\<lparr>hp_size := s\<rparr>"
proof -
  let ?b = "last (blocks h)"
  let ?b' = "fst (block_allocate0 ?b m)"
  have b': "hb_index ?b' = hb_index ?b" "hb_size ?b' = hb_size ?b + m"
    "hb_cells ?b' = (\<lambda>k. if hb_size ?b \<le> k \<and> k < hb_size ?b + m then Some 0 else hb_cells ?b k)"
    by (simp_all add: block_allocate0_def block_allocate_def)
  note hd = head_some [OF inv ne]
  have g: "heap_ext h h2" "blocks h2 = (blocks h)[length (blocks h) - 1 := ?b']"
    "hp_size h2 = hb_offset ?b + hb_size ?b'"
    unfolding h2_def by (rule grow_head [OF inv ne]; use b' m(2) hd(6) in auto)+
  show "heap_ext h h2" "hp_size h2 = hp_size h + m" using g(1,3) b'(2) hd(4,5) by simp_all
  have l: "length (blocks h) - 1 < length (blocks h)" using ne by simp
  then show "update_head (h\<lparr>hp_size := s\<rparr>) ?b' = h2\<lparr>hp_size := s\<rparr>"
    using hd(2) by (simp add: h2_def update_head_def set_size_to_head_def head_def)
  show "mem h2 x = Some 0" if x: "hp_size h \<le> x" "x < hp_size h + m" for x
  proof -
    let ?l = "length (blocks h) - 1"
    have "?l * MAX_SIZE \<le> x" "x < ?l * MAX_SIZE + MAX_SIZE" using x hd(4,6) m(2) by linarith+
    then have d: "x div MAX_SIZE = ?l" by (intro div_nat_eqI) (simp_all add: mult.commute)
    then have "x mod MAX_SIZE = x - ?l * MAX_SIZE" by (simp add: modulo_nat_def)
    moreover have "hb_size ?b \<le> x - ?l * MAX_SIZE" "x - ?l * MAX_SIZE < hb_size ?b + m"
      using x hd(4) by linarith+
    moreover have "x < hp_size h2" using x g(3) b'(2) hd(4,5) by linarith
    ultimately show ?thesis
      using d g(2) b'(3) l by (simp add: mem_def)
  qed
qed

lemma ensure_allocate_span_spec:
  assumes "heap_inv h" "0 < n"
  shows "\<exists>h' i. ensure_allocate_span (h\<lparr>hp_size := s\<rparr>) n block = ok (h', Some i) \<and>
    heap_ext h (set_size_to_head h') \<and> hp_size (set_size_to_head h') = hp_size h + n \<and>
    (\<forall>x. hp_size h \<le> x \<longrightarrow> x < hp_size h + n \<longrightarrow> mem (set_size_to_head h') x = Some 0) \<and>
    i = (case block of Some i \<Rightarrow> i | None \<Rightarrow> hp_size h div MAX_SIZE)"
  using assms
proof (induction n arbitrary: h s block rule: less_induct)
  case (less n)
  note inv = less.prems(1)
  let ?h1 = "ensure_head h"
  note e = ensure_head_spec [OF inv]
  note inv1 = heap_extD(1) [OF e(1)] and hd = head_some [OF heap_extD(1) [OF e(1)] e(2)]
  obtain s1 where s1: "ensure_head (h\<lparr>hp_size := s\<rparr>) = ?h1\<lparr>hp_size := s1\<rparr>" using ensure_head_size by blast
  let ?b = "last (blocks ?h1)"
  let ?m = "min n (MAX_SIZE - hb_size ?b)"
  have m: "0 < ?m" "?m \<le> MAX_SIZE - hb_size ?b" using e(4) less.prems(2) by auto
  let ?h2 = "set_size_to_head (update_head ?h1 (fst (block_allocate0 ?b ?m)))"
  note st = span_step [OF inv1 m e(2)]
  let ?block = "case block of None \<Rightarrow> head_block ?h1 | Some i \<Rightarrow> Some i"
  have hd1: "head (?h1\<lparr>hp_size := s1\<rparr>) = Some ?b" using hd(1) by simp
  have step: "ensure_allocate_span (h\<lparr>hp_size := s\<rparr>) n block =
      ensure_allocate_span (?h2\<lparr>hp_size := s1\<rparr>) (n - ?m) ?block"
  proof -
    have "?m \<noteq> 0" "n \<noteq> 0" "head_block (?h1\<lparr>hp_size := s1\<rparr>) = head_block ?h1" using m less.prems(2) by simp_all
    then show ?thesis
      by (subst ensure_allocate_span.simps)
        (simp only: s1 Let_def hd1 option.case if_False st(4) [of s1] if_cancel)
  qed
  have idx: "hp_size h div MAX_SIZE = length (blocks ?h1) - 1"
    using hd(4) e(3,4) by (intro div_nat_eqI) (simp_all add: mult.commute)
  have block: "?block = Some (case block of Some i \<Rightarrow> i | None \<Rightarrow> hp_size h div MAX_SIZE)"
    using hd(2) idx by (cases block) simp_all
  have ext: "heap_ext h ?h2" using heap_ext_trans [OF e(1) st(1)] .
  show ?case
  proof (cases "n - ?m = 0")
    case True
    then have "?m = n" by simp
    have "set_size_to_head (?h2\<lparr>hp_size := s1\<rparr>) = ?h2"
      using head_some(1,4,5) [OF heap_extD(1) [OF st(1)]] e(2)
      by (simp add: set_size_to_head_def head_def update_head_def hd(2) split: option.split)
    then show ?thesis
      using True step block ext st(2,3) e(3) \<open>?m = n\<close> by (simp add: ensure_allocate_span.simps)
  next
    case False
    then have "n - ?m < n" "0 < n - ?m" using m by simp_all
    from less.IH [OF this(1) heap_extD(1) [OF st(1)] this(2), of s1 ?block]
    obtain h' where h': "ensure_allocate_span (?h2\<lparr>hp_size := s1\<rparr>) (n - ?m) ?block =
        ok (h', Some (case block of Some i \<Rightarrow> i | None \<Rightarrow> hp_size h div MAX_SIZE))"
      "heap_ext ?h2 (set_size_to_head h')" "hp_size (set_size_to_head h') = hp_size ?h2 + (n - ?m)"
      "\<forall>x. hp_size ?h2 \<le> x \<longrightarrow> x < hp_size ?h2 + (n - ?m) \<longrightarrow> mem (set_size_to_head h') x = Some 0"
      unfolding block by auto
    have z: "mem (set_size_to_head h') x = Some 0" if "hp_size h \<le> x" "x < hp_size h + n" for x
      using that st(2) st(3) [of x] h'(4) heap_extD(3) [OF h'(2), of x] e(3) by (cases "x < hp_size ?h2") auto
    show ?thesis
      using step h'(1,3) heap_ext_trans [OF ext h'(2)] z st(2) e(3) by auto
  qed
qed

lemma allocate_span_spec:
  assumes inv: "heap_inv h" and n: "0 < n"
  obtains h' where "allocate_span h tag n = ok (h', hp_size h)" "heap_ext h h'" "hp_size h' = hp_size h + n"
    "mem h' (hp_size h) = Some (ptr_cell tag (hp_size h))"
    "\<And>x. hp_size h < x \<Longrightarrow> x < hp_size h + n \<Longrightarrow> mem h' x = Some 0"
proof -
  let ?a = "hp_size h"
  obtain h1 where h1: "ensure_allocate_span h n None = ok (h1, Some (?a div MAX_SIZE))"
    "heap_ext h (set_size_to_head h1)" "hp_size (set_size_to_head h1) = ?a + n"
    "\<And>x. ?a \<le> x \<Longrightarrow> x < ?a + n \<Longrightarrow> mem (set_size_to_head h1) x = Some 0"
    using ensure_allocate_span_spec [OF inv n, of ?a None] by auto
  note inv1 = heap_extD(1) [OF h1(2)]
  have "?a div MAX_SIZE < length (blocks (set_size_to_head h1))"
    using heap_size_blocks [OF inv1, of ?a] h1(3) n by simp
  then obtain h2 where h2: "block_put (set_size_to_head h1) (?a div MAX_SIZE) ?a (ptr_cell tag ?a) = ok h2" "heap_inv h2"
    "same_frame (set_size_to_head h1) h2"
    "\<And>x. x < hp_size (set_size_to_head h1) \<Longrightarrow> mem h2 x = (if x = ?a then Some (ptr_cell tag ?a) else mem (set_size_to_head h1) x)"
    using block_put_mem [OF inv1 _ refl, of ?a "ptr_cell tag ?a"] by blast
  show thesis
  proof (rule that)
    show "allocate_span h tag n = ok (h2, ?a)" using h1(1) h2(1) by (simp add: allocate_span_def Let_def)
    show "heap_ext h h2" using h1(2) h2(2-4) by (auto simp: heap_ext_def same_frame_def)
    show "hp_size h2 = ?a + n" using h2(3) h1(3) by (simp add: same_frame_def)
    show "mem h2 ?a = Some (ptr_cell tag ?a)" using h2(4) [of ?a] h1(3) n by simp
    show "mem h2 x = Some 0" if "?a < x" "x < ?a + n" for x using that h2(4) [of x] h1(3,4) by simp
  qed
qed

subsection \<open>New terms\<close>

lemma arity_bound: "arity c < 4096"
proof -
  have m: "(push_bit 12 1 - 1 :: u64) = mask 12" "(0x1f :: u64) = mask 5" by (simp_all add: mask_eq_exp_minus_1)
  have "unat (w AND mask k :: u64) < 2 ^ k" for w k
    by (simp add: take_bit_eq_mask [symmetric] unsigned_take_bit_eq)
  from this [of "cell_value c" 5] this [of "cell_value c" 12] show ?thesis
    unfolding arity_def m by simp
qed

lemma block_put_heap_set: "a div MAX_SIZE = i \<Longrightarrow> block_put h i a c = heap_set h a c"
  by (simp add: heap_set_def find_block_index_def)

lemma put_refs_spec:
  assumes "heap_inv h" "a + k \<le> hp_size h" "\<And>x. a \<le> x \<Longrightarrow> x < a + k \<Longrightarrow> x div MAX_SIZE = i"
  shows "\<exists>h'. put_refs h i a k = ok h' \<and> heap_inv h' \<and> same_frame h h' \<and>
    mem h' = (\<lambda>x. if a \<le> x \<and> x < a + k then Some (ref_cell x) else mem h x)"
  using assms
proof (induction k arbitrary: h a)
  case (Suc k)
  have "a < hp_size h" using Suc.prems(2) by simp
  then obtain h1 where h1: "heap_set h a (ref_cell a) = ok h1" "heap_inv h1" "same_frame h h1"
    "mem h1 = (mem h)(a \<mapsto> ref_cell a)"
    using heap_set_mem [OF Suc.prems(1)] by blast
  have "block_put h i a (ref_cell a) = ok h1"
    using h1(1) Suc.prems(3) [of a] by (simp add: block_put_heap_set)
  moreover obtain h' where "put_refs h1 i (Suc a) k = ok h'" "heap_inv h'" "same_frame h1 h'"
    "mem h' = (\<lambda>x. if Suc a \<le> x \<and> x < Suc a + k then Some (ref_cell x) else mem h1 x)"
    using Suc.IH [OF h1(2), of "Suc a"] Suc.prems(2,3) h1(3) by (auto simp: same_frame_def)
  ultimately show ?case
    using same_frame_trans [OF h1(3)] h1(4) by (auto simp: fun_eq_iff)
qed (auto simp: fun_eq_iff)

lemma set_index_str: "set_index (ptr_cell STR_T a) b = str_cell b" "set_index (ptr_cell REF_T a) b = ref_cell b"
  by (simp_all add: str_cell_def ref_cell_def)

lemma new_str_spec:
  assumes inv: "heap_inv h" and coin: "\<not> (coin_security_enabled h \<and> con = COIN)"
  obtains h' a where "new_str h con = ok (h', str_cell (a + 1))" "heap_ext h h'" "hp_size h \<le> a"
    "hp_size h' = a + 2 + arity con" "mem h' a = Some (str_cell (a + 1))" "mem h' (a + 1) = Some con"
    "\<And>i. i < arity con \<Longrightarrow> mem h' (a + 2 + i) = Some (ref_cell (a + 2 + i))" "a \<le> hp_size h + MAX_SIZE"
proof -
  let ?n = "2 + arity con"
  have n: "0 < ?n" "?n \<le> MAX_SIZE" using arity_bound [of con] by (simp_all add: MAX_SIZE_def)
  obtain h1 a where h1: "allocate h STR_T ?n = ok (h1, a)" "heap_ext h h1" "hp_size h \<le> a" "hp_size h1 = a + ?n"
    "\<And>x. a \<le> x \<Longrightarrow> x < a + ?n \<Longrightarrow> x div MAX_SIZE = the (head_block h1)" "a \<le> hp_size h + MAX_SIZE"
    using allocate_spec [OF inv n] by metis
  let ?i = "the (head_block h1)"
  obtain h2 where h2: "heap_set h1 a (str_cell (a + 1)) = ok h2" "heap_inv h2" "same_frame h1 h2"
    "mem h2 = (mem h1)(a \<mapsto> str_cell (a + 1))"
    using heap_set_mem [OF heap_extD(1) [OF h1(2)], of a] h1(4) by auto
  obtain h3 where h3: "heap_set h2 (a + 1) con = ok h3" "heap_inv h3" "same_frame h2 h3"
    "mem h3 = (mem h2)(a + 1 \<mapsto> con)"
    using heap_set_mem [OF h2(2), of "a + 1"] h1(4) h2(3) by (auto simp: same_frame_def)
  have "a + 2 + arity con \<le> hp_size h3" using h1(4) h2(3) h3(3) by (simp add: same_frame_def)
  then obtain h4 where h4: "put_refs h3 ?i (a + 2) (arity con) = ok h4" "heap_inv h4" "same_frame h3 h4"
    "mem h4 = (\<lambda>x. if a + 2 \<le> x \<and> x < a + 2 + arity con then Some (ref_cell x) else mem h3 x)"
    using put_refs_spec [OF h3(2), of "a + 2" "arity con" ?i] h1(5) by auto
  have d: "a div MAX_SIZE = ?i" "(a + 1) div MAX_SIZE = ?i" using h1(5) by auto
  have fr: "same_frame h1 h4" using same_frame_trans [OF same_frame_trans [OF h2(3) h3(3)] h4(3)] .
  show thesis
  proof (rule that)
    show "new_str h con = ok (h4, str_cell (a + 1))"
      using coin h1(1) h2(1) h3(1) h4(1) d
      by (auto simp: new_str_def coin_security_check_def Let_def set_index_str block_put_heap_set
          simp del: set_index_conv)
    show "heap_ext h h4"
      using h1(2,3) h2(4) h3(4) h4(2,4) fr by (auto simp: heap_ext_def same_frame_def)
  qed (use h1(3,4,6) h2(4) h3(4) h4(4) fr in \<open>auto simp: same_frame_def\<close>)
qed

lemma new_ref_spec:
  assumes inv: "heap_inv h"
  obtains h' a where "new_ref h = ok (h', ref_cell a)" "heap_ext h h'" "hp_size h \<le> a"
    "hp_size h' = a + 1" "mem h' a = Some (ref_cell a)" "a \<le> hp_size h + MAX_SIZE"
proof -
  obtain h1 a where h1: "allocate h REF_T 1 = ok (h1, a)" "heap_ext h h1" "hp_size h \<le> a" "hp_size h1 = a + 1"
    "\<And>x. a \<le> x \<Longrightarrow> x < a + 1 \<Longrightarrow> x div MAX_SIZE = the (head_block h1)" "a \<le> hp_size h + MAX_SIZE"
    using allocate_spec [OF inv, of 1] by (metis MAX_SIZE_pos One_nat_def Suc_leI less_one)
  obtain h2 where h2: "heap_set h1 a (ref_cell a) = ok h2" "heap_inv h2" "same_frame h1 h2"
    "mem h2 = (mem h1)(a \<mapsto> ref_cell a)"
    using heap_set_mem [OF heap_extD(1) [OF h1(2)], of a] h1(4) by auto
  show thesis
  proof (rule that)
    show "new_ref h = ok (h2, ref_cell a)"
      using h1(1,5) h2(1) by (simp add: new_ref_def set_index_str block_put_heap_set del: set_index_conv)
    show "heap_ext h h2" using h1(2,3) h2(2-4) by (auto simp: heap_ext_def same_frame_def)
  qed (use h1(3,4,6) h2 in \<open>auto simp: same_frame_def\<close>)
qed

lemma big_cells_agree:
  assumes "bits < 2 ^ 29"
  shows "num_cells (dat_cell bits) = big_num_cells bits"
proof -
  have "num_bits (dat_cell bits) = bits" using assms by simp
  moreover have "(1 + (bits + 32 - 1) div 32 + 1) div 2 =
      (if (bits + 7) div 8 \<le> 4 then 1 else 1 + (((bits + 7) div 8 - 4 + 8 - 1) div 8))"
    by (simp split: if_split) linarith
  ultimately show ?thesis by (simp add: num_cells_def num_half_cells_def big_num_cells_def)
qed

lemma new_big_spec:
  assumes inv: "heap_inv h" and b: "bits < 2 ^ 29"
  obtains h' where "new_big h bits = ok (h', big_cell (hp_size h))" "heap_ext h h'"
    "hp_size h' = hp_size h + num_cells (dat_cell bits)" "mem h' (hp_size h) = Some (dat_cell bits)"
    "\<And>x. hp_size h < x \<Longrightarrow> x < hp_size h' \<Longrightarrow> mem h' x = Some 0"
proof -
  let ?n = "big_num_cells bits" and ?a = "hp_size h"
  have n: "0 < ?n" using big_cells_agree [OF b] num_cells_pos [of "dat_cell bits"] by simp
  obtain h1 where h1: "allocate_span h DAT_T ?n = ok (h1, ?a)" "heap_ext h h1" "hp_size h1 = ?a + ?n"
    "\<And>x. ?a < x \<Longrightarrow> x < ?a + ?n \<Longrightarrow> mem h1 x = Some 0"
    using allocate_span_spec [OF inv n] by metis
  obtain h2 where h2: "heap_set h1 ?a (dat_cell bits) = ok h2" "heap_inv h2" "same_frame h1 h2"
    "mem h2 = (mem h1)(?a \<mapsto> dat_cell bits)"
    using heap_set_mem [OF heap_extD(1) [OF h1(2)], of ?a] h1(3) n by auto
  show thesis
  proof (rule that)
    show "new_big h bits = ok (h2, big_cell ?a)" using h1(1) h2(1) by (simp add: new_big_def)
    show "heap_ext h h2" using h1(2) h2(2-4) by (auto simp: heap_ext_def same_frame_def)
  qed (use h1(3,4) h2 big_cells_agree [OF b] in \<open>auto simp: same_frame_def\<close>)
qed

end
