(* ===== verification/Heap_Ops.thy ===== *)
theory Heap_Ops
  imports Heap
begin

section \<open>Dereferencing, atoms and big numbers\<close>

text \<open>
  Properties of the operations that read terms: reference chains and their dereferencing, the atom table,
  and the bytes of big numbers.
\<close>

subsection \<open>Reference chains\<close>

inductive derefs :: "(nat \<Rightarrow> cell option) \<Rightarrow> cell \<Rightarrow> cell \<Rightarrow> bool" for m where
  nonref: "\<not> is_ref (cell_tag c) \<Longrightarrow> derefs m c c"
| unbound: "is_ref (cell_tag c) \<Longrightarrow> m (cell_index c) = Some c \<Longrightarrow> derefs m c c"
| follow: "is_ref (cell_tag c) \<Longrightarrow> m (cell_index c) = Some c' \<Longrightarrow> c' \<noteq> c \<Longrightarrow> derefs m c' d \<Longrightarrow> derefs m c d"

lemma derefs_unique: "derefs m c d \<Longrightarrow> derefs m c d' \<Longrightarrow> d' = d"
proof (induction arbitrary: d' rule: derefs.induct)
  case (nonref c)
  from nonref.prems nonref.hyps show ?case by (cases rule: derefs.cases) auto
next
  case (unbound c)
  from unbound.prems unbound.hyps show ?case by (cases rule: derefs.cases) auto
next
  case (follow c c' d)
  from follow.prems follow.hyps show ?case
    by (cases rule: derefs.cases) (auto intro: follow.IH)
qed

definition root :: "(nat \<Rightarrow> cell option) \<Rightarrow> cell \<Rightarrow> bool" where
  "root m d \<longleftrightarrow> (is_ref (cell_tag d) \<longrightarrow> m (cell_index d) = Some d)"

lemma derefs_root: "derefs m c d \<Longrightarrow> root m d"
  by (induction rule: derefs.induct) (simp_all add: root_def)

lemma root_derefs: "root m d \<Longrightarrow> derefs m d d"
  by (cases "is_ref (cell_tag d)") (auto simp: root_def intro: derefs.intros)

lemma derefs_idem: "derefs m c d \<Longrightarrow> derefs m d d"
  by (rule root_derefs [OF derefs_root])

lemma deref_derefs:
  assumes inv: "heap_inv h" and d: "derefs (mem h) c d"
  shows "deref h c = ok d"
  using d
proof (induction rule: derefs.induct)
  case (nonref c) then show ?case by (simp add: deref.simps)
next
  case (unbound c) then show ?case by (simp add: deref.simps heap_get_ok [OF inv, THEN iffD2])
next
  case (follow c c' d)
  then show ?case by (subst deref.simps) (simp add: heap_get_ok [OF inv, THEN iffD2])
qed

lemma derefs_deref:
  assumes inv: "heap_inv h" and d: "deref h c = ok d"
  shows "derefs (mem h) c d"
proof -
  have "\<forall>x. Inr d = (Inr x :: term_error + cell) \<longrightarrow> heap_inv h \<longrightarrow> derefs (mem h) c x"
  proof (rule deref.raw_induct [OF _ d, of "\<lambda>h c y. \<forall>x. y = Inr x \<longrightarrow> heap_inv h \<longrightarrow> derefs (mem h) c x"], intro allI impI)
    fix f h c y x
    assume IH: "\<And>h c y. f h c = Some y \<Longrightarrow> \<forall>x. y = Inr x \<longrightarrow> heap_inv h \<longrightarrow> derefs (mem h) c x"
      and eq: "(if is_ref (cell_tag c) then bindR (heap_get h (cell_index c))
        (\<lambda>referred. if referred = c then ok c else f h referred) else ok c) = Some y"
      and y: "y = Inr x" and inv: "heap_inv h"
    show "derefs (mem h) c x"
    proof (cases "is_ref (cell_tag c)")
      case True
      then obtain r where r: "mem h (cell_index c) = Some r" "(if r = c then ok c else f h r) = ok x"
        using eq y by (auto simp: bindR_ok_iff heap_get_ok [OF inv])
      then show ?thesis
        using True IH [of h r y] y inv by (cases "r = c") (auto intro: derefs.intros)
    qed (use eq y in \<open>auto intro: derefs.nonref\<close>)
  qed
  with inv show ?thesis by blast
qed

lemma deref_iff: "heap_inv h \<Longrightarrow> deref h c = ok d \<longleftrightarrow> derefs (mem h) c d"
  using deref_derefs derefs_deref by blast

text \<open>The references between the addresses of a region \<open>D\<close>; a self reference is an unbound variable.\<close>

definition ref_edges :: "(nat \<Rightarrow> cell option) \<Rightarrow> nat set \<Rightarrow> (nat \<times> nat) set" where
  "ref_edges m D = {(a, b). a \<in> D \<and> (\<exists>c. m a = Some c \<and> is_ref (cell_tag c) \<and> b = cell_index c \<and> a \<noteq> b)}"

definition refs_closed :: "(nat \<Rightarrow> cell option) \<Rightarrow> nat set \<Rightarrow> bool" where
  "refs_closed m D \<longleftrightarrow> (\<forall>a\<in>D. \<exists>c. m a = Some c \<and> (is_ref (cell_tag c) \<longrightarrow> cell_index c \<in> D))"

lemma ref_edges_sub: "refs_closed m D \<Longrightarrow> ref_edges m D \<subseteq> D \<times> D"
  by (fastforce simp: ref_edges_def refs_closed_def)

lemma ref_edges_wf:
  assumes "refs_closed m D" "finite D" "acyclic (ref_edges m D)"
  shows "wf ((ref_edges m D)\<inverse>)"
  using finite_acyclic_wf_converse [OF finite_subset [OF ref_edges_sub [OF assms(1)]] assms(3)] assms(2)
  by simp

lemma derefs_total:
  assumes cl: "refs_closed m D" and wf: "wf ((ref_edges m D)\<inverse>)" and c: "is_ref (cell_tag c) \<longrightarrow> cell_index c \<in> D"
  shows "\<exists>d. derefs m c d"
proof (cases "is_ref (cell_tag c)")
  case True
  have "\<exists>d. derefs m c d" if "is_ref (cell_tag c)" "cell_index c \<in> D" "cell_index c = a" for a c
    using wf that
  proof (induction a arbitrary: c)
    case (less a)
    obtain c' where c': "m a = Some c'" "is_ref (cell_tag c') \<longrightarrow> cell_index c' \<in> D"
      using cl less.prems by (auto simp: refs_closed_def)
    consider "\<not> is_ref (cell_tag c')" | "is_ref (cell_tag c')" "cell_index c' = a" |
      "is_ref (cell_tag c')" "cell_index c' \<noteq> a" by blast
    then have "\<exists>d. derefs m c' d"
    proof cases
      case 3
      then have "(cell_index c', a) \<in> (ref_edges m D)\<inverse>" using c'(1) less.prems by (auto simp: ref_edges_def)
      then show ?thesis using less.IH 3(1) c'(2) by blast
    qed (use c' in \<open>auto intro: derefs.intros\<close>)
    then show ?case
      using less.prems c'(1) by (cases "c' = c") (auto intro: derefs.intros)
  qed
  with True c show ?thesis by blast
qed (blast intro: derefs.nonref)

lemma derefs_closed:
  assumes "derefs m c d" "refs_closed m D" "is_ref (cell_tag c) \<longrightarrow> cell_index c \<in> D"
  shows "is_ref (cell_tag d) \<longrightarrow> cell_index d \<in> D"
  using assms by (induction rule: derefs.induct) (auto simp: refs_closed_def)

text \<open>Either \<open>d\<close> is \<open>c\<close> itself or it is the content of a cell of the region.\<close>

lemma derefs_source:
  assumes "derefs m c d" "refs_closed m D" "is_ref (cell_tag c) \<longrightarrow> cell_index c \<in> D"
  shows "d = c \<or> (\<exists>a\<in>D. m a = Some d)"
  using assms
proof (induction rule: derefs.induct)
  case (follow c c' d)
  then show ?case by (auto simp: refs_closed_def)
qed auto

text \<open>Dereferencing only reads the region.\<close>

lemma derefs_agree:
  assumes "derefs m c d" "refs_closed m D" "is_ref (cell_tag c) \<longrightarrow> cell_index c \<in> D" "\<And>a. a \<in> D \<Longrightarrow> m' a = m a"
  shows "derefs m' c d"
  using assms
proof (induction rule: derefs.induct)
  case (follow c c' d)
  then have "is_ref (cell_tag c') \<longrightarrow> cell_index c' \<in> D" by (auto simp: refs_closed_def)
  then show ?case using follow by (auto intro: derefs.follow)
qed (auto intro: derefs.intros)

text \<open>Overwriting an unbound variable redirects what referred to it (to \<open>v'\<close>, the end of the new chain), and nothing
  else.\<close>

lemma derefs_update:
  assumes d: "derefs m c d" and x: "m x = Some dx" "is_ref (cell_tag dx)" "cell_index dx = x"
    and v: "\<And>c. is_ref (cell_tag c) \<Longrightarrow> cell_index c = x \<Longrightarrow> derefs (m(x \<mapsto> v)) c v'"
  shows "derefs (m(x \<mapsto> v)) c (if is_ref (cell_tag d) \<and> cell_index d = x then v' else d)"
  using d
proof (induction rule: derefs.induct)
  case (nonref c) then show ?case by (auto intro: derefs.nonref)
next
  case (unbound c)
  show ?case
  proof (cases "cell_index c = x")
    case True with v [of c] unbound show ?thesis by (simp del: fun_upd_apply)
  next
    case False with unbound show ?thesis by (auto intro: derefs.unbound)
  qed
next
  case (follow c c' d)
  show ?case
  proof (cases "cell_index c = x")
    case True
    then have "c' = dx" using follow.hyps(2) x(1) by simp
    then have "d = dx" using follow.hyps(4) x derefs_unique [OF derefs.unbound, of dx m d] by auto
    then show ?thesis using v [OF follow.hyps(1) True] x by (simp del: fun_upd_apply)
  next
    case False
    then show ?thesis using follow by (auto intro: derefs.follow)
  qed
qed

lemma deref_cost_derefs:
  assumes inv: "heap_inv h" and d: "derefs (mem h) c d"
  shows "\<exists>k. deref_cost_loop h c n = ok (d, n + of_nat k)"
  using d
proof (induction arbitrary: n rule: derefs.induct)
  case (nonref c) then show ?case by (auto simp: deref_cost_loop.simps intro: exI [of _ 0])
next
  case (unbound c)
  then show ?case by (auto simp: deref_cost_loop.simps heap_get_ok [OF inv, THEN iffD2] intro: exI [of _ 0])
next
  case (follow c c' d)
  from follow.IH [of "n + 1"] obtain k where "deref_cost_loop h c' (n + 1) = ok (d, n + 1 + of_nat k)" by blast
  then show ?case
    using follow.hyps by (subst deref_cost_loop.simps)
      (auto simp: heap_get_ok [OF inv, THEN iffD2] intro: exI [of _ "Suc k"])
qed

lemma deref_with_cost_derefs:
  assumes "heap_inv h" "derefs (mem h) c d"
  obtains k where "deref_with_cost h c = ok (d, k)"
  using deref_cost_derefs [OF assms, of 1] by (auto simp: deref_with_cost_def)

lemma mem_finite: "finite {a. \<exists>c. mem h a = Some c}"
  by (rule finite_subset [of _ "{..<hp_size h}"]) (auto dest: mem_size)

lemma refs_closed_finite: "refs_closed (mem h) D \<Longrightarrow> finite D"
  by (rule finite_subset [OF _ mem_finite [of h]]) (auto simp: refs_closed_def)

subsection \<open>The atom table\<close>

definition atoms_inv :: "heap \<Rightarrow> bool" where
  "atoms_inv h \<longleftrightarrow> distinct (map fst (atom_name_to_index_table h)) \<and>
     (\<forall>name i. map_of (atom_name_to_index_table h) name = Some i \<longrightarrow> map_of (atom_index_to_name_table h) i = Some name) \<and>
     (\<forall>i name. map_of (atom_index_to_name_table h) i = Some name \<longrightarrow> i < length (atom_name_to_index_table h))"

lemma atoms_inv_new: "atoms_inv heap_new"
  by (simp add: atoms_inv_def heap_new_def)

lemma length_update_new: "map_of xs k = None \<Longrightarrow> length (AList.update k v xs) = Suc (length xs)"
  by (induction xs) auto

lemma resolve_atom_index_spec:
  assumes inv: "atoms_inv h" and r: "resolve_atom_index h name = (h', i)"
  shows "atoms_inv h'" "map_of (atom_name_to_index_table h') name = Some i"
    "map_of (atom_index_to_name_table h') i = Some name" "i < length (atom_name_to_index_table h')"
    "\<And>j n. map_of (atom_index_to_name_table h) j = Some n \<Longrightarrow> map_of (atom_index_to_name_table h') j = Some n"
    "mem h' = mem h" "hp_size h' = hp_size h" "i \<le> length (atom_name_to_index_table h)"
proof -
  have "atoms_inv h' \<and> map_of (atom_name_to_index_table h') name = Some i \<and>
    map_of (atom_index_to_name_table h') i = Some name \<and> i < length (atom_name_to_index_table h') \<and>
    (\<forall>j n. map_of (atom_index_to_name_table h) j = Some n \<longrightarrow> map_of (atom_index_to_name_table h') j = Some n) \<and>
    mem h' = mem h \<and> hp_size h' = hp_size h \<and> i \<le> length (atom_name_to_index_table h)"
  proof (cases "map_of (atom_name_to_index_table h) name")
    case None
    then have h': "i = length (atom_name_to_index_table h)"
      "h' = h\<lparr>atom_name_to_index_table := AList.update name i (atom_name_to_index_table h),
        atom_index_to_name_table := AList.update i name (atom_index_to_name_table h)\<rparr>"
      using r by (auto simp: resolve_atom_index_def Let_def)
    have fresh: "map_of (atom_index_to_name_table h) i = None"
      using inv h'(1) by (cases "map_of (atom_index_to_name_table h) i") (auto simp: atoms_inv_def)
    have "map_of (atom_name_to_index_table h) n \<noteq> Some i" for n
      using inv fresh by (auto simp: atoms_inv_def)
    then have "atoms_inv h'"
      using inv fresh None length_update_new [OF None, of i]
      by (auto simp: h'(2) atoms_inv_def update_conv' distinct_update h'(1) less_Suc_eq split: if_splits)
    then show ?thesis
      using fresh length_update_new [OF None, of i] h'(1)
      by (auto simp: h'(2) update_conv' mem_def fun_eq_iff)
  next
    case (Some j)
    then show ?thesis
      using r inv by (fastforce simp: resolve_atom_index_def atoms_inv_def)
  qed
  then show "atoms_inv h'" "map_of (atom_name_to_index_table h') name = Some i"
    "map_of (atom_index_to_name_table h') i = Some name" "i < length (atom_name_to_index_table h')"
    "\<And>j n. map_of (atom_index_to_name_table h) j = Some n \<Longrightarrow> map_of (atom_index_to_name_table h') j = Some n"
    "mem h' = mem h" "hp_size h' = hp_size h" "i \<le> length (atom_name_to_index_table h)"
    by blast+
qed

lemma atom_name_keeps:
  assumes "atoms_inv h" "resolve_atom_index h name = (h', i)" "atom_name h c = ok n"
  shows "atom_name h' c = ok n"
  using assms(3) resolve_atom_index_spec(5) [OF assms(1,2), of "atom_index c"]
  by (auto simp: atom_name_def split: if_splits option.splits)

definition atom_ok :: "heap \<Rightarrow> string \<Rightarrow> bool" where
  "atom_ok h name \<longleftrightarrow> (if length name \<le> 7 then name \<noteq> [] \<and> list_all ascii name
     else length (atom_name_to_index_table h) < 2 ^ 47)"

lemma new_functor_spec:
  assumes inv: "atoms_inv h" and ok: "atom_ok h name" and n: "n < (if length name \<le> 7 then 32 else 4096)"
    and len: "length name < MAX_NAME_LENGTH"
  obtains h' c where "new_functor h name n = ok (h', c)" "atoms_inv h'" "cell_tag c = CON_T" "arity c = n"
    "atom_name h' c = ok name" "\<And>d m. atom_name h d = ok m \<Longrightarrow> atom_name h' d = ok m"
    "mem h' = mem h" "hp_size h' = hp_size h" "n = 0 \<Longrightarrow> atom h name = ok (h', c)"
proof (cases "length name \<le> 7")
  case True
  with ok n have u: "use_compacted name n" "\<forall>ch\<in>set name. ascii ch" "name \<noteq> []" "n \<le> 31"
    by (auto simp: atom_ok_def use_compacted_def list_all_iff)
  show thesis
  proof (rule that)
    show "new_functor h name n = ok (h, con_cell_direct name n)"
      using True u by (simp add: new_functor_def con_cell_r_def con_cell_def)
    show "atom_name h (con_cell_direct name n) = ok name"
      using True u by (simp add: atom_name_def con_name_con_cell)
    show "arity (con_cell_direct name n) = n" using u by simp
    show "atom h name = ok (h, con_cell_direct name n)" if "n = 0"
      using True u that by (simp add: atom_def con_cell_r_def con_cell_def)
  qed (use inv in simp_all)
next
  case False
  obtain h' i where r: "resolve_atom_index h name = (h', i)" by fastforce
  note s = resolve_atom_index_spec [OF inv r]
  have i: "i < 2 ^ 47" using ok False s(8) by (simp add: atom_ok_def)
  have n': "n < 2 ^ 13" "n mod 4096 = n" using n False by simp_all
  show thesis
  proof (rule that)
    show "new_functor h name n = ok (h', con_cell_index i n)"
      using False len r by (simp add: new_functor_def)
    show "atom_name h' (con_cell_index i n) = ok name"
      using i n' s(3) by (simp add: atom_name_def)
    show "arity (con_cell_index i n) = n" using i n' arity_con_index [of i n] by simp
    show "atom h name = ok (h', con_cell_index i n)" if "n = 0"
      using False r that by (simp add: atom_def)
  qed (use s atom_name_keeps [OF inv r] in simp_all)
qed

subsection \<open>Bytes of big numbers\<close>

lemma bit_set_byte:
  assumes "n < 64"
  shows "bit (set_byte w i v) n = (if 8 * (i mod 8) \<le> n \<and> n < 8 * (i mod 8) + 8 then bit v (n - 8 * (i mod 8)) else bit w n)"
proof -
  have m: "(0xff :: u64) = mask 8" by (simp add: mask_eq_exp_minus_1)
  show ?thesis
    using assms
    by (auto simp: set_byte_def Let_def m bit_ucast_iff bit_or_iff bit_and_iff bit_not_iff bit_push_bit_iff bit_mask_iff
        dest: bit_imp_le_length)
qed

lemma num_bits_set_byte:
  assumes "4 \<le> i mod 8"
  shows "num_bits (set_byte w i v) = num_bits w"
proof -
  have "take_bit 29 (cell_value (set_byte w i v)) = take_bit 29 (cell_value w)"
  proof (rule bit_word_eqI)
    fix n
    show "bit (take_bit 29 (cell_value (set_byte w i v))) n = bit (take_bit 29 (cell_value w)) n"
      using assms bit_set_byte [of "3 + n" w i v]
      by (auto simp: bit_take_bit_iff cell_value_def bit_drop_bit_eq)
  qed
  then show ?thesis by (simp add: num_bits_value)
qed

text \<open>\<open>big_data m a n\<close>: the first \<open>n\<close> data bytes of the big number at \<open>a\<close>; \<open>big_area a n\<close>: the cells they are in.\<close>

definition data_byte :: "(nat \<Rightarrow> cell option) \<Rightarrow> nat \<Rightarrow> nat \<Rightarrow> u8" where
  "data_byte m a i = get_byte (the (m (a + i div 8))) i"

definition data_bytes :: "(nat \<Rightarrow> cell option) \<Rightarrow> nat \<Rightarrow> nat \<Rightarrow> nat \<Rightarrow> u8 list" where
  "data_bytes m a i n = map (data_byte m a) [i..<i + n]"

definition big_data :: "(nat \<Rightarrow> cell option) \<Rightarrow> nat \<Rightarrow> nat \<Rightarrow> u8 list" where
  "big_data m a n = data_bytes m a 4 n"

lemma data_bytes_simps [simp]: "data_bytes m a i 0 = []"
  "data_bytes m a i (Suc n) = data_byte m a i # data_bytes m a (Suc i) n" "length (data_bytes m a i n) = n"
  by (simp_all add: data_bytes_def upt_conv_Cons [of i "Suc (i + n)"] del: upt_Suc)


definition big_area :: "nat \<Rightarrow> nat \<Rightarrow> nat set" where
  "big_area a n = {a .. a + (3 + n) div 8}"

definition has_cells :: "(nat \<Rightarrow> cell option) \<Rightarrow> nat set \<Rightarrow> bool" where
  "has_cells m A \<longleftrightarrow> (\<forall>a\<in>A. m a \<noteq> None)"

lemma in_big_area: "4 \<le> i \<Longrightarrow> i < 4 + n \<Longrightarrow> a + i div 8 \<in> big_area a n"
  by (auto simp: big_area_def intro: div_le_mono)

lemma big_area_ge: "4 \<le> j \<Longrightarrow> a + j div 8 \<in> big_area a (j - 3)"
  by (auto simp: big_area_def)

text \<open>After its last byte the iterator looks at the next cell when the number ends with its cell and that cell is in
  another block than the header.  \<open>big_cells\<close>: the number has all its cells, and that one exists.\<close>

definition big_end :: "(nat \<Rightarrow> cell option) \<Rightarrow> nat \<Rightarrow> nat \<Rightarrow> bool" where
  "big_end m a n \<longleftrightarrow> (n + 4) mod 8 = 0 \<longrightarrow> (a + (n + 4) div 8) div MAX_SIZE \<noteq> a div MAX_SIZE \<longrightarrow>
     m (a + (n + 4) div 8) \<noteq> None"

definition big_cells :: "(nat \<Rightarrow> cell option) \<Rightarrow> nat \<Rightarrow> nat \<Rightarrow> bool" where
  "big_cells m a n \<longleftrightarrow> has_cells m (big_area a n) \<and> big_end m a n"

lemma big_cells_byte: "big_cells m a n \<Longrightarrow> 4 \<le> i \<Longrightarrow> i < n + 4 \<Longrightarrow> m (a + i div 8) \<noteq> None"
  using in_big_area [of i n a] by (auto simp: big_cells_def has_cells_def)

lemma big_cells_head: "big_cells m a n \<Longrightarrow> \<exists>c. m a = Some c"
  by (auto simp: big_cells_def has_cells_def big_area_def)

lemma big_cells_mono:
  assumes "big_cells m a n" "\<And>x. m x \<noteq> None \<Longrightarrow> m' x \<noteq> None"
  shows "big_cells m' a n"
  using assms by (auto simp: big_cells_def has_cells_def big_end_def)

text \<open>The memory an iterator stands for: the cell it works on counts with its unwritten changes.\<close>

definition cb_view :: "heap \<Rightarrow> cell_byte \<Rightarrow> nat \<Rightarrow> cell option" where
  "cb_view h cb = (if cb_dirty cb then (mem h)(cb_base cb + cb_index cb div 8 \<mapsto> cb_cached cb) else mem h)"

text \<open>\<open>big_at h it a i n\<close>: the iterator is at byte \<open>i\<close> of the number at \<open>a\<close>, whose last byte is \<open>n - 1\<close>.\<close>

definition big_at :: "heap \<Rightarrow> big_iterator \<Rightarrow> nat \<Rightarrow> nat \<Rightarrow> nat \<Rightarrow> bool" where
  "big_at h it a i n \<longleftrightarrow> (let cb = bi_cell it in
     bi_index it = a + i div 8 \<and> bi_i it = i \<and> cb_n cb = n \<and> cb_base cb + cb_index cb div 8 = a + i div 8 \<and>
     cb_index cb mod 8 = i mod 8 \<and> cb_index cb \<le> i \<and> cb_base cb div MAX_SIZE = (a + i div 8) div MAX_SIZE \<and>
     (cb_base cb div MAX_SIZE = a div MAX_SIZE \<longrightarrow> cb_index cb = i) \<and>
     (cb_dirty cb \<longrightarrow> mem h (a + i div 8) \<noteq> None) \<and>
     (i < n \<longrightarrow> cb_view h cb (a + i div 8) = Some (cb_cached cb)))"

lemma same_block: "b div MAX_SIZE = (b + k) div MAX_SIZE \<longleftrightarrow> b mod MAX_SIZE + k < MAX_SIZE"
proof -
  have "b + k = b mod MAX_SIZE + k + b div MAX_SIZE * MAX_SIZE" using div_mult_mod_eq [of b MAX_SIZE] by linarith
  then have "(b + k) div MAX_SIZE = b div MAX_SIZE + (b mod MAX_SIZE + k) div MAX_SIZE"
    using div_mult_self1 [of MAX_SIZE "b mod MAX_SIZE + k" "b div MAX_SIZE"] by simp
  then show ?thesis by (auto simp: div_eq_0_iff) (simp add: MAX_SIZE_def)
qed

lemma cb_flush_at:
  assumes inv: "heap_inv h"
    and d: "cb_dirty cb \<Longrightarrow> mem h (cb_base cb + cb_index cb div 8) \<noteq> None"
    and b: "cb_base cb div MAX_SIZE = (cb_base cb + cb_index cb div 8) div MAX_SIZE"
  obtains h' where "cb_flush h cb = ok (h', cb\<lparr>cb_dirty := False\<rparr>)" "heap_inv h'" "same_frame h h'"
    "mem h' = cb_view h cb" "\<not> cb_dirty cb \<Longrightarrow> h' = h"
proof (cases "cb_dirty cb")
  case True
  let ?x = "cb_base cb + cb_index cb div 8"
  obtain c where c: "mem h ?x = Some c" using d [OF True] by auto
  have "cb_base cb mod MAX_SIZE + cb_index cb div 8 < MAX_SIZE"
    using b same_block by blast
  moreover obtain h' where "heap_set h ?x (cb_cached cb) = ok h'" "heap_inv h'" "same_frame h h'"
    "mem h' = (mem h)(?x \<mapsto> cb_cached cb)"
    using heap_set_mem [OF inv mem_size [OF c]] by blast
  ultimately show thesis using True by (intro that [of h']) (simp_all add: cb_flush_def base_addr_def cb_view_def)
next
  case False
  then have "cb_flush h cb = ok (h, cb\<lparr>cb_dirty := False\<rparr>)" by (simp add: cb_flush_def)
  with False show thesis using inv by (intro that [of h]) (simp_all add: cb_view_def)
qed

lemma same_block_Suc: "Suc a mod MAX_SIZE \<noteq> 0 \<Longrightarrow> Suc a div MAX_SIZE = a div MAX_SIZE"
  by (simp add: div_Suc)

lemma Suc_div_8: "Suc i div 8 = (if Suc i mod 8 = 0 then Suc (i div 8) else i div 8)"
  by (simp add: div_Suc mod_Suc)

text \<open>One step of the iterator: the memory it stands for does not change.\<close>

lemma big_next_at:
  assumes inv: "heap_inv h" and at: "big_at h it a i n" and i: "4 \<le> i" "i < n" and n: "4 \<le> n"
    and c: "Suc i < n \<Longrightarrow> mem h (a + Suc i div 8) \<noteq> None" "Suc i = n \<Longrightarrow> big_end (mem h) a (n - 4)"
  obtains h' it' where "big_next h it = ok (h', it')" "heap_inv h'" "same_frame h h'" "big_at h' it' a (Suc i) n"
    "cb_view h' (bi_cell it') = cb_view h (bi_cell it)" "\<And>x. mem h' x = None \<longleftrightarrow> mem h x = None"
    "\<not> cb_dirty (bi_cell it) \<Longrightarrow> h' = h \<and> \<not> cb_dirty (bi_cell it')"
proof -
  let ?cb = "bi_cell it" and ?x = "a + i div 8"
  from at have it: "bi_index it = ?x" "bi_i it = i" "cb_n ?cb = n" "cb_base ?cb + cb_index ?cb div 8 = ?x"
    "cb_index ?cb mod 8 = i mod 8" "cb_index ?cb \<le> i" "cb_base ?cb div MAX_SIZE = ?x div MAX_SIZE"
    "cb_base ?cb div MAX_SIZE = a div MAX_SIZE \<Longrightarrow> cb_index ?cb = i" "cb_dirty ?cb \<Longrightarrow> mem h ?x \<noteq> None"
    "cb_view h ?cb ?x = Some (cb_cached ?cb)"
    using i by (simp_all add: big_at_def Let_def)
  have s: "Suc (cb_index ?cb) mod 8 = Suc i mod 8" using it(5) by (simp add: mod_Suc)
  show thesis
  proof (cases "Suc i mod 8 = 0")
    case False
    let ?it = "it\<lparr>bi_i := Suc i, bi_cell := ?cb\<lparr>cb_index := Suc (cb_index ?cb)\<rparr>\<rparr>"
    have d: "Suc i div 8 = i div 8" "Suc (cb_index ?cb) div 8 = cb_index ?cb div 8" using False s by (simp_all add: Suc_div_8)
    have v: "cb_view h (?cb\<lparr>cb_index := Suc (cb_index ?cb)\<rparr>) = cb_view h ?cb" by (simp add: cb_view_def d)
    show thesis
    proof (rule that [of h ?it])
      show "big_next h it = ok (h, ?it)" using False s it(2) by (simp add: big_next_def cb_next_def)
      show "big_at h ?it a (Suc i) n" using it v d s by (simp add: big_at_def)
    qed (use inv v in simp_all)
  next
    case True
    have d: "Suc i div 8 = Suc (i div 8)" "Suc (cb_index ?cb) div 8 = Suc (cb_index ?cb div 8)"
      using True s by (simp_all add: Suc_div_8)
    obtain h' where h': "cb_flush h ?cb = ok (h', ?cb\<lparr>cb_dirty := False\<rparr>)" "heap_inv h'" "same_frame h h'"
      "mem h' = cb_view h ?cb" "\<not> cb_dirty ?cb \<Longrightarrow> h' = h"
      using cb_flush_at [OF inv, of ?cb] it(4,7,9) by auto
    have nn: "mem h' x = None \<longleftrightarrow> mem h x = None" for x
      using it(4,9) unfolding h'(4) by (auto simp: cb_view_def)
    show thesis
    proof (cases "Suc ?x mod MAX_SIZE = 0")
      case blk: True
      have "Suc ?x div MAX_SIZE \<noteq> a div MAX_SIZE"
      proof -
        have "Suc ?x div MAX_SIZE = Suc (?x div MAX_SIZE)" using blk by (simp add: div_Suc)
        moreover have "a div MAX_SIZE \<le> ?x div MAX_SIZE" by (simp add: div_le_mono)
        ultimately show ?thesis by simp
      qed
      then have "mem h (Suc ?x) \<noteq> None"
        using c d True i n by (cases "Suc i = n") (auto simp: big_end_def)
      then obtain z where z: "mem h (Suc ?x) = Some z" "mem h' (Suc ?x) = Some z"
        using it(4) unfolding h'(4) by (auto simp: cb_view_def)
      let ?it = "it\<lparr>bi_index := Suc ?x, bi_i := Suc i, bi_cell := ?cb\<lparr>cb_dirty := False, cb_base := Suc ?x, cb_index := 0, cb_cached := z\<rparr>\<rparr>"
      show thesis
      proof (rule that [of h' ?it])
        show "big_next h it = ok (h', ?it)"
          using True blk it(1,2) h'(1) heap_peek_mem [OF inv z(1)] heap_peek_mem [OF h'(2) z(2)]
          by (simp add: big_next_def set_address_def)
        show "big_at h' ?it a (Suc i) n" using it(3) z d True \<open>Suc ?x div MAX_SIZE \<noteq> _\<close> by (simp add: big_at_def cb_view_def)
      qed (use h' nn in \<open>simp_all add: cb_view_def\<close>)
    next
      case blk: False
      then have sb: "Suc ?x div MAX_SIZE = ?x div MAX_SIZE" by (rule same_block_Suc)
      show thesis
      proof (cases "Suc (cb_index ?cb) < n")
        case lt: True
        have "mem h (Suc ?x) \<noteq> None"
        proof (cases "Suc i = n")
          case fin: True
          then have "cb_index ?cb \<noteq> i" using lt by simp
          then have "Suc ?x div MAX_SIZE \<noteq> a div MAX_SIZE" using it(7,8) sb by metis
          then show ?thesis using c(2) [OF fin] d True fin n by (auto simp: big_end_def)
        qed (use c(1) d i in simp)
        then obtain z where z: "mem h' (Suc ?x) = Some z" using nn [of "Suc ?x"] by auto
        have b: "base_addr (?cb\<lparr>cb_dirty := False\<rparr>) (Suc (cb_index ?cb div 8)) = ok (Suc ?x)"
          using it(4,7) sb same_block [of "cb_base ?cb" "Suc (cb_index ?cb div 8)"] by (simp add: base_addr_def)
        let ?it = "it\<lparr>bi_index := Suc ?x, bi_i := Suc i, bi_cell := ?cb\<lparr>cb_dirty := False, cb_cached := z, cb_index := Suc (cb_index ?cb)\<rparr>\<rparr>"
        show thesis
        proof (rule that [of h' ?it])
          show "big_next h it = ok (h', ?it)"
            using True blk it(1,2,3) s d h'(1) heap_peek_mem [OF h'(2) z] lt b by (simp add: big_next_def cb_next_def)
          show "big_at h' ?it a (Suc i) n" using it z d s sb by (simp add: big_at_def cb_view_def)
        qed (use h' nn in \<open>simp_all add: cb_view_def\<close>)
      next
        case ge: False
        then have e: "Suc i = n" "cb_index ?cb = i" using it(6) i by simp_all
        let ?it = "it\<lparr>bi_index := Suc ?x, bi_i := Suc i, bi_cell := ?cb\<lparr>cb_dirty := False, cb_index := Suc (cb_index ?cb)\<rparr>\<rparr>"
        show thesis
        proof (rule that [of h' ?it])
          show "big_next h it = ok (h', ?it)"
            using True blk it(1,2,3) s h'(1) ge by (simp add: big_next_def cb_next_def)
          show "big_at h' ?it a (Suc i) n" using it d s sb e by (simp add: big_at_def)
        qed (use h' nn in \<open>simp_all add: cb_view_def\<close>)
      qed
    qed
  qed
qed

text \<open>Reading: nothing is written, and the byte read is the byte in memory.\<close>

definition big_reader :: "heap \<Rightarrow> big_iterator \<Rightarrow> nat \<Rightarrow> nat \<Rightarrow> nat \<Rightarrow> bool" where
  "big_reader h it a i n \<longleftrightarrow> heap_inv h \<and> big_at h it a i (n + 4) \<and> \<not> cb_dirty (bi_cell it) \<and> 4 \<le> i \<and> big_cells (mem h) a n"

lemma byte_mod: "i mod 8 = j mod 8 \<Longrightarrow> get_byte c i = get_byte c j" "i mod 8 = j mod 8 \<Longrightarrow> set_byte c i v = set_byte c j v"
  by (simp_all add: get_byte_def set_byte_def)

lemma big_reader_get: "big_reader h it a i n \<Longrightarrow> i < n + 4 \<Longrightarrow> big_get it = data_byte (mem h) a i"
  by (auto simp: big_reader_def big_at_def Let_def cb_view_def cb_get_def data_byte_def intro: byte_mod)

lemma big_reader_next:
  assumes "big_reader h it a i n" "i < n + 4"
  obtains it' where "big_next h it = ok (h, it')" "big_reader h it' a (Suc i) n"
proof -
  from assms have r: "heap_inv h" "big_at h it a i (n + 4)" "\<not> cb_dirty (bi_cell it)" "4 \<le> i" "big_cells (mem h) a n"
    by (simp_all add: big_reader_def)
  have c: "mem h (a + Suc i div 8) \<noteq> None" if "Suc i < n + 4" using big_cells_byte [OF r(5) _ that] r(4) by simp
  have e: "big_end (mem h) a (n + 4 - 4)" using r(5) by (simp add: big_cells_def)
  show thesis
    by (rule big_next_at [OF r(1,2,4) assms(2)]) (use r c e that in \<open>auto simp: big_reader_def\<close>)
qed

lemma big_begin_reader:
  assumes inv: "heap_inv h" and a: "a < addr_limit" "cell_index b = a" "\<not> is_ref (cell_tag b)"
    and m: "mem h a = Some c" "n = (num_bits c + 7) div 8"
  obtains it where "big_begin h b = ok it" "big_at h it a 4 (n + 4)" "\<not> cb_dirty (bi_cell it)"
    "big_cells (mem h) a n \<Longrightarrow> big_reader h it a 4 n"
proof -
  let ?it = "\<lparr>bi_index = a, bi_i = 4, bi_cell = \<lparr>cb_base = a, cb_index = 4, cb_n = n + 4, cb_cached = c, cb_dirty = False\<rparr>\<rparr>"
  have "big_begin h b = ok ?it"
    using a m heap_peek_mem [OF inv m(1)] by (simp add: big_begin_def big_iterator_new_def deref.simps)
  moreover have "big_at h ?it a 4 (n + 4)" using m by (simp add: big_at_def cb_view_def)
  ultimately show thesis using that inv by (simp add: big_reader_def)
qed

lemma get_big_loop_spec:
  "big_reader h it a i n \<Longrightarrow> i + k \<le> n + 4 \<Longrightarrow> get_big_loop h it k = ok (data_bytes (mem h) a i k)"
proof (induction k arbitrary: it i)
  case (Suc k)
  obtain it' where "big_next h it = ok (h, it')" "big_reader h it' a (Suc i) n"
    using big_reader_next [OF Suc.prems(1)] Suc.prems(2) by auto
  then show ?case using Suc.IH [of it' "Suc i"] Suc.prems big_reader_get [OF Suc.prems(1)] by simp
qed simp

text \<open>Writing bytes \<open>i, i + 1, ...\<close> of the area at \<open>a\<close>, first on memories.\<close>

primrec put_bytes :: "(nat \<Rightarrow> cell option) \<Rightarrow> nat \<Rightarrow> nat \<Rightarrow> u8 list \<Rightarrow> nat \<Rightarrow> cell option" where
  "put_bytes m a i [] = m"
| "put_bytes m a i (b # bs) = put_bytes (m(a + i div 8 \<mapsto> set_byte (the (m (a + i div 8))) i b)) a (Suc i) bs"

lemma put_bytes_out: "x \<notin> {a + i div 8 .. a + (i + length bs - 1) div 8} \<Longrightarrow> put_bytes m a i bs x = m x"
proof (induction bs arbitrary: m i)
  case (Cons b bs)
  have "i div 8 \<le> Suc i div 8" "i div 8 \<le> (i + length bs) div 8" by (simp_all add: div_le_mono)
  then have "x \<notin> {a + Suc i div 8 .. a + (Suc i + length bs - 1) div 8}" "x \<noteq> a + i div 8" using Cons.prems by auto
  then show ?case using Cons.IH by simp
qed simp

lemma put_bytes_low: "j < i \<Longrightarrow> data_byte (put_bytes m a i bs) a j = data_byte m a j"
proof (induction bs arbitrary: m i)
  case (Cons b bs)
  have "a + j div 8 = a + i div 8 \<and> j mod 8 = i mod 8 \<longleftrightarrow> j = i" by (metis add_left_cancel div_mult_mod_eq)
  then show ?case using Cons by (auto simp: data_byte_def get_set_byte)
qed simp

lemma put_bytes_data: "i \<le> j \<Longrightarrow> j < i + length bs \<Longrightarrow> data_byte (put_bytes m a i bs) a j = bs ! (j - i)"
proof (induction bs arbitrary: m i)
  case (Cons b bs)
  show ?case
  proof (cases "j = i")
    case True
    then show ?thesis by (simp add: put_bytes_low) (simp add: data_byte_def get_set_byte)
  next
    case False
    then show ?thesis using Cons.IH [of "Suc i"] Cons.prems by (auto simp: nth_Cons')
  qed
qed simp

lemma put_bytes_num_bits:
  "4 \<le> i \<Longrightarrow> m a \<noteq> None \<Longrightarrow> num_bits (the (put_bytes m a i bs a)) = num_bits (the (m a))"
proof (induction bs arbitrary: m i)
  case (Cons b bs)
  show ?case
  proof (cases "i div 8 = 0")
    case True
    then have "4 \<le> i mod 8" using Cons.prems(1) by auto
    then show ?thesis using Cons True by (auto simp: num_bits_set_byte)
  qed (use Cons in auto)
qed simp

lemma big_put_at:
  assumes "big_at h it a i n" "i < n" "mem h (a + i div 8) \<noteq> None"
  shows "big_at h (big_put it v) a i n"
    "cb_view h (bi_cell (big_put it v)) =
      (cb_view h (bi_cell it))(a + i div 8 \<mapsto> set_byte (the (cb_view h (bi_cell it) (a + i div 8))) i v)"
  using assms byte_mod(2) [of "cb_index (bi_cell it)" i]
  by (auto simp: big_at_def cb_view_def cb_set_def Let_def)

lemma set_big_loop_spec:
  assumes "heap_inv h" "big_at h it a i (n + 4)" "4 \<le> i" "i + length bs \<le> n + 4" "big_cells (mem h) a n"
  obtains h' where "set_big_loop h it bs = ok h'" "heap_inv h'" "same_frame h h'"
    "mem h' = put_bytes (cb_view h (bi_cell it)) a i bs" "\<And>x. mem h' x = None \<longleftrightarrow> mem h x = None"
  using assms
proof (induction bs arbitrary: h it i thesis)
  case Nil
  obtain h' where h': "cb_flush h (bi_cell it) = ok (h', (bi_cell it)\<lparr>cb_dirty := False\<rparr>)" "heap_inv h'" "same_frame h h'"
      "mem h' = cb_view h (bi_cell it)"
    by (rule cb_flush_at [OF Nil.prems(2), of "bi_cell it"]) (use Nil.prems(3) in \<open>auto simp: big_at_def Let_def\<close>)
  have "cb_view h (bi_cell it) x = None \<longleftrightarrow> mem h x = None" for x
    using Nil.prems(3) by (auto simp: cb_view_def big_at_def Let_def)
  then show ?case using h' by (intro Nil.prems(1) [of h']) (simp_all add: big_close_def)
next
  case (Cons b bs)
  have i: "i < n + 4" "4 \<le> n + 4" and m: "mem h (a + i div 8) \<noteq> None"
    using Cons.prems big_cells_byte [OF Cons.prems(6,4)] by auto
  note p = big_put_at [OF Cons.prems(3) i(1) m, of b]
  have c: "mem h (a + Suc i div 8) \<noteq> None" if "Suc i < n + 4"
    using big_cells_byte [OF Cons.prems(6) _ that] Cons.prems(4) by simp
  obtain h1 it1 where s: "big_next h (big_put it b) = ok (h1, it1)" "heap_inv h1" "same_frame h h1" "big_at h1 it1 a (Suc i) (n + 4)"
    "cb_view h1 (bi_cell it1) = cb_view h (bi_cell (big_put it b))" "\<And>x. mem h1 x = None \<longleftrightarrow> mem h x = None"
    by (rule big_next_at [OF Cons.prems(2) p(1) Cons.prems(4) i c]) (use Cons.prems(6) in \<open>auto simp: big_cells_def\<close>)
  have bc: "big_cells (mem h1) a n" by (rule big_cells_mono [OF Cons.prems(6)]) (simp add: s(6))
  obtain h' where h': "set_big_loop h1 it1 bs = ok h'" "heap_inv h'" "same_frame h1 h'"
    "mem h' = put_bytes (cb_view h1 (bi_cell it1)) a (Suc i) bs" "\<And>x. mem h' x = None \<longleftrightarrow> mem h1 x = None"
    by (rule Cons.IH [OF _ s(2,4) _ _ bc]) (use Cons.prems in auto)
  show ?case
    by (rule Cons.prems(1) [of h']) (use s h' p(2) same_frame_trans in auto)
qed

text \<open>The step after the last byte fails when the number ends with a block and the next block does not exist.\<close>

lemma set_big_loop_end:
  assumes "heap_inv h" "big_at h it a i n" "4 \<le> i" "i + length bs = n" "bs \<noteq> []" "n mod 8 = 0"
    "\<And>j. 4 \<le> j \<Longrightarrow> j < n \<Longrightarrow> mem h (a + j div 8) \<noteq> None" "(a + n div 8) mod MAX_SIZE = 0"
    "length (blocks h) \<le> (a + n div 8) div MAX_SIZE"
  shows "set_big_loop h it bs = throw Undefined_behaviour"
  using assms
proof (induction bs arbitrary: h it i)
  case (Cons b bs)
  have i: "i < n" "4 \<le> n" and m: "mem h (a + i div 8) \<noteq> None" using Cons.prems by auto
  note p = big_put_at [OF Cons.prems(2) i(1) m, of b]
  show ?case
  proof (cases "bs = []")
    case Nil: True
    then have e: "Suc i = n" "Suc i mod 8 = 0" using Cons.prems by auto
    then have "a + n div 8 = Suc (a + i div 8)" using Suc_div_8 [of i] by simp
    then have "heap_peek h (Suc (a + i div 8)) = throw Undefined_behaviour" "Suc (a + i div 8) mod MAX_SIZE = 0"
      using Cons.prems(8,9) by (simp_all add: heap_peek_def find_block_def find_block_index_def)
    then show ?thesis
      using e(2) Cons.prems(2) Nil by (simp add: big_next_def set_address_def big_at_def Let_def)
  next
    case ne: False
    then have lt: "Suc i < n" "Suc i \<noteq> n" using Cons.prems(4) by (cases bs; simp)+
    have c: "mem h (a + Suc i div 8) \<noteq> None" using Cons.prems(3,7) lt by simp
    obtain h1 it1 where s: "big_next h (big_put it b) = ok (h1, it1)" "heap_inv h1" "same_frame h h1" "big_at h1 it1 a (Suc i) n"
      "\<And>x. mem h1 x = None \<longleftrightarrow> mem h x = None"
      by (rule big_next_at [OF Cons.prems(1) p(1) Cons.prems(3) i c]) (use lt in auto)
    have "set_big_loop h1 it1 bs = throw Undefined_behaviour"
      by (rule Cons.IH [OF s(2,4)]) (use Cons.prems s(3,5) ne in \<open>simp_all add: same_frame_def\<close>)
    then show ?thesis using s(1) by simp
  qed
qed simp

lemma deref_nonref [simp]: "\<not> is_ref (cell_tag c) \<Longrightarrow> deref h c = ok c"
  by (simp add: deref.simps)

lemma is_ref_simps [simp]: "is_ref REF_T" "is_ref RFW_T" "\<not> is_ref CON_T" "\<not> is_ref STR_T" "\<not> is_ref INT_T"
  "\<not> is_ref BIG_T" "\<not> is_ref DAT_T" "\<not> is_ref FWD_T"
  by (simp_all add: is_ref_iff)

lemma unat_of_nat_small: "n < 2 ^ 64 \<Longrightarrow> unat (of_nat n :: u64) = n"
  by (simp add: unsigned_of_nat take_bit_nat_eq_self)

lemma set_big_spec:
  assumes inv: "heap_inv h" and a: "a < addr_limit" and m: "mem h a = Some c" "length bs = (num_bits c + 7) div 8"
    and c: "big_cells (mem h) a (length bs)"
  obtains h' where "set_big h (big_cell a) bs = ok h'" "heap_inv h'" "same_frame h h'"
    "\<And>x. x \<notin> big_area a (length bs) \<Longrightarrow> mem h' x = mem h x" "\<And>x. mem h' x = None \<longleftrightarrow> mem h x = None"
    "big_data (mem h') a (length bs) = bs" "num_bits (the (mem h' a)) = num_bits (the (mem h a))"
proof -
  obtain it where it: "big_begin h (big_cell a) = ok it" "big_at h it a 4 (length bs + 4)" "\<not> cb_dirty (bi_cell it)"
    using big_begin_reader [OF inv a _ _ m, of "big_cell a"] a by auto
  obtain h' where h': "set_big_loop h it bs = ok h'" "heap_inv h'" "same_frame h h'"
    "mem h' = put_bytes (mem h) a 4 bs" "\<And>x. mem h' x = None \<longleftrightarrow> mem h x = None"
    using set_big_loop_spec [OF inv it(2) _ _ c] it(3) by (auto simp: cb_view_def)
  show thesis
  proof (rule that)
    show "set_big h (big_cell a) bs = ok h'"
      using a mem_size [OF m(1)] h'(1) it(1) by (simp add: set_big_def check_index_def)
    show "mem h' x = mem h x" if "x \<notin> big_area a (length bs)" for x
      unfolding h'(4) by (rule put_bytes_out) (use that in \<open>auto simp: big_area_def\<close>)
    show "big_data (mem h') a (length bs) = bs"
      unfolding h'(4) big_data_def data_bytes_def by (rule nth_equalityI) (simp_all add: put_bytes_data)
    show "num_bits (the (mem h' a)) = num_bits (the (mem h a))"
      unfolding h'(4) by (rule put_bytes_num_bits) (use m in simp_all)
  qed (use h' in simp_all)
qed

lemma get_big_spec:
  assumes inv: "heap_inv h" and m: "mem h a = Some c" "n = (num_bits c + 7) div 8"
    and c: "big_cells (mem h) a n" and n: "0 < n" and s: "hp_size h < addr_limit"
  shows "get_big h (big_cell a) n = ok (big_data (mem h) a n)"
proof -
  have last: "a + (3 + n) div 8 \<in> big_area a n" "a \<in> big_area a n" by (auto simp: big_area_def)
  then have lim: "a + (3 + n) div 8 < hp_size h" "a < hp_size h"
    using c mem_size [of h] by (force simp: has_cells_def big_cells_def)+
  have e: "unat ((of_nat a + (of_nat n + 8 - 1) div 8 - 1) :: u64) = a + (n + 7) div 8 - 1"
  proof -
    have b: "a + (n + 7) div 8 < 2 ^ 64" "n + 7 < 2 ^ 64" using lim s by (simp_all add: addr_limit_def)
    have "(of_nat n + 8 - 1 :: u64) = of_nat (n + 7)" by simp
    then have "(of_nat n + 8 - 1 :: u64) div 8 = of_nat ((n + 7) div 8)"
      unfolding word_arith_nat_div by (simp only: unat_of_nat_small [OF b(2)]) simp
    moreover have "1 \<le> a + (n + 7) div 8" using n by linarith
    ultimately have "(of_nat a + (of_nat n + 8 - 1) div 8 - 1 :: u64) = of_nat (a + (n + 7) div 8 - 1)"
      by (simp add: of_nat_diff)
    then show ?thesis using b(1) by (simp add: unat_of_nat_small)
  qed
  have a: "a < addr_limit" using lim s by simp
  obtain it where it: "big_begin h (big_cell a) = ok it" "big_reader h it a 4 n"
    using big_begin_reader [OF inv a _ _ m, of "big_cell a"] a c by auto
  have "(n + 7) div 8 - 1 \<le> (3 + n) div 8" by linarith
  then have "a + (n + 7) div 8 - 1 < hp_size h" using lim by linarith
  then show ?thesis
    using lim s a get_big_loop_spec [OF it(2), of n] it(1)
    by (simp add: get_big_def check_index_def big_data_def e [simplified])
qed

lemma big_area_cells:
  assumes "0 < bits"
  shows "big_area a ((bits + 7) div 8) = {a ..< a + big_num_cells bits}"
proof -
  have "Suc ((3 + (bits + 7) div 8) div 8) = big_num_cells bits"
    unfolding big_num_cells_def Let_def by (simp split: if_split)
  then show ?thesis unfolding big_area_def by auto
qed

text \<open>Comparing the bytes of two numbers of the same size compares the numbers, most significant byte first.\<close>

definition be_value :: "u8 list \<Rightarrow> nat" where
  "be_value = foldl (\<lambda>n b. n * 256 + unat b) 0"

lemma foldl_be: "foldl (\<lambda>n b. n * 256 + unat (b :: u8)) k bs = k * 256 ^ length bs + be_value bs"
proof (induction bs arbitrary: k)
  case (Cons b bs)
  have "be_value (b # bs) = unat b * 256 ^ length bs + be_value bs"
    using Cons.IH [of "unat b"] by (simp add: be_value_def)
  then show ?case using Cons.IH [of "k * 256 + unat b"] by (simp add: algebra_simps)
qed (simp add: be_value_def)

lemma be_value_Cons: "be_value (b # bs) = unat b * 256 ^ length bs + be_value bs"
  using foldl_be [of "unat b" bs] by (simp add: be_value_def)

lemma be_value_bound: "be_value bs < 256 ^ length bs"
proof (induction bs)
  case (Cons b bs)
  have "unat b < 256" using unsigned_less [of b] by simp
  then have "unat b * 256 ^ length bs + 256 ^ length bs \<le> (256 :: nat) * 256 ^ length bs"
    by (metis Suc_leI add.commute mult_Suc mult_le_mono1)
  then have "unat b * 256 ^ length bs + be_value bs < 256 * 256 ^ length bs" using Cons.IH by linarith
  then show ?case by (simp add: be_value_Cons)
qed (simp add: be_value_def)

lemma be_value_less:
  assumes "length bs = length cs" "b < c"
  shows "be_value (b # bs) < be_value (c # cs)"
proof -
  have "Suc (unat b) * 256 ^ length bs \<le> unat c * 256 ^ length bs"
    using assms(2) by (intro mult_le_mono1) (simp add: word_less_nat_alt)
  then show ?thesis
    using be_value_bound [of bs] assms(1) by (simp add: be_value_Cons)
qed

lemma be_value_inj: "length bs = length cs \<Longrightarrow> be_value bs = be_value cs \<longleftrightarrow> bs = cs"
proof (induction bs cs rule: list_induct2)
  case (Cons b bs c cs)
  show ?case
    using Cons be_value_less [OF Cons.hyps, of b c] be_value_less [OF Cons.hyps [symmetric], of c b]
    by (cases b c rule: linorder_cases) (auto simp: be_value_Cons)
qed simp

definition sgn_compare :: "'a :: linorder \<Rightarrow> 'a \<Rightarrow> int" where
  "sgn_compare x y = (if x < y then - 1 else if y < x then 1 else 0)"

lemma big_compare_loop_spec:
  assumes "big_reader h it a i N" "big_reader h jt b i N" "i + n \<le> N + 4"
  shows "\<exists>k. big_compare_loop h it jt n cost = ok (sgn_compare (be_value (data_bytes (mem h) a i n))
    (be_value (data_bytes (mem h) b i n)), cost + k)"
  using assms
proof (induction n arbitrary: i it jt cost)
  case (Suc n)
  let ?A = "data_bytes (mem h) a (Suc i) n" and ?B = "data_bytes (mem h) b (Suc i) n"
  let ?x = "data_byte (mem h) a i" and ?y = "data_byte (mem h) b i"
  have i: "i < N + 4" using Suc.prems by simp
  obtain it' jt' where nx: "big_next h it = ok (h, it')" "big_reader h it' a (Suc i) N"
    "big_next h jt = ok (h, jt')" "big_reader h jt' b (Suc i) N"
    using big_reader_next [OF Suc.prems(1) i] big_reader_next [OF Suc.prems(2) i] by metis
  note byt = big_reader_get [OF Suc.prems(1) i] big_reader_get [OF Suc.prems(2) i] nx(1,3)
  have IH: "\<exists>k. big_compare_loop h it' jt' n (cost + 1) = ok (sgn_compare (be_value ?A) (be_value ?B), cost + 1 + k)"
    using Suc.prems nx by (intro Suc.IH) auto
  have len: "length ?A = length ?B" by simp
  consider "?x < ?y" | "?y < ?x" | "?x = ?y" by (rule linorder_cases)
  then show ?case
  proof cases
    case 1
    then show ?thesis using be_value_less [OF len 1] by (auto simp: byt Let_def sgn_compare_def intro: exI [of _ 1])
  next
    case 2
    then show ?thesis using be_value_less [OF len [symmetric] 2] by (auto simp: byt Let_def sgn_compare_def intro: exI [of _ 1])
  next
    case 3
    obtain k where "big_compare_loop h it' jt' n (cost + 1) = ok (sgn_compare (be_value ?A) (be_value ?B), cost + 1 + k)"
      using IH by blast
    then show ?thesis
      using 3 by (auto simp: byt Let_def sgn_compare_def be_value_Cons add.assoc intro: exI [of _ "1 + k"])
  qed
qed (auto simp: sgn_compare_def intro: exI [of _ 0])

lemma big_equal_loop_spec:
  assumes "big_reader h it a i N" "big_reader h jt b i N" "i + n \<le> N + 4"
  shows "\<exists>k. big_equal_loop h it jt n cost =
    ok (data_bytes (mem h) a i n = data_bytes (mem h) b i n, cost + k)"
  using assms
proof (induction n arbitrary: i it jt cost)
  case (Suc n)
  have i: "i < N + 4" using Suc.prems by simp
  obtain it' jt' where nx: "big_next h it = ok (h, it')" "big_reader h it' a (Suc i) N"
    "big_next h jt = ok (h, jt')" "big_reader h jt' b (Suc i) N"
    using big_reader_next [OF Suc.prems(1) i] big_reader_next [OF Suc.prems(2) i] by metis
  note byt = big_reader_get [OF Suc.prems(1) i] big_reader_get [OF Suc.prems(2) i] nx(1,3)
  obtain k where "big_equal_loop h it' jt' n (cost + 1) =
      ok (data_bytes (mem h) a (Suc i) n = data_bytes (mem h) b (Suc i) n, cost + 1 + k)"
    using Suc.IH [OF nx(2,4), of "cost + 1"] Suc.prems by auto
  then show ?case by (auto simp: byt Let_def add.assoc intro: exI [of _ "1 + k"] exI [of _ 1])
qed (auto intro: exI [of _ 0])

lemma big_compare_spec:
  assumes inv: "heap_inv h" and m: "mem h a = Some c" "mem h b = Some d" and lim: "a < addr_limit" "b < addr_limit"
    and cells: "big_cells (mem h) a ((num_bits c + 7) div 8)" "big_cells (mem h) b ((num_bits d + 7) div 8)"
  shows "\<exists>k1 k2. big_equal h (big_cell a) (big_cell b) = ok (num_bits c = num_bits d \<and>
      big_data (mem h) a ((num_bits c + 7) div 8) = big_data (mem h) b ((num_bits d + 7) div 8), k1) \<and>
    big_compare h (big_cell a) (big_cell b) = ok (if num_bits c \<noteq> num_bits d then sgn_compare (num_bits c) (num_bits d)
      else sgn_compare (be_value (big_data (mem h) a ((num_bits c + 7) div 8)))
        (be_value (big_data (mem h) b ((num_bits d + 7) div 8))), k2)"
proof -
  have n: "heap_num_bits h (big_cell a) = ok (num_bits c)" "heap_num_bits h (big_cell b) = ok (num_bits d)"
    using m lim by (simp_all add: heap_num_bits_def heap_get_ok [OF inv, THEN iffD2])
  show ?thesis
  proof (cases "num_bits c = num_bits d")
    case True
    let ?n = "(num_bits d + 7) div 8"
    obtain it where it: "big_begin h (big_cell a) = ok it" "big_reader h it a 4 ?n"
      using big_begin_reader [OF inv lim(1) _ _ m(1), of "big_cell a" ?n] lim cells True by auto
    obtain jt where jt: "big_begin h (big_cell b) = ok jt" "big_reader h jt b 4 ?n"
      using big_begin_reader [OF inv lim(2) _ _ m(2), of "big_cell b" ?n] lim cells by auto
    show ?thesis
      using True n it(1) jt(1) big_compare_loop_spec [OF it(2) jt(2), of ?n 1] big_equal_loop_spec [OF it(2) jt(2), of ?n 1]
      by (auto simp: big_equal_def big_compare_def big_data_def)
  qed (use n in \<open>auto simp: big_equal_def big_compare_def sgn_compare_def\<close>)
qed

subsection \<open>Properties\<close>

text \<open>C28: dereferencing.  In a heap whose references stay inside a region and have no cycle, \<open>deref\<close> ends
  for every cell that refers into the region; it returns a cell that is not a reference, or an unbound
  variable (a cell that refers to itself); \<open>deref_with_cost\<close> returns the same cell.\<close>

theorem deref_total:
  assumes "heap_inv h" "refs_closed (mem h) D" "acyclic (ref_edges (mem h) D)"
    and "is_ref (cell_tag c) \<longrightarrow> cell_index c \<in> D"
  shows "\<exists>d. deref h c = ok d \<and> (is_ref (cell_tag d) \<longrightarrow> heap_get h (cell_index d) = ok d) \<and>
    (\<exists>k. deref_with_cost h c = ok (d, k))"
proof -
  obtain d where d: "derefs (mem h) c d"
    using derefs_total [OF assms(2) ref_edges_wf [OF assms(2) refs_closed_finite assms(3)] assms(4)] assms(2) by blast
  obtain k where "deref_with_cost h c = ok (d, k)" using deref_with_cost_derefs [OF assms(1) d] by blast
  then show ?thesis
    using deref_derefs [OF assms(1) d] derefs_root [OF d] assms(1) by (auto simp: root_def heap_get_ok [THEN iffD2])
qed

text \<open>A small heap: the chain \<open>0 \<rightarrow> 1 \<rightarrow> 2\<close> ends in an integer, cell 3 is an unbound variable, and cells 4 and 5
  hold a big number of 40 bits.\<close>

definition sample_heap :: heap where
  "sample_heap = heap_new\<lparr>hp_size := 6, head_block := Some 0, blocks := [\<lparr>hb_index = 0, hb_size = 6, hb_changed = True,
     hb_cells = [0 \<mapsto> ref_cell 1, 1 \<mapsto> ref_cell 2, 2 \<mapsto> int_cell 7, 3 \<mapsto> ref_cell 3, 4 \<mapsto> dat_cell 40, 5 \<mapsto> 0]\<rparr>]\<rparr>"

lemma sample_heap_inv: "heap_inv sample_heap"
  by (simp add: sample_heap_def heap_inv_def heap_new_def MAX_SIZE_def)

lemma sample_heap_mem:
  "mem sample_heap = [0 \<mapsto> ref_cell 1, 1 \<mapsto> ref_cell 2, 2 \<mapsto> int_cell 7, 3 \<mapsto> ref_cell 3, 4 \<mapsto> dat_cell 40, 5 \<mapsto> 0]"
  by (auto simp: mem_def sample_heap_def heap_new_def MAX_SIZE_def fun_eq_iff)

lemma small_addr: "n < 2 ^ 61 \<Longrightarrow> n < addr_limit"
  by (simp add: addr_limit_def)

theorem deref_total_witness:
  "\<exists>d. deref sample_heap (ref_cell 0) = ok d \<and> (is_ref (cell_tag d) \<longrightarrow> heap_get sample_heap (cell_index d) = ok d) \<and>
    (\<exists>k. deref_with_cost sample_heap (ref_cell 0) = ok (d, k))"
proof (rule deref_total [OF sample_heap_inv])
  have e: "ref_edges (mem sample_heap) {0, 1, 2, 3} = {(0, 1), (1, 2)}"
    by (auto simp: ref_edges_def sample_heap_mem small_addr)
  show "refs_closed (mem sample_heap) {0, 1, 2, 3}"
    by (simp add: refs_closed_def sample_heap_mem small_addr)
  have "wf (less_than)" by simp
  moreover have "(ref_edges (mem sample_heap) {0, 1, 2, 3}) \<subseteq> less_than" unfolding e by auto
  ultimately show "acyclic (ref_edges (mem sample_heap) {0, 1, 2, 3})" by (blast intro: wf_acyclic wf_subset)
  show "is_ref (cell_tag (ref_cell 0)) \<longrightarrow> cell_index (ref_cell 0) \<in> {0, 1, 2, 3}" by (simp add: small_addr)
qed

text \<open>C29: new structures.  \<open>new_str\<close> on a heap in its invariant succeeds for every functor but the protected
  one; all earlier cells are kept; the new term has the functor asked for, and each of its arguments is a fresh
  unbound variable.  While coin security is on, \<open>new_str\<close> refuses to create a \<open>$coin\<close> structure.\<close>

theorem new_str_correct:
  assumes inv: "heap_inv h" and size: "hp_size h + MAX_SIZE + 4098 < addr_limit"
  shows "(coin_security_enabled h \<and> con = COIN \<longrightarrow> new_str h con = throw Coin_security) \<and>
    (\<not> (coin_security_enabled h \<and> con = COIN) \<and> cell_tag con = CON_T \<longrightarrow>
      (\<exists>h' s. new_str h con = ok (h', s) \<and> heap_inv h' \<and> (\<forall>x<hp_size h. mem h' x = mem h x) \<and>
        functor_of h' s = ok con \<and>
        (\<forall>i<arity con. arg h' s i = ok (ref_cell (cell_index s + 1 + i)) \<and> hp_size h \<le> cell_index s + 1 + i \<and>
           heap_get h' (cell_index s + 1 + i) = ok (ref_cell (cell_index s + 1 + i)))))"
proof (intro conjI impI)
  assume "coin_security_enabled h \<and> con = COIN"
  then show "new_str h con = throw Coin_security" by (simp add: new_str_def coin_security_check_def)
next
  assume a: "\<not> (coin_security_enabled h \<and> con = COIN) \<and> cell_tag con = CON_T"
  obtain h' p where n: "new_str h con = ok (h', str_cell (p + 1))" "heap_ext h h'" "hp_size h \<le> p"
    "hp_size h' = p + 2 + arity con" "mem h' p = Some (str_cell (p + 1))" "mem h' (p + 1) = Some con"
    "\<And>i. i < arity con \<Longrightarrow> mem h' (p + 2 + i) = Some (ref_cell (p + 2 + i))" "p \<le> hp_size h + MAX_SIZE"
    using new_str_spec [OF inv, of con] a by metis
  note inv' = heap_extD(1) [OF n(2)] and g = heap_get_ok [OF heap_extD(1) [OF n(2)], THEN iffD2]
  have lim: "p + 2 + i < addr_limit" if "i \<le> arity con" for i
    using n(8) size arity_bound [of con] that by simp
  have f: "functor_of h' (str_cell (p + 1)) = ok con"
    using g [OF n(6)] a lim [of 0] n(4) by (simp add: functor_of_def functor_str_def check_index_def)
  have "arg h' (str_cell (p + 1)) i = ok (ref_cell (p + 2 + i)) \<and> heap_get h' (p + 2 + i) = ok (ref_cell (p + 2 + i))"
    if "i < arity con" for i
    using g [OF n(7) [OF that]] lim [of 0] lim [of i] that
    by (simp add: arg_def deref.simps [of h' "ref_cell _"])
  then show "\<exists>h' s. new_str h con = ok (h', s) \<and> heap_inv h' \<and> (\<forall>x<hp_size h. mem h' x = mem h x) \<and>
        functor_of h' s = ok con \<and>
        (\<forall>i<arity con. arg h' s i = ok (ref_cell (cell_index s + 1 + i)) \<and> hp_size h \<le> cell_index s + 1 + i \<and>
           heap_get h' (cell_index s + 1 + i) = ok (ref_cell (cell_index s + 1 + i)))"
    using n(1,3) f inv' heap_extD(3) [OF n(2)] lim [of 0] by (intro exI [of _ h'] exI [of _ "str_cell (p + 1)"]) simp
qed

theorem new_str_correct_witness:
  "\<exists>h' s. new_str sample_heap DOTTED_PAIR = ok (h', s) \<and> functor_of h' s = ok DOTTED_PAIR"
proof -
  have "DOTTED_PAIR \<noteq> COIN" "cell_tag DOTTED_PAIR = CON_T"
    by (simp_all add: DOTTED_PAIR_def COIN_def) code_simp
  moreover have "hp_size sample_heap + MAX_SIZE + 4098 < addr_limit"
    by (simp add: sample_heap_def MAX_SIZE_def addr_limit_def)
  ultimately show ?thesis using new_str_correct [OF sample_heap_inv, of DOTTED_PAIR] by blast
qed

text \<open>C30: atoms within the limits of constant cells.  A name of up to seven characters must not be empty, must be ASCII
  (the cell keeps seven bits of each character) and must have an arity below 32; a longer name must be shorter than
  \<open>MAX_NAME_LENGTH\<close>, must have an arity below 4096, and the atom table must hold fewer than \<open>2^47\<close> names.  Interning such
  a name gives a constant whose name and arity read back, and keeps the names of all constants interned before;
  interning it again gives the same constant.\<close>

theorem atom_roundtrip:
  assumes "atoms_inv h" "atom_ok h name" "length name < MAX_NAME_LENGTH" "n < (if length name \<le> 7 then 32 else 4096)"
  shows "\<exists>h' c. new_functor h name n = ok (h', c) \<and> atoms_inv h' \<and> cell_tag c = CON_T \<and> arity c = n \<and>
    atom_name h' c = ok name \<and> new_functor h' name n = ok (h', c) \<and>
    (\<forall>d m. atom_name h d = ok m \<longrightarrow> atom_name h' d = ok m)"
proof -
  obtain h' c where s: "new_functor h name n = ok (h', c)" "atoms_inv h'" "cell_tag c = CON_T" "arity c = n"
    "atom_name h' c = ok name" "\<And>d m. atom_name h d = ok m \<Longrightarrow> atom_name h' d = ok m"
    using new_functor_spec [OF assms(1,2,4,3)] by metis
  have "new_functor h' name n = ok (h', c)"
  proof (cases "length name > 7")
    case True
    then obtain i where r: "resolve_atom_index h name = (h', i)" "c = con_cell_index i n"
      using s(1) assms(3) by (auto simp: new_functor_def split: prod.splits)
    then show ?thesis
      using True assms(3) resolve_atom_index_spec(2) [OF assms(1) r(1)]
      by (simp add: new_functor_def resolve_atom_index_def [of h'])
  qed (use s(1) in \<open>auto simp: new_functor_def bindR_ok_iff\<close>)
  then show ?thesis using s by blast
qed

theorem atom_roundtrip_witness:
  "\<exists>h' c. new_functor heap_new ''succ_or_zero'' 2 = ok (h', c) \<and> arity c = 2 \<and> atom_name h' c = ok ''succ_or_zero''"
proof -
  have "atom_ok heap_new ''succ_or_zero''" by (simp add: atom_ok_def heap_new_def)
  then show ?thesis using atom_roundtrip [OF atoms_inv_new, of "''succ_or_zero''" 2] by (auto simp: MAX_NAME_LENGTH_def)
qed

lemma mod8_4: "k mod 8 = 4 \<longleftrightarrow> (k + 4) mod 8 = (0 :: nat)"
  by presburger

text \<open>C31: big numbers.  A new big number of \<open>bits\<close> bits occupies exactly the cells its header announces.  Unless the
  number both ends with its last cell and reaches the end of a block (or goes past it), the bytes written to it read
  back, its size is kept, and all other cells are unchanged.  In the case left out the iterator looks at the cell after
  the number: when the number fills the last block of the heap, \<open>set_big\<close> accesses a block that does not exist.\<close>

theorem big_roundtrip:
  assumes "heap_inv h" "0 < bits" "bits < 2 ^ 29" "length bs = (bits + 7) div 8" "hp_size h + 2 ^ 29 < addr_limit"
  shows "\<exists>h1 big. new_big h bits = ok (h1, big) \<and> hp_size h1 = hp_size h + num_cells (dat_cell bits) \<and>
    (length bs mod 8 \<noteq> 4 \<or> hp_size h1 div MAX_SIZE = hp_size h div MAX_SIZE \<longrightarrow>
      (\<exists>h2. set_big h1 big bs = ok h2 \<and> heap_inv h2 \<and> hp_size h2 = hp_size h1 \<and>
        get_big h2 big (length bs) = ok bs \<and> heap_num_bits h2 big = ok bits \<and> (\<forall>x<hp_size h. mem h2 x = mem h x))) \<and>
    (length bs mod 8 = 4 \<and> hp_size h1 = length (blocks h1) * MAX_SIZE \<longrightarrow> set_big h1 big bs = throw Undefined_behaviour)"
proof -
  let ?a = "hp_size h" and ?n = "num_cells (dat_cell bits)" and ?k = "length bs"
  obtain h1 where h1: "new_big h bits = ok (h1, big_cell ?a)" "heap_ext h h1" "hp_size h1 = ?a + ?n"
    "mem h1 ?a = Some (dat_cell bits)" "\<And>x. ?a < x \<Longrightarrow> x < hp_size h1 \<Longrightarrow> mem h1 x = Some 0"
    using new_big_spec [OF assms(1,3)] by blast
  note inv1 = heap_extD(1) [OF h1(2)]
  have bits: "num_bits (dat_cell bits) = bits" by (rule num_bits_dat [OF assms(3)])
  have area: "big_area ?a ?k = {?a ..< ?a + ?n}"
    using big_area_cells [OF assms(2), of ?a] big_cells_agree [OF assms(3)] assms(4) by simp
  have c: "has_cells (mem h1) (big_area ?a ?k)"
    unfolding area has_cells_def
  proof
    fix x assume "x \<in> {?a ..< ?a + ?n}"
    then show "mem h1 x \<noteq> None" using h1(3,4) h1(5) [of x] by (cases "x = ?a") auto
  qed
  have pos: "0 < ?k" using assms(2,4) by linarith
  have fin: "hp_size h1 = ?a + (?k + 4) div 8" if "?k mod 8 = 4"
  proof -
    have "{?a .. ?a + (3 + ?k) div 8} = {?a ..< ?a + ?n}" using area by (simp add: big_area_def)
    then have "card {?a .. ?a + (3 + ?k) div 8} = card {?a ..< ?a + ?n}" by (rule arg_cong)
    then have "?n = Suc ((3 + ?k) div 8)" by simp
    moreover have "(?k + 4) div 8 = Suc ((3 + ?k) div 8)"
      using that Suc_div_8 [of "3 + ?k"] by (simp add: mod8_4 add.commute)
    ultimately show ?thesis using h1(3) by simp
  qed
  have lim: "?a < addr_limit" using assms(5) by simp
  have len: "?k = (num_bits (dat_cell bits) + 7) div 8" using assms(4) bits by simp
  have good: "\<exists>h2. set_big h1 (big_cell ?a) bs = ok h2 \<and> heap_inv h2 \<and> hp_size h2 = hp_size h1 \<and>
      get_big h2 (big_cell ?a) ?k = ok bs \<and> heap_num_bits h2 (big_cell ?a) = ok bits \<and> (\<forall>x<?a. mem h2 x = mem h x)"
    if g: "?k mod 8 \<noteq> 4 \<or> hp_size h1 div MAX_SIZE = ?a div MAX_SIZE"
  proof -
    have bc: "big_cells (mem h1) ?a ?k" using c g fin by (auto simp: big_cells_def big_end_def mod8_4)
    obtain h2 where h2: "set_big h1 (big_cell ?a) bs = ok h2" "heap_inv h2" "same_frame h1 h2"
      "\<And>x. x \<notin> big_area ?a ?k \<Longrightarrow> mem h2 x = mem h1 x" "\<And>x. mem h2 x = None \<longleftrightarrow> mem h1 x = None"
      "big_data (mem h2) ?a ?k = bs" "num_bits (the (mem h2 ?a)) = num_bits (the (mem h1 ?a))"
      using set_big_spec [OF inv1 lim h1(4) len bc] by blast
    obtain c2 where c2: "mem h2 ?a = Some c2" using h2(5) [of ?a] h1(4) by auto
    then have nb: "num_bits c2 = bits" using h2(7) h1(4) bits by simp
    have "?n \<le> 2 ^ 28"
      using assms(3) unfolding num_cells_def num_half_cells_def num_bits_dat [OF assms(3)] by simp
    then have "hp_size h2 < addr_limit" using h1(3) h2(3) assms(5) by (simp add: same_frame_def)
    moreover have "big_cells (mem h2) ?a ?k" by (rule big_cells_mono [OF bc]) (simp add: h2(5))
    ultimately have "get_big h2 (big_cell ?a) ?k = ok bs"
      using get_big_spec [OF h2(2) c2, of ?k] pos nb assms(4) h2(6) by simp
    moreover have "heap_num_bits h2 (big_cell ?a) = ok bits"
      using c2 nb h2(2) lim by (simp add: heap_num_bits_def heap_get_ok [THEN iffD2])
    moreover have "mem h2 x = mem h x" if "x < ?a" for x
      using that h2(4) [of x] heap_extD(3) [OF h1(2) that] area by simp
    ultimately show ?thesis using h2(1,2,3) by (auto simp: same_frame_def)
  qed
  have bad: "set_big h1 (big_cell ?a) bs = throw Undefined_behaviour"
    if g: "?k mod 8 = 4" "hp_size h1 = length (blocks h1) * MAX_SIZE"
  proof -
    obtain it where it: "big_begin h1 (big_cell ?a) = ok it" "big_at h1 it ?a 4 (?k + 4)"
      using big_begin_reader [OF inv1 lim _ _ h1(4) len, of "big_cell ?a"] lim by auto
    have e: "?a + (?k + 4) div 8 = length (blocks h1) * MAX_SIZE" using fin g by simp
    have "set_big_loop h1 it bs = throw Undefined_behaviour"
    proof (rule set_big_loop_end [OF inv1 it(2)])
      show "(?k + 4) mod 8 = 0" using g(1) by (simp add: mod8_4)
      show "mem h1 (?a + j div 8) \<noteq> None" if "4 \<le> j" "j < ?k + 4" for j
        using c in_big_area [of j ?k ?a] that by (auto simp: has_cells_def)
    qed (use e pos in auto)
    then show ?thesis using lim mem_size [OF h1(4)] it(1) by (simp add: set_big_def check_index_def)
  qed
  show ?thesis using h1(1,3) good bad by blast
qed

theorem big_roundtrip_witness:
  "\<exists>h1 big h2. new_big sample_heap 40 = ok (h1, big) \<and> set_big h1 big [1, 2, 3, 4, 5] = ok h2 \<and>
    get_big h2 big (length [1 :: u8, 2, 3, 4, 5]) = ok [1, 2, 3, 4, 5]"
proof -
  have "hp_size sample_heap + 2 ^ 29 < addr_limit" by (simp add: sample_heap_def addr_limit_def)
  then show ?thesis using big_roundtrip [OF sample_heap_inv, of 40 "[1, 2, 3, 4, 5]"] by fastforce
qed

text \<open>C32: comparing big numbers.  For numbers whose cells all exist (and, for a number that ends with a cell after a
  block boundary, the cell after it, which the iterator looks at), \<open>big_equal\<close> holds exactly when sizes and bytes agree;
  \<open>big_compare\<close> compares the sizes in bits first and then the numbers the bytes stand for, most significant byte
  first.\<close>

theorem big_compare_correct:
  assumes "heap_inv h" "mem h a = Some c" "mem h b = Some d" "a < addr_limit" "b < addr_limit"
    and "big_cells (mem h) a ((num_bits c + 7) div 8)" "big_cells (mem h) b ((num_bits d + 7) div 8)"
  shows "\<exists>k1 k2. big_equal h (big_cell a) (big_cell b) = ok (num_bits c = num_bits d \<and>
      big_data (mem h) a ((num_bits c + 7) div 8) = big_data (mem h) b ((num_bits d + 7) div 8), k1) \<and>
    big_compare h (big_cell a) (big_cell b) = ok (if num_bits c \<noteq> num_bits d then sgn_compare (num_bits c) (num_bits d)
      else sgn_compare (be_value (big_data (mem h) a ((num_bits c + 7) div 8)))
        (be_value (big_data (mem h) b ((num_bits d + 7) div 8))), k2)"
  by (rule big_compare_spec [OF assms])

theorem big_compare_correct_witness:
  "\<exists>k1 k2. big_equal sample_heap (big_cell 4) (big_cell 4) = ok (True, k1) \<and>
    big_compare sample_heap (big_cell 4) (big_cell 4) = ok (0, k2)"
proof -
  have "big_cells (mem sample_heap) 4 ((num_bits (dat_cell 40) + 7) div 8)"
    by (auto simp: big_cells_def big_end_def has_cells_def big_area_def sample_heap_mem)
  then show ?thesis
    using big_compare_correct [OF sample_heap_inv, of 4 "dat_cell 40" 4 "dat_cell 40"]
    by (simp add: sample_heap_mem small_addr sgn_compare_def)
qed

end
