(* ===== verification/Lru_Cache.thy ===== *)
theory Lru_Cache
  imports Prelude
begin

section \<open>The LRU cache\<close>

text \<open>
  \<^verbatim>\<open>src/src/common/lru_cache.hpp\<close>.  The access list holds nodes; the map stores, beside the value, an
  iterator to a node.  A node is a pair of its identity and the key it holds, an iterator is the
  identity.  The callback object records the evictions it is told of, oldest first.
\<close>

datatype lru_error = Back_of_empty_list

record ('k, 'v) lru_cache =
  capacity :: nat
  lru_map :: "'k \<Rightarrow> ('v \<times> nat) option"
  lru_access :: "(nat \<times> 'k) list"
  next_node :: nat
  evictions :: "('k \<times> 'v) list"

definition lru_new :: "nat \<Rightarrow> ('k, 'v) lru_cache" where
  "lru_new cap = \<lparr>capacity = cap, lru_map = Map.empty, lru_access = [], next_node = 0, evictions = []\<rparr>"

text \<open>\<open>std::list::erase\<close> and \<open>push_front\<close>.\<close>

definition node_erase :: "nat \<Rightarrow> (nat \<times> 'k) list \<Rightarrow> (nat \<times> 'k) list" where
  "node_erase i xs = filter (\<lambda>n. fst n \<noteq> i) xs"

definition lru_push_front :: "'k \<Rightarrow> ('k, 'v) lru_cache \<Rightarrow> ('k, 'v) lru_cache" where
  "lru_push_front k c = c\<lparr>lru_access := (next_node c, k) # lru_access c, next_node := Suc (next_node c)\<rparr>"

definition lru_erase :: "'k \<Rightarrow> ('k, 'v) lru_cache \<Rightarrow> ('k, 'v) lru_cache" where
  "lru_erase key c = (case lru_map c key of
       None \<Rightarrow> c
     | Some (removed_value, access_it) \<Rightarrow>
         c\<lparr>lru_access := node_erase access_it (lru_access c),
           lru_map := (lru_map c)(key := None),
           evictions := evictions c @ [(key, removed_value)]\<rparr>)"

definition lru_insert :: "'k \<Rightarrow> 'v \<Rightarrow> ('k, 'v) lru_cache \<Rightarrow> (lru_error, ('k, 'v) lru_cache) res" where
  "lru_insert key v c = (case lru_map c key of
       Some _ \<Rightarrow> ok c
     | None \<Rightarrow>
         bindR (if length (lru_access c) \<ge> capacity c then
                  (if lru_access c = [] then throw Back_of_empty_list
                   else ok (lru_erase (snd (last (lru_access c))) c))
                else ok c)
           (\<lambda>c. let c' = lru_push_front key c
                 in ok (c'\<lparr>lru_map := (lru_map c')(key \<mapsto> (v, fst (hd (lru_access c'))))\<rparr>)))"

definition lru_find :: "'k \<Rightarrow> ('k, 'v) lru_cache \<Rightarrow> 'v option \<times> ('k, 'v) lru_cache" where
  "lru_find key c = (case lru_map c key of
       None \<Rightarrow> (None, c)
     | Some (v, access_it) \<Rightarrow>
         (let c1 = c\<lparr>lru_access := node_erase access_it (lru_access c)\<rparr>;
              c2 = lru_push_front key c1
          in (Some v, c2\<lparr>lru_map := (lru_map c2)(key \<mapsto> (v, fst (hd (lru_access c2))))\<rparr>)))"

text \<open>The loop of \<open>clear\<close> ends only because \<open>erase\<close> really removes the node it is given.\<close>

partial_function (option) lru_clear :: "('k, 'v) lru_cache \<Rightarrow> ('k, 'v) lru_cache option" where
  "lru_clear c = (if lru_access c = [] then Some c else lru_clear (lru_erase (snd (last (lru_access c))) c))"

definition lru_foreach :: "'k list \<Rightarrow> ('k \<Rightarrow> 'v \<Rightarrow> 'v) \<Rightarrow> ('k, 'v) lru_cache \<Rightarrow> ('k, 'v) lru_cache" where
  "lru_foreach order apply_fn c =
     c\<lparr>lru_map := fold (\<lambda>k m. case m k of None \<Rightarrow> m | Some (v, it) \<Rightarrow> m(k \<mapsto> (apply_fn k v, it))) order (lru_map c)\<rparr>"

subsection \<open>Invariant and abstraction\<close>

text \<open>Every mapped key is held by exactly the node its iterator designates, and the other way round.\<close>

definition lru_inv :: "('k, 'v) lru_cache \<Rightarrow> bool" where
  "lru_inv c \<longleftrightarrow> distinct (map fst (lru_access c)) \<and> distinct (map snd (lru_access c)) \<and>
     (\<forall>i k. (i, k) \<in> set (lru_access c) \<longrightarrow> i < next_node c \<and> (\<exists>v. lru_map c k = Some (v, i))) \<and>
     (\<forall>k v i. lru_map c k = Some (v, i) \<longrightarrow> (i, k) \<in> set (lru_access c)) \<and>
     length (lru_access c) \<le> capacity c"

definition recency :: "('k, 'v) lru_cache \<Rightarrow> 'k list" where
  "recency c = map snd (lru_access c)"

definition content :: "('k, 'v) lru_cache \<Rightarrow> 'k \<Rightarrow> 'v option" where
  "content c k = map_option fst (lru_map c k)"

lemma lru_invD:
  assumes "lru_inv c"
  shows "distinct (map fst (lru_access c))" "distinct (recency c)" "length (recency c) \<le> capacity c"
    "(i, k) \<in> set (lru_access c) \<Longrightarrow> i < next_node c"
    "(i, k) \<in> set (lru_access c) \<Longrightarrow> \<exists>v. lru_map c k = Some (v, i)"
    "lru_map c k = Some (v, i) \<Longrightarrow> (i, k) \<in> set (lru_access c)"
  using assms by (auto simp: lru_inv_def recency_def)

lemma recency_content:
  assumes "lru_inv c"
  shows "set (recency c) = {k. content c k \<noteq> None}"
proof -
  have "k \<in> set (recency c) \<longleftrightarrow> (\<exists>i. (i, k) \<in> set (lru_access c))" for k
    by (force simp: recency_def)
  moreover have "(\<exists>i. (i, k) \<in> set (lru_access c)) \<longleftrightarrow> content c k \<noteq> None" for k
    using lru_invD(5,6) [OF assms] by (auto simp: content_def) blast+
  ultimately have "k \<in> set (recency c) \<longleftrightarrow> content c k \<noteq> None" for k by simp
  then show ?thesis by blast
qed

lemma node_unique:
  assumes "distinct (map fst xs)" "distinct (map snd xs)" "(i, k) \<in> set xs" "n \<in> set xs"
  shows "fst n = i \<longleftrightarrow> snd n = k"
  using assms by (metis distinct_map fst_conv inj_onD snd_conv)

lemma node_erase_recency:
  assumes "distinct (map fst xs)" "distinct (map snd xs)" "(i, k) \<in> set xs"
  shows "map snd (node_erase i xs) = filter (\<lambda>k'. k' \<noteq> k) (map snd xs)"
  unfolding node_erase_def filter_map comp_def
  by (rule arg_cong [where f = "map snd"], rule filter_cong) (use node_unique [OF assms] in auto)

lemma node_erase_set: "n \<in> set (node_erase i xs) \<longleftrightarrow> n \<in> set xs \<and> fst n \<noteq> i"
  by (auto simp: node_erase_def)

lemma node_erase_length: "length (node_erase i xs) \<le> length xs"
  by (simp add: node_erase_def)

lemma node_erase_distinct: "distinct (map f xs) \<Longrightarrow> distinct (map f (node_erase i xs))"
  by (simp add: node_erase_def distinct_map_filter)

lemma node_erase_length_less:
  assumes "(i, k) \<in> set xs"
  shows "length (node_erase i xs) < length xs"
  using assms unfolding node_erase_def by (metis (mono_tags, lifting) fst_conv length_filter_less)

text \<open>Under the invariant a node leaves the list exactly when its key leaves the map.\<close>

lemma lru_inv_mapped:
  assumes "lru_inv c" "lru_map c key = Some (v, it)" "(i, k) \<in> set (lru_access c)"
  shows "i = it \<longleftrightarrow> k = key"
  using node_unique [OF lru_invD(1) [OF assms(1)], of it key "(i, k)"] assms lru_invD(2,6) [OF assms(1)]
  by (auto simp: recency_def)

lemma lru_erase_inv:
  assumes inv: "lru_inv c"
  shows "lru_inv (lru_erase key c)"
proof (cases "lru_map c key")
  case (Some p)
  then obtain v it where m: "lru_map c key = Some (v, it)" by (cases p) auto
  show ?thesis
    unfolding lru_inv_def
  proof (intro conjI allI impI)
    fix i k assume "(i, k) \<in> set (lru_access (lru_erase key c))"
    then have "(i, k) \<in> set (lru_access c)" "k \<noteq> key"
      using lru_inv_mapped [OF inv m] by (auto simp: lru_erase_def m node_erase_set)
    then show "i < next_node (lru_erase key c)" "\<exists>v. lru_map (lru_erase key c) k = Some (v, i)"
      using lru_invD(4,5) [OF inv] by (auto simp: lru_erase_def m)
  next
    fix k w i assume "lru_map (lru_erase key c) k = Some (w, i)"
    then have "lru_map c k = Some (w, i)" "k \<noteq> key" by (auto simp: lru_erase_def m split: if_splits)
    then show "(i, k) \<in> set (lru_access (lru_erase key c))"
      using lru_invD(6) [OF inv, of k w i] lru_inv_mapped [OF inv m, of i k]
      by (simp add: lru_erase_def m node_erase_set)
  qed (use lru_invD(1-3) [OF inv] in \<open>auto simp: lru_erase_def m recency_def
      intro: node_erase_distinct order_trans [OF node_erase_length]\<close>)
qed (use inv in \<open>simp add: lru_erase_def\<close>)

lemma lru_erase_spec:
  assumes inv: "lru_inv c"
  shows "recency (lru_erase key c) = filter (\<lambda>k. k \<noteq> key) (recency c)"
    and "content (lru_erase key c) = (content c)(key := None)"
    and "capacity (lru_erase key c) = capacity c"
    and "evictions (lru_erase key c) =
      evictions c @ (case content c key of None \<Rightarrow> [] | Some v \<Rightarrow> [(key, v)])"
proof -
  have "recency (lru_erase key c) = filter (\<lambda>k. k \<noteq> key) (recency c)"
  proof (cases "lru_map c key")
    case None
    then have "key \<notin> set (recency c)" by (simp add: recency_content [OF inv] content_def)
    then have "filter (\<lambda>k. k \<noteq> key) (recency c) = recency c" by (auto simp: filter_id_conv)
    then show ?thesis by (simp add: lru_erase_def None)
  next
    case (Some p)
    then show ?thesis
      using node_erase_recency [OF lru_invD(1) [OF inv], of "snd p" key] lru_invD(2) [OF inv]
        lru_invD(6) [OF inv, of key "fst p" "snd p"]
      by (cases p) (simp add: lru_erase_def recency_def)
  qed
  then show "recency (lru_erase key c) = filter (\<lambda>k. k \<noteq> key) (recency c)" .
qed (auto simp: lru_erase_def content_def fun_eq_iff split: option.splits)

text \<open>Linking a fresh node for \<open>key\<close>: the common end of \<open>insert\<close> and \<open>find\<close>.\<close>

definition lru_link :: "'k \<Rightarrow> 'v \<Rightarrow> ('k, 'v) lru_cache \<Rightarrow> ('k, 'v) lru_cache" where
  "lru_link key v c = (let c' = lru_push_front key c
     in c'\<lparr>lru_map := (lru_map c')(key \<mapsto> (v, fst (hd (lru_access c'))))\<rparr>)"

lemma lru_link_simps [simp]:
  "lru_access (lru_link key v c) = (next_node c, key) # lru_access c"
  "lru_map (lru_link key v c) = (lru_map c)(key \<mapsto> (v, next_node c))"
  "next_node (lru_link key v c) = Suc (next_node c)"
  "capacity (lru_link key v c) = capacity c" "evictions (lru_link key v c) = evictions c"
  by (simp_all add: lru_link_def lru_push_front_def Let_def)

lemma lru_link_spec:
  "recency (lru_link key v c) = key # recency c" "content (lru_link key v c) = (content c)(key \<mapsto> v)"
  by (auto simp: recency_def content_def)

lemma lru_link_inv:
  assumes inv: "lru_inv c" and new: "lru_map c key = None" and room: "length (lru_access c) < capacity c"
  shows "lru_inv (lru_link key v c)"
proof -
  have "key \<notin> set (recency c)" using new by (simp add: recency_content [OF inv] content_def)
  moreover have "next_node c \<notin> fst ` set (lru_access c)"
    using lru_invD(4) [OF inv] by force
  moreover have "k \<noteq> key" if "(i, k) \<in> set (lru_access c)" for i k
    using lru_invD(5) [OF inv that] new by auto
  ultimately show ?thesis
    using inv room unfolding lru_inv_def by (auto simp: recency_def less_Suc_eq)
qed

lemma lru_find_link:
  assumes inv: "lru_inv c" and m: "lru_map c key = Some (v, it)"
  shows "lru_find key c = (Some v, lru_link key v (lru_erase key c)\<lparr>evictions := evictions c\<rparr>)"
  by (simp add: lru_find_def m lru_link_def lru_erase_def lru_push_front_def Let_def)

lemma lru_inv_evictions [simp]: "lru_inv (c\<lparr>evictions := l\<rparr>) = lru_inv c"
  by (simp add: lru_inv_def)

lemma recency_content_evictions [simp]:
  "recency (c\<lparr>evictions := l\<rparr>) = recency c" "content (c\<lparr>evictions := l\<rparr>) = content c"
  by (simp_all add: recency_def content_def fun_eq_iff)

lemma lru_erase_length:
  assumes "lru_inv c" "lru_map c key \<noteq> None"
  shows "length (lru_access (lru_erase key c)) < length (lru_access c)"
  using assms node_erase_length_less [OF lru_invD(6) [OF assms(1)]]
  by (auto simp: lru_erase_def)

lemma lru_erase_map: "lru_map (lru_erase key c) = (lru_map c)(key := None)"
  by (auto simp: lru_erase_def split: option.splits)

lemma lru_find_inv:
  assumes inv: "lru_inv c"
  shows "lru_inv (snd (lru_find key c))"
proof (cases "lru_map c key")
  case (Some p)
  then obtain v it where m: "lru_map c key = Some (v, it)" by (cases p) auto
  have "length (lru_access (lru_erase key c)) < capacity (lru_erase key c)"
    using lru_erase_length [OF inv, of key] lru_invD(3) [OF inv] lru_erase_spec(3) [OF inv] m
    by (auto simp: recency_def)
  then show ?thesis
    using lru_link_inv [OF lru_erase_inv [OF inv], of key key v]
    by (simp add: lru_find_link [OF inv m] lru_erase_map)
qed (use inv in \<open>simp add: lru_find_def\<close>)

lemma lru_find_spec:
  assumes inv: "lru_inv c"
  shows "fst (lru_find key c) = content c key"
    and "content (snd (lru_find key c)) = content c"
    and "recency (snd (lru_find key c)) =
      (if content c key = None then recency c else key # filter (\<lambda>k. k \<noteq> key) (recency c))"
    and "evictions (snd (lru_find key c)) = evictions c"
    and "capacity (snd (lru_find key c)) = capacity c"
proof -
  have "fst (lru_find key c) = content c key \<and> content (snd (lru_find key c)) = content c \<and>
    recency (snd (lru_find key c)) =
      (if content c key = None then recency c else key # filter (\<lambda>k. k \<noteq> key) (recency c)) \<and>
    evictions (snd (lru_find key c)) = evictions c \<and> capacity (snd (lru_find key c)) = capacity c"
  proof (cases "lru_map c key")
    case (Some p)
    then obtain v it where m: "lru_map c key = Some (v, it)" by (cases p) auto
    then have "content c key = Some v" by (simp add: content_def)
    then show ?thesis
      by (auto simp: lru_find_link [OF inv m] lru_link_spec lru_erase_spec [OF inv])
  qed (simp add: lru_find_def content_def)
  then show "fst (lru_find key c) = content c key" "content (snd (lru_find key c)) = content c"
    "recency (snd (lru_find key c)) =
      (if content c key = None then recency c else key # filter (\<lambda>k. k \<noteq> key) (recency c))"
    "evictions (snd (lru_find key c)) = evictions c" "capacity (snd (lru_find key c)) = capacity c"
    by blast+
qed

subsection \<open>Insertion and eviction\<close>

text \<open>The cache before the new key is linked: the least recently used key has gone if the cache was full.\<close>

definition lru_make_room :: "('k, 'v) lru_cache \<Rightarrow> ('k, 'v) lru_cache" where
  "lru_make_room c = (if length (lru_access c) \<ge> capacity c then lru_erase (last (recency c)) c else c)"

lemma lru_insert_link:
  assumes "lru_map c key = None" "0 < capacity c"
  shows "lru_insert key v c = ok (lru_link key v (lru_make_room c))"
  using assms by (auto simp: lru_insert_def lru_link_def lru_make_room_def recency_def last_map Let_def)

lemma lru_make_room_inv:
  assumes inv: "lru_inv c" and cap: "0 < capacity c"
  shows "lru_inv (lru_make_room c)" "length (lru_access (lru_make_room c)) < capacity (lru_make_room c)"
proof -
  have "length (lru_access (lru_erase (last (recency c)) c)) < capacity c"
    if full: "capacity c \<le> length (lru_access c)"
  proof -
    have "recency c \<noteq> []" using full cap by (auto simp: recency_def)
    then have "content c (last (recency c)) \<noteq> None"
      using recency_content [OF inv] last_in_set by blast
    then have "length (lru_access (lru_erase (last (recency c)) c)) < length (lru_access c)"
      using lru_erase_length [OF inv] by (auto simp: content_def)
    then show ?thesis using lru_invD(3) [OF inv] by (simp add: recency_def)
  qed
  then show "length (lru_access (lru_make_room c)) < capacity (lru_make_room c)"
    by (auto simp: lru_make_room_def lru_erase_spec [OF inv])
  show "lru_inv (lru_make_room c)"
    by (simp add: lru_make_room_def inv lru_erase_inv)
qed

lemma lru_insert_inv:
  assumes inv: "lru_inv c" and cap: "0 < capacity c"
  obtains c' where "lru_insert key v c = ok c'" "lru_inv c'" "capacity c' = capacity c"
proof (cases "lru_map c key")
  case None
  have "lru_map (lru_make_room c) key = None"
    using None by (simp add: lru_make_room_def lru_erase_map)
  moreover have "capacity (lru_make_room c) = capacity c"
    by (simp add: lru_make_room_def lru_erase_spec [OF inv])
  ultimately show ?thesis
    using lru_link_inv [OF lru_make_room_inv(1) [OF inv cap]] lru_make_room_inv(2) [OF inv cap]
      that [OF lru_insert_link [OF None cap]] by simp
next
  case (Some p)
  then show ?thesis using that [of c] inv by (simp add: lru_insert_def)
qed

lemma filter_butlast:
  assumes "distinct xs"
  shows "filter (\<lambda>k. k \<noteq> last xs) xs = butlast xs"
proof (cases xs rule: rev_cases)
  case (snoc ys y)
  then show ?thesis using assms by (auto simp: filter_id_conv)
qed simp

lemma lru_insert_spec:
  assumes inv: "lru_inv c" and cap: "0 < capacity c" and new: "content c key = None"
    and i: "lru_insert key v c = ok c'"
  shows "recency c' = key # (if length (recency c) = capacity c then butlast (recency c) else recency c)"
    and "content c' = (if length (recency c) = capacity c then (content c)(last (recency c) := None) else content c)
      (key \<mapsto> v)"
    and "evictions c' = evictions c @ (if length (recency c) = capacity c
      then [(last (recency c), the (content c (last (recency c))))] else [])"
proof -
  have m: "lru_map c key = None" using new by (simp add: content_def)
  have c': "c' = lru_link key v (lru_make_room c)"
    using i lru_insert_link [OF m cap] by simp
  have full: "capacity c \<le> length (lru_access c) \<longleftrightarrow> length (recency c) = capacity c"
    using lru_invD(3) [OF inv] by (auto simp: recency_def)
  have ev: "\<exists>w. content c (last (recency c)) = Some w" if "length (recency c) = capacity c"
  proof -
    have "recency c \<noteq> []" using that cap by auto
    then show ?thesis using recency_content [OF inv] last_in_set by blast
  qed
  show "recency c' = key # (if length (recency c) = capacity c then butlast (recency c) else recency c)"
    by (simp add: c' lru_link_spec lru_make_room_def full lru_erase_spec [OF inv]
        filter_butlast [OF lru_invD(2) [OF inv]])
  show "content c' = (if length (recency c) = capacity c then (content c)(last (recency c) := None) else content c)
      (key \<mapsto> v)"
    by (simp add: c' lru_link_spec lru_make_room_def full lru_erase_spec [OF inv])
  show "evictions c' = evictions c @ (if length (recency c) = capacity c
      then [(last (recency c), the (content c (last (recency c))))] else [])"
    using ev by (auto simp: c' lru_make_room_def full lru_erase_spec [OF inv])
qed

lemma lru_insert_present: "content c key \<noteq> None \<Longrightarrow> lru_insert key v c = ok c"
  by (auto simp: lru_insert_def content_def)

lemma lru_clear_spec:
  assumes "lru_inv c"
  shows "\<exists>c'. lru_clear c = Some c' \<and> lru_access c' = [] \<and> content c' = Map.empty \<and>
    map fst (evictions c') = map fst (evictions c) @ rev (recency c)"
  using assms
proof (induction "length (lru_access c)" arbitrary: c rule: less_induct)
  case less
  show ?case
  proof (cases "lru_access c = []")
    case True
    then have "content c = Map.empty"
      using recency_content [OF less.prems] by (auto simp: recency_def)
    with True show ?thesis by (simp add: lru_clear.simps recency_def)
  next
    case False
    let ?k = "last (recency c)" and ?c = "lru_erase (last (recency c)) c"
    have ne: "recency c \<noteq> []" using False by (simp add: recency_def)
    then obtain v where v: "content c ?k = Some v"
      using recency_content [OF less.prems] last_in_set by blast
    then have "length (lru_access ?c) < length (lru_access c)"
      using lru_erase_length [OF less.prems] by (auto simp: content_def)
    then obtain c' where c': "lru_clear ?c = Some c'" "lru_access c' = []" "content c' = Map.empty"
      "map fst (evictions c') = map fst (evictions ?c) @ rev (recency ?c)"
      using less.hyps [of ?c] lru_erase_inv [OF less.prems] by blast
    have "lru_clear c = lru_clear ?c"
      using False by (subst lru_clear.simps) (simp add: recency_def last_map)
    moreover have "map fst (evictions c') = map fst (evictions c) @ rev (recency c)"
    proof -
      have "rev (recency c) = ?k # rev (butlast (recency c))"
        using arg_cong [OF append_butlast_last_id [OF ne], of rev] by simp
      then show ?thesis
        unfolding c'(4) using v
        by (simp only: lru_erase_spec [OF less.prems] filter_butlast [OF lru_invD(2) [OF less.prems]]) simp
    qed
    ultimately show ?thesis using c' by auto
  qed
qed

subsection \<open>The cache as its clients use it\<close>

text \<open>
  The node, block and stream accessors of the database look a key up and, on a miss, load the value and
  insert it (\<open>get_leaf\<close> and \<open>get_branch\<close> of \<^verbatim>\<open>src/src/db/triedb.hpp\<close>).  What they rely on: a lookup returns the
  cached value and keeps the contents; an insertion of a missing key adds it and may forget other keys,
  never change them.
\<close>

locale read_through_cache =
  fixes inv :: "'c \<Rightarrow> bool"
    and cached :: "'c \<Rightarrow> 'k \<Rightarrow> 'v option"
    and find :: "'k \<Rightarrow> 'c \<Rightarrow> 'v option \<times> 'c"
    and insert :: "'k \<Rightarrow> 'v \<Rightarrow> 'c \<Rightarrow> ('e, 'c) res"
  assumes find_value: "inv c \<Longrightarrow> fst (find k c) = cached c k"
    and find_keeps: "inv c \<Longrightarrow> cached (snd (find k c)) = cached c"
    and find_inv: "inv c \<Longrightarrow> inv (snd (find k c))"
    and insert_missing: "inv c \<Longrightarrow> cached c k = None \<Longrightarrow>
      \<exists>c'. insert k v c = ok c' \<and> inv c' \<and> cached c' k = Some v \<and>
        (\<forall>k'. k' \<noteq> k \<longrightarrow> cached c' k' = None \<or> cached c' k' = cached c k')"
begin

definition coherent :: "('k \<Rightarrow> 'v) \<Rightarrow> 'c \<Rightarrow> bool" where
  "coherent load c \<longleftrightarrow> (\<forall>k v. cached c k = Some v \<longrightarrow> v = load k)"

definition fetch :: "('k \<Rightarrow> 'v) \<Rightarrow> 'k \<Rightarrow> 'c \<Rightarrow> ('e, 'v \<times> 'c) res" where
  "fetch load k c = (case find k c of
       (Some v, c') \<Rightarrow> ok (v, c')
     | (None, c') \<Rightarrow> bindR (insert k (load k) c') (\<lambda>c''. ok (load k, c'')))"

lemma fetch_coherent:
  assumes inv: "inv c" and coh: "coherent load c"
  shows "\<exists>c'. fetch load k c = ok (load k, c') \<and> inv c' \<and> coherent load c' \<and> cached c' k = Some (load k)"
proof (cases "cached c k")
  case None
  let ?c = "snd (find k c)"
  have "cached ?c k = None" using None by (simp add: find_keeps [OF inv])
  from insert_missing [OF find_inv [OF inv] this]
  obtain c' where c': "insert k (load k) ?c = ok c'" "inv c'" "cached c' k = Some (load k)"
    "\<And>k'. k' \<noteq> k \<Longrightarrow> cached c' k' = None \<or> cached c' k' = cached c k'"
    by (metis find_keeps [OF inv])
  have "coherent load c'"
    using coh c'(3,4) unfolding coherent_def by (metis option.distinct(1) option.inject)
  with c' show ?thesis
    using find_value [OF inv, of k] None by (simp add: fetch_def split_beta)
next
  case (Some v)
  then have "v = load k" using coh by (simp add: coherent_def)
  with Some have "fetch load k c = ok (load k, snd (find k c))"
    using find_value [OF inv, of k] by (simp add: fetch_def split_beta)
  moreover have "coherent load (snd (find k c))"
    using coh unfolding coherent_def find_keeps [OF inv] .
  ultimately show ?thesis
    using Some \<open>v = load k\<close> by (simp add: find_keeps [OF inv] find_inv [OF inv])
qed

end

interpretation lru: read_through_cache
  "\<lambda>c. lru_inv c \<and> 0 < capacity c" content lru_find lru_insert
proof
  fix c :: "('k, 'v) lru_cache" and k v
  assume inv: "lru_inv c \<and> 0 < capacity c" and miss: "content c k = None"
  obtain c' where c': "lru_insert k v c = ok c'" "lru_inv c'" "capacity c' = capacity c"
    using lru_insert_inv [of c k v] inv by blast
  have "content c' = (if length (recency c) = capacity c then (content c)(last (recency c) := None) else content c)
      (k \<mapsto> v)"
    by (rule lru_insert_spec(2) [OF _ _ miss c'(1)]) (use inv in simp_all)
  then show "\<exists>c'. lru_insert k v c = ok c' \<and> (lru_inv c' \<and> 0 < capacity c') \<and> content c' k = Some v \<and>
      (\<forall>k'. k' \<noteq> k \<longrightarrow> content c' k' = None \<or> content c' k' = content c k')"
    using c' inv by auto
qed (simp_all add: lru_find_spec lru_find_inv)

subsection \<open>Properties\<close>

text \<open>C26: inserting a missing key into a cache of positive capacity succeeds, keeps the invariant (so at
  most \<open>capacity\<close> keys, each held by one node), puts the key in front, and when the cache was full removes
  exactly the least recently used key, which is the one the eviction callback is told of.\<close>

theorem lru_insert_evicts_lru:
  assumes "lru_inv c" "0 < capacity c" "content c key = None"
  shows "\<exists>c'. lru_insert key v c = ok c' \<and> lru_inv c' \<and>
    (if length (recency c) < capacity c then
       recency c' = key # recency c \<and> content c' = (content c)(key \<mapsto> v) \<and> evictions c' = evictions c
     else recency c' = key # butlast (recency c) \<and>
       content c' = (content c)(last (recency c) := None, key \<mapsto> v) \<and>
       evictions c' = evictions c @ [(last (recency c), the (content c (last (recency c))))])"
proof -
  obtain c' where c': "lru_insert key v c = ok c'" "lru_inv c'"
    using lru_insert_inv [OF assms(1,2)] by blast
  moreover have "length (recency c) \<le> capacity c" by (rule lru_invD(3) [OF assms(1)])
  ultimately show ?thesis
    using lru_insert_spec [OF assms c'(1)] by auto
qed

text \<open>a lookup returns the cached value, changes neither contents nor capacity and tells the callback
  nothing; a hit moves its key to the front of the recency order and leaves the order of the others.\<close>

theorem lru_find_moves_to_front:
  assumes "lru_inv c"
  shows "fst (lru_find key c) = content c key \<and> lru_inv (snd (lru_find key c)) \<and>
    content (snd (lru_find key c)) = content c \<and> evictions (snd (lru_find key c)) = evictions c \<and>
    recency (snd (lru_find key c)) =
      (if content c key = None then recency c else key # filter (\<lambda>k. k \<noteq> key) (recency c))"
  using lru_find_spec [OF assms] lru_find_inv [OF assms] by blast

text \<open>C27: \<open>clear\<close> ends, leaves the cache empty and evicts every key once, least recently used first.\<close>

theorem lru_clear_evicts_all:
  assumes "lru_inv c"
  shows "\<exists>c'. lru_clear c = Some c' \<and> lru_access c' = [] \<and> content c' = Map.empty \<and>
    map fst (evictions c') = map fst (evictions c) @ rev (recency c)"
  by (rule lru_clear_spec [OF assms])

text \<open>A cache of capacity two holding the keys 2 and 5, for the witnesses.\<close>

definition lru_example :: "(nat, nat) lru_cache" where
  "lru_example = \<lparr>capacity = 2, lru_map = [5 \<mapsto> (10, 0), 2 \<mapsto> (20, 1)],
     lru_access = [(1, 2), (0, 5)], next_node = 2, evictions = []\<rparr>"

lemma lru_example_inv: "lru_inv lru_example"
  by (auto simp: lru_inv_def lru_example_def split: if_splits)

lemma lru_example_simps: "capacity lru_example = 2" "recency lru_example = [2, 5]"
  "content lru_example 3 = None" "content lru_example 5 = Some 10"
  by (simp_all add: lru_example_def recency_def content_def)

theorem lru_insert_evicts_lru_witness:
  "\<exists>c'. lru_insert 3 30 lru_example = ok c' \<and> lru_inv c' \<and> recency c' = [3, 2] \<and>
    evictions c' = evictions lru_example @ [(5, 10)]"
  using lru_insert_evicts_lru [OF lru_example_inv, of 3 30] by (auto simp: lru_example_simps)

theorem lru_find_moves_to_front_witness:
  "fst (lru_find 5 lru_example) = Some 10 \<and> recency (snd (lru_find 5 lru_example)) = [5, 2]"
  using lru_find_moves_to_front [OF lru_example_inv, of 5] by (simp add: lru_example_simps)

theorem lru_clear_evicts_all_witness:
  "\<exists>c'. lru_clear lru_example = Some c' \<and> lru_access c' = [] \<and> content c' = Map.empty \<and>
    map fst (evictions c') = map fst (evictions lru_example) @ [5, 2]"
  using lru_clear_evicts_all [OF lru_example_inv] by (simp add: lru_example_simps)

end
