(* ===== verification/Merkle_Trie.thy ===== *)
theory Merkle_Trie
  imports Bits
begin

section \<open>The Merkle trie\<close>

text \<open>
  \<^verbatim>\<open>src/src/common/merkle_trie.hpp\<close>: a radix trie over 64-bit keys, five bits per level, whose branches
  keep a bit mask of the occupied slots and a packed array with one pointer per occupied slot.  A
  branch is owned by its parent, so a pointer is the node it points at.  The hash of a node whose
  memory has not been written is \<open>None\<close>.  \<open>blake2b\<close> and the raw bytes of a value are parameters.
\<close>

datatype trie_error = Shift_out_of_range | Array_out_of_bounds | Bad_child | Null_root

datatype 'v mbranch = MBranch (br_mask: u32) (br_leaf: u32) (br_hash: "u8 list option") (br_data: "'v mchild list")
  and 'v mchild = MNull | MLeaf u64 'v | MSub "'v mbranch"

type_synonym 'v hasher = "(u8 list \<Rightarrow> u8 list) \<times> ('v \<Rightarrow> u8 list)"

definition MAX_BRANCH_BITS :: nat where "MAX_BRANCH_BITS = 5"
definition MAX_BRANCH :: nat where "MAX_BRANCH = 2 ^ MAX_BRANCH_BITS"

text \<open>\<open>std::bitset<MAX_BRANCH>(m).count()\<close>.\<close>

definition bitset_count :: "u32 \<Rightarrow> nat" where
  "bitset_count m = length (filter (bit m) [0..<MAX_BRANCH])"

definition new_root :: "'v mbranch" where
  "new_root = MBranch 0 0 (Some (replicate 32 0)) (replicate MAX_BRANCH MNull)"

definition is_leaf :: "'v mbranch \<Rightarrow> nat \<Rightarrow> bool" where
  "is_leaf b i \<longleftrightarrow> drop_bit i (br_leaf b) AND 1 \<noteq> 0"

definition is_branch :: "'v mbranch \<Rightarrow> nat \<Rightarrow> bool" where
  "is_branch b i \<longleftrightarrow> \<not> is_leaf b i"

definition is_empty :: "'v mbranch \<Rightarrow> nat \<Rightarrow> bool" where
  "is_empty b i \<longleftrightarrow> drop_bit i (br_mask b) AND 1 = 0"

definition num_children :: "'v mbranch \<Rightarrow> nat" where
  "num_children b = bitset_count (br_mask b)"

definition get_child_index :: "'v mbranch \<Rightarrow> nat \<Rightarrow> nat" where
  "get_child_index b i = bitset_count (br_mask b AND (push_bit i 1 - 1))"

definition get_child :: "'v mbranch \<Rightarrow> nat \<Rightarrow> (trie_error, 'v mchild) res" where
  "get_child b i = (let k = get_child_index b i in
     if k < length (br_data b) then ok (br_data b ! k) else throw Array_out_of_bounds)"

definition get_leaf :: "'v mbranch \<Rightarrow> nat \<Rightarrow> (trie_error, u64 \<times> 'v) res" where
  "get_leaf b i = bindR (get_child b i) (\<lambda>c. case c of MLeaf k v \<Rightarrow> ok (k, v) | _ \<Rightarrow> throw Bad_child)"

definition get_branch :: "'v mbranch \<Rightarrow> nat \<Rightarrow> (trie_error, 'v mbranch) res" where
  "get_branch b i = bindR (get_child b i) (\<lambda>c. case c of MSub s \<Rightarrow> ok s | _ \<Rightarrow> throw Bad_child)"

definition put_child :: "'v mbranch \<Rightarrow> nat \<Rightarrow> 'v mchild \<Rightarrow> (trie_error, 'v mbranch) res" where
  "put_child b i c = (let k = get_child_index b i in
     if k < length (br_data b) then ok (MBranch (br_mask b) (br_leaf b) (br_hash b) ((br_data b)[k := c]))
     else throw Array_out_of_bounds)"

definition set_leaf :: "'v mbranch \<Rightarrow> nat \<Rightarrow> u64 \<Rightarrow> 'v \<Rightarrow> (trie_error, 'v mbranch) res" where
  "set_leaf b i k v =
     put_child (MBranch (br_mask b OR push_bit i 1) (br_leaf b OR push_bit i 1) (br_hash b) (br_data b)) i (MLeaf k v)"

definition set_branch :: "'v mbranch \<Rightarrow> nat \<Rightarrow> 'v mbranch \<Rightarrow> (trie_error, 'v mbranch) res" where
  "set_branch b i s =
     put_child (MBranch (br_mask b OR push_bit i 1) (br_leaf b AND NOT (push_bit i 1)) (br_hash b) (br_data b)) i (MSub s)"

text \<open>The reallocations copy the pointers left and right of the slot; the new node's hash is not set.\<close>

definition n_left :: "'v mbranch \<Rightarrow> nat \<Rightarrow> nat" where
  "n_left b i = bitset_count (br_mask b AND (push_bit i 1 - 1))"

definition n_right :: "'v mbranch \<Rightarrow> nat \<Rightarrow> nat" where
  "n_right b i = bitset_count (drop_bit 1 (drop_bit i (br_mask b)))"

definition reallocate_insert :: "'v mbranch \<Rightarrow> nat \<Rightarrow> (trie_error, 'v mbranch) res" where
  "reallocate_insert b i = (let l = n_left b i; r = n_right b i in
     if l + r \<le> length (br_data b) then
       ok (MBranch (br_mask b) (br_leaf b) None
         (take l (br_data b) @ [MNull] @ take r (drop l (br_data b))))
     else throw Array_out_of_bounds)"

definition reallocate_remove :: "'v mbranch \<Rightarrow> nat \<Rightarrow> (trie_error, 'v mbranch) res" where
  "reallocate_remove b i = (let l = n_left b i; r = n_right b i in
     if l + 1 + r \<le> length (br_data b) then
       ok (MBranch (br_mask b AND NOT (push_bit i 1)) (br_leaf b AND NOT (push_bit i 1)) None
         (take l (br_data b) @ take r (drop (l + 1) (br_data b))))
     else throw Array_out_of_bounds)"

text \<open>The loops over the occupied slots walk the mask with \<open>lsb\<close>.\<close>

definition mask_rest :: "u32 \<Rightarrow> nat \<Rightarrow> u32" where
  "mask_rest m i = m AND push_bit 1 (push_bit i (- 1))"

lemma bit_mask_rest: "n < 32 \<Longrightarrow> bit (mask_rest m i) n \<longleftrightarrow> bit m n \<and> i < n"
  unfolding mask_rest_def bit_and_iff bit_push_bit_iff by auto

lemma mask_rest_less:
  assumes "m \<noteq> 0"
  shows "unat (mask_rest m (lsb32 m)) < unat m"
proof -
  obtain k where k: "lowest_bit m k" using lowest_bit_exists [OF assms] .
  then have i: "lsb32 m = k" and b: "bit m k" and "k < 32"
    using lowest_bit_less [OF k] by (auto simp: lsb32_lowest lowest_bit_def)
  then have "\<not> bit (mask_rest m (lsb32 m)) k" by (simp add: bit_mask_rest)
  with b have "mask_rest m (lsb32 m) \<noteq> m" by metis
  moreover have "mask_rest m (lsb32 m) \<le> m" by (simp add: mask_rest_def word_and_le2)
  ultimately show ?thesis by (simp add: word_less_nat_alt [symmetric])
qed

function mask_slots :: "u32 \<Rightarrow> nat list" where
  "mask_slots m = (if m = 0 then [] else lsb32 m # mask_slots (mask_rest m (lsb32 m)))"
  by auto
termination
  by (relation "measure unat") (simp_all add: mask_rest_less)

declare mask_slots.simps [simp del]

definition leaf_bytes :: "'v hasher \<Rightarrow> u64 \<Rightarrow> 'v \<Rightarrow> u8 list" where
  "leaf_bytes h k v = write_uint64 k @ snd h v"

text \<open>What slot \<open>i\<close> feeds to the hash: \<open>None\<close> when it is the hash of a node that has none yet.\<close>

definition slot_bytes :: "'v hasher \<Rightarrow> 'v mbranch \<Rightarrow> nat \<Rightarrow> (trie_error, u8 list option) res" where
  "slot_bytes h b i =
     (if is_leaf b i then bindR (get_leaf b i) (\<lambda>(k, v). ok (Some (leaf_bytes h k v)))
      else bindR (get_branch b i) (\<lambda>s. ok (br_hash s)))"

primrec hash_loop :: "'v hasher \<Rightarrow> 'v mbranch \<Rightarrow> nat list \<Rightarrow> u8 list option \<Rightarrow> (trie_error, u8 list option) res" where
  "hash_loop h b [] acc = ok acc"
| "hash_loop h b (i # is) acc = bindR (slot_bytes h b i)
     (\<lambda>bs. hash_loop h b is (Option.bind acc (\<lambda>a. map_option (\<lambda>x. a @ x) bs)))"

definition recompute_hash :: "'v hasher \<Rightarrow> 'v mbranch \<Rightarrow> (trie_error, 'v mbranch) res" where
  "recompute_hash h b = bindR (hash_loop h b (mask_slots (br_mask b)) (Some []))
     (\<lambda>r. ok (MBranch (br_mask b) (br_leaf b) (map_option (fst h) r) (br_data b)))"

definition maybe_rehash :: "'v hasher \<Rightarrow> bool \<Rightarrow> 'v mbranch \<Rightarrow> (trie_error, 'v mbranch) res" where
  "maybe_rehash h rehash b = (if rehash then recompute_hash h b else ok b)"

subsection \<open>Insertion, lookup and removal\<close>

definition shift_ok :: "nat \<Rightarrow> nat \<Rightarrow> bool" where
  "shift_ok L at_part \<longleftrightarrow> MAX_BRANCH_BITS + at_part \<le> L \<and> L - MAX_BRANCH_BITS - at_part < 64"

definition sub_index :: "nat \<Rightarrow> nat \<Rightarrow> u64 \<Rightarrow> nat" where
  "sub_index L at_part key = unat (drop_bit (L - MAX_BRANCH_BITS - at_part) key AND (of_nat MAX_BRANCH - 1))"

function insert_part :: "'v hasher \<Rightarrow> nat \<Rightarrow> 'v mbranch \<Rightarrow> nat \<Rightarrow> bool \<Rightarrow> u64 \<Rightarrow> 'v
    \<Rightarrow> (trie_error, 'v mbranch \<times> u64 \<times> 'v) res" where
  "insert_part h L parent at_part rehash key v =
    (if \<not> shift_ok L at_part then throw Shift_out_of_range
     else let i = sub_index L at_part key in
       if is_empty parent i then
         bindR (reallocate_insert parent i) (\<lambda>parent.
         bindR (set_leaf parent i key v) (\<lambda>parent.
         bindR (maybe_rehash h rehash parent) (\<lambda>parent. ok (parent, key, v))))
       else if is_leaf parent i then
         bindR (get_leaf parent i) (\<lambda>(k', v').
           if k' = key then bindR (maybe_rehash h rehash parent) (\<lambda>parent. ok (parent, k', v'))
           else if \<not> shift_ok L (at_part + MAX_BRANCH_BITS) then throw Shift_out_of_range
           else let j = sub_index L (at_part + MAX_BRANCH_BITS) k';
                    new_branch = MBranch (push_bit j 1) (push_bit j 1) None [MLeaf k' v']
             in bindR (insert_part h L new_branch (at_part + MAX_BRANCH_BITS) rehash key v) (\<lambda>(new_branch, leaf1).
                bindR (maybe_rehash h rehash new_branch) (\<lambda>new_branch.
                bindR (set_branch parent i new_branch) (\<lambda>parent.
                bindR (maybe_rehash h rehash parent) (\<lambda>parent. ok (parent, leaf1))))))
       else
         bindR (get_branch parent i) (\<lambda>child.
         bindR (insert_part h L child (at_part + MAX_BRANCH_BITS) rehash key v) (\<lambda>(child, leaf).
         bindR (set_branch parent i child) (\<lambda>parent.
         bindR (maybe_rehash h rehash parent) (\<lambda>parent. ok (parent, leaf))))))"
  by auto
termination
  by (relation "measure (\<lambda>(h, L, b, at_part, r, k, v). L + 5 - at_part)")
    (auto simp: shift_ok_def MAX_BRANCH_BITS_def)

function find_part :: "nat \<Rightarrow> 'v mbranch \<Rightarrow> nat \<Rightarrow> u64 \<Rightarrow> (trie_error, (u64 \<times> 'v) option) res" where
  "find_part L parent at_part key =
    (if \<not> shift_ok L at_part then throw Shift_out_of_range
     else let i = sub_index L at_part key in
       if is_empty parent i then ok None
       else if is_leaf parent i then
         bindR (get_leaf parent i) (\<lambda>(k', v'). ok (if k' = key then Some (k', v') else None))
       else bindR (get_branch parent i) (\<lambda>child. find_part L child (at_part + MAX_BRANCH_BITS) key))"
  by auto
termination
  by (relation "measure (\<lambda>(L, b, at_part, k). L + 5 - at_part)")
    (auto simp: shift_ok_def MAX_BRANCH_BITS_def)

text \<open>The parent pointer after \<open>remove_part\<close> is \<open>None\<close> when the node has been deleted.\<close>

definition finish_remove :: "'v hasher \<Rightarrow> bool \<Rightarrow> 'v mbranch \<Rightarrow> (trie_error, 'v mbranch option \<times> bool) res" where
  "finish_remove h rehash parent =
     (if num_children parent = 0 then ok (None, True)
      else bindR (maybe_rehash h rehash parent) (\<lambda>parent. ok (Some parent, True)))"

function remove_part :: "'v hasher \<Rightarrow> nat \<Rightarrow> 'v mbranch \<Rightarrow> nat \<Rightarrow> bool \<Rightarrow> u64
    \<Rightarrow> (trie_error, 'v mbranch option \<times> bool) res" where
  "remove_part h L parent at_part rehash key =
    (if \<not> shift_ok L at_part then throw Shift_out_of_range
     else let i = sub_index L at_part key in
       if is_empty parent i then ok (Some parent, False)
       else if is_leaf parent i then
         bindR (get_leaf parent i) (\<lambda>(k', v').
           if k' = key then bindR (reallocate_remove parent i) (finish_remove h rehash)
           else ok (Some parent, False))
       else
         bindR (get_branch parent i) (\<lambda>child.
         bindR (remove_part h L child (at_part + MAX_BRANCH_BITS) rehash key) (\<lambda>(child', r).
           if \<not> r then ok (Some parent, False)
           else case child' of
             None \<Rightarrow> bindR (reallocate_remove parent i) (finish_remove h rehash)
           | Some child \<Rightarrow>
               (let other = lsb32 (br_mask child) in
                if num_children child = 1 \<and> is_leaf child other then
                  bindR (get_leaf child other) (\<lambda>(k', v').
                  bindR (set_leaf parent i k' v') (finish_remove h rehash))
                else bindR (set_branch parent i child) (finish_remove h rehash)))))"
  by auto
termination
  by (relation "measure (\<lambda>(h, L, b, at_part, r, k). L + 5 - at_part)")
    (auto simp: shift_ok_def MAX_BRANCH_BITS_def)

declare insert_part.simps [simp del] find_part.simps [simp del] remove_part.simps [simp del]

text \<open>\<open>rehash_all\<close> and \<open>internal_integrity_check\<close> recurse into the child branches; the first argument
  bounds the depth (a trie over \<open>L\<close> bits has \<open>L div 5\<close> levels).\<close>

primrec rehash_slots :: "('v mbranch \<Rightarrow> (trie_error, 'v mbranch) res) \<Rightarrow> nat list \<Rightarrow> 'v mbranch \<Rightarrow> (trie_error, 'v mbranch) res" where
  "rehash_slots rec [] b = ok b"
| "rehash_slots rec (i # is) b =
     (if is_branch b i then
        bindR (get_branch b i) (\<lambda>child.
        bindR (rec child) (\<lambda>child.
        bindR (put_child b i (MSub child)) (rehash_slots rec is)))
      else rehash_slots rec is b)"

fun rehash_all :: "'v hasher \<Rightarrow> nat \<Rightarrow> 'v mbranch \<Rightarrow> (trie_error, 'v mbranch) res" where
  "rehash_all h 0 b = None"
| "rehash_all h (Suc n) b =
     (if br_mask b = 0 then ok b
      else bindR (rehash_slots (rehash_all h n) (mask_slots (br_mask b)) b) (recompute_hash h))"

primrec check_slots :: "('v mbranch \<Rightarrow> (trie_error, bool) res) \<Rightarrow> 'v mbranch \<Rightarrow> nat list \<Rightarrow> (trie_error, bool) res" where
  "check_slots rec b [] = ok True"
| "check_slots rec b (i # is) =
     (if is_branch b i then
        bindR (get_branch b i) (\<lambda>c.
          if num_children c = 1 \<and> is_leaf c (lsb32 (br_mask c)) then ok False
          else bindR (rec c) (\<lambda>r. if r then check_slots rec b is else ok False))
      else check_slots rec b is)"

text \<open>\<open>False\<close> is a failed assertion.\<close>

fun internal_integrity_check :: "nat \<Rightarrow> 'v mbranch \<Rightarrow> (trie_error, bool) res" where
  "internal_integrity_check 0 b = None"
| "internal_integrity_check (Suc n) b =
     (if br_mask b = 0 then ok False
      else check_slots (internal_integrity_check n) b (mask_slots (br_mask b)))"

subsection \<open>The trie object\<close>

record 'v merkle_trie =
  root :: "'v mbranch"
  dirty :: bool
  auto_rehash :: bool

definition trie_new :: "'v merkle_trie" where
  "trie_new = \<lparr>root = new_root, dirty = False, auto_rehash = True\<rparr>"

definition mark_dirty :: "'v merkle_trie \<Rightarrow> 'v merkle_trie" where
  "mark_dirty t = (if auto_rehash t then t else t\<lparr>dirty := True\<rparr>)"

definition trie_insert :: "'v hasher \<Rightarrow> nat \<Rightarrow> u64 \<Rightarrow> 'v \<Rightarrow> 'v merkle_trie \<Rightarrow> (trie_error, 'v merkle_trie) res" where
  "trie_insert h L key v t = bindR (insert_part h L (root t) 0 (auto_rehash t) key v)
     (\<lambda>(r, leaf). ok (mark_dirty (t\<lparr>root := r\<rparr>)))"

definition trie_rehash_all :: "'v hasher \<Rightarrow> nat \<Rightarrow> 'v merkle_trie \<Rightarrow> (trie_error, 'v merkle_trie) res" where
  "trie_rehash_all h n t = bindR (rehash_all h n (root t)) (\<lambda>r. ok (t\<lparr>root := r, dirty := False\<rparr>))"

text \<open>\<open>hash()\<close> asserts that the trie is not dirty.\<close>

definition trie_hash :: "'v merkle_trie \<Rightarrow> u8 list option" where
  "trie_hash t = (if dirty t then None else br_hash (root t))"

definition trie_find :: "nat \<Rightarrow> u64 \<Rightarrow> 'v merkle_trie \<Rightarrow> (trie_error, 'v option) res" where
  "trie_find L key t = bindR (find_part L (root t) 0 key) (\<lambda>leaf. ok (map_option snd leaf))"

text \<open>A default-initialised branch: \<open>new merkle_trie_branch<T,L>()\<close> zeroes the members and has no array.\<close>

definition trie_remove :: "'v hasher \<Rightarrow> nat \<Rightarrow> u64 \<Rightarrow> 'v merkle_trie \<Rightarrow> (trie_error, 'v merkle_trie) res" where
  "trie_remove h L key t = bindR (remove_part h L (root t) 0 (auto_rehash t) key)
     (\<lambda>(r, _). ok (mark_dirty (t\<lparr>root := (case r of None \<Rightarrow> MBranch 0 0 (Some (replicate 32 0)) [] | Some b \<Rightarrow> b)\<rparr>)))"

subsection \<open>The packed array as a function of the slots\<close>

lemma MAX_BRANCH_BITS_5 [simp]: "MAX_BRANCH_BITS = 5"
  by (simp add: MAX_BRANCH_BITS_def)

lemma MAX_BRANCH_32 [simp]: "MAX_BRANCH = 32"
  by (simp add: MAX_BRANCH_def MAX_BRANCH_BITS_def)

definition slots :: "u32 \<Rightarrow> nat list" where
  "slots m = filter (bit m) [0..<32]"

lemma upt_split: "k < n \<Longrightarrow> [0..<n] = [0..<k] @ k # [Suc k..<n]"
  using upt_add_eq_append [of 0 k "n - k"] by (simp add: upt_conv_Cons)

lemma slots_split: "k < 32 \<Longrightarrow>
    slots m = filter (bit m) [0..<k] @ (if bit m k then [k] else []) @ filter (bit m) [Suc k..<32]"
  by (simp add: slots_def upt_split)

lemma set_slots [simp]: "i \<in> set (slots m) \<longleftrightarrow> i < 32 \<and> bit m i"
  by (auto simp: slots_def)

lemma bitset_count_slots: "bitset_count m = length (slots m)"
  by (simp add: bitset_count_def slots_def)

lemma slots_empty_iff: "slots m = [] \<longleftrightarrow> m = 0"
proof
  assume "slots m = []"
  then have "\<not> bit m n" for n
    using bit_imp_le_length [of m n] set_slots [of n m] by (cases "n < 32") auto
  then show "m = 0" by (simp add: bit_eq_iff)
qed (simp add: slots_def)

lemma mask_slots_eq: "mask_slots m = slots m"
proof (induction m rule: mask_slots.induct)
  case (1 m)
  show ?case
  proof (cases "m = 0")
    case False
    then obtain k where k: "lowest_bit m k" using lowest_bit_exists by blast
    then have "k < 32" using lowest_bit_less by fastforce
    have "filter (bit m) [0..<k] = []" using k by (auto simp: lowest_bit_def filter_empty_conv)
    then have "slots m = k # filter (bit m) [Suc k..<32]"
      using k slots_split [OF \<open>k < 32\<close>, of m] by (simp add: lowest_bit_def)
    moreover have "slots (mask_rest m k) = filter (bit m) [Suc k..<32]"
    proof -
      have "filter (bit (mask_rest m k)) [0..<k] = []" "\<not> bit (mask_rest m k) k"
        using \<open>k < 32\<close> by (auto simp: filter_empty_conv bit_mask_rest)
      moreover have "filter (bit (mask_rest m k)) [Suc k..<32] = filter (bit m) [Suc k..<32]"
        by (rule filter_cong) (auto simp: bit_mask_rest)
      ultimately show ?thesis using slots_split [OF \<open>k < 32\<close>, of "mask_rest m k"] by simp
    qed
    ultimately show ?thesis
      using "1.IH" [OF False] False by (simp add: mask_slots.simps [of m] lsb32_lowest [OF k])
  qed (simp add: mask_slots.simps slots_def)
qed

lemma bit_one_shift [simp]: "bit (push_bit i 1 :: u32) n \<longleftrightarrow> n = i \<and> i < 32"
  using bit_exp_iff [of i n, where ?'a = u32] by (auto simp: push_bit_eq_mult dest: bit_imp_le_length)

lemma mask_minus_one: "(push_bit i 1 - 1 :: u32) = mask i"
  by (simp add: mask_eq_exp_minus_1)

lemma count_below:
  assumes "i < 32"
  shows "bitset_count (m AND (push_bit i 1 - 1)) = length (filter (bit m) [0..<i])"
proof -
  have "slots (m AND mask i) = filter (bit m) [0..<i]"
    using slots_split [OF assms, of "m AND mask i"] assms
    by (auto simp: bit_simps intro: filter_cong simp: filter_empty_conv)
  then show ?thesis by (simp only: mask_minus_one bitset_count_slots)
qed

lemma count_above:
  assumes "i < 32"
  shows "bitset_count (drop_bit 1 (drop_bit i m)) = length (filter (bit m) [Suc i..<32])"
proof -
  let ?P = "\<lambda>j. bit m (Suc i + j)"
  have "[0..<32] = [0..<31 - i] @ [31 - i..<32]"
    using upt_add_eq_append [of 0 "31 - i" "Suc i"] assms by simp
  moreover have "filter ?P [31 - i..<32] = []"
    by (auto simp: filter_empty_conv dest: bit_imp_le_length)
  moreover have "[Suc i..<32] = map (\<lambda>j. Suc i + j) [0..<31 - i]"
    using map_add_upt [of "Suc i" "31 - i"] assms by (simp add: add.commute)
  ultimately show ?thesis
    by (simp add: bitset_count_def bit_drop_bit_eq filter_map comp_def add.commute add.left_commute)
qed

text \<open>\<open>rep b f\<close>: the array of \<open>b\<close> holds, in slot order, \<open>f i\<close> for every occupied slot \<open>i\<close>.\<close>

definition rep :: "'v mbranch \<Rightarrow> (nat \<Rightarrow> 'v mchild) \<Rightarrow> bool" where
  "rep b f \<longleftrightarrow> take (length (slots (br_mask b))) (br_data b) = map f (slots (br_mask b))"

definition slot_child :: "'v mbranch \<Rightarrow> nat \<Rightarrow> 'v mchild" where
  "slot_child b i = br_data b ! get_child_index b i"

definition shape_ok :: "'v mbranch \<Rightarrow> bool" where
  "shape_ok b \<longleftrightarrow> num_children b \<le> length (br_data b)"

lemma is_empty_bit: "is_empty b i \<longleftrightarrow> \<not> bit (br_mask b) i"
  and is_leaf_bit: "is_leaf b i \<longleftrightarrow> bit (br_leaf b) i"
  by (simp_all add: is_empty_def is_leaf_def and_one_eq bit_iff_odd_drop_bit odd_iff_mod_2_eq_one)

lemma child_index_eq: "i < 32 \<Longrightarrow> get_child_index b i = length (filter (bit (br_mask b)) [0..<i])"
  unfolding get_child_index_def by (rule count_below)

lemma child_index_less:
  assumes "i < 32" "bit (br_mask b) i"
  shows "get_child_index b i < length (slots (br_mask b))"
  using assms slots_split [OF assms(1), of "br_mask b"] by (simp add: child_index_eq)

lemma slots_nth:
  assumes "i < 32" "bit (br_mask b) i"
  shows "slots (br_mask b) ! get_child_index b i = i"
  using assms slots_split [OF assms(1), of "br_mask b"] by (simp add: child_index_eq nth_append)

lemma rep_length: "rep b f \<Longrightarrow> shape_ok b"
  unfolding rep_def shape_ok_def num_children_def bitset_count_slots
  by (metis length_map length_take min.absorb_iff2 min.commute)

lemma rep_child:
  assumes r: "rep b f" and i: "i < 32" "bit (br_mask b) i"
  shows "get_child b i = ok (f i)" "slot_child b i = f i"
proof -
  note l = child_index_less [OF i] slots_nth [OF i]
  have "br_data b ! get_child_index b i = take (length (slots (br_mask b))) (br_data b) ! get_child_index b i"
    using l by simp
  also have "\<dots> = f i" using r l by (simp add: rep_def)
  finally show "get_child b i = ok (f i)" "slot_child b i = f i"
    using rep_length [OF r] l
    by (simp_all add: get_child_def slot_child_def Let_def shape_ok_def num_children_def bitset_count_slots)
qed

lemma rep_slot_child: "shape_ok b \<Longrightarrow> rep b (slot_child b)"
proof -
  assume s: "shape_ok b"
  show ?thesis
    unfolding rep_def
  proof (rule nth_equalityI)
    show l: "length (take (length (slots (br_mask b))) (br_data b)) = length (map (slot_child b) (slots (br_mask b)))"
      using s by (simp add: shape_ok_def num_children_def bitset_count_slots)
    fix k assume "k < length (take (length (slots (br_mask b))) (br_data b))"
    with l have k: "k < length (slots (br_mask b))" by simp
    let ?i = "slots (br_mask b) ! k"
    have i: "?i < 32" "bit (br_mask b) ?i" using nth_mem [OF k] by simp_all
    have "distinct (slots (br_mask b))" by (simp add: slots_def)
    then have "get_child_index b ?i = k"
      using child_index_less [OF i] slots_nth [OF i] k by (simp add: nth_eq_iff_index_eq)
    then show "take (length (slots (br_mask b))) (br_data b) ! k = map (slot_child b) (slots (br_mask b)) ! k"
      using k by (simp add: slot_child_def)
  qed
qed

subsection \<open>Branches as maps from slots to children\<close>

definition view :: "'v mbranch \<Rightarrow> nat \<Rightarrow> 'v mchild option" where
  "view b i = (if i < 32 \<and> bit (br_mask b) i then Some (slot_child b i) else None)"

fun is_mleaf :: "'v mchild \<Rightarrow> bool" where
  "is_mleaf (MLeaf k v) = True"
| "is_mleaf _ = False"

text \<open>The array is long enough, no pointer is null, and the leaf mask tells the leaves.\<close>

definition good :: "'v mbranch \<Rightarrow> bool" where
  "good b \<longleftrightarrow> shape_ok b \<and> (\<forall>i<32. bit (br_leaf b) i \<longleftrightarrow> (\<exists>c. view b i = Some c \<and> is_mleaf c)) \<and>
     (\<forall>i<32. view b i \<noteq> Some MNull)"

lemma goodD:
  assumes "good b" "i < 32"
  shows "is_empty b i \<longleftrightarrow> view b i = None" "is_leaf b i \<longleftrightarrow> (\<exists>k v. view b i = Some (MLeaf k v))"
    "view b i = Some (MLeaf k v) \<Longrightarrow> get_leaf b i = ok (k, v)"
    "view b i = Some (MSub c) \<Longrightarrow> get_branch b i = ok c" "view b i \<noteq> Some MNull"
  using assms rep_child(1) [OF rep_slot_child, of b i]
  by (auto simp: good_def view_def is_empty_bit is_leaf_bit get_leaf_def get_branch_def
      elim: is_mleaf.elims split: if_splits)

lemma view_None [simp]: "32 \<le> i \<Longrightarrow> view b i = None"
  by (simp add: view_def)

text \<open>How a branch with a given representation is seen.\<close>

lemma view_rep:
  assumes "rep b f"
  shows "view b = (\<lambda>i. if i < 32 \<and> bit (br_mask b) i then Some (f i) else None)"
  using rep_child(2) [OF assms] by (auto simp: view_def)

lemma goodI:
  assumes "rep b f" "\<And>i. i < 32 \<Longrightarrow> bit (br_mask b) i \<Longrightarrow> f i \<noteq> MNull"
    "\<And>i. i < 32 \<Longrightarrow> bit (br_leaf b) i \<longleftrightarrow> bit (br_mask b) i \<and> is_mleaf (f i)"
  shows "good b"
  using assms rep_length [OF assms(1)] by (auto simp: good_def view_rep [OF assms(1)])

lemma good_rep: "good b \<Longrightarrow> rep b (slot_child b)"
  by (simp add: good_def rep_slot_child)

lemma good_slot_child:
  assumes "good b" "i < 32"
  shows "bit (br_leaf b) i \<longleftrightarrow> bit (br_mask b) i \<and> is_mleaf (slot_child b i)"
    "bit (br_mask b) i \<Longrightarrow> slot_child b i \<noteq> MNull"
  using assms by (auto simp: good_def view_def split: if_splits)

lemma bit_set_clear [simp]:
  "bit (m OR push_bit i 1 :: u32) j \<longleftrightarrow> bit m j \<or> j = i \<and> i < 32"
  "bit (m AND NOT (push_bit i 1) :: u32) j \<longleftrightarrow> bit m j \<and> \<not> (j = i \<and> i < 32)"
  using bit_imp_le_length [of m j] by (auto simp: bit_or_iff bit_and_iff bit_not_iff simp del: push_bit_of_1)

lemma mask_set_present: "bit m i \<Longrightarrow> m OR push_bit i 1 = (m :: u32)"
  by (rule bit_word_eqI) (auto simp del: push_bit_of_1)

lemma put_child_rep:
  assumes r: "rep b f" and i: "i < 32" "bit (br_mask b) i"
  obtains b' where "put_child b i c = ok b'" "br_mask b' = br_mask b" "br_leaf b' = br_leaf b"
    "rep b' (f(i := c))"
proof
  let ?b = "MBranch (br_mask b) (br_leaf b) (br_hash b) ((br_data b)[get_child_index b i := c])"
  note l = child_index_less [OF i]
  show "put_child b i c = ok ?b"
    using l rep_length [OF r] by (simp add: put_child_def Let_def shape_ok_def num_children_def bitset_count_slots)
  have d: "distinct (slots (br_mask b))" by (simp add: slots_def)
  have "map (f(i := c)) (slots (br_mask b)) = (map f (slots (br_mask b)))[get_child_index b i := c]"
    using d l slots_nth [OF i]
    by (intro nth_equalityI) (auto simp: nth_list_update nth_eq_iff_index_eq)
  then show "rep ?b (f(i := c))" using r by (simp add: rep_def take_update_swap)
qed simp_all

lemma good_set_leaf:
  assumes g: "good b" and i: "i < 32" and p: "view b i \<noteq> None"
  obtains b' where "set_leaf b i k v = ok b'" "good b'" "view b' = (view b)(i \<mapsto> MLeaf k v)"
proof -
  have b: "bit (br_mask b) i" using p by (auto simp: view_def split: if_splits)
  note m = mask_set_present [OF b]
  let ?b = "MBranch (br_mask b) (br_leaf b OR push_bit i 1) (br_hash b) (br_data b)"
  have "rep ?b (slot_child b)" using good_rep [OF g] by (simp add: rep_def)
  with i b obtain b' where b': "put_child ?b i (MLeaf k v) = ok b'" "br_mask b' = br_mask b"
    "br_leaf b' = br_leaf b OR push_bit i 1" "rep b' ((slot_child b)(i := MLeaf k v))"
    by (metis mbranch.sel(1,2) put_child_rep)
  show thesis
  proof (rule that)
    show "set_leaf b i k v = ok b'" by (simp only: set_leaf_def m b'(1))
    show "good b'"
      using good_slot_child [OF g] b i by (intro goodI [OF b'(4)]) (auto simp: b'(2,3) simp del: push_bit_of_1)
    show "view b' = (view b)(i \<mapsto> MLeaf k v)"
      using i b by (auto simp: view_rep [OF b'(4)] b'(2) view_def fun_eq_iff)
  qed
qed

lemma good_set_branch:
  assumes g: "good b" and i: "i < 32" and p: "view b i \<noteq> None"
  obtains b' where "set_branch b i s = ok b'" "good b'" "view b' = (view b)(i \<mapsto> MSub s)"
proof -
  have b: "bit (br_mask b) i" using p by (auto simp: view_def split: if_splits)
  note m = mask_set_present [OF b]
  let ?b = "MBranch (br_mask b) (br_leaf b AND NOT (push_bit i 1)) (br_hash b) (br_data b)"
  have "rep ?b (slot_child b)" using good_rep [OF g] by (simp add: rep_def)
  with i b obtain b' where b': "put_child ?b i (MSub s) = ok b'" "br_mask b' = br_mask b"
    "br_leaf b' = br_leaf b AND NOT (push_bit i 1)" "rep b' ((slot_child b)(i := MSub s))"
    by (metis mbranch.sel(1,2) put_child_rep)
  show thesis
  proof (rule that)
    show "set_branch b i s = ok b'" by (simp only: set_branch_def m b'(1))
    show "good b'"
      using good_slot_child [OF g] b i by (intro goodI [OF b'(4)]) (auto simp: b'(2,3) simp del: push_bit_of_1)
    show "view b' = (view b)(i \<mapsto> MSub s)"
      using i b by (auto simp: view_rep [OF b'(4)] b'(2) view_def fun_eq_iff)
  qed
qed

text \<open>Around slot \<open>i\<close> the array is the part left of it and the part right of it.\<close>

lemma n_left_right:
  assumes "i < 32"
  shows "n_left b i = length (filter (bit (br_mask b)) [0..<i])"
    "n_right b i = length (filter (bit (br_mask b)) [Suc i..<32])"
  unfolding n_left_def n_right_def using assms by (simp_all only: count_below count_above)

lemma rep_split:
  assumes r: "rep b f" and i: "i < 32"
  shows "take (n_left b i) (br_data b) = map f (filter (bit (br_mask b)) [0..<i])"
    and "take (n_right b i) (drop (n_left b i + of_bool (bit (br_mask b) i)) (br_data b)) =
      map f (filter (bit (br_mask b)) [Suc i..<32])"
    and "n_left b i + of_bool (bit (br_mask b) i) + n_right b i \<le> length (br_data b)"
proof -
  let ?m = "br_mask b" and ?n = "length (slots (br_mask b))"
  have n: "?n = n_left b i + of_bool (bit ?m i) + n_right b i"
    using slots_split [OF i, of ?m] by (simp add: n_left_right [OF i])
  have t: "take ?n (br_data b) = map f (filter (bit ?m) [0..<i]) @
      map f (if bit ?m i then [i] else []) @ map f (filter (bit ?m) [Suc i..<32])"
    using r slots_split [OF i, of ?m] by (simp add: rep_def)
  have "take (n_left b i) (take ?n (br_data b)) = map f (filter (bit ?m) [0..<i])"
    unfolding t by (simp add: n_left_right [OF i])
  then show "take (n_left b i) (br_data b) = map f (filter (bit ?m) [0..<i])"
    using n by (simp add: min_def)
  have "drop (n_left b i + of_bool (bit ?m i)) (take ?n (br_data b)) = map f (filter (bit ?m) [Suc i..<32])"
    unfolding t by (simp add: n_left_right [OF i])
  then show "take (n_right b i) (drop (n_left b i + of_bool (bit ?m i)) (br_data b)) =
      map f (filter (bit ?m) [Suc i..<32])"
    using n by (simp add: drop_take)
  show "n_left b i + of_bool (bit ?m i) + n_right b i \<le> length (br_data b)"
    using rep_length [OF r] n by (simp add: shape_ok_def num_children_def bitset_count_slots)
qed

lemma filter_bits_cong:
  assumes "\<And>j. j \<noteq> i \<Longrightarrow> bit m' j = bit m j"
  shows "filter (bit m') [0..<i] = filter (bit (m :: u32)) [0..<i]"
    "filter (bit m') [Suc i..<n] = filter (bit m) [Suc i..<n]"
  using assms by (auto intro!: filter_cong)

lemma good_insert_leaf:
  assumes g: "good b" and i: "i < 32" and e: "view b i = None"
  obtains b1 b' where "reallocate_insert b i = ok b1" "set_leaf b1 i k v = ok b'" "good b'"
    "view b' = (view b)(i \<mapsto> MLeaf k v)"
proof -
  note r = good_rep [OF g]
  let ?m = "br_mask b" and ?f = "slot_child b"
  have nb: "\<not> bit ?m i" using e i by (simp add: view_def split: if_splits)
  let ?b1 = "MBranch ?m (br_leaf b) None (take (n_left b i) (br_data b) @ [MNull] @
      take (n_right b i) (drop (n_left b i) (br_data b)))"
  have b1: "reallocate_insert b i = ok ?b1"
    using rep_split(3) [OF r i] nb by (simp add: reallocate_insert_def Let_def)
  let ?m' = "?m OR push_bit i 1"
  let ?b2 = "MBranch ?m' (br_leaf b OR push_bit i 1) None (br_data ?b1)"
  have m': "bit ?m' i" using i by (simp del: push_bit_of_1)
  have fl: "filter (bit ?m') [0..<i] = filter (bit ?m) [0..<i]"
    "filter (bit ?m') [Suc i..<32] = filter (bit ?m) [Suc i..<32]"
    by (rule filter_bits_cong; simp del: push_bit_of_1)+
  have s: "slots ?m' = filter (bit ?m) [0..<i] @ i # filter (bit ?m) [Suc i..<32]"
    using slots_split [OF i, of ?m'] m' fl by simp
  have "br_data ?b2 = map (?f(i := MNull)) (slots ?m')"
    unfolding s using rep_split(1,2) [OF r i] nb by auto
  then have "rep ?b2 (?f(i := MNull))" by (simp add: rep_def)
  with i m' obtain b' where b': "put_child ?b2 i (MLeaf k v) = ok b'" "br_mask b' = ?m'"
    "br_leaf b' = br_leaf b OR push_bit i 1" "rep b' (?f(i := MNull, i := MLeaf k v))"
    by (metis mbranch.sel(1,2) put_child_rep)
  have r': "rep b' (?f(i := MLeaf k v))" using b'(4) by simp
  show thesis
  proof (rule that [OF b1])
    show "set_leaf ?b1 i k v = ok b'" using b'(1) by (simp only: set_leaf_def mbranch.sel)
    show "good b'"
      using good_slot_child [OF g] i by (intro goodI [OF r']) (auto simp: b'(2,3) simp del: push_bit_of_1)
    show "view b' = (view b)(i \<mapsto> MLeaf k v)"
      using i by (auto simp: view_rep [OF r'] b'(2) view_def fun_eq_iff simp del: push_bit_of_1)
  qed
qed

lemma good_remove:
  assumes g: "good b" and i: "i < 32" and p: "view b i \<noteq> None"
  obtains b' where "reallocate_remove b i = ok b'" "good b'" "view b' = (view b)(i := None)"
proof -
  note r = good_rep [OF g]
  let ?m = "br_mask b" and ?f = "slot_child b"
  have bi: "bit ?m i" using p i by (simp add: view_def split: if_splits)
  let ?m' = "?m AND NOT (push_bit i 1)"
  let ?b' = "MBranch ?m' (br_leaf b AND NOT (push_bit i 1)) None
      (take (n_left b i) (br_data b) @ take (n_right b i) (drop (n_left b i + 1) (br_data b)))"
  have m': "\<not> bit ?m' i" using i by (simp del: push_bit_of_1)
  have fl: "filter (bit ?m') [0..<i] = filter (bit ?m) [0..<i]"
    "filter (bit ?m') [Suc i..<32] = filter (bit ?m) [Suc i..<32]"
    by (rule filter_bits_cong; simp del: push_bit_of_1)+
  have s: "slots ?m' = filter (bit ?m) [0..<i] @ filter (bit ?m) [Suc i..<32]"
    using slots_split [OF i, of ?m'] m' fl by simp
  have "br_data ?b' = map ?f (slots ?m')"
    unfolding s using rep_split(1,2) [OF r i] bi by simp
  then have r': "rep ?b' ?f" by (simp add: rep_def)
  show thesis
  proof (rule that)
    show "reallocate_remove b i = ok ?b'"
      using rep_split(3) [OF r i] bi by (simp add: reallocate_remove_def Let_def del: push_bit_of_1)
    show "good ?b'"
      using good_slot_child [OF g] i by (intro goodI [OF r']) (auto simp del: push_bit_of_1)
    show "view ?b' = (view b)(i := None)"
      using i by (subst view_rep [OF r']) (auto simp: view_def fun_eq_iff simp del: push_bit_of_1)
  qed
qed

subsection \<open>Hashes\<close>

definition upd_hash :: "'v mbranch \<Rightarrow> u8 list option \<Rightarrow> 'v mbranch" where
  "upd_hash b x = MBranch (br_mask b) (br_leaf b) x (br_data b)"

lemma upd_hash_simps [simp]:
  "br_mask (upd_hash b x) = br_mask b" "br_leaf (upd_hash b x) = br_leaf b"
  "br_hash (upd_hash b x) = x" "view (upd_hash b x) = view b" "good (upd_hash b x) = good b"
  "slot_child (upd_hash b x) = slot_child b" "num_children (upd_hash b x) = num_children b"
  by (simp_all add: upd_hash_def view_def slot_child_def get_child_index_def good_def shape_ok_def
      num_children_def fun_eq_iff)

fun child_bytes :: "'v hasher \<Rightarrow> 'v mchild \<Rightarrow> u8 list option" where
  "child_bytes h (MLeaf k v) = Some (leaf_bytes h k v)"
| "child_bytes h (MSub s) = br_hash s"
| "child_bytes h MNull = None"

definition digest :: "'v hasher \<Rightarrow> 'v mbranch \<Rightarrow> u8 list option" where
  "digest h b = map_option (\<lambda>xs. fst h (concat xs)) (those (map (\<lambda>i. child_bytes h (slot_child b i)) (slots (br_mask b))))"

lemma digest_upd_hash [simp]: "digest h (upd_hash b x) = digest h b"
  by (simp add: digest_def)

lemma slot_bytes_eq:
  assumes "good b" "i < 32" "bit (br_mask b) i"
  shows "slot_bytes h b i = ok (child_bytes h (slot_child b i))"
proof -
  have "view b i = Some (slot_child b i)" using assms by (simp add: view_def)
  then show ?thesis
    using goodD [OF assms(1,2)] by (cases "slot_child b i") (auto simp: slot_bytes_def)
qed

lemma hash_loop_eq:
  assumes "good b" "set is \<subseteq> set (slots (br_mask b))"
  shows "hash_loop h b is acc = ok (Option.bind acc (\<lambda>a.
     map_option (\<lambda>xs. a @ concat xs) (those (map (\<lambda>i. child_bytes h (slot_child b i)) is))))"
  using assms(2)
proof (induction "is" arbitrary: acc)
  case Nil
  then show ?case by (cases acc) simp_all
next
  case (Cons i "is")
  then have "slot_bytes h b i = ok (child_bytes h (slot_child b i))"
    using slot_bytes_eq [OF assms(1), of i h] by auto
  then show ?case
    using Cons by (cases acc; cases "child_bytes h (slot_child b i)";
      cases "those (map (\<lambda>i. child_bytes h (slot_child b i)) is)") simp_all
qed

lemma recompute_hash_eq: "good b \<Longrightarrow> recompute_hash h b = ok (upd_hash b (digest h b))"
  using hash_loop_eq [of b "slots (br_mask b)" h "Some []"]
  by (simp add: recompute_hash_def mask_slots_eq digest_def upd_hash_def option.map_comp comp_def)

lemma maybe_rehash_eq: "good b \<Longrightarrow> maybe_rehash h r b = ok (upd_hash b (if r then digest h b else br_hash b))"
  by (simp add: maybe_rehash_def recompute_hash_eq) (simp add: upd_hash_def)

subsection \<open>Well-formed tries and their contents\<close>

definition key_part :: "nat \<Rightarrow> u64 \<Rightarrow> nat" where
  "key_part n key = unat key div 32 ^ n mod 32"

definition singleton_leaf :: "'v mbranch \<Rightarrow> bool" where
  "singleton_leaf b \<longleftrightarrow> (\<exists>j k v. view b = [j \<mapsto> MLeaf k v])"

text \<open>\<open>wf_branch n pfx b\<close>: \<open>b\<close> is a branch with \<open>n\<close> levels below and including it whose keys start with the
  digits of \<open>pfx\<close>; a child branch is neither empty nor a single leaf.\<close>

fun wf_branch :: "nat \<Rightarrow> nat \<Rightarrow> 'v mbranch \<Rightarrow> bool" where
  "wf_branch 0 pfx b = False"
| "wf_branch (Suc n) pfx b \<longleftrightarrow> good b \<and> (\<forall>i<32. case view b i of
       None \<Rightarrow> True
     | Some MNull \<Rightarrow> False
     | Some (MLeaf k v) \<Rightarrow> unat k div 32 ^ n = pfx * 32 + i
     | Some (MSub c) \<Rightarrow> wf_branch n (pfx * 32 + i) c \<and> view c \<noteq> Map.empty \<and> \<not> singleton_leaf c)"

fun look :: "nat \<Rightarrow> 'v mbranch \<Rightarrow> u64 \<Rightarrow> 'v option" where
  "look 0 b key = None"
| "look (Suc n) b key = (case view b (key_part n key) of
       Some (MLeaf k v) \<Rightarrow> if k = key then Some v else None
     | Some (MSub c) \<Rightarrow> look n c key
     | _ \<Rightarrow> None)"

fun hash_ok :: "'v hasher \<Rightarrow> nat \<Rightarrow> 'v mbranch \<Rightarrow> bool" where
  "hash_ok h 0 b = False"
| "hash_ok h (Suc n) b \<longleftrightarrow> br_hash b \<noteq> None \<and> br_hash b = digest h b \<and>
     (\<forall>i<32. case view b i of Some (MSub c) \<Rightarrow> hash_ok h n c | _ \<Rightarrow> True)"

definition kids_ok :: "'v hasher \<Rightarrow> nat \<Rightarrow> 'v mbranch \<Rightarrow> bool" where
  "kids_ok h n b \<longleftrightarrow> (\<forall>i c. view b i = Some (MSub c) \<longrightarrow> hash_ok h n c)"

lemma view_dom: "view b i = Some c \<Longrightarrow> i < 32"
  by (simp add: view_def split: if_splits)

lemma wf_branchD:
  assumes "wf_branch (Suc n) pfx b"
  shows "good b" "view b i = Some (MLeaf k v) \<Longrightarrow> unat k div 32 ^ n = pfx * 32 + i"
    "view b i = Some (MSub c) \<Longrightarrow> wf_branch n (pfx * 32 + i) c"
    "view b i = Some (MSub c) \<Longrightarrow> view c \<noteq> Map.empty" "view b i = Some (MSub c) \<Longrightarrow> \<not> singleton_leaf c"
  using assms view_dom [of b i] by (force split: option.splits mchild.splits)+

lemma wf_branchI:
  assumes "good b" "\<And>i k v. view b i = Some (MLeaf k v) \<Longrightarrow> unat k div 32 ^ n = pfx * 32 + i"
    "\<And>i c. view b i = Some (MSub c) \<Longrightarrow> wf_branch n (pfx * 32 + i) c \<and> view c \<noteq> Map.empty \<and> \<not> singleton_leaf c"
  shows "wf_branch (Suc n) pfx b"
  using assms goodD(5) [OF assms(1)] by (auto split: option.splits mchild.splits)

lemma wf_upd_hash [simp]: "wf_branch n pfx (upd_hash b x) = wf_branch n pfx b"
  and look_upd_hash [simp]: "look n (upd_hash b x) = look n b"
  by (cases n; simp add: fun_eq_iff singleton_leaf_def)+

lemma hash_ok_iff: "hash_ok h (Suc n) b \<longleftrightarrow> br_hash b \<noteq> None \<and> br_hash b = digest h b \<and> kids_ok h n b"
  by (auto simp: kids_ok_def dest: view_dom split: option.splits mchild.splits)

lemma digest_not_None:
  assumes g: "good b" and k: "kids_ok h n b"
  shows "digest h b \<noteq> None"
proof -
  have "child_bytes h (slot_child b i) \<noteq> None" if "i \<in> set (slots (br_mask b))" for i
  proof -
    have v: "view b i = Some (slot_child b i)" using that by (simp add: view_def)
    show ?thesis
    proof (cases "slot_child b i")
      case (MSub c)
      then have "hash_ok h n c" using k v by (simp add: kids_ok_def)
      then have "br_hash c \<noteq> None" by (cases n) auto
      then show ?thesis using MSub by simp
    qed (use goodD(5) [OF g] v that in auto)
  qed
  then have "those (map (\<lambda>i. child_bytes h (slot_child b i)) is) \<noteq> None" if "set is \<subseteq> set (slots (br_mask b))" for "is"
    using that by (induction "is") (auto split: option.splits)
  then show ?thesis by (simp add: digest_def)
qed

lemma hash_ok_rehash: "good b \<Longrightarrow> kids_ok h n b \<Longrightarrow> hash_ok h (Suc n) (upd_hash b (digest h b))"
  using digest_not_None [of b h n] by (simp add: hash_ok_iff kids_ok_def del: hash_ok.simps)

text \<open>Keys found below a prefix start with it.\<close>

lemma look_prefix:
  assumes "wf_branch n pfx b" "look n b key = Some v"
  shows "unat key div 32 ^ n = pfx"
  using assms
proof (induction n arbitrary: pfx b)
  case (Suc n)
  let ?i = "key_part n key"
  from Suc.prems(2) obtain c where c: "view b ?i = Some c" by (auto split: option.splits)
  have "unat key div 32 ^ n = pfx * 32 + ?i"
  proof (cases c)
    case (MSub d)
    then show ?thesis using c Suc.prems(2) Suc.IH [OF wf_branchD(3) [OF Suc.prems(1)]] by simp
  qed (use c Suc.prems(2) wf_branchD(2) [OF Suc.prems(1)] in \<open>simp_all split: if_splits\<close>)
  moreover have "?i < 32" using c by (rule view_dom)
  moreover have "unat key div 32 ^ Suc n = unat key div 32 ^ n div 32"
    by (simp only: power_Suc2 div_mult2_eq)
  ultimately show ?case by simp
qed simp

lemma part_of_prefix: "unat key div 32 ^ n = pfx * 32 + i \<Longrightarrow> i < 32 \<Longrightarrow> key_part n key = i"
  by (simp add: key_part_def)

lemma prefix_parts: "unat key div 32 ^ Suc n = pfx \<Longrightarrow> unat key div 32 ^ n = pfx * 32 + key_part n key"
  by (simp only: key_part_def power_Suc2 div_mult2_eq) (metis div_mult_mod_eq)

lemma key_part_less [simp]: "key_part n key < 32"
  by (simp add: key_part_def)

lemma look_leaf:
  assumes "wf_branch (Suc n) pfx b" "view b i = Some (MLeaf k v)"
  shows "look (Suc n) b k = Some v"
  using part_of_prefix [OF wf_branchD(2) [OF assms] view_dom [OF assms(2)]] assms(2) by simp

lemma look_sub:
  assumes "wf_branch (Suc n) pfx b" "view b i = Some (MSub c)" "look n c k = Some v"
  shows "look (Suc n) b k = Some v"
  using part_of_prefix [OF look_prefix [OF wf_branchD(3) [OF assms(1,2)] assms(3)] view_dom [OF assms(2)]]
    assms(2,3) by simp

lemma look_singleton:
  "singleton_leaf b \<Longrightarrow> look n b k1 = Some v1 \<Longrightarrow> look n b k2 = Some v2 \<Longrightarrow> k1 = k2"
  by (cases n) (auto simp: singleton_leaf_def split: if_splits)

lemma look_nonempty: "look n b k = Some v \<Longrightarrow> view b \<noteq> Map.empty"
  by (cases n) auto

declare look.simps(2) [simp del] wf_branch.simps(2) [simp del] hash_ok.simps(2) [simp del]

text \<open>A child branch holds at least two keys.\<close>

lemma view_two:
  assumes "view b \<noteq> Map.empty" "\<not> singleton_leaf b" "good b"
  obtains i c where "view b i = Some (MSub c)"
  | i j k l v w where "i \<noteq> j" "view b i = Some (MLeaf k v)" "view b j = Some (MLeaf l w)"
proof -
  obtain i x where x: "view b i = Some x" using assms(1) by (auto simp: fun_eq_iff)
  show thesis
  proof (cases x)
    case (MLeaf k v)
    then have "view b \<noteq> [i \<mapsto> MLeaf k v]" using assms(2) by (auto simp: singleton_leaf_def)
    with x MLeaf obtain j y where "j \<noteq> i" "view b j = Some y"
      by (auto simp: fun_eq_iff split: if_splits)
    then show thesis
      using that x MLeaf goodD(5) [OF assms(3), of j] view_dom [of b j y] by (cases y) blast+
  qed (use that x goodD(5) [OF assms(3), of i] view_dom [of b i] in auto)
qed

lemma wf_two_keys:
  assumes "wf_branch n pfx b" "view b \<noteq> Map.empty" "\<not> singleton_leaf b"
  shows "\<exists>k1 k2 v1 v2. k1 \<noteq> k2 \<and> look n b k1 = Some v1 \<and> look n b k2 = Some v2"
  using assms
proof (induction n arbitrary: pfx b)
  case (Suc n)
  note wf = Suc.prems(1)
  from view_two [OF Suc.prems(2,3) wf_branchD(1) [OF wf]] show ?case
  proof cases
    case (1 i c)
    from Suc.IH [OF wf_branchD(3,4,5) [OF wf 1]] show ?thesis using look_sub [OF wf 1] by metis
  next
    case (2 i j k l v w)
    have "k \<noteq> l"
      using 2 wf_branchD(2) [OF wf 2(2)] wf_branchD(2) [OF wf 2(3)] by auto
    then show ?thesis using look_leaf [OF wf 2(2)] look_leaf [OF wf 2(3)] by blast
  qed
qed simp

lemma wf_some_key:
  assumes "wf_branch n pfx b" "view b \<noteq> Map.empty"
  shows "\<exists>k v. look n b k = Some v"
proof (cases "singleton_leaf b")
  case True
  then obtain j k v where "view b = [j \<mapsto> MLeaf k v]" by (auto simp: singleton_leaf_def)
  then have "view b j = Some (MLeaf k v)" by simp
  then show ?thesis
    using assms(1) look_leaf [of "n - 1" pfx b j k v] by (cases n) auto
qed (use wf_two_keys [OF assms] in blast)

lemma sub_index_part:
  assumes "L = at_part + 5 * Suc n"
  shows "sub_index L at_part key = key_part n key"
proof -
  have e: "L - MAX_BRANCH_BITS - at_part = 5 * n" using assms by (simp add: MAX_BRANCH_BITS_def)
  have m: "(of_nat MAX_BRANCH - 1 :: u64) = mask 5" by (simp add: mask_eq_exp_minus_1)
  have "unat (take_bit 5 (drop_bit (5 * n) key)) = take_bit 5 (drop_bit (5 * n) (unat key))"
    by (simp only: unsigned_take_bit_eq unat_drop_bit_eq)
  then show ?thesis
    unfolding sub_index_def e m
    by (simp add: take_bit_eq_mask [symmetric] key_part_def take_bit_eq_mod drop_bit_eq_div power_mult)
qed

lemma shift_ok_level: "L = at_part + 5 * Suc n \<Longrightarrow> L \<le> 64 \<Longrightarrow> shift_ok L at_part"
  by (simp add: shift_ok_def MAX_BRANCH_BITS_def)

text \<open>\<open>find_part\<close> reads the contents.\<close>

lemma find_part_step:
  assumes g: "good b" and s: "shift_ok L at_part" and i: "sub_index L at_part key < 32"
  shows "find_part L b at_part key = (case view b (sub_index L at_part key) of
      None \<Rightarrow> ok None
    | Some (MLeaf k v) \<Rightarrow> ok (if k = key then Some (k, v) else None)
    | Some (MSub c) \<Rightarrow> find_part L c (at_part + 5) key
    | Some MNull \<Rightarrow> throw Bad_child)"
  using goodD [OF g i] s
  by (subst find_part.simps)
    (auto simp: Let_def MAX_BRANCH_BITS_def split: option.split mchild.split)

lemma find_part_look:
  assumes "wf_branch (Suc n) pfx b" "L = at_part + 5 * Suc n" "L \<le> 64"
  shows "find_part L b at_part key = ok (map_option (\<lambda>v. (key, v)) (look (Suc n) b key))"
  using assms
proof (induction n arbitrary: b pfx at_part)
  case 0
  note wf = "0.prems"(1) and p = sub_index_part [OF "0.prems"(2)]
  have "view b i \<noteq> Some (MSub c)" for i c
    using wf_branchD(3) [OF wf, of i c] by auto
  then show ?case
    using find_part_step [OF wf_branchD(1) [OF wf] shift_ok_level [OF "0.prems"(2,3)], of key]
      goodD(5) [OF wf_branchD(1) [OF wf], of "key_part 0 key"]
    by (auto simp: p look.simps split: option.splits mchild.splits)
next
  case (Suc n)
  note wf = Suc.prems(1) and p = sub_index_part [OF Suc.prems(2)]
  have "find_part L c (at_part + 5) key = ok (map_option (\<lambda>v. (key, v)) (look (Suc n) c key))"
    if "view b (key_part (Suc n) key) = Some (MSub c)" for c
    by (rule Suc.IH [OF wf_branchD(3) [OF wf that]]) (use Suc.prems in simp_all)
  then show ?case
    using find_part_step [OF wf_branchD(1) [OF wf] shift_ok_level [OF Suc.prems(2,3)], of key]
      goodD(5) [OF wf_branchD(1) [OF wf], of "key_part (Suc n) key"]
    by (auto simp: p look.simps(2) [of "Suc n"] split: option.splits mchild.splits)
qed

subsection \<open>Insertion\<close>

text \<open>What insertion has to give at a branch with contents \<open>m\<close>.\<close>

definition inserted :: "'v hasher \<Rightarrow> nat \<Rightarrow> nat \<Rightarrow> u64 \<Rightarrow> 'v \<Rightarrow> 'v mbranch \<Rightarrow> bool \<Rightarrow> 'v mbranch \<times> u64 \<times> 'v \<Rightarrow> bool" where
  "inserted h n pfx key v b rehash r = (case r of (b', k, w) \<Rightarrow>
     k = key \<and> w = (case look n b key of None \<Rightarrow> v | Some x \<Rightarrow> x) \<and> wf_branch n pfx b' \<and>
     look n b' = (look n b)(key \<mapsto> w) \<and> (rehash \<longrightarrow> kids_ok h (n - 1) b \<longrightarrow> hash_ok h n b'))"

lemma rehash_result:
  assumes "good b" "wf_branch (Suc n) pfx b"
  shows "\<exists>b'. maybe_rehash h r b = ok b' \<and> wf_branch (Suc n) pfx b' \<and> look (Suc n) b' = look (Suc n) b \<and>
    view b' = view b \<and> (r \<longrightarrow> kids_ok h n b \<longrightarrow> hash_ok h (Suc n) b')"
  using assms hash_ok_rehash [of b h n]
  by (simp add: maybe_rehash_eq)

lemma look_view_upd:
  assumes "view b' = (view b)(i \<mapsto> c)" "i < 32"
  shows "look (Suc n) b' k = (if key_part n k = i then
      (case c of MLeaf k' v \<Rightarrow> if k' = k then Some v else None | MSub s \<Rightarrow> look n s k | MNull \<Rightarrow> None)
    else look (Suc n) b k)"
  using assms by (auto simp: look.simps(2) split: mchild.splits)

lemma kids_ok_upd:
  assumes "view b' = (view b)(i \<mapsto> c)" "kids_ok h n b" "\<And>s. c = MSub s \<Longrightarrow> hash_ok h n s"
  shows "kids_ok h n b'"
  using assms by (auto simp: kids_ok_def)

lemma wf_view_upd:
  assumes wf: "wf_branch (Suc n) pfx b" and g: "good b'" and v: "view b' = (view b)(i \<mapsto> c)"
    and l: "\<And>k v. c = MLeaf k v \<Longrightarrow> unat k div 32 ^ n = pfx * 32 + i"
    and s: "\<And>s. c = MSub s \<Longrightarrow> wf_branch n (pfx * 32 + i) s \<and> view s \<noteq> Map.empty \<and> \<not> singleton_leaf s"
  shows "wf_branch (Suc n) pfx b'"
  by (rule wf_branchI [OF g]) (use v l s wf_branchD(2-5) [OF wf] in \<open>auto split: if_splits\<close>)

lemma insert_empty:
  assumes wf: "wf_branch (Suc n) pfx b" and L: "L = at_part + 5 * Suc n" "L \<le> 64"
    and p: "unat key div 32 ^ Suc n = pfx" and e: "view b (key_part n key) = None"
  shows "\<exists>r. insert_part h L b at_part rehash key v = ok r \<and> inserted h (Suc n) pfx key v b rehash r"
proof -
  let ?i = "key_part n key"
  note g = wf_branchD(1) [OF wf]
  obtain b1 b2 where b: "reallocate_insert b ?i = ok b1" "set_leaf b1 ?i key v = ok b2" "good b2"
    "view b2 = (view b)(?i \<mapsto> MLeaf key v)"
    by (rule good_insert_leaf [OF g key_part_less e])
  have wf2: "wf_branch (Suc n) pfx b2"
    by (rule wf_view_upd [OF wf b(3,4)]) (use prefix_parts [OF p] in auto)
  obtain b3 where b3: "maybe_rehash h rehash b2 = ok b3" "wf_branch (Suc n) pfx b3"
    "look (Suc n) b3 = look (Suc n) b2" "rehash \<longrightarrow> kids_ok h n b2 \<longrightarrow> hash_ok h (Suc n) b3"
    using rehash_result [OF b(3) wf2] by blast
  have "insert_part h L b at_part rehash key v = ok (b3, key, v)"
    using shift_ok_level [OF L] goodD(1) [OF g, of ?i] e b b3(1)
    by (subst insert_part.simps) (simp add: sub_index_part [OF L(1)])
  moreover have "look (Suc n) b key = None" using e by (simp add: look.simps)
  moreover have "look (Suc n) b2 = (look (Suc n) b)(key \<mapsto> v)"
    using e by (auto simp: fun_eq_iff look_view_upd [OF b(4)] look.simps(2) [of n b])
  moreover have "kids_ok h n b \<Longrightarrow> kids_ok h n b2" by (rule kids_ok_upd [OF b(4)]) simp_all
  ultimately show ?thesis using b3 by (simp add: inserted_def)
qed

lemma insert_same:
  assumes wf: "wf_branch (Suc n) pfx b" and L: "L = at_part + 5 * Suc n" "L \<le> 64"
    and e: "view b (key_part n key) = Some (MLeaf key w)"
  shows "\<exists>r. insert_part h L b at_part rehash key v = ok r \<and> inserted h (Suc n) pfx key v b rehash r"
proof -
  note g = wf_branchD(1) [OF wf]
  obtain b3 where b3: "maybe_rehash h rehash b = ok b3" "wf_branch (Suc n) pfx b3"
    "look (Suc n) b3 = look (Suc n) b" "rehash \<longrightarrow> kids_ok h n b \<longrightarrow> hash_ok h (Suc n) b3"
    using rehash_result [OF g wf] by blast
  have "insert_part h L b at_part rehash key v = ok (b3, key, w)"
    using shift_ok_level [OF L] goodD(1-3) [OF g, of "key_part n key"] e b3(1)
    by (subst insert_part.simps) (simp add: sub_index_part [OF L(1)])
  moreover have "look (Suc n) b key = Some w" using e by (simp add: look.simps)
  ultimately show ?thesis using b3 by (simp add: inserted_def fun_upd_idem)
qed

text \<open>Putting a child branch that got the key back into its slot.\<close>

lemma put_branch_result:
  assumes wf: "wf_branch (Suc n) pfx b" and p: "view b i \<noteq> None" "i < 32"
    and c: "wf_branch n (pfx * 32 + i) c" "view c \<noteq> Map.empty" "\<not> singleton_leaf c"
  obtains b1 b2 where "set_branch b i c = ok b1" "maybe_rehash h rehash b1 = ok b2" "wf_branch (Suc n) pfx b2"
    "\<And>k. look (Suc n) b2 k = (if key_part n k = i then look n c k else look (Suc n) b k)"
    "view b2 \<noteq> Map.empty" "num_children b1 \<noteq> 0"
    "rehash \<longrightarrow> kids_ok h n b \<longrightarrow> hash_ok h n c \<longrightarrow> hash_ok h (Suc n) b2"
proof -
  note g = wf_branchD(1) [OF wf]
  obtain b1 where b1: "set_branch b i c = ok b1" "good b1" "view b1 = (view b)(i \<mapsto> MSub c)"
    by (rule good_set_branch [OF g p(2,1)])
  have wf1: "wf_branch (Suc n) pfx b1" by (rule wf_view_upd [OF wf b1(2,3)]) (use c in auto)
  obtain b2 where b2: "maybe_rehash h rehash b1 = ok b2" "wf_branch (Suc n) pfx b2"
    "look (Suc n) b2 = look (Suc n) b1" "view b2 = view b1" "rehash \<longrightarrow> kids_ok h n b1 \<longrightarrow> hash_ok h (Suc n) b2"
    using rehash_result [OF b1(2) wf1] by blast
  have "look (Suc n) b2 k = (if key_part n k = i then look n c k else look (Suc n) b k)" for k
    using b2(3) look_view_upd [OF b1(3) p(2)] by simp
  moreover have "kids_ok h n b1" if "kids_ok h n b" "hash_ok h n c"
    by (rule kids_ok_upd [OF b1(3)]) (use that in simp_all)
  moreover have "num_children b1 \<noteq> 0"
  proof -
    have "view b1 i \<noteq> None" by (simp add: b1(3))
    then have "i \<in> set (slots (br_mask b1))" by (auto simp: view_def split: if_splits)
    then have "slots (br_mask b1) \<noteq> []" by force
    then show ?thesis by (simp add: num_children_def bitset_count_slots)
  qed
  ultimately show thesis using that [OF b1(1) b2(1,2)] b2(4,5) b1(3) by auto
qed

lemma insert_split:
  assumes wf: "wf_branch (Suc n) pfx b" and L: "L = at_part + 5 * Suc n" "L \<le> 64"
    and p: "unat key div 32 ^ Suc n = pfx" and e: "view b (key_part n key) = Some (MLeaf k' v')" "k' \<noteq> key"
    and IH: "\<And>c pfx. wf_branch n pfx c \<Longrightarrow> unat key div 32 ^ n = pfx \<Longrightarrow>
      \<exists>r. insert_part h L c (at_part + 5) rehash key v = ok r \<and> inserted h n pfx key v c rehash r"
  shows "\<exists>r. insert_part h L b at_part rehash key v = ok r \<and> inserted h (Suc n) pfx key v b rehash r"
proof -
  let ?i = "key_part n key"
  note g = wf_branchD(1) [OF wf]
  have pk: "unat k' div 32 ^ n = pfx * 32 + ?i" "unat key div 32 ^ n = pfx * 32 + ?i"
    using wf_branchD(2) [OF wf e(1)] prefix_parts [OF p] by simp_all
  then have "n \<noteq> 0" using e(2) by (intro notI) (simp add: word_unat_eq_iff)
  then obtain m where m: "n = Suc m" by (cases n) auto
  let ?j = "key_part m k'"
  let ?nb = "MBranch (push_bit ?j 1) (push_bit ?j 1) None [MLeaf k' v'] :: 'a mbranch"
  have s: "slots (push_bit ?j 1) = [?j]"
    using slots_split [of ?j "push_bit ?j 1"] by (auto simp: filter_empty_conv simp del: push_bit_of_1)
  have rep: "rep ?nb (\<lambda>_. MLeaf k' v')" using s by (simp add: rep_def del: push_bit_of_1)
  have gn: "good ?nb" by (rule goodI [OF rep]) (simp_all del: push_bit_of_1)
  have vn: "view ?nb = [?j \<mapsto> MLeaf k' v']"
    by (subst view_rep [OF rep]) (auto simp: fun_eq_iff simp del: push_bit_of_1)
  have wfn: "wf_branch n (pfx * 32 + ?i) ?nb"
    unfolding m by (rule wf_branchI [OF gn])
      (use prefix_parts [of k' m] pk(1) m vn in \<open>auto simp del: push_bit_of_1 split: if_splits\<close>)
  have ln: "look n ?nb = [k' \<mapsto> v']" using vn unfolding m by (auto simp: look.simps fun_eq_iff)
  obtain nb1 where nb1: "insert_part h L ?nb (at_part + 5) rehash key v = ok (nb1, key, v)"
    "wf_branch n (pfx * 32 + ?i) nb1" "look n nb1 = [k' \<mapsto> v', key \<mapsto> v]" "rehash \<longrightarrow> hash_ok h n nb1"
    using IH [OF wfn pk(2)] ln e(2) vn by (auto simp: inserted_def kids_ok_def split: if_splits)
  obtain nb2 where nb2: "maybe_rehash h rehash nb1 = ok nb2" "wf_branch n (pfx * 32 + ?i) nb2"
    "look n nb2 = look n nb1" "rehash \<longrightarrow> hash_ok h n nb2"
    using rehash_result [of nb1 m "pfx * 32 + ?i" h rehash] wf_branchD(1) [of m _ nb1] nb1 m
      hash_ok_iff [of h m nb1] by auto
  have ns: "view nb2 \<noteq> Map.empty" "\<not> singleton_leaf nb2"
    using look_nonempty [of n nb2 key v] look_singleton [of nb2 n key v k' v'] nb1(3) nb2(3) e(2) by auto
  have p: "view b ?i \<noteq> None" using e by simp
  obtain b1 b2 where b: "set_branch b ?i nb2 = ok b1" "maybe_rehash h rehash b1 = ok b2" "wf_branch (Suc n) pfx b2"
    "\<And>k. look (Suc n) b2 k = (if key_part n k = ?i then look n nb2 k else look (Suc n) b k)"
    "rehash \<longrightarrow> kids_ok h n b \<longrightarrow> hash_ok h n nb2 \<longrightarrow> hash_ok h (Suc n) b2"
    using put_branch_result [where h = h and rehash = rehash, OF wf p key_part_less nb2(2) ns] by blast
  have L': "L = at_part + 5 + 5 * Suc m" using L(1) m by simp
  have "insert_part h L b at_part rehash key v = ok (b2, key, v)"
    using shift_ok_level [OF L] shift_ok_level [OF L' L(2)] goodD(1-3) [OF g, of ?i] e nb1(1) nb2(1) b(1,2)
    by (subst insert_part.simps) (simp add: sub_index_part [OF L(1)] sub_index_part [OF L'])
  moreover have "look (Suc n) b key = None" using e by (simp add: look.simps)
  moreover have "look (Suc n) b2 = (look (Suc n) b)(key \<mapsto> v)"
    using e nb1(3) nb2(3) part_of_prefix [OF pk(1)] by (auto simp: fun_eq_iff b(4) look.simps(2) [of n b])
  ultimately show ?thesis using b(3,5) nb2(4) by (simp add: inserted_def)
qed

lemma insert_sub:
  assumes wf: "wf_branch (Suc n) pfx b" and L: "L = at_part + 5 * Suc n" "L \<le> 64"
    and p: "unat key div 32 ^ Suc n = pfx" and e: "view b (key_part n key) = Some (MSub c)"
    and IH: "\<And>c pfx. wf_branch n pfx c \<Longrightarrow> unat key div 32 ^ n = pfx \<Longrightarrow>
      \<exists>r. insert_part h L c (at_part + 5) rehash key v = ok r \<and> inserted h n pfx key v c rehash r"
  shows "\<exists>r. insert_part h L b at_part rehash key v = ok r \<and> inserted h (Suc n) pfx key v b rehash r"
proof -
  let ?i = "key_part n key"
  note g = wf_branchD(1) [OF wf]
  note c = wf_branchD(3-5) [OF wf e]
  obtain c1 w where c1: "insert_part h L c (at_part + 5) rehash key v = ok (c1, key, w)"
    "w = (case look n c key of None \<Rightarrow> v | Some x \<Rightarrow> x)" "wf_branch n (pfx * 32 + ?i) c1"
    "look n c1 = (look n c)(key \<mapsto> w)" "rehash \<longrightarrow> kids_ok h (n - 1) c \<longrightarrow> hash_ok h n c1"
    using IH [OF c(1) prefix_parts [OF p]] by (auto simp: inserted_def)
  obtain k2 v2 where k2: "k2 \<noteq> key" "look n c k2 = Some v2" using wf_two_keys [OF c] by metis
  have ns: "view c1 \<noteq> Map.empty" "\<not> singleton_leaf c1"
    using look_nonempty [of n c1 key w] look_singleton [of c1 n key w k2 v2] k2 c1(4) by auto
  have p': "view b ?i \<noteq> None" using e by simp
  obtain b1 b2 where b: "set_branch b ?i c1 = ok b1" "maybe_rehash h rehash b1 = ok b2" "wf_branch (Suc n) pfx b2"
    "\<And>k. look (Suc n) b2 k = (if key_part n k = ?i then look n c1 k else look (Suc n) b k)"
    "rehash \<longrightarrow> kids_ok h n b \<longrightarrow> hash_ok h n c1 \<longrightarrow> hash_ok h (Suc n) b2"
    using put_branch_result [where h = h and rehash = rehash, OF wf p' key_part_less c1(3) ns] by blast
  have "insert_part h L b at_part rehash key v = ok (b2, key, w)"
    using shift_ok_level [OF L] goodD(1,2,4) [OF g, of ?i] e c1(1) b(1,2)
    by (subst insert_part.simps) (simp add: sub_index_part [OF L(1)])
  moreover have "look (Suc n) b key = look n c key" using e by (simp add: look.simps)
  moreover have "look (Suc n) b2 = (look (Suc n) b)(key \<mapsto> w)"
    using e c1(4) by (auto simp: fun_eq_iff b(4) look.simps(2) [of n b])
  moreover have "kids_ok h (n - 1) c" if "kids_ok h n b"
  proof -
    have "hash_ok h n c" using that e by (simp add: kids_ok_def)
    then show ?thesis by (cases n) (simp_all add: hash_ok_iff)
  qed
  ultimately show ?thesis using b(3,5) c1(2,5) by (simp add: inserted_def)
qed

lemma insert_part_spec:
  assumes "wf_branch (Suc n) pfx b" "L = at_part + 5 * Suc n" "L \<le> 64" "unat key div 32 ^ Suc n = pfx"
  shows "\<exists>r. insert_part h L b at_part rehash key v = ok r \<and> inserted h (Suc n) pfx key v b rehash r"
  using assms
proof (induction n arbitrary: b pfx at_part)
  case 0
  have IH: "\<exists>r. insert_part h L c (at_part + 5) rehash key v = ok r \<and> inserted h 0 pfx key v c rehash r"
    if "wf_branch 0 pfx c" for c pfx using that by simp
  show ?case
    using insert_empty [OF 0] insert_same [OF "0.prems"(1-3)] insert_split [OF 0 _ _ IH] insert_sub [OF 0 _ IH]
      goodD(5) [OF wf_branchD(1) [OF "0.prems"(1)] key_part_less [of 0 key]]
    by (metis mchild.exhaust option.exhaust)
next
  case (Suc n)
  have IH: "\<exists>r. insert_part h L c (at_part + 5) rehash key v = ok r \<and> inserted h (Suc n) pfx key v c rehash r"
    if "wf_branch (Suc n) pfx c" "unat key div 32 ^ Suc n = pfx" for c pfx
    by (rule Suc.IH [OF that(1) _ _ that(2)]) (use Suc.prems in simp_all)
  show ?case
    using insert_empty [OF Suc.prems] insert_same [OF Suc.prems(1-3)] insert_split [OF Suc.prems _ _ IH]
      insert_sub [OF Suc.prems _ IH] goodD(5) [OF wf_branchD(1) [OF Suc.prems(1)] key_part_less [of "Suc n" key]]
    by (metis mchild.exhaust option.exhaust)
qed

subsection \<open>Removal\<close>

definition removed :: "'v hasher \<Rightarrow> nat \<Rightarrow> nat \<Rightarrow> u64 \<Rightarrow> 'v mbranch \<Rightarrow> bool \<Rightarrow> 'v mbranch option \<times> bool \<Rightarrow> bool" where
  "removed h n pfx key b rehash r \<longleftrightarrow>
     (if look n b key = None then r = (Some b, False)
      else snd r \<and> (case fst r of
          None \<Rightarrow> (look n b)(key := None) = Map.empty
        | Some b' \<Rightarrow> wf_branch n pfx b' \<and> view b' \<noteq> Map.empty \<and> look n b' = (look n b)(key := None) \<and>
            (rehash \<longrightarrow> kids_ok h (n - 1) b \<longrightarrow> hash_ok h n b')))"

lemma view_occupied: "i \<in> set (slots (br_mask b)) \<longleftrightarrow> view b i \<noteq> None"
  by (simp add: view_def)

lemma view_empty_iff: "view b = Map.empty \<longleftrightarrow> num_children b = 0"
proof -
  have "num_children b = 0 \<longleftrightarrow> slots (br_mask b) = []" by (simp add: num_children_def bitset_count_slots)
  also have "\<dots> \<longleftrightarrow> (\<forall>i. i \<notin> set (slots (br_mask b)))"
    by (cases "slots (br_mask b)") (auto simp del: set_slots)
  also have "\<dots> \<longleftrightarrow> view b = Map.empty" by (simp only: view_occupied fun_eq_iff simp_thms)
  finally show ?thesis by simp
qed

lemma look_empty: "view b = Map.empty \<Longrightarrow> look n b = Map.empty"
  by (cases n) (auto simp: look.simps)

lemma finish_remove_result:
  assumes wf: "wf_branch (Suc n) pfx b'" and l: "look (Suc n) b' = (look (Suc n) b)(key := None)"
    and p: "look (Suc n) b key \<noteq> None" and k: "kids_ok h n b \<Longrightarrow> rehash \<Longrightarrow> kids_ok h n b'"
  shows "\<exists>r. finish_remove h rehash b' = ok r \<and> removed h (Suc n) pfx key b rehash r"
proof (cases "num_children b' = 0")
  case True
  then have "look (Suc n) b' = Map.empty" by (simp add: look_empty view_empty_iff)
  with True show ?thesis using l p by (simp add: finish_remove_def removed_def)
next
  case False
  obtain b2 where "maybe_rehash h rehash b' = ok b2" "wf_branch (Suc n) pfx b2"
    "look (Suc n) b2 = look (Suc n) b'" "view b2 = view b'" "rehash \<longrightarrow> kids_ok h n b' \<longrightarrow> hash_ok h (Suc n) b2"
    using rehash_result [OF wf_branchD(1) [OF wf] wf] by blast
  with False show ?thesis
    using l p k by (auto simp: finish_remove_def removed_def view_empty_iff)
qed

lemma remove_leaf_same:
  assumes wf: "wf_branch (Suc n) pfx b" and L: "L = at_part + 5 * Suc n" "L \<le> 64"
    and e: "view b (key_part n key) = Some (MLeaf key w)"
  shows "\<exists>r. remove_part h L b at_part rehash key = ok r \<and> removed h (Suc n) pfx key b rehash r"
proof -
  let ?i = "key_part n key"
  note g = wf_branchD(1) [OF wf]
  obtain b1 where b1: "reallocate_remove b ?i = ok b1" "good b1" "view b1 = (view b)(?i := None)"
    by (rule good_remove [OF g key_part_less]) (use e in auto)
  have "wf_branch (Suc n) pfx b1"
    by (rule wf_branchI [OF b1(2)]) (use b1(3) wf_branchD(2-5) [OF wf] in \<open>auto split: if_splits\<close>)
  moreover have "look (Suc n) b1 = (look (Suc n) b)(key := None)"
    using e by (auto simp: fun_eq_iff look.simps b1(3))
  moreover have "kids_ok h n b \<Longrightarrow> kids_ok h n b1" by (auto simp: kids_ok_def b1(3) split: if_splits)
  moreover have "look (Suc n) b key \<noteq> None" using e by (simp add: look.simps)
  ultimately obtain r where r: "finish_remove h rehash b1 = ok r" "removed h (Suc n) pfx key b rehash r"
    using finish_remove_result by blast
  have "remove_part h L b at_part rehash key = ok r"
    using shift_ok_level [OF L] goodD(1-3) [OF g, of ?i] e b1(1) r(1)
    by (subst remove_part.simps) (simp add: sub_index_part [OF L(1)])
  with r show ?thesis by blast
qed

lemma remove_absent:
  assumes wf: "wf_branch (Suc n) pfx b" and L: "L = at_part + 5 * Suc n" "L \<le> 64"
    and e: "view b (key_part n key) = None \<or> (\<exists>k w. view b (key_part n key) = Some (MLeaf k w) \<and> k \<noteq> key)"
  shows "\<exists>r. remove_part h L b at_part rehash key = ok r \<and> removed h (Suc n) pfx key b rehash r"
proof -
  have "remove_part h L b at_part rehash key = ok (Some b, False)"
    using shift_ok_level [OF L] goodD(1-3) [OF wf_branchD(1) [OF wf], of "key_part n key"] e
    by (subst remove_part.simps) (auto simp: sub_index_part [OF L(1)])
  then show ?thesis using e by (auto simp: removed_def look.simps)
qed

text \<open>The test for a single leaf that \<open>remove_part\<close> makes.\<close>

lemma slots_lsb: "m \<noteq> 0 \<Longrightarrow> slots m = lsb32 m # slots (mask_rest m (lsb32 m))"
  using mask_slots.simps [of m] by (simp add: mask_slots_eq)

lemma single_child:
  assumes g: "good c" and one: "num_children c = 1"
  obtains x where "view c = [lsb32 (br_mask c) \<mapsto> x]"
proof -
  have "br_mask c \<noteq> 0" using one by (auto simp: num_children_def bitset_count_def)
  then have s: "slots (br_mask c) = [lsb32 (br_mask c)]"
    using one slots_lsb [of "br_mask c"] by (simp add: num_children_def bitset_count_slots)
  then have "i < 32 \<and> bit (br_mask c) i \<longleftrightarrow> i = lsb32 (br_mask c)" for i
    using set_slots [of i "br_mask c"] by (simp del: set_slots)
  then have "view c = [lsb32 (br_mask c) \<mapsto> slot_child c (lsb32 (br_mask c))]"
    by (auto simp: view_def fun_eq_iff)
  then show thesis by (rule that)
qed

lemma singleton_leaf_num:
  assumes "singleton_leaf c"
  shows "num_children c = 1"
proof -
  obtain j k v where v: "view c = [j \<mapsto> MLeaf k v]" using assms by (auto simp: singleton_leaf_def)
  then have "i \<in> set (slots (br_mask c)) \<longleftrightarrow> i = j" for i
    by (simp add: view_occupied v del: set_slots)
  then have "set (slots (br_mask c)) = {j}" by blast
  moreover have "distinct (slots (br_mask c))" by (simp add: slots_def)
  ultimately have "length (slots (br_mask c)) = 1" by (metis card.empty card_insert_disjoint distinct_card
        finite.emptyI insert_absorb insert_not_empty One_nat_def)
  then show ?thesis by (simp add: num_children_def bitset_count_slots)
qed

lemma singleton_test:
  assumes g: "good c"
  shows "num_children c = 1 \<and> is_leaf c (lsb32 (br_mask c)) \<longleftrightarrow> singleton_leaf c"
    and "singleton_leaf c \<Longrightarrow> \<exists>k v. view c = [lsb32 (br_mask c) \<mapsto> MLeaf k v] \<and>
      get_leaf c (lsb32 (br_mask c)) = ok (k, v)"
proof -
  let ?j = "lsb32 (br_mask c)"
  have *: "\<exists>x. view c = [?j \<mapsto> x] \<and> ?j < 32" if one: "num_children c = 1"
  proof -
    obtain x where "view c = [?j \<mapsto> x]" using single_child [OF g one] by blast
    moreover from this have "?j < 32" using view_dom [of c ?j x] by simp
    ultimately show ?thesis by blast
  qed
  show "num_children c = 1 \<and> is_leaf c ?j \<longleftrightarrow> singleton_leaf c"
  proof
    assume a: "num_children c = 1 \<and> is_leaf c ?j"
    then obtain x where x: "view c = [?j \<mapsto> x]" "?j < 32" using * by blast
    then show "singleton_leaf c"
      using a goodD(2) [OF g x(2)] by (auto simp: singleton_leaf_def)
  next
    assume s: "singleton_leaf c"
    then obtain x where x: "view c = [?j \<mapsto> x]" "?j < 32" using * singleton_leaf_num by blast
    obtain j k v where "view c = [j \<mapsto> MLeaf k v]" using s by (auto simp: singleton_leaf_def)
    with x have "view c ?j = Some (MLeaf k v)" by (metis fun_upd_eqD fun_upd_same map_upd_nonempty option.distinct(1) fun_upd_other)
    then show "num_children c = 1 \<and> is_leaf c ?j" using goodD(2) [OF g x(2)] singleton_leaf_num [OF s] by simp
  qed
  then show "\<exists>k v. view c = [?j \<mapsto> MLeaf k v] \<and> get_leaf c ?j = ok (k, v)" if "singleton_leaf c"
    using * goodD(2,3) [OF g, of ?j] that by fastforce
qed

lemma remove_sub:
  assumes wf: "wf_branch (Suc n) pfx b" and L: "L = at_part + 5 * Suc n" "L \<le> 64"
    and e: "view b (key_part n key) = Some (MSub c)"
    and IH: "\<And>c pfx. wf_branch n pfx c \<Longrightarrow>
      \<exists>r. remove_part h L c (at_part + 5) rehash key = ok r \<and> removed h n pfx key c rehash r"
  shows "\<exists>r. remove_part h L b at_part rehash key = ok r \<and> removed h (Suc n) pfx key b rehash r"
proof -
  let ?i = "key_part n key"
  note g = wf_branchD(1) [OF wf] and c = wf_branchD(3-5) [OF wf e]
  obtain r where r: "remove_part h L c (at_part + 5) rehash key = ok r" "removed h n (pfx * 32 + ?i) key c rehash r"
    using IH [OF c(1)] by blast
  have lb: "look (Suc n) b key = look n c key" using e by (simp add: look.simps)
  have step: "remove_part h L b at_part rehash key = (case r of (child', f) \<Rightarrow>
      if \<not> f then ok (Some b, False) else case child' of
        None \<Rightarrow> bindR (reallocate_remove b ?i) (finish_remove h rehash)
      | Some child \<Rightarrow>
          (let other = lsb32 (br_mask child) in
           if num_children child = 1 \<and> is_leaf child other then
             bindR (get_leaf child other) (\<lambda>(k', v'). bindR (set_leaf b ?i k' v') (finish_remove h rehash))
           else bindR (set_branch b ?i child) (finish_remove h rehash)))"
    using shift_ok_level [OF L] goodD(1,2,4) [OF g, of ?i] e r(1)
    by (subst remove_part.simps) (simp add: sub_index_part [OF L(1)] Let_def cong: prod.case_cong)
  show ?thesis
  proof (cases "look n c key")
    case None
    then show ?thesis using r(2) lb by (auto simp: step removed_def)
  next
    case (Some w)
    obtain k2 v2 where k2: "k2 \<noteq> key" "look n c k2 = Some v2" using wf_two_keys [OF c] by metis
    have "fst r \<noteq> None"
      using r(2) Some k2 by (auto simp: removed_def fun_eq_iff split: if_splits option.splits)
    then obtain c' where c': "r = (Some c', True)" "wf_branch n (pfx * 32 + ?i) c'" "view c' \<noteq> Map.empty"
      "look n c' = (look n c)(key := None)" "rehash \<longrightarrow> kids_ok h (n - 1) c \<longrightarrow> hash_ok h n c'"
      using r(2) Some by (cases r) (auto simp: removed_def split: option.splits)
    obtain m where m: "n = Suc m" using c(1) by (cases n) auto
    have gc: "good c'" using c'(2) wf_branchD(1) m by blast
    have kc: "rehash \<Longrightarrow> kids_ok h n b \<Longrightarrow> hash_ok h n c'"
      using c'(5) e m hash_ok_iff [of h m c] by (simp add: kids_ok_def)
    have p: "view b ?i \<noteq> None" "look (Suc n) b key \<noteq> None" using e Some lb by simp_all
    have fin: "\<exists>r. finish_remove h rehash b1 = ok r \<and> removed h (Suc n) pfx key b rehash r"
      if b1: "good b1" "view b1 = (view b)(?i \<mapsto> x)"
        and l: "\<And>k v. x = MLeaf k v \<Longrightarrow> unat k div 32 ^ n = pfx * 32 + ?i"
        and s: "\<And>s. x = MSub s \<Longrightarrow> s = c' \<and> \<not> singleton_leaf s"
        and lk: "\<And>k. key_part n k = ?i \<Longrightarrow> (case x of MLeaf k' v \<Rightarrow> if k' = k then Some v else None
          | MSub s \<Rightarrow> look n s k | MNull \<Rightarrow> None) = look n c' k" for b1 x
    proof (rule finish_remove_result)
      show "wf_branch (Suc n) pfx b1"
        by (rule wf_view_upd [OF wf b1]) (use l s c'(2,3) in auto)
      show "look (Suc n) b1 = (look (Suc n) b)(key := None)"
        using lk e c'(4) by (auto simp: fun_eq_iff look_view_upd [OF b1(2)] look.simps(2) [of n b])
      show "kids_ok h n b1" if "kids_ok h n b" "rehash"
        by (rule kids_ok_upd [OF b1(2)]) (use that kc s in auto)
    qed (use p in simp)
    show ?thesis
    proof (cases "singleton_leaf c'")
      case True
      then obtain k' v' where kv: "view c' = [lsb32 (br_mask c') \<mapsto> MLeaf k' v']"
        "get_leaf c' (lsb32 (br_mask c')) = ok (k', v')" using singleton_test(2) [OF gc] by blast
      obtain b1 where b1: "set_leaf b ?i k' v' = ok b1" "good b1" "view b1 = (view b)(?i \<mapsto> MLeaf k' v')"
        by (rule good_set_leaf [OF g key_part_less p(1)])
      have lk': "look n c' k' = Some v'"
        using look_leaf [of m "pfx * 32 + ?i" c' "lsb32 (br_mask c')" k' v'] c'(2) kv(1) m by simp
      have "look n c' k = (if k' = k then Some v' else None)" for k
        using kv(1) lk' look_singleton [OF True, of n k' v' k] by (cases "look n c' k") auto
      then have "\<exists>r. finish_remove h rehash b1 = ok r \<and> removed h (Suc n) pfx key b rehash r"
        by (intro fin [OF b1(2,3)]) (use look_prefix [OF c'(2) lk'] in auto)
      then show ?thesis using True singleton_test(1) [OF gc] kv(2) b1(1) by (simp add: step c'(1))
    next
      case False
      obtain b1 where b1: "set_branch b ?i c' = ok b1" "good b1" "view b1 = (view b)(?i \<mapsto> MSub c')"
        by (rule good_set_branch [OF g key_part_less p(1)])
      have "\<exists>r. finish_remove h rehash b1 = ok r \<and> removed h (Suc n) pfx key b rehash r"
        by (rule fin [OF b1(2,3)]) (use False in auto)
      then show ?thesis
        using False singleton_test(1) [OF gc] b1(1) by (auto simp: step c'(1) Let_def)
    qed
  qed
qed

lemma remove_part_spec:
  assumes "wf_branch (Suc n) pfx b" "L = at_part + 5 * Suc n" "L \<le> 64"
  shows "\<exists>r. remove_part h L b at_part rehash key = ok r \<and> removed h (Suc n) pfx key b rehash r"
  using assms
proof (induction n arbitrary: b pfx at_part)
  case 0
  have IH: "\<exists>r. remove_part h L c (at_part + 5) rehash key = ok r \<and> removed h 0 pfx key c rehash r"
    if "wf_branch 0 pfx c" for c pfx using that by simp
  show ?case
    using remove_absent [OF 0] remove_leaf_same [OF 0] remove_sub [OF 0 _ IH]
      goodD(5) [OF wf_branchD(1) [OF "0.prems"(1)] key_part_less [of 0 key]]
    by (metis mchild.exhaust option.exhaust)
next
  case (Suc n)
  have IH: "\<exists>r. remove_part h L c (at_part + 5) rehash key = ok r \<and> removed h (Suc n) pfx key c rehash r"
    if "wf_branch (Suc n) pfx c" for c pfx
    by (rule Suc.IH [OF that]) (use Suc.prems in simp_all)
  show ?case
    using remove_absent [OF Suc.prems] remove_leaf_same [OF Suc.prems] remove_sub [OF Suc.prems _ IH]
      goodD(5) [OF wf_branchD(1) [OF Suc.prems(1)] key_part_less [of "Suc n" key]]
    by (metis mchild.exhaust option.exhaust)
qed

subsection \<open>The trie is determined by its contents\<close>

lemma slot_key:
  assumes wf: "wf_branch (Suc n) pfx b" and c: "view b i = Some c"
  obtains k v where "look (Suc n) b k = Some v" "key_part n k = i"
proof (cases c)
  case MNull
  then show thesis using c goodD(5) [OF wf_branchD(1) [OF wf] view_dom [OF c]] by simp
next
  case (MLeaf k v)
  then show thesis
    using that look_leaf [OF wf] part_of_prefix [OF wf_branchD(2) [OF wf] view_dom] c by blast
next
  case (MSub s)
  then obtain k v where k: "look n s k = Some v"
    using wf_some_key [OF wf_branchD(3,4) [OF wf]] c by blast
  then show thesis
    using that look_sub [OF wf] look_prefix [OF wf_branchD(3) [OF wf]] part_of_prefix view_dom c MSub by metis
qed

lemma sub_two_keys:
  assumes wf: "wf_branch (Suc n) pfx b" and c: "view b i = Some (MSub s)"
  obtains k1 k2 v1 v2 where "k1 \<noteq> k2" "key_part n k1 = i" "key_part n k2 = i"
    "look (Suc n) b k1 = Some v1" "look (Suc n) b k2 = Some v2"
proof -
  note s = wf_branchD(3-5) [OF wf c]
  obtain k1 k2 v1 v2 where k: "k1 \<noteq> k2" "look n s k1 = Some v1" "look n s k2 = Some v2"
    using wf_two_keys [OF s] by blast
  then have "key_part n k1 = i" "key_part n k2 = i"
    using look_prefix [OF s(1)] part_of_prefix view_dom [OF c] by blast+
  with k show thesis using that look_sub [OF wf c] by blast
qed

lemma sub_look:
  assumes wf: "wf_branch (Suc n) pfx b" and c: "view b i = Some (MSub s)"
  shows "look n s k = (if key_part n k = i then look (Suc n) b k else None)"
proof (cases "look n s k")
  case (Some v)
  then have "key_part n k = i"
    using look_prefix [OF wf_branchD(3) [OF wf c]] part_of_prefix view_dom [OF c] by blast
  with Some show ?thesis using look_sub [OF wf c Some] by simp
next
  case None
  then show ?thesis using c by (simp add: look.simps)
qed

lemma leaf_look:
  assumes "view b i = Some (MLeaf k v)" "key_part n k' = i" "look (Suc n) b k' = Some v'"
  shows "k' = k \<and> v' = v"
  using assms by (auto simp: look.simps split: if_splits)

lemma same_slot:
  assumes wf: "wf_branch (Suc n) pfx b1" "wf_branch (Suc n) pfx b2"
    and eq: "look (Suc n) b1 = look (Suc n) b2"
  shows "view b1 i = None \<Longrightarrow> view b2 i = None"
    and "view b1 i = Some (MLeaf k v) \<Longrightarrow> view b2 i = Some (MLeaf k v)"
    and "view b1 i = Some (MSub c1) \<Longrightarrow> \<exists>c2. view b2 i = Some (MSub c2) \<and> look n c1 = look n c2"
proof -
  show "view b2 i = None" if n: "view b1 i = None"
  proof (rule ccontr)
    assume "view b2 i \<noteq> None"
    then obtain c where "view b2 i = Some c" by blast
    then obtain k v where "look (Suc n) b2 k = Some v" "key_part n k = i" by (rule slot_key [OF wf(2)])
    then show False using n eq [symmetric] by (simp add: look.simps)
  qed
  show "view b2 i = Some (MLeaf k v)" if l: "view b1 i = Some (MLeaf k v)"
  proof -
    have k: "look (Suc n) b2 k = Some v" "key_part n k = i"
      using look_leaf [OF wf(1) l] part_of_prefix [OF wf_branchD(2) [OF wf(1) l] view_dom [OF l]] eq by simp_all
    then obtain c where c: "view b2 i = Some c" by (auto simp: look.simps split: option.splits)
    show ?thesis
    proof (cases c)
      case (MSub s)
      then obtain k1 k2 v1 v2 where "k1 \<noteq> k2" "key_part n k1 = i" "key_part n k2 = i"
        "look (Suc n) b2 k1 = Some v1" "look (Suc n) b2 k2 = Some v2"
        using sub_two_keys [OF wf(2)] c by metis
      then show ?thesis using leaf_look [OF l] eq by metis
    qed (use c k in \<open>auto simp: look.simps split: if_splits\<close>)
  qed
  show "\<exists>c2. view b2 i = Some (MSub c2) \<and> look n c1 = look n c2" if s: "view b1 i = Some (MSub c1)"
  proof -
    obtain k1 k2 v1 v2 where k: "k1 \<noteq> k2" "key_part n k1 = i" "key_part n k2 = i"
      "look (Suc n) b2 k1 = Some v1" "look (Suc n) b2 k2 = Some v2"
      using sub_two_keys [OF wf(1) s] eq by metis
    then obtain c where c: "view b2 i = Some c" by (auto simp: look.simps split: option.splits)
    show ?thesis
    proof (cases c)
      case (MLeaf k v)
      then show ?thesis using leaf_look [of b2 i k v n] k c by metis
    next
      case (MSub c2)
      then have "look n c1 = look n c2"
        using sub_look [OF wf(1) s] sub_look [OF wf(2), of i c2] c eq by (simp add: fun_eq_iff)
      with c MSub show ?thesis by blast
    qed (use c goodD(5) [OF wf_branchD(1) [OF wf(2)] view_dom [OF c]] in auto)
  qed
qed

lemma canonical:
  assumes "wf_branch n pfx b1" "wf_branch n pfx b2" "look n b1 = look n b2" "hash_ok h n b1" "hash_ok h n b2"
  shows "br_mask b1 = br_mask b2 \<and> br_leaf b1 = br_leaf b2 \<and> br_hash b1 = br_hash b2"
  using assms
proof (induction n arbitrary: pfx b1 b2)
  case (Suc n)
  note wf = Suc.prems(1,2) and eq = Suc.prems(3) and h = Suc.prems(4,5) [unfolded hash_ok_iff]
  note S = same_slot [OF wf eq]
  have occ: "view b1 i = None \<longleftrightarrow> view b2 i = None" for i
    using S(1) same_slot(1) [OF wf(2,1) eq [symmetric]] by blast
  have m: "br_mask b1 = br_mask b2"
  proof (rule bit_word_eqI)
    fix i assume "i < LENGTH(32)"
    then show "bit (br_mask b1) i = bit (br_mask b2) i"
      using occ [of i] view_occupied [of i b1] view_occupied [of i b2] by simp
  qed
  have l: "br_leaf b1 = br_leaf b2"
  proof (rule bit_word_eqI)
    fix i assume "i < LENGTH(32)"
    then have i: "i < 32" by simp
    have "(\<exists>k v. view b1 i = Some (MLeaf k v)) \<longleftrightarrow> (\<exists>k v. view b2 i = Some (MLeaf k v))"
      using S(2) [of i] same_slot(2) [OF wf(2,1) eq [symmetric], of i] by blast
    then show "bit (br_leaf b1) i = bit (br_leaf b2) i"
      by (simp only: is_leaf_bit [symmetric] goodD(2) [OF wf_branchD(1) [OF wf(1)] i]
          goodD(2) [OF wf_branchD(1) [OF wf(2)] i])
  qed
  have "child_bytes h (slot_child b1 i) = child_bytes h (slot_child b2 i)" if "i \<in> set (slots (br_mask b1))" for i
  proof -
    have v: "view b1 i = Some (slot_child b1 i)" "view b2 i = Some (slot_child b2 i)"
      using that m by (simp_all add: view_def)
    show ?thesis
    proof (cases "slot_child b1 i")
      case (MSub c1)
      with v obtain c2 where c2: "slot_child b2 i = MSub c2" "look n c1 = look n c2" using S(3) by force
      have "view b1 i = Some (MSub c1)" "view b2 i = Some (MSub c2)" using v MSub c2 by simp_all
      then have "wf_branch n (pfx * 32 + i) c1" "wf_branch n (pfx * 32 + i) c2" "hash_ok h n c1" "hash_ok h n c2"
        using wf_branchD(3) [OF wf(1)] wf_branchD(3) [OF wf(2)] h unfolding kids_ok_def by blast+
      then have "br_hash c1 = br_hash c2" using Suc.IH c2(2) by blast
      with c2 MSub show ?thesis by simp
    next
      case (MLeaf k w)
      then show ?thesis using S(2) v by force
    qed (use v(1) goodD(5) [OF wf_branchD(1) [OF wf(1)] view_dom [OF v(1)]] in auto)
  qed
  then have "map (\<lambda>i. child_bytes h (slot_child b1 i)) (slots (br_mask b1)) =
      map (\<lambda>i. child_bytes h (slot_child b2 i)) (slots (br_mask b2))"
    using m by simp
  then have "digest h b1 = digest h b2" by (simp add: digest_def)
  with m l h show ?case by simp
qed simp

subsection \<open>Rehashing and the integrity check\<close>

text \<open>\<open>rehashed\<close>: the same contents, with every hash computed.\<close>

definition rehashed :: "'v hasher \<Rightarrow> nat \<Rightarrow> nat \<Rightarrow> 'v mbranch \<Rightarrow> 'v mbranch \<Rightarrow> bool" where
  "rehashed h n pfx b b' \<longleftrightarrow> wf_branch n pfx b' \<and> look n b' = look n b \<and> hash_ok h n b' \<and> view b' \<noteq> Map.empty"

lemma rehashed_not_singleton:
  assumes "rehashed h n pfx c c'" "wf_branch n pfx c" "view c \<noteq> Map.empty" "\<not> singleton_leaf c"
  shows "\<not> singleton_leaf c'"
  using wf_two_keys [OF assms(2-4)] look_singleton [of c' n] assms(1) by (auto simp: rehashed_def)

lemma rehash_slots_spec:
  assumes rec: "\<And>c pfx. wf_branch n pfx c \<Longrightarrow> view c \<noteq> Map.empty \<Longrightarrow> \<exists>c'. rec c = ok c' \<and> rehashed h n pfx c c'"
  shows "wf_branch (Suc n) pfx b \<Longrightarrow> set is \<subseteq> set (slots (br_mask b)) \<Longrightarrow> distinct is \<Longrightarrow>
    \<exists>b'. rehash_slots rec is b = ok b' \<and> wf_branch (Suc n) pfx b' \<and> look (Suc n) b' = look (Suc n) b \<and>
      (\<forall>i. view b' i = None \<longleftrightarrow> view b i = None) \<and>
      (\<forall>i c. i \<in> set is \<longrightarrow> view b' i = Some (MSub c) \<longrightarrow> hash_ok h n c) \<and>
      (\<forall>i. i \<notin> set is \<longrightarrow> view b' i = view b i)"
proof (induction "is" arbitrary: b)
  case (Cons i "is")
  note wf = Cons.prems(1) and g = wf_branchD(1) [OF Cons.prems(1)]
  obtain x where x: "view b i = Some x" using Cons.prems(2) view_occupied [of i b] by auto
  have i: "i < 32" using x by (rule view_dom)
  show ?case
  proof (cases "is_branch b i")
    case False
    then obtain k v where "view b i = Some (MLeaf k v)" using goodD(2) [OF g i] by (auto simp: is_branch_def)
    moreover from this have "i \<notin> set is" using Cons.prems(3) by simp
    ultimately show ?thesis
      using Cons.IH [OF wf] Cons.prems(2,3) False by (auto simp del: view_None)
  next
    case True
    then obtain c where c: "view b i = Some (MSub c)"
      using x goodD(2,5) [OF g i] by (cases x) (auto simp: is_branch_def)
    obtain c' where c': "rec c = ok c'" "rehashed h n (pfx * 32 + i) c c'"
      using rec [OF wf_branchD(3,4) [OF wf c]] by blast
    have bi: "bit (br_mask b) i" using c by (simp add: view_def split: if_splits)
    obtain b1 where b1: "put_child b i (MSub c') = ok b1" "br_mask b1 = br_mask b" "br_leaf b1 = br_leaf b"
      "rep b1 ((slot_child b)(i := MSub c'))" by (rule put_child_rep [OF good_rep [OF g] i bi])
    have v1: "view b1 = (view b)(i \<mapsto> MSub c')"
      using i bi by (auto simp: view_rep [OF b1(4)] b1(2) view_def fun_eq_iff)
    have "\<not> is_leaf b i" using True by (simp add: is_branch_def)
    then have g1: "good b1"
      using good_slot_child [OF g] i by (intro goodI [OF b1(4)]) (auto simp: b1(2,3) is_leaf_bit)
    have wf1: "wf_branch (Suc n) pfx b1"
      by (rule wf_view_upd [OF wf g1 v1])
        (use c'(2) rehashed_not_singleton [OF c'(2) wf_branchD(3-5) [OF wf c]] in \<open>auto simp: rehashed_def\<close>)
    have l1: "look (Suc n) b1 = look (Suc n) b"
      using c c'(2) by (auto simp: fun_eq_iff look_view_upd [OF v1 i] look.simps(2) [of n b] rehashed_def)
    obtain b' where b': "rehash_slots rec is b1 = ok b'" "wf_branch (Suc n) pfx b'" "look (Suc n) b' = look (Suc n) b1"
      "\<forall>j. view b' j = None \<longleftrightarrow> view b1 j = None" "\<forall>j c. j \<in> set is \<longrightarrow> view b' j = Some (MSub c) \<longrightarrow> hash_ok h n c"
      "\<forall>j. j \<notin> set is \<longrightarrow> view b' j = view b1 j"
      using Cons.IH [OF wf1] Cons.prems(2,3) b1(2) by auto
    have "view b' i = Some (MSub c')" using b'(6) v1 Cons.prems(3) by simp
    then show ?thesis
      using b' l1 v1 c c' True goodD(4) [OF g i c] b1(1) by (auto simp: rehashed_def)
  qed
qed simp

lemma rehash_all_spec:
  assumes "wf_branch n pfx b" "view b \<noteq> Map.empty"
  shows "\<exists>b'. rehash_all h n b = ok b' \<and> rehashed h n pfx b b'"
  using assms
proof (induction n arbitrary: pfx b)
  case (Suc n)
  have rec: "\<exists>c'. rehash_all h n c = ok c' \<and> rehashed h n p c c'"
    if "wf_branch n p c" "view c \<noteq> Map.empty" for c p using Suc.IH that by blast
  have ne: "br_mask b \<noteq> 0"
    using Suc.prems(2) view_empty_iff [of b] slots_empty_iff by (auto simp: num_children_def bitset_count_slots)
  obtain b1 where b1: "rehash_slots (rehash_all h n) (slots (br_mask b)) b = ok b1" "wf_branch (Suc n) pfx b1"
    "look (Suc n) b1 = look (Suc n) b" "\<forall>i. view b1 i = None \<longleftrightarrow> view b i = None"
    "\<forall>i c. i \<in> set (slots (br_mask b)) \<longrightarrow> view b1 i = Some (MSub c) \<longrightarrow> hash_ok h n c"
    using rehash_slots_spec [OF rec Suc.prems(1), of "slots (br_mask b)"] by (auto simp: slots_def)
  have k: "kids_ok h n b1"
    unfolding kids_ok_def using b1(4,5) view_occupied [of _ b] by (metis option.distinct(1))
  note g = wf_branchD(1) [OF b1(2)]
  have "rehash_all h (Suc n) b = ok (upd_hash b1 (digest h b1))"
    using ne b1(1) by (simp add: mask_slots_eq recompute_hash_eq [OF g])
  moreover have "view b1 \<noteq> Map.empty" using Suc.prems(2) b1(4) by (metis ext)
  ultimately show ?case
    using b1(2,3) hash_ok_rehash [OF g k] by (simp add: rehashed_def)
qed simp

lemma check_slots_spec:
  assumes rec: "\<And>c pfx. wf_branch n pfx c \<Longrightarrow> view c \<noteq> Map.empty \<Longrightarrow> rec c = ok True"
    and wf: "wf_branch (Suc n) pfx b"
  shows "set is \<subseteq> set (slots (br_mask b)) \<Longrightarrow> check_slots rec b is = ok True"
proof (induction "is")
  case (Cons i "is")
  note g = wf_branchD(1) [OF wf]
  obtain x where x: "view b i = Some x" using Cons.prems view_occupied [of i b] by auto
  note i = view_dom [OF x]
  show ?case
  proof (cases "is_branch b i")
    case True
    then obtain c where c: "view b i = Some (MSub c)"
      using x goodD(2,5) [OF g i] by (cases x) (auto simp: is_branch_def)
    note wc = wf_branchD(3-5) [OF wf c]
    have "good c" using wc(1) wf_branchD(1) by (cases n) auto
    then have "\<not> (num_children c = 1 \<and> is_leaf c (lsb32 (br_mask c)))"
      using singleton_test(1) wc(3) by blast
    then show ?thesis using rec [OF wc(1,2)] goodD(4) [OF g i c] Cons True by auto
  qed (use Cons in simp)
qed simp

lemma integrity_check_spec:
  "wf_branch n pfx b \<Longrightarrow> view b \<noteq> Map.empty \<Longrightarrow> internal_integrity_check n b = ok True"
proof (induction n arbitrary: pfx b)
  case (Suc n)
  have "br_mask b \<noteq> 0"
    using Suc.prems(2) view_empty_iff [of b] slots_empty_iff by (auto simp: num_children_def bitset_count_slots)
  moreover have "check_slots (internal_integrity_check n) b (slots (br_mask b)) = ok True"
    by (rule check_slots_spec [OF _ Suc.prems(1)]) (use Suc.IH in auto)
  ultimately show ?case by (simp add: mask_slots_eq)
qed simp

subsection \<open>The trie as a store\<close>

text \<open>The contract of a key-value store whose insertion keeps an existing value, and what it gives for
  sequences of operations.\<close>

datatype ('k, 'v) store_op = Put 'k 'v | Del 'k

fun op_key :: "('k, 'v) store_op \<Rightarrow> 'k" where
  "op_key (Put k v) = k"
| "op_key (Del k) = k"

fun spec_step :: "('k, 'v) store_op \<Rightarrow> ('k \<Rightarrow> 'v option) \<Rightarrow> 'k \<Rightarrow> 'v option" where
  "spec_step (Put k v) m = m(k \<mapsto> (case m k of None \<Rightarrow> v | Some w \<Rightarrow> w))"
| "spec_step (Del k) m = m(k := None)"

locale map_store =
  fixes inv :: "'s \<Rightarrow> bool" and valid :: "'k \<Rightarrow> bool" and lookup :: "'s \<Rightarrow> 'k \<Rightarrow> 'v option"
    and insert :: "'k \<Rightarrow> 'v \<Rightarrow> 's \<Rightarrow> ('e, 's) res" and delete :: "'k \<Rightarrow> 's \<Rightarrow> ('e, 's) res"
  assumes insert_law: "inv s \<Longrightarrow> valid k \<Longrightarrow>
      \<exists>s'. insert k v s = ok s' \<and> inv s' \<and> lookup s' = spec_step (Put k v) (lookup s)"
    and delete_law: "inv s \<Longrightarrow> valid k \<Longrightarrow>
      \<exists>s'. delete k s = ok s' \<and> inv s' \<and> lookup s' = spec_step (Del k) (lookup s)"
begin

primrec exec_op :: "('k, 'v) store_op \<Rightarrow> 's \<Rightarrow> ('e, 's) res" where
  "exec_op (Put k v) s = insert k v s"
| "exec_op (Del k) s = delete k s"

primrec exec :: "('k, 'v) store_op list \<Rightarrow> 's \<Rightarrow> ('e, 's) res" where
  "exec [] s = ok s"
| "exec (x # xs) s = bindR (exec_op x s) (exec xs)"

lemma exec_op_refines:
  assumes "inv s" "valid (op_key x)"
  shows "\<exists>s'. exec_op x s = ok s' \<and> inv s' \<and> lookup s' = spec_step x (lookup s)"
  using assms insert_law delete_law by (cases x) simp_all

lemma exec_refines:
  assumes "inv s" "\<forall>x\<in>set xs. valid (op_key x)"
  shows "\<exists>s'. exec xs s = ok s' \<and> inv s' \<and> lookup s' = fold spec_step xs (lookup s)"
  using assms
proof (induction xs arbitrary: s)
  case (Cons x xs)
  then obtain s1 where s1: "exec_op x s = ok s1" "inv s1" "lookup s1 = spec_step x (lookup s)"
    using exec_op_refines [of s x] by auto
  then show ?case using Cons.IH [OF s1(2)] Cons.prems by simp
qed simp

end

definition trie_inv :: "'v hasher \<Rightarrow> nat \<Rightarrow> 'v merkle_trie \<Rightarrow> bool" where
  "trie_inv h D t \<longleftrightarrow> 0 < D \<and> D \<le> 12 \<and> wf_branch D 0 (root t) \<and> auto_rehash t \<and> \<not> dirty t \<and>
     (if view (root t) = Map.empty then br_hash (root t) = Some (replicate 32 0) else hash_ok h D (root t))"

definition trie_map :: "nat \<Rightarrow> 'v merkle_trie \<Rightarrow> u64 \<Rightarrow> 'v option" where
  "trie_map D t = look D (root t)"

definition key_ok :: "nat \<Rightarrow> u64 \<Rightarrow> bool" where
  "key_ok D key \<longleftrightarrow> unat key < 32 ^ D"

lemma empty_good: "br_mask b = 0 \<Longrightarrow> br_leaf b = 0 \<Longrightarrow> good b \<and> view b = Map.empty"
  by (auto simp: good_def shape_ok_def num_children_def bitset_count_def view_def)

lemma wf_empty: "0 < D \<Longrightarrow> br_mask b = 0 \<Longrightarrow> br_leaf b = 0 \<Longrightarrow> wf_branch D p b"
  using empty_good [of b] by (cases D) (auto simp: wf_branch.simps)

lemma trie_new_inv:
  fixes h :: "'v hasher"
  assumes D: "0 < D" "D \<le> 12"
  shows "trie_inv h D trie_new \<and> trie_map D (trie_new :: 'v merkle_trie) = Map.empty"
proof -
  have r: "br_mask (new_root :: 'v mbranch) = 0" "br_leaf (new_root :: 'v mbranch) = 0"
    "br_hash (new_root :: 'v mbranch) = Some (replicate 32 0)"
    by (simp_all add: new_root_def)
  then show ?thesis
    using D empty_good [OF r(1,2)] wf_empty [OF D(1) r(1,2)] look_empty [of "new_root :: 'v mbranch" D]
    by (simp add: trie_inv_def trie_new_def trie_map_def)
qed

lemma trie_kids_ok:
  assumes "trie_inv h D t"
  shows "kids_ok h (D - 1) (root t)"
  using assms hash_ok_iff [of h "D - 1" "root t"]
  by (auto simp: trie_inv_def kids_ok_def split: if_splits)

lemma trie_levels:
  assumes "trie_inv h D t"
  obtains n where "D = Suc n" "5 * Suc n = 0 + 5 * Suc n" "5 * Suc n \<le> 64" "wf_branch (Suc n) 0 (root t)"
  using assms by (cases D) (auto simp: trie_inv_def)

lemma trie_insert_spec:
  assumes inv: "trie_inv h D t" and k: "key_ok D key"
  shows "\<exists>t'. trie_insert h (5 * D) key v t = ok t' \<and> trie_inv h D t' \<and>
    trie_map D t' = spec_step (Put key v) (trie_map D t)"
proof -
  obtain n where n: "D = Suc n" "5 * Suc n = 0 + 5 * Suc n" "5 * Suc n \<le> 64" "wf_branch (Suc n) 0 (root t)"
    by (rule trie_levels [OF inv])
  have "unat key div 32 ^ Suc n = 0" using k n(1) by (simp add: key_ok_def)
  from insert_part_spec [OF n(4,2,3) this, of h "auto_rehash t" v]
  obtain r where r: "insert_part h (5 * D) (root t) 0 (auto_rehash t) key v = ok r"
    "inserted h D 0 key v (root t) (auto_rehash t) r"
    unfolding n(1) by blast
  obtain b' w where rb: "r = (b', key, w)" using r(2) by (cases r) (auto simp: inserted_def)
  have b': "w = (case look D (root t) key of None \<Rightarrow> v | Some x \<Rightarrow> x)" "wf_branch D 0 b'"
    "look D b' = (look D (root t))(key \<mapsto> w)" "hash_ok h D b'"
    using r(2) trie_kids_ok [OF inv] inv by (auto simp: inserted_def rb trie_inv_def)
  then have "view b' \<noteq> Map.empty" using look_nonempty [of D b' key w] by simp
  then have "trie_inv h D (t\<lparr>root := b'\<rparr>)" using inv b' by (simp add: trie_inv_def)
  moreover have "trie_insert h (5 * D) key v t = ok (t\<lparr>root := b'\<rparr>)"
    using r(1) rb inv by (simp add: trie_insert_def mark_dirty_def trie_inv_def)
  ultimately show ?thesis using b'(1,3) by (simp add: trie_map_def)
qed

lemma trie_remove_spec:
  assumes inv: "trie_inv h D t"
  shows "\<exists>t'. trie_remove h (5 * D) key t = ok t' \<and> trie_inv h D t' \<and>
    trie_map D t' = spec_step (Del key) (trie_map D t)"
proof -
  obtain n where n: "D = Suc n" "5 * Suc n = 0 + 5 * Suc n" "5 * Suc n \<le> 64" "wf_branch (Suc n) 0 (root t)"
    by (rule trie_levels [OF inv])
  from remove_part_spec [OF n(4,2,3), of h "auto_rehash t" key]
  obtain r f where r: "remove_part h (5 * D) (root t) 0 (auto_rehash t) key = ok (r, f)"
    "removed h D 0 key (root t) (auto_rehash t) (r, f)"
    unfolding n(1) by auto
  let ?b = "case r of None \<Rightarrow> MBranch 0 0 (Some (replicate 32 0)) [] | Some b \<Rightarrow> b"
  have t: "trie_remove h (5 * D) key t = ok (t\<lparr>root := ?b\<rparr>)"
    using r(1) inv by (simp add: trie_remove_def mark_dirty_def trie_inv_def)
  note R = r(2) [unfolded removed_def]
  show ?thesis
  proof (cases "look D (root t) key")
    case None
    then have "r = Some (root t)" using R by simp
    then show ?thesis using t inv None by (simp add: trie_map_def fun_upd_idem)
  next
    case (Some w)
    show ?thesis
    proof (cases r)
      case None
      then have "(look D (root t))(key := None) = Map.empty" using R Some by simp
      moreover have e: "good ?b \<and> view ?b = Map.empty" using None by (simp add: empty_good)
      moreover have "wf_branch D 0 ?b" using None inv by (simp add: wf_empty trie_inv_def)
      ultimately show ?thesis
        using t inv None look_empty [of ?b D] by (simp add: trie_inv_def trie_map_def)
    next
      case (Some b')
      then have "wf_branch D 0 b'" "view b' \<noteq> Map.empty" "look D b' = (look D (root t))(key := None)" "hash_ok h D b'"
        using R \<open>look D (root t) key = Some w\<close> trie_kids_ok [OF inv] inv by (auto simp: trie_inv_def)
      then show ?thesis using t inv Some by (simp add: trie_inv_def trie_map_def)
    qed
  qed
qed

interpretation mtrie: map_store "trie_inv h D" "key_ok D" "trie_map D" "trie_insert h (5 * D)" "trie_remove h (5 * D)"
  for h :: "'v hasher" and D
  by unfold_locales (fact trie_insert_spec, rule trie_remove_spec)

primrec trie_exec :: "'v hasher \<Rightarrow> nat \<Rightarrow> (u64, 'v) store_op list \<Rightarrow> 'v merkle_trie \<Rightarrow> (trie_error, 'v merkle_trie) res" where
  "trie_exec h L [] t = ok t"
| "trie_exec h L (x # xs) t = bindR
     (case x of Put k v \<Rightarrow> trie_insert h L k v t | Del k \<Rightarrow> trie_remove h L k t) (trie_exec h L xs)"

lemma trie_exec_exec: "trie_exec h (5 * D) xs t = mtrie.exec h D xs t"
proof (induction xs arbitrary: t)
  case (Cons x xs)
  then have "trie_exec h (5 * D) xs = mtrie.exec h D xs" by blast
  then show ?case by (cases x) simp_all
qed simp

lemma trie_exec_refines:
  assumes "trie_inv h D t" "\<forall>x\<in>set xs. key_ok D (op_key x)"
  shows "\<exists>t'. trie_exec h (5 * D) xs t = ok t' \<and> trie_inv h D t' \<and> trie_map D t' = fold spec_step xs (trie_map D t)"
  using mtrie.exec_refines [OF assms] by (simp add: trie_exec_exec)

lemma trie_hash_canonical:
  assumes "trie_inv h D t1" "trie_inv h D t2" "trie_map D t1 = trie_map D t2"
  shows "trie_hash t1 = trie_hash t2"
proof -
  have e: "view (root t) = Map.empty \<longleftrightarrow> trie_map D t = Map.empty" if "trie_inv h D t" for t
  proof -
    have "wf_branch D 0 (root t)" using that by (simp add: trie_inv_def)
    then show ?thesis
      using wf_some_key [of D 0 "root t"] look_empty [of "root t" D] unfolding trie_map_def by force
  qed
  show ?thesis
  proof (cases "trie_map D t1 = Map.empty")
    case True
    then show ?thesis using assms e [OF assms(1)] e [OF assms(2)] by (simp add: trie_inv_def trie_hash_def)
  next
    case False
    then have "hash_ok h D (root t1)" "hash_ok h D (root t2)"
      using assms e [OF assms(1)] e [OF assms(2)] by (simp_all add: trie_inv_def)
    then show ?thesis
      using canonical [of D 0 "root t1" "root t2" h] assms by (simp add: trie_inv_def trie_map_def trie_hash_def)
  qed
qed

lemma trie_find_map:
  assumes "trie_inv h D t"
  shows "trie_find (5 * D) key t = ok (trie_map D t key)"
proof -
  obtain n where n: "D = Suc n" "5 * Suc n = 0 + 5 * Suc n" "5 * Suc n \<le> 64" "wf_branch (Suc n) 0 (root t)"
    by (rule trie_levels [OF assms])
  from find_part_look [OF n(4,2,3), of key] show ?thesis
    by (cases "look (Suc n) (root t) key") (simp_all add: trie_find_def trie_map_def n(1))
qed

subsection \<open>Properties\<close>

text \<open>C17: the trie implements the map: any sequence of insertions and removals of keys that fit in \<open>L\<close> bits
  runs without error on a fresh trie and leaves a well-formed trie in which every lookup returns what
  the map after the same sequence holds (an insertion keeps the value of a key that is already there).\<close>

theorem trie_refines_map:
  assumes "0 < D" "D \<le> 12" "\<forall>x\<in>set xs. key_ok D (op_key x)"
  shows "\<exists>t. trie_exec h (5 * D) xs trie_new = ok t \<and> trie_inv h D t \<and>
    (\<forall>key. trie_find (5 * D) key t = ok (fold spec_step xs Map.empty key))"
proof -
  have "trie_inv h D trie_new" "trie_map D trie_new = (Map.empty :: u64 \<Rightarrow> 'a option)"
    using trie_new_inv [OF assms(1,2), of h] by blast+
  then obtain t where "trie_exec h (5 * D) xs trie_new = ok t" "trie_inv h D t"
    "trie_map D t = fold spec_step xs Map.empty"
    using trie_exec_refines [OF _ assms(3)] by metis
  then show ?thesis using trie_find_map by metis
qed

text \<open>C18: the root hash is a function of the contents alone: two sequences of operations that lead to the
  same map leave tries with the same root hash, whatever their order and whatever was inserted and
  removed on the way.\<close>

theorem trie_hash_history_independent:
  assumes "0 < D" "D \<le> 12" "\<forall>x\<in>set xs. key_ok D (op_key x)" "\<forall>x\<in>set ys. key_ok D (op_key x)"
    and "fold spec_step xs Map.empty = (fold spec_step ys Map.empty :: u64 \<Rightarrow> 'v option)"
  shows "\<exists>t u. trie_exec h (5 * D) xs trie_new = ok t \<and> trie_exec h (5 * D) ys trie_new = ok u \<and>
    trie_hash t = trie_hash u \<and> trie_hash t \<noteq> None"
proof -
  have n: "trie_inv h D trie_new" "trie_map D trie_new = (Map.empty :: u64 \<Rightarrow> 'v option)"
    using trie_new_inv [OF assms(1,2), of h] by blast+
  obtain t where t: "trie_exec h (5 * D) xs trie_new = ok t" "trie_inv h D t"
    "trie_map D t = fold spec_step xs Map.empty"
    using trie_exec_refines [OF n(1) assms(3)] n(2) by auto
  obtain u where u: "trie_exec h (5 * D) ys trie_new = ok u" "trie_inv h D u"
    "trie_map D u = fold spec_step ys Map.empty"
    using trie_exec_refines [OF n(1) assms(4)] n(2) by auto
  have "trie_hash t = trie_hash u" using trie_hash_canonical [OF t(2) u(2)] t(3) u(3) assms(5) by simp
  moreover have "trie_hash t \<noteq> None"
    using t(2) hash_ok_iff [of h "D - 1" "root t"] assms(1) by (auto simp: trie_inv_def trie_hash_def split: if_splits)
  ultimately show ?thesis using t u by blast
qed

text \<open>C19: rehashing everything gives the hash that incremental rehashing maintains: on a trie with the
  contents of an incrementally hashed, non-empty one, whatever its stored hashes, \<open>rehash_all\<close> ends
  within the number of levels and the root hash is the same.\<close>

theorem rehash_all_agrees:
  assumes "trie_inv h D t" "trie_map D t \<noteq> Map.empty" "wf_branch D 0 (root u)" "trie_map D u = trie_map D t"
  shows "\<exists>u'. trie_rehash_all h D u = ok u' \<and> trie_map D u' = trie_map D t \<and> trie_hash u' = trie_hash t"
proof -
  have ne: "view (root u) \<noteq> Map.empty" "view (root t) \<noteq> Map.empty"
    using assms(2,4) look_empty [of "root u" D] look_empty [of "root t" D] by (auto simp: trie_map_def)
  obtain b where b: "rehash_all h D (root u) = ok b" "rehashed h D 0 (root u) b"
    using rehash_all_spec [OF assms(3) ne(1)] by blast
  then have "br_hash b = br_hash (root t)"
    using canonical [of D 0 b "root t" h] assms ne(2) by (auto simp: rehashed_def trie_inv_def trie_map_def)
  then show ?thesis
    using b assms by (simp add: trie_rehash_all_def rehashed_def trie_map_def trie_hash_def trie_inv_def)
qed

text \<open>C20: after any sequence of insertions and removals the integrity check of a non-empty trie passes:
  no branch is empty and no child branch is left with a single leaf.\<close>

theorem trie_integrity:
  assumes "0 < D" "D \<le> 12" "\<forall>x\<in>set xs. key_ok D (op_key x)" "fold spec_step xs Map.empty \<noteq> Map.empty"
  shows "\<exists>t. trie_exec h (5 * D) xs trie_new = ok t \<and> internal_integrity_check D (root t) = ok True"
proof -
  have n: "trie_inv h D trie_new" "trie_map D trie_new = (Map.empty :: u64 \<Rightarrow> 'a option)"
    using trie_new_inv [OF assms(1,2), of h] by blast+
  obtain t where t: "trie_exec h (5 * D) xs trie_new = ok t" "trie_inv h D t"
    "trie_map D t = fold spec_step xs Map.empty"
    using trie_exec_refines [OF n(1) assms(3)] n(2) by auto
  then have "view (root t) \<noteq> Map.empty" "wf_branch D 0 (root t)"
    using assms(4) look_empty [of "root t" D] by (auto simp: trie_map_def trie_inv_def)
  then show ?thesis using t(1) integrity_check_spec by blast
qed

text \<open>For the witnesses: a hash that returns its input, values without bytes, and 60-bit keys.\<close>

definition demo_hasher :: "nat hasher" where
  "demo_hasher = (\<lambda>bs. bs, \<lambda>v. [])"

theorem trie_refines_map_witness:
  "\<exists>t. trie_exec demo_hasher (5 * 12) [Put 5 7, Put 37 8, Del 5] trie_new = ok t \<and> trie_inv demo_hasher 12 t \<and>
    (\<forall>key. trie_find (5 * 12) key t = ok (fold spec_step [Put 5 7, Put 37 8, Del 5] Map.empty key))"
  by (rule trie_refines_map) (simp_all add: key_ok_def)

theorem trie_hash_history_independent_witness:
  "\<exists>t u. trie_exec demo_hasher (5 * 12) [Put 5 7, Put 37 8, Del 5] trie_new = ok t \<and>
    trie_exec demo_hasher (5 * 12) [Put 37 8] trie_new = ok u \<and> trie_hash t = trie_hash u \<and> trie_hash t \<noteq> None"
  by (rule trie_hash_history_independent) (simp_all add: key_ok_def fun_eq_iff)

theorem trie_integrity_witness:
  "\<exists>t. trie_exec demo_hasher (5 * 12) [Put 5 7, Put 37 8] trie_new = ok t \<and>
    internal_integrity_check 12 (root t) = ok True"
  by (rule trie_integrity) (auto simp: key_ok_def dest: fun_cong [where x = 5])

text \<open>A trie with the key 3, once with its hash and once without.\<close>

definition demo_branch :: "u8 list option \<Rightarrow> nat mbranch" where
  "demo_branch x = MBranch 8 8 x [MLeaf 3 7]"

definition demo_trie :: "u8 list option \<Rightarrow> nat merkle_trie" where
  "demo_trie x = \<lparr>root = demo_branch x, dirty = False, auto_rehash = True\<rparr>"

lemma demo_slots: "slots 8 = [3]"
  by (simp add: slots_def upt_conv_Cons)

lemma demo_view: "view (demo_branch x) = [3 \<mapsto> MLeaf 3 7]"
proof -
  have r: "rep (demo_branch x) (\<lambda>_. MLeaf 3 7)" by (simp add: rep_def demo_branch_def demo_slots)
  have "i < 32 \<and> bit (8 :: u32) i \<longleftrightarrow> i = 3" for i
    using set_slots [of i 8] by (simp add: demo_slots del: set_slots)
  then show ?thesis by (subst view_rep [OF r]) (auto simp: fun_eq_iff demo_branch_def)
qed

lemma demo_wf: "wf_branch 1 0 (demo_branch x)"
proof -
  have b: "bit (8 :: u32) i \<longleftrightarrow> i = 3" if "i < 32" for i
    using that set_slots [of i 8] by (simp add: demo_slots del: set_slots)
  have "good (demo_branch x)"
    using b by (auto simp: good_def shape_ok_def num_children_def bitset_count_slots demo_view)
      (simp_all add: demo_branch_def demo_slots)
  then show ?thesis
    unfolding One_nat_def by (rule wf_branchI) (auto simp: demo_view split: if_splits)
qed

theorem rehash_all_agrees_witness:
  "\<exists>u'. trie_rehash_all demo_hasher 1 (demo_trie None) = ok u' \<and>
    trie_map 1 u' = trie_map 1 (demo_trie (Some (write_uint64 3))) \<and>
    trie_hash u' = trie_hash (demo_trie (Some (write_uint64 3)))"
proof (rule rehash_all_agrees)
  let ?b = "demo_branch (Some (write_uint64 3))"
  have "slot_child ?b 3 = MLeaf 3 7" using fun_cong [OF demo_view, of "Some (write_uint64 3)" 3]
    by (simp add: view_def split: if_splits)
  then have "digest demo_hasher ?b = Some (write_uint64 3)"
    by (simp add: digest_def demo_branch_def demo_slots leaf_bytes_def demo_hasher_def)
  then have "hash_ok demo_hasher 1 ?b"
    unfolding One_nat_def by (simp add: hash_ok_iff kids_ok_def demo_view) (simp add: demo_branch_def)
  then show "trie_inv demo_hasher 1 (demo_trie (Some (write_uint64 3)))"
    by (simp add: trie_inv_def demo_trie_def demo_wf [unfolded One_nat_def] demo_view)
  show "trie_map 1 (demo_trie (Some (write_uint64 3))) \<noteq> Map.empty"
    using look_leaf [OF demo_wf [unfolded One_nat_def], of "Some (write_uint64 3)" 3 3 7]
    by (auto simp: trie_map_def demo_trie_def demo_view)
qed (simp_all add: demo_trie_def demo_wf [unfolded One_nat_def] trie_map_def look.simps demo_view fun_eq_iff)

end
