(* ===== verification/Term_Env.thy ===== *)
theory Term_Env
  imports Heap_Ops
begin

section \<open>The term environment\<close>

text \<open>
  The classes \<open>stacks\<close>, \<open>stacks_dock\<close>, \<open>term_env\<close> and \<open>term_utils\<close> of \<^verbatim>\<open>src/src/common/term_env.hpp\<close> and
  \<^verbatim>\<open>term_env.cpp\<close>: a heap with a term stack, a trail and temporary stacks, and the operations that walk over
  terms with the stack: equality, hashing, cost, unification, the standard order, copying, and strings.
  The stacks are lists with their top first; the trail is in index order.
\<close>

text \<open>A \<open>naming_map\<close> is keyed by reference cells, which are compared by their address.\<close>

type_synonym naming_map = "nat \<Rightarrow> string option"

definition get_name :: "naming_map \<Rightarrow> cell \<Rightarrow> string" where
  "get_name names r = (case names (cell_index r) of None \<Rightarrow> [] | Some n \<Rightarrow> n)"

definition set_name :: "naming_map \<Rightarrow> cell \<Rightarrow> string \<Rightarrow> naming_map" where
  "set_name names r name = names(cell_index r \<mapsto> name)"

definition clear_name :: "naming_map \<Rightarrow> cell \<Rightarrow> naming_map" where
  "clear_name names r = names(cell_index r := None)"

definition has_name :: "naming_map \<Rightarrow> cell \<Rightarrow> bool" where
  "has_name names r \<longleftrightarrow> names (cell_index r) \<noteq> None"

record tenv =
  te_heap :: heap
  stack :: "cell list"
  trail :: "nat list"
  temp :: "cell list"
  temp_trail :: "nat list"
  register_hb :: nat
  var_naming :: naming_map

definition tenv_new :: tenv where
  "tenv_new = \<lparr>te_heap = heap_new, stack = [], trail = [], temp = [], temp_trail = [], register_hb = 0,
     var_naming = Map.empty\<rparr>"

definition stacks_reset :: "tenv \<Rightarrow> tenv" where
  "stacks_reset e = e\<lparr>stack := [], trail := [], temp := [], temp_trail := [], register_hb := 0\<rparr>"

definition tenv_reset :: "tenv \<Rightarrow> tenv" where
  "tenv_reset e = (stacks_reset (e\<lparr>te_heap := heap_reset (te_heap e)\<rparr>))\<lparr>var_naming := Map.empty\<rparr>"

subsection \<open>Stacks and trail\<close>

definition push :: "tenv \<Rightarrow> cell \<Rightarrow> tenv" where
  "push e t = e\<lparr>stack := t # stack e\<rparr>"

definition pop :: "tenv \<Rightarrow> (cell \<times> tenv) tres" where
  "pop e = (case stack e of [] \<Rightarrow> throw Undefined_behaviour | t # ts \<Rightarrow> ok (t, e\<lparr>stack := ts\<rparr>))"

definition stack_size :: "tenv \<Rightarrow> nat" where
  "stack_size e = length (stack e)"

definition trim_stack :: "tenv \<Rightarrow> nat \<Rightarrow> tenv" where
  "trim_stack e n = e\<lparr>stack := replicate (n - stack_size e) 0 @ drop (stack_size e - n) (stack e)\<rparr>"

definition allocate_stack :: "tenv \<Rightarrow> nat \<Rightarrow> nat \<times> tenv" where
  "allocate_stack e n = (stack_size e, e\<lparr>stack := replicate n 0 @ stack e\<rparr>)"

definition ensure_stack :: "tenv \<Rightarrow> nat \<Rightarrow> nat \<Rightarrow> tenv" where
  "ensure_stack e at_index n =
     (if at_index + n > stack_size e then snd (allocate_stack e (at_index + n - stack_size e)) else e)"

definition push_trail :: "tenv \<Rightarrow> nat \<Rightarrow> tenv" where
  "push_trail e i = e\<lparr>trail := trail e @ [i]\<rparr>"

definition pop_trail :: "tenv \<Rightarrow> (nat \<times> tenv) tres" where
  "pop_trail e = (if trail e = [] then throw Undefined_behaviour else ok (last (trail e), e\<lparr>trail := butlast (trail e)\<rparr>))"

definition trail_index :: "tenv \<Rightarrow> nat \<Rightarrow> tenv" where
  "trail_index e index = (if index < register_hb e then push_trail e index else e)"

definition resize_trail :: "nat list \<Rightarrow> nat \<Rightarrow> nat list" where
  "resize_trail tr n = take n tr @ replicate (n - length tr) 0"

definition trim_trail :: "tenv \<Rightarrow> nat \<Rightarrow> tenv" where
  "trim_trail e n = e\<lparr>trail := resize_trail (trail e) n\<rparr>"

function tidy_loop :: "nat \<Rightarrow> nat list \<Rightarrow> nat \<Rightarrow> nat \<Rightarrow> (nat list \<times> nat) tres" where
  "tidy_loop hb tr i to_end =
     (if i < to_end then
        (if to_end \<le> length tr then
           (if tr ! i < hb then tidy_loop hb tr (i + 1) to_end
            else tidy_loop hb (tr[i := tr ! (to_end - 1)]) i (to_end - 1))
         else throw Undefined_behaviour)
      else ok (tr, to_end))"
  by pat_completeness auto
termination
  by (relation "measure (\<lambda>(hb, tr, i, to_end). to_end - i)") auto

declare tidy_loop.simps [simp del]

definition tidy_trail :: "tenv \<Rightarrow> nat \<Rightarrow> nat \<Rightarrow> tenv tres" where
  "tidy_trail e from to_end = bindR (tidy_loop (register_hb e) (trail e) from to_end) (\<lambda>(tr, to_end).
     ok (e\<lparr>trail := resize_trail tr to_end\<rparr>))"

definition temp_push :: "tenv \<Rightarrow> cell \<Rightarrow> tenv" where
  "temp_push e t = e\<lparr>temp := t # temp e\<rparr>"

definition temp_pop :: "tenv \<Rightarrow> (cell \<times> tenv) tres" where
  "temp_pop e = (case temp e of [] \<Rightarrow> throw Undefined_behaviour | t # ts \<Rightarrow> ok (t, e\<lparr>temp := ts\<rparr>))"

definition temp_clear :: "tenv \<Rightarrow> tenv" where
  "temp_clear e = e\<lparr>temp := []\<rparr>"

definition temp_trail_push :: "tenv \<Rightarrow> nat \<Rightarrow> tenv" where
  "temp_trail_push e i = e\<lparr>temp_trail := i # temp_trail e\<rparr>"

text \<open>\<open>on_heap\<close> runs a heap operation that returns nothing.\<close>

definition on_heap :: "tenv \<Rightarrow> (heap \<Rightarrow> heap tres) \<Rightarrow> tenv tres" where
  "on_heap e f = bindR (f (te_heap e)) (\<lambda>h. ok (e\<lparr>te_heap := h\<rparr>))"

definition bind_ref :: "tenv \<Rightarrow> cell \<Rightarrow> cell \<Rightarrow> tenv tres" where
  "bind_ref e a b =
     (let index = cell_index a;
          e = (if cell_tag a = RFW_T then e\<lparr>te_heap := add_watched (te_heap e) index\<rparr> else e)
      in bindR (on_heap e (\<lambda>h. heap_set h index b)) (\<lambda>e. ok (trail_index e index)))"

function unwind_trail :: "tenv \<Rightarrow> nat \<Rightarrow> nat \<Rightarrow> tenv tres" where
  "unwind_trail e i to_end =
     (if i < to_end then
        (if i < length (trail e) then
           bindR (on_heap e (\<lambda>h. heap_set h (trail e ! i) (ref_cell (trail e ! i)))) (\<lambda>e. unwind_trail e (i + 1) to_end)
         else throw Undefined_behaviour)
      else ok e)"
  by pat_completeness auto
termination
  by (relation "measure (\<lambda>(e, i, to_end). to_end - i)") auto

declare unwind_trail.simps [simp del]

text \<open>\<open>save_state\<close> keeps the sizes of trail and stack and the choice point register.\<close>

definition save_state :: "tenv \<Rightarrow> nat \<times> nat \<times> nat" where
  "save_state e = (length (trail e), stack_size e, register_hb e)"

definition restore_state :: "tenv \<Rightarrow> nat \<times> nat \<times> nat \<Rightarrow> tenv tres" where
  "restore_state e = (\<lambda>(tr, st, hb). bindR (unwind_trail e tr (length (trail e))) (\<lambda>e.
     ok ((trim_stack (trim_trail e tr) st)\<lparr>register_hb := hb\<rparr>)))"

text \<open>\<open>new_term\<close> with arguments.\<close>

primrec set_args :: "heap \<Rightarrow> cell \<Rightarrow> nat \<Rightarrow> cell list \<Rightarrow> heap tres" where
  "set_args h t i [] = ok h"
| "set_args h t i (a # as) = bindR (set_arg h t i a) (\<lambda>h. set_args h t (Suc i) as)"

definition new_term_args :: "heap \<Rightarrow> cell \<Rightarrow> cell list \<Rightarrow> (heap \<times> cell) tres" where
  "new_term_args h f as = bindR (new_str h f) (\<lambda>(h, t). bindR (set_args h t 0 as) (\<lambda>h. ok (h, t)))"

definition new_big_bytes :: "heap \<Rightarrow> u8 list \<Rightarrow> (heap \<times> cell) tres" where
  "new_big_bytes h data = bindR (new_big h (length data * 8)) (\<lambda>(h, b). bindR (set_big h b data) (\<lambda>h. ok (h, b)))"

subsection \<open>Equality, hashing and cost\<close>

text \<open>Pushing the arguments pairwise, the last one first: \<open>n\<close> counts the arguments not pushed yet.\<close>

primrec push_args2 :: "tenv \<Rightarrow> cell \<Rightarrow> cell \<Rightarrow> nat \<Rightarrow> tenv tres" where
  "push_args2 e a b 0 = ok e"
| "push_args2 e a b (Suc n) = bindR (arg (te_heap e) a n) (\<lambda>ai. bindR (arg (te_heap e) b n) (\<lambda>bi.
     push_args2 (push (push e bi) ai) a b n))"

definition pop2_deref :: "tenv \<Rightarrow> (cell \<times> cell \<times> u64 \<times> tenv) tres" where
  "pop2_deref e = bindR (pop e) (\<lambda>(a, e). bindR (deref_with_cost (te_heap e) a) (\<lambda>(a, cost1).
     bindR (pop e) (\<lambda>(b, e). bindR (deref_with_cost (te_heap e) b) (\<lambda>(b, cost2). ok (a, b, cost1 + cost2, e)))))"

text \<open>One round of a loop either goes on with a new state or returns from the function.\<close>

datatype ('s, 'r) loop_step = Continue 's | Return 'r

definition equal_round :: "nat \<Rightarrow> tenv \<times> u64 \<Rightarrow> (tenv \<times> u64, bool \<times> u64 \<times> tenv) loop_step tres" where
  "equal_round d = (\<lambda>(e, cost). bindR (pop2_deref e) (\<lambda>(a, b, c, e). let cost = cost + c in
     if a = b then ok (Continue (e, cost))
     else if cell_tag a \<noteq> cell_tag b then ok (Return (False, cost, trim_stack e d))
     else if cell_tag a = BIG_T then
       bindR (big_equal (te_heap e) a b) (\<lambda>(eq, c). let cost = cost + c in
         if \<not> eq then ok (Return (False, cost, trim_stack e d)) else ok (Continue (e, cost)))
     else if cell_tag a \<noteq> STR_T then ok (Return (False, cost, trim_stack e d))
     else bindR (functor_of (te_heap e) a) (\<lambda>fa. bindR (functor_of (te_heap e) b) (\<lambda>fb.
       if fa \<noteq> fb then ok (Return (False, cost, trim_stack e d))
       else bindR (push_args2 e a b (arity fa)) (\<lambda>e. ok (Continue (e, cost)))))))"

partial_function (option) equal_loop :: "nat \<Rightarrow> tenv \<times> u64 \<Rightarrow> (bool \<times> u64 \<times> tenv) tres" where
  "equal_loop d s = (if stack_size (fst s) > d then
       bindR (equal_round d s) (\<lambda>r. case r of Continue s' \<Rightarrow> equal_loop d s' | Return x \<Rightarrow> ok x)
     else ok (True, snd s, fst s))"

definition term_equal :: "tenv \<Rightarrow> cell \<Rightarrow> cell \<Rightarrow> (bool \<times> u64 \<times> tenv) tres" where
  "term_equal e a b = equal_loop (stack_size e) (push (push e b) a, 0)"

text \<open>The first four bytes of a big number are mixed into a hash.\<close>

primrec hash_big_loop :: "heap \<Rightarrow> big_iterator \<Rightarrow> nat \<Rightarrow> u64 \<Rightarrow> u64 tres" where
  "hash_big_loop h it 0 acc = ok acc"
| "hash_big_loop h it (Suc n) acc = (let acc = push_bit 8 acc + ucast (big_get it) in
     bindR (big_next h it) (\<lambda>(h, it). hash_big_loop h it n acc))"

definition hash_big :: "heap \<Rightarrow> cell \<Rightarrow> u64 \<Rightarrow> u64 tres" where
  "hash_big h b acc = bindR (heap_num_bits h b) (\<lambda>n. bindR (big_begin h b) (\<lambda>it.
     hash_big_loop h it (min 4 ((n + 7) div 8)) (acc + of_nat n)))"

definition simple_hash :: "heap \<Rightarrow> cell \<Rightarrow> u64 tres" where
  "simple_hash h t = (case cell_tag t of
       CON_T \<Rightarrow> ok t | INT_T \<Rightarrow> ok t | REF_T \<Rightarrow> ok t | RFW_T \<Rightarrow> ok t
     | BIG_T \<Rightarrow> hash_big h t 0
     | STR_T \<Rightarrow> functor_of h t
     | _ \<Rightarrow> throw Assertion_failed)"

primrec push_args :: "tenv \<Rightarrow> cell \<Rightarrow> nat \<Rightarrow> nat \<Rightarrow> tenv tres" where
  "push_args e t i 0 = ok e"
| "push_args e t i (Suc n) = bindR (arg (te_heap e) t i) (\<lambda>ai. push_args (push e ai) t (Suc i) n)"

definition term_hash_round :: "tenv \<times> u64 \<Rightarrow> (tenv \<times> u64) tres" where
  "term_hash_round = (\<lambda>(e, h). bindR (pop e) (\<lambda>(t, e). bindR (deref (te_heap e) t) (\<lambda>t.
     case cell_tag t of
       CON_T \<Rightarrow> ok (e, h + t) | INT_T \<Rightarrow> ok (e, h + t) | REF_T \<Rightarrow> ok (e, h + t) | RFW_T \<Rightarrow> ok (e, h + t)
     | BIG_T \<Rightarrow> bindR (hash_big (te_heap e) t h) (\<lambda>h. ok (e, h))
     | STR_T \<Rightarrow> bindR (functor_of (te_heap e) t) (\<lambda>f. bindR (push_args e t 0 (arity f)) (\<lambda>e. ok (e, h + f)))
     | _ \<Rightarrow> ok (e, h))))"

partial_function (option) term_hash_loop :: "nat \<Rightarrow> tenv \<times> u64 \<Rightarrow> (tenv \<times> u64) tres" where
  "term_hash_loop d s = (if stack_size (fst s) > d then bindR (term_hash_round s) (term_hash_loop d) else ok s)"

definition term_hash :: "tenv \<Rightarrow> cell \<Rightarrow> (u64 \<times> tenv) tres" where
  "term_hash e t = bindR (term_hash_loop (stack_size e) (push e t, 0)) (\<lambda>(e, h). ok (h, e))"

definition cost_round :: "tenv \<times> u64 \<Rightarrow> (tenv \<times> u64) tres" where
  "cost_round = (\<lambda>(e, cost_acc). bindR (pop e) (\<lambda>(t, e). bindR (deref_with_cost (te_heap e) t) (\<lambda>(t, c).
     let cost_acc = cost_acc + c in
     if cell_tag t = STR_T then bindR (functor_of (te_heap e) t) (\<lambda>f. bindR (push_args e t 0 (arity f)) (\<lambda>e. ok (e, cost_acc)))
     else ok (e, cost_acc))))"

partial_function (option) cost_loop :: "nat \<Rightarrow> tenv \<times> u64 \<Rightarrow> (tenv \<times> u64) tres" where
  "cost_loop d s = (if stack_size (fst s) > d then bindR (cost_round s) (cost_loop d) else ok s)"

definition term_cost :: "tenv \<Rightarrow> cell \<Rightarrow> (u64 \<times> tenv) tres" where
  "term_cost e t = bindR (cost_loop (stack_size e) (push e t, 0)) (\<lambda>(e, c). ok (c, e))"

subsection \<open>Unification\<close>

text \<open>Following the forwarding cells that replace functors during a unification.\<close>

partial_function (option) follow_fwd :: "heap \<Rightarrow> nat \<Rightarrow> (nat \<times> cell) tres" where
  "follow_fwd h index = bindR (heap_get h index) (\<lambda>dest.
     if cell_tag dest = FWD_T then follow_fwd h (cell_index dest) else ok (index, dest))"

definition bind_vars :: "tenv \<Rightarrow> cell \<Rightarrow> cell \<Rightarrow> tenv tres" where
  "bind_vars e a b =
     (if cell_index a < cell_index b then
        bindR (if watched_ref b then on_heap e (\<lambda>h. heap_watch h (cell_index a) True) else ok e) (\<lambda>e. bind_ref e b a)
      else
        bindR (if watched_ref a then on_heap e (\<lambda>h. heap_watch h (cell_index b) True) else ok e) (\<lambda>e. bind_ref e a b))"

definition unify_str :: "tenv \<Rightarrow> cell \<Rightarrow> cell \<Rightarrow> (bool \<times> tenv) tres" where
  "unify_str e astr bstr =
     bindR (follow_fwd (te_heap e) (cell_index astr)) (\<lambda>(aindex, adest).
     bindR (follow_fwd (te_heap e) (cell_index bstr)) (\<lambda>(bindex, bdest).
       if cell_tag adest \<noteq> CON_T then throw (Expected_con_cell aindex adest)
       else if aindex = bindex then ok (True, e)
       else if adest \<noteq> bdest then ok (False, e)
       else bindR (on_heap (temp_trail_push e aindex) (\<lambda>h. heap_set h aindex (fwd_cell bindex))) (\<lambda>e.
         bindR (push_args2 e astr bstr (arity adest)) (\<lambda>e. ok (True, e)))))"

definition unify_big :: "(u8 list \<Rightarrow> int) \<Rightarrow> tenv \<Rightarrow> cell \<Rightarrow> cell \<Rightarrow> bool tres" where
  "unify_big import_bits e a b =
     bindR (heap_num_bits (te_heap e) a) (\<lambda>na. bindR (heap_num_bits (te_heap e) b) (\<lambda>nb.
       if na \<noteq> nb then ok False
       else bindR (get_big_int import_bits (te_heap e) a) (\<lambda>(ai, _).
            bindR (get_big_int import_bits (te_heap e) b) (\<lambda>(bi, _). ok (ai = bi)))))"

text \<open>One round; the result says whether the two terms can still be unified.\<close>

definition unify_round :: "(u8 list \<Rightarrow> int) \<Rightarrow> tenv \<Rightarrow> u64 \<Rightarrow> (bool \<times> u64 \<times> tenv) tres" where
  "unify_round import_bits e cost = bindR (pop2_deref e) (\<lambda>(a, b, c, e). let cost = cost + c in
     if a = b then ok (True, cost, e)
     else if is_ref (cell_tag a) then
       (if is_ref (cell_tag b) then bindR (bind_vars e a b) (\<lambda>e. ok (True, cost, e))
        else bindR (bind_ref e a b) (\<lambda>e. ok (True, cost, e)))
     else if is_ref (cell_tag b) then bindR (bind_ref e b a) (\<lambda>e. ok (True, cost, e))
     else if cell_tag a \<noteq> cell_tag b then ok (False, cost, e)
     else (case cell_tag a of
         CON_T \<Rightarrow> ok (a = b, cost, e)
       | INT_T \<Rightarrow> ok (a = b, cost, e)
       | STR_T \<Rightarrow> bindR (unify_str e a b) (\<lambda>(r, e). ok (r, cost, e))
       | BIG_T \<Rightarrow> bindR (unify_big import_bits e a b) (\<lambda>r. ok (r, cost, e))
       | _ \<Rightarrow> ok (True, cost, e)))"

partial_function (option) unify_loop :: "(u8 list \<Rightarrow> int) \<Rightarrow> nat \<Rightarrow> tenv \<Rightarrow> u64 \<Rightarrow> (bool \<times> u64 \<times> tenv) tres" where
  "unify_loop import_bits d e cost = (if stack_size e > d then
       bindR (unify_round import_bits e cost) (\<lambda>(r, cost, e).
         if r then unify_loop import_bits d e cost else ok (False, cost, e))
     else ok (True, cost, e))"

function restore_cells_after_unify :: "tenv \<Rightarrow> tenv tres" where
  "restore_cells_after_unify e = (case temp_trail e of
       [] \<Rightarrow> ok e
     | index # rest \<Rightarrow> bindR (heap_get (te_heap e) index) (\<lambda>fwd. bindR (heap_get (te_heap e) (cell_index fwd)) (\<lambda>c.
         bindR (heap_set (te_heap e) index c) (\<lambda>h. restore_cells_after_unify (e\<lparr>temp_trail := rest, te_heap := h\<rparr>)))))"
  by pat_completeness auto
termination
  by (relation "measure (\<lambda>e. length (temp_trail e))") auto

declare restore_cells_after_unify.simps [simp del]

definition unify_helper :: "(u8 list \<Rightarrow> int) \<Rightarrow> tenv \<Rightarrow> cell \<Rightarrow> cell \<Rightarrow> (bool \<times> u64 \<times> tenv) tres" where
  "unify_helper import_bits e a b =
     bindR (unify_loop import_bits (stack_size e) (push (push e b) a) 0) (\<lambda>(r, cost, e).
       bindR (restore_cells_after_unify e) (\<lambda>e. ok (r, cost, e)))"

definition unify :: "(u8 list \<Rightarrow> int) \<Rightarrow> tenv \<Rightarrow> cell \<Rightarrow> cell \<Rightarrow> (bool \<times> u64 \<times> tenv) tres" where
  "unify import_bits e a b =
     (let start_trail = length (trail e); start_stack = stack_size e; old_register_hb = register_hb e
      in bindR (unify_helper import_bits (e\<lparr>register_hb := hp_size (te_heap e)\<rparr>) a b) (\<lambda>(r, cost, e).
        if \<not> r then
          bindR (unwind_trail e start_trail (length (trail e))) (\<lambda>e.
            ok (False, cost, (trim_stack (trim_trail e start_trail) start_stack)\<lparr>register_hb := old_register_hb\<rparr>))
        else
          bindR (tidy_trail (e\<lparr>register_hb := old_register_hb\<rparr>) start_trail (length (trail e))) (\<lambda>e. ok (True, cost, e))))"

subsection \<open>Stacks that hold pairs\<close>

definition flat :: "(cell \<times> cell) list \<Rightarrow> cell list" where
  "flat ps = concat (map (\<lambda>(x, y). [x, y]) ps)"

lemma flat_simps [simp]: "flat [] = []" "flat ((x, y) # ps) = x # y # flat ps" "flat (ps @ qs) = flat ps @ flat qs"
  by (simp_all add: flat_def)

lemma length_flat [simp]: "length (flat ps) = 2 * length ps"
  by (induction ps) (auto simp: flat_def)

lemma pop2_deref_spec:
  assumes "heap_inv (te_heap e)" "stack e = x # y # st" "derefs (mem (te_heap e)) x a" "derefs (mem (te_heap e)) y b"
  obtains c where "pop2_deref e = ok (a, b, c, e\<lparr>stack := st\<rparr>)"
proof -
  obtain k1 where "deref_with_cost (te_heap e) x = ok (a, k1)" using deref_with_cost_derefs [OF assms(1,3)] by blast
  moreover obtain k2 where "deref_with_cost (te_heap e) y = ok (b, k2)" using deref_with_cost_derefs [OF assms(1,4)] by blast
  ultimately have "pop2_deref e = ok (a, b, k1 + k2, e\<lparr>stack := st\<rparr>)"
    using assms(2) by (simp add: pop2_deref_def pop_def)
  then show thesis by (rule that)
qed

lemma push_args2_spec:
  assumes inv: "heap_inv (te_heap e)" and t: "cell_tag a = STR_T" "cell_tag b = STR_T"
    and gh: "\<And>k. k < n \<Longrightarrow> arg (te_heap e) a k = ok (g k) \<and> arg (te_heap e) b k = ok (h k)"
  shows "push_args2 e a b n = ok (e\<lparr>stack := flat (map (\<lambda>k. (g k, h k)) [0..<n]) @ stack e\<rparr>)"
  using inv gh
proof (induction n arbitrary: e)
  case (Suc n)
  let ?e = "push (push e (h n)) (g n)"
  have "push_args2 ?e a b n = ok (?e\<lparr>stack := flat (map (\<lambda>k. (g k, h k)) [0..<n]) @ stack ?e\<rparr>)"
    using Suc.prems by (intro Suc.IH) (auto simp: push_def)
  then show ?case using Suc.prems(2) [of n] by (simp add: push_def)
qed simp

end
