(* ===== verification/Unify_Store.thy ===== *)
theory Unify_Store
  imports Term_Env
begin

section \<open>Stores during a unification\<close>

text \<open>
  What a store looks like while terms are unified: the well-formedness of stores, solutions of a unification problem,
  and the invariant that relates the store, the pairs still on the stack and the solutions.

  The cells of the terms are described by three sets of addresses: \<open>D\<close> the cells that hold terms, \<open>F\<close> the cells that
  hold functors, \<open>B\<close> the headers of big numbers.
\<close>

subsection \<open>Well-formed stores\<close>

definition self_ref :: "(nat \<Rightarrow> cell option) \<Rightarrow> nat \<Rightarrow> bool" where
  "self_ref m a \<longleftrightarrow> (\<exists>c. m a = Some c \<and> is_ref (cell_tag c) \<and> cell_index c = a)"

definition term_ok :: "nat set \<Rightarrow> nat set \<Rightarrow> nat set \<Rightarrow> cell \<Rightarrow> bool" where
  "term_ok D F B c \<longleftrightarrow> cell_tag c \<noteq> DAT_T \<and> cell_tag c \<noteq> FWD_T \<and> (is_ref (cell_tag c) \<longrightarrow> cell_index c \<in> D) \<and>
     (cell_tag c = STR_T \<longrightarrow> cell_index c \<in> F) \<and> (cell_tag c = BIG_T \<longrightarrow> cell_index c \<in> B)"

definition num_bytes_at :: "(nat \<Rightarrow> cell option) \<Rightarrow> nat \<Rightarrow> nat" where
  "num_bytes_at m b = (num_bits (the (m b)) + 7) div 8"

definition store_ok :: "(nat \<Rightarrow> cell option) \<Rightarrow> nat set \<Rightarrow> nat set \<Rightarrow> nat set \<Rightarrow> bool" where
  "store_ok m D F B \<longleftrightarrow> finite D \<and> finite F \<and> D \<inter> F = {} \<and> D \<union> F \<subseteq> {..<addr_limit} \<and>
     (\<forall>a\<in>D. \<exists>c. m a = Some c \<and> term_ok D F B c) \<and>
     (\<forall>f\<in>F. \<exists>c. m f = Some c \<and> cell_tag c = CON_T \<and> (\<forall>i<arity c. f + 1 + i \<in> D)) \<and>
     (\<forall>b\<in>B. big_cells m b (num_bytes_at m b) \<and> big_area b (num_bytes_at m b) \<inter> (D \<union> F) = {}) \<and>
     acyclic (ref_edges m D)"

lemma term_ok_refs: "(\<forall>a\<in>D. \<exists>c. m a = Some c \<and> term_ok D F B c) \<Longrightarrow> refs_closed m D"
  by (fastforce simp: refs_closed_def term_ok_def)

text \<open>\<open>same_big\<close>: two big numbers with the same size and bytes.\<close>

definition same_big :: "(nat \<Rightarrow> cell option) \<Rightarrow> nat \<Rightarrow> nat \<Rightarrow> bool" where
  "same_big m a b \<longleftrightarrow> num_bits (the (m a)) = num_bits (the (m b)) \<and>
     big_data m a (num_bytes_at m a) = big_data m b (num_bytes_at m b)"

text \<open>A solution identifies cells so that references are transparent and identified values agree: it is the
  kernel of an assignment of (possibly infinite) trees to the variables.\<close>

definition agree :: "(nat \<Rightarrow> cell option) \<Rightarrow> (cell \<Rightarrow> cell \<Rightarrow> bool) \<Rightarrow> cell \<Rightarrow> cell \<Rightarrow> bool" where
  "agree m E c d \<longleftrightarrow> cell_tag c = cell_tag d \<and> (cell_tag c \<in> {CON_T, INT_T} \<longrightarrow> c = d) \<and>
     (cell_tag c = BIG_T \<longrightarrow> same_big m (cell_index c) (cell_index d)) \<and>
     (cell_tag c = STR_T \<longrightarrow> m (cell_index c) = m (cell_index d) \<and>
        (\<forall>i<arity (the (m (cell_index c))). E (ref_cell (cell_index c + 1 + i)) (ref_cell (cell_index d + 1 + i))))"

definition solution :: "(nat \<Rightarrow> cell option) \<Rightarrow> nat set \<Rightarrow> nat set \<Rightarrow> nat set \<Rightarrow> (cell \<Rightarrow> cell \<Rightarrow> bool) \<Rightarrow> bool" where
  "solution m D F B E \<longleftrightarrow> equivp E \<and> (\<forall>c d. term_ok D F B c \<longrightarrow> derefs m c d \<longrightarrow> E c d) \<and>
     (\<forall>c d. term_ok D F B c \<longrightarrow> term_ok D F B d \<longrightarrow> \<not> is_ref (cell_tag c) \<longrightarrow> \<not> is_ref (cell_tag d) \<longrightarrow> E c d \<longrightarrow>
        agree m E c d)"

definition unifiable :: "(nat \<Rightarrow> cell option) \<Rightarrow> nat set \<Rightarrow> nat set \<Rightarrow> nat set \<Rightarrow> cell \<Rightarrow> cell \<Rightarrow> bool" where
  "unifiable m D F B a b \<longleftrightarrow> (\<exists>E. solution m D F B E \<and> E a b)"

lemma solutionD:
  assumes "solution m D F B E"
  shows "E c c" "E c d \<Longrightarrow> E d c" "E c d \<Longrightarrow> E d e \<Longrightarrow> E c e" "term_ok D F B c \<Longrightarrow> derefs m c d \<Longrightarrow> E c d"
    "term_ok D F B c \<Longrightarrow> term_ok D F B d \<Longrightarrow> \<not> is_ref (cell_tag c) \<Longrightarrow> \<not> is_ref (cell_tag d) \<Longrightarrow> E c d \<Longrightarrow> agree m E c d"
  using assms unfolding solution_def by (blast elim: equivpE dest: reflpD sympD transpD)+

subsection \<open>The store during a unification\<close>

text \<open>Forwarding cells form a union-find structure over the functor cells; \<open>cl Q\<close> is the equivalence generated by the
  pairs \<open>Q\<close> of structures unified so far.\<close>

definition cl :: "(nat \<times> nat) set \<Rightarrow> (nat \<times> nat) set" where
  "cl Q = (Q \<union> Q\<inverse>)\<^sup>*"

lemma cl_refl [simp, intro]: "(a, a) \<in> cl Q"
  by (simp add: cl_def)

lemma cl_sym: "(a, b) \<in> cl Q \<Longrightarrow> (b, a) \<in> cl Q"
  unfolding cl_def by (metis converse_Un converse_converse rtrancl_converse converse_iff sup_commute)

lemma cl_trans: "(a, b) \<in> cl Q \<Longrightarrow> (b, c) \<in> cl Q \<Longrightarrow> (a, c) \<in> cl Q"
  unfolding cl_def by (rule rtrancl_trans)

lemma cl_mono: "Q \<subseteq> Q' \<Longrightarrow> cl Q \<subseteq> cl Q'"
  unfolding cl_def by (rule rtrancl_mono) auto

lemma cl_base: "(a, b) \<in> Q \<Longrightarrow> (a, b) \<in> cl Q"
  by (auto simp: cl_def)

definition fwd_edges :: "(nat \<Rightarrow> cell option) \<Rightarrow> nat set \<Rightarrow> (nat \<times> nat) set" where
  "fwd_edges m F = {(f, g). f \<in> F \<and> g \<in> F \<and> m f = Some (fwd_cell g)}"

definition uinv :: "(nat \<Rightarrow> cell option) \<Rightarrow> nat set \<Rightarrow> nat set \<Rightarrow> nat set \<Rightarrow> (nat \<Rightarrow> cell option) \<Rightarrow> (nat \<times> nat) set \<Rightarrow> bool" where
  "uinv m0 D F B m Q \<longleftrightarrow>
     (\<forall>a. a \<notin> D \<union> F \<longrightarrow> m a = m0 a) \<and> (\<forall>a\<in>D. m a = m0 a \<or> self_ref m0 a) \<and>
     (\<forall>a\<in>D. \<exists>c. m a = Some c \<and> term_ok D F B c) \<and> acyclic (ref_edges m D) \<and>
     (\<forall>f\<in>F. m f = m0 f \<or> (\<exists>g\<in>F. m f = Some (fwd_cell g) \<and> (f, g) \<in> cl Q)) \<and>
     (\<forall>i j. (i, j) \<in> Q \<longrightarrow> i \<in> F \<and> j \<in> F \<and> m0 i = m0 j) \<and> acyclic (fwd_edges m F)"

lemma uinv_init: "store_ok m0 D F B \<Longrightarrow> uinv m0 D F B m0 {}"
proof -
  assume s: "store_ok m0 D F B"
  have "fwd_edges m0 F = {}"
  proof -
    have "m0 f \<noteq> Some (fwd_cell g)" if "f \<in> F" for f g
      using s that by (fastforce simp: store_ok_def)
    then show ?thesis by (auto simp: fwd_edges_def)
  qed
  then show "uinv m0 D F B m0 {}" using s by (simp add: uinv_def store_ok_def acyclic_def)
qed

lemma uinv_total:
  assumes s: "store_ok m0 D F B" and u: "uinv m0 D F B m Q" and c: "term_ok D F B c"
  obtains d where "derefs m c d" "term_ok D F B d" "root m d"
proof -
  have cl: "refs_closed m D" using u by (intro term_ok_refs [of D m F B]) (simp add: uinv_def)
  have "wf ((ref_edges m D)\<inverse>)" using u s by (intro ref_edges_wf [OF cl]) (simp_all add: uinv_def store_ok_def)
  then obtain d where d: "derefs m c d"
    using derefs_total [OF cl] c by (auto simp: term_ok_def)
  have "d = c \<or> (\<exists>a\<in>D. m a = Some d)" using derefs_source [OF d cl] c by (simp add: term_ok_def)
  then have "term_ok D F B d" using c u by (auto simp: uinv_def)
  then show thesis using that d derefs_root by blast
qed

lemma ref_ok: "store_ok m D F B \<Longrightarrow> a \<in> D \<Longrightarrow> term_ok D F B (ref_cell a)"
  by (auto simp: store_ok_def term_ok_def)

lemma store_limit: "store_ok m D F B \<Longrightarrow> a \<in> D \<or> a \<in> F \<Longrightarrow> a < addr_limit"
  by (auto simp: store_ok_def)

text \<open>Binding or marking a variable.\<close>

lemma ref_edges_upd:
  assumes "self_ref m x"
  shows "ref_edges (m(x \<mapsto> v)) D \<subseteq> (if is_ref (cell_tag v) \<and> cell_index v \<noteq> x then insert (x, cell_index v) (ref_edges m D) else ref_edges m D)"
  using assms by (auto simp: ref_edges_def self_ref_def split: if_splits)

lemma root_no_edge: "self_ref m y \<Longrightarrow> (y, z) \<in> (ref_edges m D)\<^sup>* \<Longrightarrow> z = y"
  by (erule converse_rtranclE) (auto simp: ref_edges_def self_ref_def)

lemma acyclic_upd:
  assumes "acyclic (ref_edges m D)" "self_ref m x" "is_ref (cell_tag v) \<Longrightarrow> cell_index v \<noteq> x \<Longrightarrow> self_ref m (cell_index v)"
  shows "acyclic (ref_edges (m(x \<mapsto> v)) D)"
proof (rule acyclic_subset [OF _ ref_edges_upd [OF assms(2)]])
  show "acyclic (if is_ref (cell_tag v) \<and> cell_index v \<noteq> x then insert (x, cell_index v) (ref_edges m D) else ref_edges m D)"
    using assms root_no_edge [of m "cell_index v" x D] by (auto simp: acyclic_insert)
qed

lemma uinv_upd:
  assumes s: "store_ok m0 D F B" and u: "uinv m0 D F B m Q" and x: "x \<in> D" "self_ref m x" and v: "term_ok D F B v"
    and r: "is_ref (cell_tag v) \<Longrightarrow> cell_index v \<noteq> x \<Longrightarrow> self_ref m (cell_index v)"
  shows "uinv m0 D F B (m(x \<mapsto> v)) Q"
proof -
  have nf: "x \<notin> F" using s x by (auto simp: store_ok_def)
  then have "fwd_edges (m(x \<mapsto> v)) F = fwd_edges m F" by (auto simp: fwd_edges_def split: if_splits)
  moreover have "self_ref m0 x" using u x by (auto simp: uinv_def self_ref_def)
  ultimately show ?thesis
    using u x nf v acyclic_upd [OF _ x(2) r] by (auto simp: uinv_def)
qed

text \<open>A step of the store moves the roots of the cells in \<open>T\<close> uniformly, and never a value.\<close>

definition moves :: "(cell \<Rightarrow> bool) \<Rightarrow> (nat \<Rightarrow> cell option) \<Rightarrow> (nat \<Rightarrow> cell option) \<Rightarrow> bool" where
  "moves T m m' \<longleftrightarrow> (\<exists>\<phi>. (\<forall>c d. T c \<longrightarrow> derefs m c d \<longrightarrow> derefs m' c (\<phi> d)) \<and> (\<forall>d. \<not> is_ref (cell_tag d) \<longrightarrow> \<phi> d = d))"

lemma movesE:
  assumes "moves T m m'"
  obtains \<phi> where "\<And>c d. T c \<Longrightarrow> derefs m c d \<Longrightarrow> derefs m' c (\<phi> d)" "\<And>d. \<not> is_ref (cell_tag d) \<Longrightarrow> \<phi> d = d"
  using assms by (auto simp: moves_def)

lemma movesI:
  "(\<And>c d. T c \<Longrightarrow> derefs m c d \<Longrightarrow> derefs m' c (\<phi> d)) \<Longrightarrow> (\<And>d. \<not> is_ref (cell_tag d) \<Longrightarrow> \<phi> d = d) \<Longrightarrow> moves T m m'"
  by (auto simp: moves_def)

lemma moves_refl: "moves T m m"
  by (rule movesI [where \<phi> = id]) simp_all

lemma moves_trans:
  assumes "moves T m m'" "moves T m' m''"
  shows "moves T m m''"
proof -
  obtain \<phi> where f: "\<And>c d. T c \<Longrightarrow> derefs m c d \<Longrightarrow> derefs m' c (\<phi> d)" "\<And>d. \<not> is_ref (cell_tag d) \<Longrightarrow> \<phi> d = d"
    using assms(1) unfolding moves_def by blast
  obtain \<psi> where g: "\<And>c d. T c \<Longrightarrow> derefs m' c d \<Longrightarrow> derefs m'' c (\<psi> d)" "\<And>d. \<not> is_ref (cell_tag d) \<Longrightarrow> \<psi> d = d"
    using assms(2) unfolding moves_def by blast
  show ?thesis by (rule movesI [where \<phi> = "\<lambda>d. \<psi> (\<phi> d)"]) (simp_all add: f g)
qed

lemma upd_derefs:
  assumes x: "self_ref m x" and v: "\<And>c. is_ref (cell_tag c) \<Longrightarrow> cell_index c = x \<Longrightarrow> derefs (m(x \<mapsto> v)) c v'"
    and d: "derefs m c d"
  shows "derefs (m(x \<mapsto> v)) c (if is_ref (cell_tag d) \<and> cell_index d = x then v' else d)"
proof -
  obtain dx where dx: "m x = Some dx" "is_ref (cell_tag dx)" "cell_index dx = x" using x by (auto simp: self_ref_def)
  show ?thesis by (rule derefs_update [OF d dx v])
qed

lemma upd_moves:
  assumes x: "self_ref m x" and v: "\<And>c. is_ref (cell_tag c) \<Longrightarrow> cell_index c = x \<Longrightarrow> derefs (m(x \<mapsto> v)) c v'"
  shows "moves T m (m(x \<mapsto> v))"
  by (rule movesI [where \<phi> = "\<lambda>d. if is_ref (cell_tag d) \<and> cell_index d = x then v' else d"])
    (use upd_derefs [OF x v] in auto)

lemma derefs_nonref [simp]: "\<not> is_ref (cell_tag c) \<Longrightarrow> derefs m c d \<longleftrightarrow> d = c"
  using derefs_unique [OF derefs.nonref] derefs.nonref by blast

lemma derefs_same_index:
  assumes "derefs m c d" "is_ref (cell_tag c)" "is_ref (cell_tag c')" "cell_index c' = cell_index c"
  shows "derefs m c' d"
  using assms
proof (cases rule: derefs.cases)
  case (follow c'')
  then show ?thesis
    using assms by (cases "c'' = c'") (auto intro: derefs.intros derefs_unique)
next
  case unbound
  then show ?thesis using assms by (cases "c' = c") (auto intro: derefs.intros)
qed simp

lemma bind_derefs:
  assumes "derefs m v v'" "is_ref (cell_tag v) \<Longrightarrow> cell_index v \<noteq> x \<and> is_ref (cell_tag v') \<and> cell_index v' = cell_index v"
    and c: "is_ref (cell_tag c)" "cell_index c = x"
  shows "derefs (m(x \<mapsto> v)) c v'"
proof -
  have "derefs (m(x \<mapsto> v)) v v'"
  proof (cases "is_ref (cell_tag v)")
    case True
    then have r: "is_ref (cell_tag v')" "cell_index v' = cell_index v" "cell_index v \<noteq> x" using assms(2) by auto
    then have "(m(x \<mapsto> v)) (cell_index v') = Some v'" using derefs_root [OF assms(1)] by (simp add: root_def)
    then have "derefs (m(x \<mapsto> v)) v' v'" by (rule derefs.unbound [OF r(1)])
    then show ?thesis by (rule derefs_same_index [OF _ r(1) True r(2) [symmetric]])
  qed (use assms(1) in simp)
  moreover have "v \<noteq> c" using assms by auto
  ultimately show ?thesis using c by (auto intro: derefs.follow simp del: fun_upd_apply simp: fun_upd_same)
qed

lemma watch_derefs:
  assumes "x < addr_limit" "is_ref (cell_tag c)" "cell_index c = x"
  shows "derefs (m(x \<mapsto> rfw_cell x)) c (rfw_cell x)"
proof -
  have "derefs (m(x \<mapsto> rfw_cell x)) (rfw_cell x) (rfw_cell x)" using assms(1) by (intro derefs.unbound) simp_all
  then show ?thesis
    using assms by (cases "c = rfw_cell x") (auto intro: derefs.follow simp del: fun_upd_apply simp: fun_upd_same)
qed

subsection \<open>Pairs that are equal, pairs that remain\<close>

definition same_value :: "(nat \<Rightarrow> cell option) \<Rightarrow> (nat \<times> nat) set \<Rightarrow> cell \<Rightarrow> cell \<Rightarrow> bool" where
  "same_value m0 Q c d \<longleftrightarrow> c = d \<or>
     cell_tag c = BIG_T \<and> cell_tag d = BIG_T \<and> same_big m0 (cell_index c) (cell_index d) \<or>
     cell_tag c = STR_T \<and> cell_tag d = STR_T \<and> (cell_index c, cell_index d) \<in> cl Q"

definition joined :: "(cell \<Rightarrow> bool) \<Rightarrow> (nat \<Rightarrow> cell option) \<Rightarrow> (nat \<Rightarrow> cell option) \<Rightarrow> (nat \<times> nat) set \<Rightarrow> cell \<Rightarrow> cell \<Rightarrow> bool" where
  "joined T m0 m Q c d \<longleftrightarrow> T c \<and> T d \<and> (\<exists>c' d'. derefs m c c' \<and> derefs m d d' \<and> same_value m0 Q c' d')"

definition same_root :: "(cell \<Rightarrow> bool) \<Rightarrow> (nat \<Rightarrow> cell option) \<Rightarrow> cell \<Rightarrow> cell \<Rightarrow> bool" where
  "same_root T m c d \<longleftrightarrow> T c \<and> T d \<and> (\<exists>r. derefs m c r \<and> derefs m d r)"

definition todo :: "(cell \<Rightarrow> bool) \<Rightarrow> (nat \<Rightarrow> cell option) \<Rightarrow> (nat \<Rightarrow> cell option) \<Rightarrow> (nat \<times> nat) set \<Rightarrow> (cell \<times> cell) list \<Rightarrow> cell \<Rightarrow> cell \<Rightarrow> bool" where
  "todo T m0 m Q ps c d \<longleftrightarrow> joined T m0 m Q c d \<or> (\<exists>x y. (x, y) \<in> set ps \<and> same_root T m c x \<and> same_root T m d y)"

lemma same_value_refl [simp]: "same_value m0 Q c c"
  by (simp add: same_value_def)

lemma same_value_sym: "same_value m0 Q c d \<Longrightarrow> same_value m0 Q d c"
  by (auto simp: same_value_def same_big_def dest: cl_sym)

lemma same_value_trans: "same_value m0 Q c d \<Longrightarrow> same_value m0 Q d e \<Longrightarrow> same_value m0 Q c e"
  by (auto simp: same_value_def same_big_def dest: cl_trans)

lemma same_value_mono: "same_value m0 Q c d \<Longrightarrow> Q \<subseteq> Q' \<Longrightarrow> same_value m0 Q' c d"
  using cl_mono [of Q Q'] by (auto simp: same_value_def)

lemma joined_mono:
  assumes "joined T m0 m Q c d" "moves T m m'" "Q \<subseteq> Q'"
  shows "joined T m0 m' Q' c d"
proof -
  obtain \<phi> where f: "\<And>c d. T c \<Longrightarrow> derefs m c d \<Longrightarrow> derefs m' c (\<phi> d)" "\<And>d. \<not> is_ref (cell_tag d) \<Longrightarrow> \<phi> d = d"
    using assms(2) unfolding moves_def by blast
  obtain c' d' where c: "T c" "T d" "derefs m c c'" "derefs m d d'" "same_value m0 Q c' d'"
    using assms(1) by (auto simp: joined_def)
  have "same_value m0 Q' (\<phi> c') (\<phi> d')"
  proof (cases "c' = d'")
    case False
    then have "\<phi> c' = c'" "\<phi> d' = d'" using c(5) f(2) by (auto simp: same_value_def)
    then show ?thesis using same_value_mono [OF c(5) assms(3)] by simp
  qed simp
  then show ?thesis using f(1) c by (auto simp: joined_def)
qed

lemma same_root_mono: "same_root T m c d \<Longrightarrow> moves T m m' \<Longrightarrow> same_root T m' c d"
  by (auto simp: same_root_def moves_def)

lemma joined_sym: "joined T m0 m Q c d \<Longrightarrow> joined T m0 m Q d c"
  by (auto simp: joined_def dest: same_value_sym)

lemma joined_trans: "joined T m0 m Q c d \<Longrightarrow> joined T m0 m Q d e \<Longrightarrow> joined T m0 m Q c e"
  using same_value_trans derefs_unique unfolding joined_def by metis

lemma joined_roots: "same_root T m c x \<Longrightarrow> same_root T m d y \<Longrightarrow> joined T m0 m Q x y \<Longrightarrow> joined T m0 m Q c d"
  using derefs_unique unfolding joined_def same_root_def by metis

text \<open>When the pair on top is done, what remains is on the rest of the stack.\<close>

lemma todo_step:
  assumes t: "todo T m0 m Q ((x, y) # ps) c d" and mv: "moves T m m'" and q: "Q \<subseteq> Q'" and sub: "set ps \<subseteq> set ps'"
    and j: "joined T m0 m' Q' x y"
  shows "todo T m0 m' Q' ps' c d"
proof -
  consider "joined T m0 m Q c d" | "same_root T m c x" "same_root T m d y" |
    x' y' where "(x', y') \<in> set ps" "same_root T m c x'" "same_root T m d y'"
    using t by (auto simp: todo_def)
  then show ?thesis
  proof cases
    case 1 then show ?thesis using joined_mono [OF _ mv q] by (simp add: todo_def)
  next
    case 2 then show ?thesis
      using joined_roots [OF same_root_mono [OF _ mv] same_root_mono [OF _ mv] j] by (simp add: todo_def)
  next
    case 3 then show ?thesis using same_root_mono [OF _ mv] sub unfolding todo_def by blast
  qed
qed

lemma todo_moves:
  assumes t: "todo T m0 m Q ps c d" and mv: "moves T m m'"
  shows "todo T m0 m' Q ps c d"
  using t joined_mono [OF _ mv subset_refl] same_root_mono [OF _ mv] unfolding todo_def by blast

lemma todo_done: "todo T m0 m Q [] c d \<Longrightarrow> joined T m0 m Q c d"
  by (simp add: todo_def)

text \<open>When nothing remains, being joined is a solution of the original store: the terms are unifiable.\<close>

definition args_todo :: "(cell \<Rightarrow> bool) \<Rightarrow> (nat \<Rightarrow> cell option) \<Rightarrow> (nat \<Rightarrow> cell option) \<Rightarrow> (nat \<times> nat) set \<Rightarrow> (cell \<times> cell) list \<Rightarrow> bool" where
  "args_todo T m0 m Q ps \<longleftrightarrow> (\<forall>i j k. (i, j) \<in> Q \<longrightarrow> k < arity (the (m0 i)) \<longrightarrow>
     todo T m0 m Q ps (ref_cell (i + 1 + k)) (ref_cell (j + 1 + k)))"

lemma cl_same:
  assumes "uinv m0 D F B m Q" "(i, j) \<in> cl Q"
  shows "m0 i = m0 j" "i \<in> F \<longleftrightarrow> j \<in> F"
proof -
  have "m0 i = m0 j \<and> (i \<in> F \<longleftrightarrow> j \<in> F)"
    using assms(2) unfolding cl_def
    by (induction rule: rtrancl_induct) (use assms(1) in \<open>auto simp: uinv_def\<close>)
  then show "m0 i = m0 j" "i \<in> F \<longleftrightarrow> j \<in> F" by blast+
qed

lemma functor_arg:
  assumes "store_ok m0 D F B" "i \<in> F" "k < arity (the (m0 i))"
  shows "i + 1 + k \<in> D" "term_ok D F B (ref_cell (i + 1 + k))"
proof -
  show "i + 1 + k \<in> D" using assms by (auto simp: store_ok_def)
  then show "term_ok D F B (ref_cell (i + 1 + k))" using assms(1) by (rule ref_ok [rotated])
qed

lemma joined_refl:
  assumes "store_ok m0 D F B" "uinv m0 D F B m Q" "term_ok D F B c"
  shows "joined (term_ok D F B) m0 m Q c c"
proof -
  obtain d where "derefs m c d" using uinv_total [OF assms] by blast
  then show ?thesis using assms(3) same_value_refl unfolding joined_def by blast
qed

lemma cl_args:
  assumes s: "store_ok m0 D F B" and u: "uinv m0 D F B m Q" and t: "args_todo (term_ok D F B) m0 m Q []"
    and c: "(i, j) \<in> cl Q" and i: "i \<in> F" and k: "k < arity (the (m0 i))"
  shows "joined (term_ok D F B) m0 m Q (ref_cell (i + 1 + k)) (ref_cell (j + 1 + k))"
  using c unfolding cl_def
proof (induction rule: rtrancl_induct)
  case base
  show ?case by (rule joined_refl [OF s u functor_arg(2) [OF s i k]])
next
  case (step j l)
  have e: "m0 i = m0 j" "m0 j = m0 l" using cl_same(1) [OF u] step.hyps by (auto simp: cl_def)
  have "joined (term_ok D F B) m0 m Q (ref_cell (j + 1 + k)) (ref_cell (l + 1 + k))"
  proof (cases "(j, l) \<in> Q")
    case True
    then have "todo (term_ok D F B) m0 m Q [] (ref_cell (j + 1 + k)) (ref_cell (l + 1 + k))"
      using t k e unfolding args_todo_def by metis
    then show ?thesis by (rule todo_done)
  next
    case False
    then have "(l, j) \<in> Q" using step.hyps(2) by blast
    then have "todo (term_ok D F B) m0 m Q [] (ref_cell (l + 1 + k)) (ref_cell (j + 1 + k))"
      using t k e unfolding args_todo_def by metis
    then show ?thesis using joined_sym [OF todo_done] by blast
  qed
  with step.IH show ?case by (rule joined_trans)
qed

text \<open>The identification a finished unification stands for.\<close>

definition joined_ok :: "(cell \<Rightarrow> bool) \<Rightarrow> (nat \<Rightarrow> cell option) \<Rightarrow> (nat \<Rightarrow> cell option) \<Rightarrow> (nat \<times> nat) set \<Rightarrow> cell \<Rightarrow> cell \<Rightarrow> bool" where
  "joined_ok T m0 m Q c d \<longleftrightarrow> c = d \<or> joined T m0 m Q c d"

lemma joined_solution:
  assumes s: "store_ok m0 D F B" and u: "uinv m0 D F B m Q" and t: "args_todo (term_ok D F B) m0 m Q []"
    and mv: "moves (term_ok D F B) m0 m"
  shows "solution m0 D F B (joined_ok (term_ok D F B) m0 m Q)"
  unfolding solution_def
proof (intro conjI allI impI)
  let ?T = "term_ok D F B"
  let ?E = "joined_ok ?T m0 m Q"
  show "equivp ?E"
    by (intro equivpI reflpI sympI transpI)
      (auto simp: joined_ok_def dest: joined_sym joined_trans)
  {
    fix c d assume c: "?T c" "derefs m0 c d"
    obtain \<phi> where f: "\<And>c d. ?T c \<Longrightarrow> derefs m0 c d \<Longrightarrow> derefs m c (\<phi> d)" "\<And>d. \<not> is_ref (cell_tag d) \<Longrightarrow> \<phi> d = d"
      using mv unfolding moves_def by blast
    have d: "?T d" using uinv_total [OF s uinv_init [OF s] c(1)] derefs_unique [OF c(2)] by metis
    have "derefs m d (\<phi> d)" using f(1) [OF d derefs_idem [OF c(2)]] .
    then have "joined ?T m0 m Q c d" using f(1) [OF c] c(1) d same_value_refl unfolding joined_def by blast
    then show "?E c d" by (simp add: joined_ok_def)
  next
    fix c d
    assume ok: "?T c" "?T d" and n: "\<not> is_ref (cell_tag c)" "\<not> is_ref (cell_tag d)" and E: "?E c d"
    have sv: "same_value m0 Q c d" using E n by (auto simp: joined_ok_def joined_def)
    then have str: "(cell_index c, cell_index d) \<in> cl Q" if "cell_tag c = STR_T"
      using that by (auto simp: same_value_def)
    have tags: "cell_tag c = cell_tag d" "cell_tag c \<in> {CON_T, INT_T} \<longrightarrow> c = d"
      "cell_tag c = BIG_T \<longrightarrow> same_big m0 (cell_index c) (cell_index d)"
      using sv by (auto simp: same_value_def same_big_def)
    have args: "?E (ref_cell (cell_index c + 1 + i)) (ref_cell (cell_index d + 1 + i))"
      if c: "cell_tag c = STR_T" and i: "i < arity (the (m0 (cell_index c)))" for i
    proof -
      have "cell_index c \<in> F" using ok c by (simp add: term_ok_def)
      from cl_args [OF s u t str [OF c] this i] show ?thesis unfolding joined_ok_def by (rule disjI2)
    qed
    have "m0 (cell_index c) = m0 (cell_index d)" if "cell_tag c = STR_T"
      by (rule cl_same(1) [OF u str [OF that]])
    then show "agree m0 ?E c d"
      unfolding agree_def by (intro conjI impI allI tags(1) tags(2) [rule_format] tags(3) [rule_format] args)
  }
qed

subsection \<open>The invariant of the loop\<close>

text \<open>Forwarding cells, newest first: each forwards to a functor that was not forwarded when it was written.\<close>

primrec fwd_ok :: "(nat \<Rightarrow> cell option) \<Rightarrow> nat set \<Rightarrow> (nat \<Rightarrow> cell option) \<Rightarrow> nat list \<Rightarrow> bool" where
  "fwd_ok m0 F m [] \<longleftrightarrow> True"
| "fwd_ok m0 F m (f # fs) \<longleftrightarrow> f \<in> F \<and> f \<notin> set fs \<and>
     (\<exists>g\<in>F. m f = Some (fwd_cell g) \<and> g \<notin> set (f # fs) \<and> m0 g = m0 f) \<and> fwd_ok m0 F m fs"

lemma fwd_ok_agree: "fwd_ok m0 F m fs \<Longrightarrow> (\<And>f. f \<in> set fs \<Longrightarrow> m' f = m f) \<Longrightarrow> fwd_ok m0 F m' fs"
  by (induction fs) auto

lemma fwd_ok_sub: "fwd_ok m0 F m fs \<Longrightarrow> set fs \<subseteq> F \<and> distinct fs"
  by (induction fs) auto

text \<open>The parts of the invariant: the pairs on the stack are terms; every variable whose cell has changed is on the trail
  (or only its watch mark has changed); exactly the functors on the temporary trail are forwarded; and every solution
  identifies the pairs on the stack and satisfies the bindings made so far.\<close>

definition pairs_ok :: "(cell \<Rightarrow> bool) \<Rightarrow> (cell \<times> cell) list \<Rightarrow> bool" where
  "pairs_ok T ps \<longleftrightarrow> (\<forall>x y. (x, y) \<in> set ps \<longrightarrow> T x \<and> T y)"

definition trailed :: "(nat \<Rightarrow> cell option) \<Rightarrow> nat set \<Rightarrow> (nat \<Rightarrow> cell option) \<Rightarrow> nat list \<Rightarrow> bool" where
  "trailed m0 D m t \<longleftrightarrow> distinct t \<and> (\<forall>x\<in>set t. x \<in> D \<and> self_ref m0 x \<and> \<not> self_ref m x) \<and> (\<forall>x\<in>D. m x = m0 x \<or> x \<in> set t \<or> self_ref m x)"

definition forwards :: "(nat \<Rightarrow> cell option) \<Rightarrow> nat set \<Rightarrow> (nat \<Rightarrow> cell option) \<Rightarrow> nat list \<Rightarrow> bool" where
  "forwards m0 F m fs \<longleftrightarrow> fwd_ok m0 F m fs \<and> (\<forall>f\<in>F. f \<notin> set fs \<longrightarrow> m f = m0 f)"

definition entailed :: "(nat \<Rightarrow> cell option) \<Rightarrow> nat set \<Rightarrow> nat set \<Rightarrow> nat set \<Rightarrow> cell \<Rightarrow> cell \<Rightarrow> (nat \<Rightarrow> cell option) \<Rightarrow>
    (cell \<times> cell) list \<Rightarrow> bool" where
  "entailed m0 D F B a0 b0 m ps \<longleftrightarrow> (\<forall>E. solution m0 D F B E \<longrightarrow> E a0 b0 \<longrightarrow> (\<forall>x y. (x, y) \<in> set ps \<longrightarrow> E x y) \<and>
        (\<forall>c d. term_ok D F B c \<longrightarrow> derefs m c d \<longrightarrow> E c d))"

definition pinv :: "(nat \<Rightarrow> cell option) \<Rightarrow> nat set \<Rightarrow> nat set \<Rightarrow> nat set \<Rightarrow> cell \<Rightarrow> cell \<Rightarrow> (nat \<Rightarrow> cell option) \<Rightarrow>
    (nat \<times> nat) set \<Rightarrow> (cell \<times> cell) list \<Rightarrow> nat list \<Rightarrow> nat list \<Rightarrow> bool" where
  "pinv m0 D F B a0 b0 m Q ps t fs \<longleftrightarrow>
     uinv m0 D F B m Q \<and> pairs_ok (term_ok D F B) ps \<and> trailed m0 D m t \<and> forwards m0 F m fs \<and>
     moves (term_ok D F B) m0 m \<and> args_todo (term_ok D F B) m0 m Q ps \<and> todo (term_ok D F B) m0 m Q ps a0 b0 \<and>
     entailed m0 D F B a0 b0 m ps"

lemma entailedD:
  assumes "entailed m0 D F B a0 b0 m ps" "solution m0 D F B E" "E a0 b0"
  shows "(x, y) \<in> set ps \<Longrightarrow> E x y" "term_ok D F B c \<Longrightarrow> derefs m c d \<Longrightarrow> E c d"
  using assms unfolding entailed_def by blast+

lemma entailedI:
  assumes "\<And>E x y. solution m0 D F B E \<Longrightarrow> E a0 b0 \<Longrightarrow> (x, y) \<in> set ps \<Longrightarrow> E x y"
    "\<And>E c d. solution m0 D F B E \<Longrightarrow> E a0 b0 \<Longrightarrow> term_ok D F B c \<Longrightarrow> derefs m c d \<Longrightarrow> E c d"
  shows "entailed m0 D F B a0 b0 m ps"
  using assms unfolding entailed_def by blast

lemma entailed_sub: "entailed m0 D F B a0 b0 m ps \<Longrightarrow> set qs \<subseteq> set ps \<Longrightarrow> entailed m0 D F B a0 b0 m qs"
  unfolding entailed_def by blast

lemma entailed_combine:
  assumes "entailed m0 D F B a0 b0 m ps" "entailed m0 D F B a0 b0 m' []"
  shows "entailed m0 D F B a0 b0 m' ps"
  by (rule entailedI, fact entailedD(1) [OF assms(1)], fact entailedD(2) [OF assms(2)])

lemma forwards_agree:
  assumes "forwards m0 F m fs" "\<And>f. f \<in> F \<Longrightarrow> m' f = m f"
  shows "forwards m0 F m' fs"
proof -
  have f: "fwd_ok m0 F m fs" "\<forall>f\<in>F. f \<notin> set fs \<longrightarrow> m f = m0 f" using assms(1) by (simp_all add: forwards_def)
  have "fwd_ok m0 F m' fs" by (rule fwd_ok_agree [OF f(1)]) (use assms(2) fwd_ok_sub [OF f(1)] in auto)
  then show ?thesis using f(2) assms(2) by (simp add: forwards_def)
qed

lemma pairs_ok_Cons [simp]: "pairs_ok T ((x, y) # ps) \<longleftrightarrow> T x \<and> T y \<and> pairs_ok T ps"
  by (auto simp: pairs_ok_def)

lemma pairs_ok_append [simp]: "pairs_ok T (ps @ qs) \<longleftrightarrow> pairs_ok T ps \<and> pairs_ok T qs"
  by (auto simp: pairs_ok_def)

lemma pairs_ok_Nil [simp]: "pairs_ok T []"
  by (simp add: pairs_ok_def)

lemma pinv_init:
  assumes s: "store_ok m0 D F B" and "term_ok D F B a" "term_ok D F B b"
  shows "pinv m0 D F B a b m0 {} [(a, b)] [] []"
proof -
  obtain a' where a': "derefs m0 a a'" using uinv_total [OF s uinv_init [OF s] assms(2)] by blast
  obtain b' where b': "derefs m0 b b'" using uinv_total [OF s uinv_init [OF s] assms(3)] by blast
  have "same_root (term_ok D F B) m0 a a" "same_root (term_ok D F B) m0 b b"
    using assms(2,3) a' b' unfolding same_root_def by blast+
  then have "todo (term_ok D F B) m0 m0 {} [(a, b)] a b" by (simp add: todo_def)
  moreover have "entailed m0 D F B a b m0 [(a, b)]" by (rule entailedI) (auto dest: solutionD(4))
  ultimately show ?thesis
    using assms uinv_init [OF s] moves_refl
    by (simp add: pinv_def args_todo_def trailed_def forwards_def)
qed

text \<open>The roots of the pair on top are identified by every solution.\<close>

lemma pinv_roots:
  assumes p: "pinv m0 D F B a0 b0 m Q ((x, y) # ps) t fs" and d: "derefs m x a" "derefs m y b"
    and E: "solution m0 D F B E" "E a0 b0"
  shows "E a b"
proof -
  have e: "entailed m0 D F B a0 b0 m ((x, y) # ps)" and ok: "term_ok D F B x" "term_ok D F B y"
    using p by (simp_all add: pinv_def)
  have "E x y" using entailedD(1) [OF e E, of x y] by simp
  then show ?thesis
    using entailedD(2) [OF e E ok(1) d(1)] entailedD(2) [OF e E ok(2) d(2)] solutionD(2,3) [OF E(1)] by meson
qed

lemma args_todo_step:
  assumes "args_todo T m0 m Q ((x, y) # ps)" "moves T m m'" "joined T m0 m' Q x y"
  shows "args_todo T m0 m' Q ps"
  using assms(1) todo_step [OF _ assms(2) subset_refl subset_refl assms(3)] by (simp add: args_todo_def)

text \<open>The common part of the steps that only take the top pair off and update variables.\<close>

lemma pinv_pop:
  assumes p: "pinv m0 D F B a0 b0 m Q ((x, y) # ps) t fs" and u: "uinv m0 D F B m' Q" and mv: "moves (term_ok D F B) m m'"
    and j: "joined (term_ok D F B) m0 m' Q x y" and t: "trailed m0 D m' t'" and F: "\<And>f. f \<in> F \<Longrightarrow> m' f = m f"
    and E: "entailed m0 D F B a0 b0 m' []"
  shows "pinv m0 D F B a0 b0 m' Q ps t' fs"
proof -
  have q: "pairs_ok (term_ok D F B) ps" "forwards m0 F m fs" "moves (term_ok D F B) m0 m"
    "args_todo (term_ok D F B) m0 m Q ((x, y) # ps)" "todo (term_ok D F B) m0 m Q ((x, y) # ps) a0 b0"
    "entailed m0 D F B a0 b0 m ((x, y) # ps)"
    using p by (simp_all add: pinv_def)
  have "forwards m0 F m' fs" by (rule forwards_agree [OF q(2) F])
  moreover have "entailed m0 D F B a0 b0 m' ps"
    by (rule entailed_combine [OF entailed_sub [OF q(6)] E]) auto
  ultimately show ?thesis
    unfolding pinv_def
    using q(1) u t moves_trans [OF q(3) mv] args_todo_step [OF q(4) mv j] todo_step [OF q(5) mv subset_refl subset_refl j]
    by blast
qed

lemma pinv_skip:
  assumes p: "pinv m0 D F B a0 b0 m Q ((x, y) # ps) t fs" and d: "derefs m x a" "derefs m y b" and v: "same_value m0 Q a b"
  shows "pinv m0 D F B a0 b0 m Q ps t fs"
proof (rule pinv_pop [OF p _ moves_refl])
  have q: "uinv m0 D F B m Q" "term_ok D F B x" "term_ok D F B y" "trailed m0 D m t" "entailed m0 D F B a0 b0 m ((x, y) # ps)"
    using p by (simp_all add: pinv_def)
  show "joined (term_ok D F B) m0 m Q x y" using q(2,3) d v unfolding joined_def by blast
  show "uinv m0 D F B m Q" "trailed m0 D m t" by (fact q)+
  show "entailed m0 D F B a0 b0 m []" by (rule entailed_sub [OF q(5)]) simp
qed simp

text \<open>Binding a variable.  \<open>w\<close> is the variable, \<open>v\<close> the other root.\<close>

lemma root_var: "root m a \<Longrightarrow> is_ref (cell_tag a) \<Longrightarrow> self_ref m (cell_index a)"
  by (auto simp: root_def self_ref_def)

lemma root_inj: "root m a \<Longrightarrow> root m b \<Longrightarrow> is_ref (cell_tag a) \<Longrightarrow> is_ref (cell_tag b) \<Longrightarrow> cell_index a = cell_index b \<Longrightarrow> a = b"
  by (simp add: root_def)

lemma entailed_upd:
  assumes s: "store_ok m0 D F B" and u: "uinv m0 D F B m Q" and e: "entailed m0 D F B a0 b0 m ps" and x: "self_ref m x"
    and v: "\<And>c. is_ref (cell_tag c) \<Longrightarrow> cell_index c = x \<Longrightarrow> derefs (m(x \<mapsto> v)) c v'"
    and E: "\<And>E d. solution m0 D F B E \<Longrightarrow> E a0 b0 \<Longrightarrow> is_ref (cell_tag d) \<Longrightarrow> cell_index d = x \<Longrightarrow> root m d \<Longrightarrow> term_ok D F B d \<Longrightarrow> E d v'"
  shows "entailed m0 D F B a0 b0 (m(x \<mapsto> v)) []"
proof (rule entailedI)
  fix R c d
  assume R: "solution m0 D F B R" "R a0 b0" and c: "term_ok D F B c" "derefs (m(x \<mapsto> v)) c d"
  obtain d' where d': "derefs m c d'" "term_ok D F B d'" "root m d'" using uinv_total [OF s u c(1)] by blast
  have "d = (if is_ref (cell_tag d') \<and> cell_index d' = x then v' else d')"
    using derefs_unique [OF upd_derefs [OF x v d'(1)] c(2)] by simp
  moreover have "R c d'" by (rule entailedD(2) [OF e R c(1) d'(1)])
  moreover have "R d' v'" if "is_ref (cell_tag d')" "cell_index d' = x" using E [OF R that d'(3,2)] .
  ultimately show "R c d" using solutionD(3) [OF R(1)] by auto
qed simp

lemma pinv_bind:
  assumes s: "store_ok m0 D F B" and p: "pinv m0 D F B a0 b0 m Q ((x, y) # ps) t fs" and d: "derefs m x a" "derefs m y b" "a \<noteq> b"
    and w: "{var, v'} = {a, b}" "is_ref (cell_tag var)"
    and v: "v = v' \<or> is_ref (cell_tag v) \<and> is_ref (cell_tag v') \<and> cell_index v' = cell_index v"
  shows "pinv m0 D F B a0 b0 (m(cell_index var \<mapsto> v)) Q ps (t @ [cell_index var]) fs"
proof -
  let ?w = "cell_index var"
  let ?m = "m(?w \<mapsto> v)"
  have q: "uinv m0 D F B m Q" "term_ok D F B x" "term_ok D F B y" "trailed m0 D m t" "entailed m0 D F B a0 b0 m ((x, y) # ps)"
    using p by (simp_all add: pinv_def)
  have ok: "term_ok D F B a" "term_ok D F B b" and rt: "root m a" "root m b"
    using uinv_total [OF s q(1) q(2)] uinv_total [OF s q(1) q(3)] derefs_unique d(1,2) by metis+
  have wv: "term_ok D F B var" "term_ok D F B v'" "root m var" "root m v'" "var \<noteq> v'"
    using w(1) ok rt d(3) by (auto simp: doubleton_eq_iff)
  have wD: "?w \<in> D" "self_ref m ?w" using wv(1,3) w(2) root_var by (auto simp: term_ok_def)
  have vr': "cell_index v' \<noteq> ?w" if "is_ref (cell_tag v')" using root_inj [OF wv(3,4) w(2) that] wv(5) by auto
  then have vr: "cell_index v \<noteq> ?w \<and> is_ref (cell_tag v') \<and> cell_index v' = cell_index v" if "is_ref (cell_tag v)"
    using v that by auto
  have vok: "term_ok D F B v" using v wv(2) by (auto simp: term_ok_def is_ref_iff)
  have "derefs m v v'"
  proof (cases "v = v'")
    case False
    then show ?thesis using v derefs_same_index [OF root_derefs [OF wv(4)]] by simp
  qed (use root_derefs [OF wv(4)] in simp)
  then have dv: "derefs ?m c v'" if "is_ref (cell_tag c)" "cell_index c = ?w" for c
    using bind_derefs [OF _ vr that] by blast
  have nF: "?w \<notin> F" using s wD(1) by (auto simp: store_ok_def)
  have sr: "self_ref m0 ?w" using q(1) wD by (auto simp: uinv_def self_ref_def)
  show ?thesis
  proof (rule pinv_pop [OF p])
    show "uinv m0 D F B ?m Q"
      by (rule uinv_upd [OF s q(1) wD vok]) (use wv(4) vr in \<open>auto simp: root_def self_ref_def\<close>)
    show "moves (term_ok D F B) m ?m" by (rule upd_moves [OF wD(2) dv])
    have "derefs ?m x v'" "derefs ?m y v'"
      using upd_derefs [OF wD(2) dv d(1)] upd_derefs [OF wD(2) dv d(2)] w vr' wv(5)
      by (auto simp: doubleton_eq_iff simp del: fun_upd_apply split: if_splits)
    then show "joined (term_ok D F B) m0 ?m Q x y" using q(2,3) same_value_refl unfolding joined_def by blast
    have "\<not> self_ref ?m ?w" using vr by (auto simp: self_ref_def)
    moreover have eq: "self_ref ?m z = self_ref m z" if "z \<noteq> ?w" for z using that by (simp add: self_ref_def)
    moreover have "?w \<notin> set t" using q(4) wD(2) by (auto simp: trailed_def)
    moreover have "\<not> self_ref ?m z" if "z \<in> set t" for z
      using that eq [of z] calculation q(4) by (cases "z = ?w") (auto simp: trailed_def)
    moreover have "?m z = m0 z \<or> z \<in> set (t @ [?w]) \<or> self_ref ?m z" if "z \<in> D" for z
      using that eq [of z] q(4) by (cases "z = ?w") (auto simp: trailed_def)
    ultimately show "trailed m0 D ?m (t @ [?w])" using q(4) wD sr unfolding trailed_def by simp
    show "entailed m0 D F B a0 b0 ?m []"
    proof (rule entailed_upd [OF s q(1,5) wD(2) dv])
      fix R d' assume R: "solution m0 D F B R" "R a0 b0" and d': "is_ref (cell_tag d')" "cell_index d' = ?w" "root m d'"
      have "d' = var" using root_inj [OF d'(3) wv(3) d'(1) w(2) d'(2)] .
      moreover have "R a b" by (rule pinv_roots [OF p d(1,2) R])
      ultimately show "R d' v'" using w(1) solutionD(2) [OF R(1)] by (auto simp: doubleton_eq_iff)
    qed
  qed (use nF in auto)
qed

text \<open>Marking a variable as watched.\<close>

lemma pinv_watch:
  assumes s: "store_ok m0 D F B" and p: "pinv m0 D F B a0 b0 m Q ps t fs" and w: "w \<in> D" "self_ref m w"
  shows "pinv m0 D F B a0 b0 (m(w \<mapsto> rfw_cell w)) Q ps t fs"
proof -
  let ?m = "m(w \<mapsto> rfw_cell w)"
  have q: "uinv m0 D F B m Q" "pairs_ok (term_ok D F B) ps" "trailed m0 D m t" "forwards m0 F m fs" "moves (term_ok D F B) m0 m"
    "args_todo (term_ok D F B) m0 m Q ps" "todo (term_ok D F B) m0 m Q ps a0 b0" "entailed m0 D F B a0 b0 m ps"
    using p by (simp_all add: pinv_def)
  have lim: "w < addr_limit" using store_limit [OF s] w(1) by blast
  have ok: "term_ok D F B (rfw_cell w)" using lim w(1) by (simp add: term_ok_def)
  note dv = watch_derefs [OF lim]
  have mv: "moves (term_ok D F B) m ?m" by (rule upd_moves [OF w(2) dv])
  have nF: "w \<notin> F" using s w(1) by (auto simp: store_ok_def)
  have e: "entailed m0 D F B a0 b0 ?m []"
  proof (rule entailed_upd [OF s q(1,8) w(2) dv])
    fix R d assume R: "solution m0 D F B R" "R a0 b0" and d: "is_ref (cell_tag d)" "cell_index d = w" "term_ok D F B d"
    obtain r where r: "derefs m0 d r" using uinv_total [OF s uinv_init [OF s] d(3)] by blast
    have "derefs m0 (rfw_cell w) r" using derefs_same_index [OF r d(1), of "rfw_cell w"] d(2) lim by simp
    then have "R (rfw_cell w) r" "R d r" using solutionD(4) [OF R(1)] ok d(3) r by blast+
    then show "R d (rfw_cell w)" using solutionD(2,3) [OF R(1)] by meson
  qed
  have "uinv m0 D F B ?m Q" by (rule uinv_upd [OF s q(1) w ok]) (use lim in simp)
  moreover have "trailed m0 D ?m t"
  proof -
    have "self_ref ?m z = self_ref m z" for z using w(2) lim by (cases "z = w") (simp_all add: self_ref_def)
    then show ?thesis using q(3) w(2) by (simp add: trailed_def)
  qed
  moreover have "forwards m0 F ?m fs" by (rule forwards_agree [OF q(4)]) (use nF in auto)
  moreover have "args_todo (term_ok D F B) m0 ?m Q ps" using q(6) todo_moves [OF _ mv] unfolding args_todo_def by blast
  moreover have "entailed m0 D F B a0 b0 ?m ps" by (rule entailed_combine [OF q(8) e])
  ultimately show ?thesis
    unfolding pinv_def using q(2) moves_trans [OF q(5) mv] todo_moves [OF q(7) mv] by blast
qed

text \<open>Joining two structures with the same functor: \<open>ri\<close> and \<open>rj\<close> are the representatives of their functor cells.\<close>

lemma fwd_ok_mem: "fwd_ok m0 F m fs \<Longrightarrow> f \<in> set fs \<Longrightarrow> \<exists>g. m f = Some (fwd_cell g)"
  by (induction fs) auto

lemma derefs_at: "m a = Some c \<Longrightarrow> a < addr_limit \<Longrightarrow> derefs m c d \<Longrightarrow> derefs m (ref_cell a) d"
  by (cases "c = ref_cell a") (auto intro: derefs.follow)

lemma functor_not_fwd: "store_ok m0 D F B \<Longrightarrow> f \<in> F \<Longrightarrow> m0 f \<noteq> Some (fwd_cell g)"
  by (fastforce simp: store_ok_def)

lemma fwd_cell_inj: "fwd_cell g = fwd_cell g' \<Longrightarrow> g < addr_limit \<Longrightarrow> g' < addr_limit \<Longrightarrow> g = g'"
  by (metis ref_cells_index)

lemma uinv_link:
  assumes s: "store_ok m0 D F B" and u: "uinv m0 D F B m Q" and F: "i \<in> F" "j \<in> F" "ri \<in> F" "rj \<in> F"
    and c: "(i, ri) \<in> cl Q" "(j, rj) \<in> cl Q" and r: "m ri = m0 ri" "m rj = m0 rj" "m0 ri = m0 rj" "ri \<noteq> rj"
  shows "uinv m0 D F B (m(ri \<mapsto> fwd_cell rj)) (insert (i, j) Q)"
proof -
  let ?m = "m(ri \<mapsto> fwd_cell rj)" and ?Q = "insert (i, j) Q"
  have nD: "ri \<notin> D" using s F by (auto simp: store_ok_def)
  have mono: "cl Q \<subseteq> cl ?Q" by (rule cl_mono) auto
  have "(i, j) \<in> cl ?Q" by (rule cl_base) simp
  then have link: "(ri, rj) \<in> cl ?Q" using mono c cl_sym cl_trans by (meson subsetD)
  have "ref_edges ?m D = ref_edges m D" using nD by (auto simp: ref_edges_def split: if_splits)
  moreover have "acyclic (fwd_edges ?m F)"
  proof (rule acyclic_subset)
    show "fwd_edges ?m F \<subseteq> insert (ri, rj) (fwd_edges m F)"
    proof
      fix p assume "p \<in> fwd_edges ?m F"
      then obtain f g where p: "p = (f, g)" "f \<in> F" "g \<in> F" "?m f = Some (fwd_cell g)" by (auto simp: fwd_edges_def)
      have "g = rj" if "f = ri"
        using p(3,4) that store_limit [OF s] F(4) by (intro fwd_cell_inj) auto
      then show "p \<in> insert (ri, rj) (fwd_edges m F)"
        using p by (cases "f = ri") (auto simp: fwd_edges_def)
    qed
    have none: "(rj, z) \<notin> fwd_edges m F" for z using functor_not_fwd [OF s F(4)] r(2) by (auto simp: fwd_edges_def)
    have "z = rj" if "(rj, z) \<in> (fwd_edges m F)\<^sup>*" for z
      by (rule converse_rtranclE [OF that]) (use none in auto)
    then show "acyclic (insert (ri, rj) (fwd_edges m F))" using u r(4) by (auto simp: acyclic_insert uinv_def)
  qed
  moreover have "m0 i = m0 j" using cl_same(1) [OF u] c r(3) by metis
  moreover have "?m f = m0 f \<or> (\<exists>g\<in>F. ?m f = Some (fwd_cell g) \<and> (f, g) \<in> cl ?Q)" if "f \<in> F" for f
  proof (cases "f = ri")
    case False
    have "m f = m0 f \<or> (\<exists>g\<in>F. m f = Some (fwd_cell g) \<and> (f, g) \<in> cl Q)" using u that by (simp add: uinv_def)
    then show ?thesis using mono False by (metis fun_upd_apply subsetD)
  qed (use link F(4) in auto)
  ultimately show ?thesis using u nD F by (auto simp: uinv_def)
qed

lemma pinv_link:
  assumes s: "store_ok m0 D F B" and p: "pinv m0 D F B a0 b0 m Q ((x, y) # ps) t fs"
    and d: "derefs m x a" "derefs m y b" "cell_tag a = STR_T" "cell_tag b = STR_T"
    and F: "ri \<in> F" "rj \<in> F" "(cell_index a, ri) \<in> cl Q" "(cell_index b, rj) \<in> cl Q"
    and r: "m ri = m0 ri" "m rj = m0 rj" "m0 ri = m0 rj" "ri \<noteq> rj"
    and qs: "qs = map (\<lambda>k. (g k, h k)) [0..<arity (the (m0 ri))]"
    and gh: "\<And>k. k < arity (the (m0 ri)) \<Longrightarrow> derefs (m(ri \<mapsto> fwd_cell rj)) (ref_cell (cell_index a + 1 + k)) (g k) \<and>
      derefs (m(ri \<mapsto> fwd_cell rj)) (ref_cell (cell_index b + 1 + k)) (h k)"
  shows "pinv m0 D F B a0 b0 (m(ri \<mapsto> fwd_cell rj)) (insert (cell_index a, cell_index b) Q) (qs @ ps) t (ri # fs)"
proof -
  let ?i = "cell_index a" and ?j = "cell_index b" and ?T = "term_ok D F B"
  let ?m = "m(ri \<mapsto> fwd_cell rj)" and ?Q = "insert (?i, ?j) Q" and ?n = "arity (the (m0 ri))"
  have q: "uinv m0 D F B m Q" "?T x" "?T y" "pairs_ok ?T ps" "trailed m0 D m t" "forwards m0 F m fs" "moves ?T m0 m"
    "args_todo ?T m0 m Q ((x, y) # ps)" "todo ?T m0 m Q ((x, y) # ps) a0 b0" "entailed m0 D F B a0 b0 m ((x, y) # ps)"
    using p by (simp_all add: pinv_def)
  have ij: "?i \<in> F" "?j \<in> F" "m0 ?i = m0 ri" "m0 ?j = m0 ri"
    using cl_same [OF q(1) F(3)] cl_same [OF q(1) F(4)] F(1,2) r(3) by auto
  have ok: "?T a" "?T b" using uinv_total [OF s q(1) q(2)] uinv_total [OF s q(1) q(3)] derefs_unique d(1,2) by metis+
  have nD: "ri \<notin> D" using s F by (auto simp: store_ok_def)
  have u: "uinv m0 D F B ?m ?Q" by (rule uinv_link [OF s q(1) ij(1,2) F r])
  have rc: "refs_closed m D" using q(1) by (intro term_ok_refs [of D m F B]) (simp add: uinv_def)
  have same: "derefs ?m c e" if "?T c" "derefs m c e" for c e
    by (rule derefs_agree [OF that(2) rc]) (use that(1) nD in \<open>auto simp: term_ok_def\<close>)
  have mv: "moves ?T m ?m" by (rule movesI [where \<phi> = id]) (use same in simp_all)
  have bck: "derefs m c e" if "?T c" "derefs ?m c e" for c e
    using uinv_total [OF s q(1) that(1)] same [OF that(1)] derefs_unique [OF that(2)] by metis
  have rok: "?T (ref_cell (?i + 1 + k))" "?T (ref_cell (?j + 1 + k))" if "k < ?n" for k
    using functor_arg(2) [OF s ij(1)] functor_arg(2) [OF s ij(2)] ij(3,4) that by auto
  have gok: "?T (g k)" "?T (h k)" if "k < ?n" for k
    using uinv_total [OF s u rok(1) [OF that]] uinv_total [OF s u rok(2) [OF that]] gh [OF that] derefs_unique by metis+
  have po: "pairs_ok ?T (qs @ ps)" using q(4) gok by (auto simp: pairs_ok_def qs)
  have jn: "joined ?T m0 ?m ?Q x y"
  proof -
    have "(?i, ?j) \<in> cl ?Q" by (rule cl_base) simp
    then have "same_value m0 ?Q a b" using d(3,4) by (simp add: same_value_def)
    then show ?thesis using q(2,3) same [OF q(2) d(1)] same [OF q(3) d(2)] unfolding joined_def by blast
  qed
  have td: "todo ?T m0 ?m ?Q (qs @ ps) c e" if "todo ?T m0 m Q ((x, y) # ps) c e" for c e
    by (rule todo_step [OF that mv _ _ jn]) auto
  have atd: "args_todo ?T m0 ?m ?Q (qs @ ps)"
    unfolding args_todo_def
  proof (intro allI impI)
    fix i j k assume ijq: "(i, j) \<in> ?Q" and k: "k < arity (the (m0 i))"
    show "todo ?T m0 ?m ?Q (qs @ ps) (ref_cell (i + 1 + k)) (ref_cell (j + 1 + k))"
    proof (cases "(i, j) \<in> Q")
      case True
      then show ?thesis using td q(8) k unfolding args_todo_def by blast
    next
      case False
      then have e: "i = ?i" "j = ?j" "k < ?n" using ijq k ij(3) by auto
      have "(g k, h k) \<in> set (qs @ ps)" using e(3) by (auto simp: qs)
      moreover have "same_root ?T ?m (ref_cell (?i + 1 + k)) (g k)" "same_root ?T ?m (ref_cell (?j + 1 + k)) (h k)"
        using gh [OF e(3)] gok [OF e(3)] rok [OF e(3)] derefs_idem unfolding same_root_def by blast+
      ultimately show ?thesis unfolding todo_def e(1,2) by blast
    qed
  qed
  have en: "entailed m0 D F B a0 b0 ?m (qs @ ps)"
  proof (rule entailedI)
    fix R x' y' assume R: "solution m0 D F B R" "R a0 b0" and xy: "(x', y') \<in> set (qs @ ps)"
    show "R x' y'"
    proof (cases "(x', y') \<in> set ps")
      case True then show ?thesis using entailedD(1) [OF q(10) R, of x' y'] by simp
    next
      case False
      then obtain k where k: "k < ?n" "x' = g k" "y' = h k" using xy by (auto simp: qs)
      have "R a b" by (rule pinv_roots [OF p d(1,2) R])
      then have "agree m0 R a b" using solutionD(5) [OF R(1) ok] d(3,4) by simp
      then have "R (ref_cell (?i + 1 + k)) (ref_cell (?j + 1 + k))" using k(1) d(3) ij(3) by (simp add: agree_def)
      moreover have "R (ref_cell (?i + 1 + k)) (g k)" "R (ref_cell (?j + 1 + k)) (h k)"
        using entailedD(2) [OF q(10) R] bck rok [OF k(1)] gh [OF k(1)] by blast+
      ultimately show ?thesis unfolding k(2,3) using solutionD(2,3) [OF R(1)] by meson
    qed
  next
    fix R c e assume "solution m0 D F B R" "R a0 b0" "term_ok D F B c" "derefs ?m c e"
    then show "R c e" using entailedD(2) [OF q(10)] bck by blast
  qed
  have fw: "forwards m0 F ?m (ri # fs)"
  proof -
    have f: "fwd_ok m0 F m fs" "\<forall>f\<in>F. f \<notin> set fs \<longrightarrow> m f = m0 f" using q(6) by (simp_all add: forwards_def)
    have n: "ri \<notin> set fs" "rj \<notin> set fs"
      using fwd_ok_mem [OF f(1)] functor_not_fwd [OF s] F(1,2) r(1,2) by metis+
    have "fwd_ok m0 F ?m fs" by (rule fwd_ok_agree [OF f(1)]) (use n in auto)
    then show ?thesis using f(2) n F(1,2) r(3,4) by (auto simp: forwards_def)
  qed
  have "trailed m0 D ?m t" using q(5) nD by (auto simp: trailed_def self_ref_def)
  then show ?thesis
    unfolding pinv_def using u po fw moves_trans [OF q(7) mv] atd td [OF q(9)] en by blast
qed

lemma pinv_clash:
  assumes s: "store_ok m0 D F B" and p: "pinv m0 D F B a0 b0 m Q ((x, y) # ps) t fs" and d: "derefs m x a" "derefs m y b"
    and n: "\<not> is_ref (cell_tag a)" "\<not> is_ref (cell_tag b)" and c: "\<And>E. \<not> agree m0 E a b"
  shows "\<not> unifiable m0 D F B a0 b0"
proof
  assume "unifiable m0 D F B a0 b0"
  then obtain R where R: "solution m0 D F B R" "R a0 b0" by (auto simp: unifiable_def)
  have q: "uinv m0 D F B m Q" "term_ok D F B x" "term_ok D F B y" using p by (simp_all add: pinv_def)
  have "term_ok D F B a" "term_ok D F B b"
    using uinv_total [OF s q(1) q(2)] uinv_total [OF s q(1) q(3)] derefs_unique d(1,2) by metis+
  then show False using solutionD(5) [OF R(1) _ _ n pinv_roots [OF p d R]] c by blast
qed

end
