(* ===== verification/Unify.thy ===== *)
theory Unify
  imports Unify_Store "HOL-Library.Multiset"
begin

section \<open>Correctness of unification\<close>

text \<open>
  The invariant of the unification loop on environments, round by round; that the loop ends; that functor cells are
  restored and bindings undone; and the properties of \<open>unify\<close>.
\<close>

subsection \<open>The steps on the environment\<close>

text \<open>What unification does not touch.\<close>

definition env_frame :: "tenv \<Rightarrow> tenv \<Rightarrow> bool" where
  "env_frame e0 e \<longleftrightarrow> hp_size (te_heap e) = hp_size (te_heap e0) \<and> temp e = temp e0 \<and> register_hb e = register_hb e0 \<and>
     coin_security_enabled (te_heap e) = coin_security_enabled (te_heap e0) \<and>
     atom_index_to_name_table (te_heap e) = atom_index_to_name_table (te_heap e0) \<and>
     atom_name_to_index_table (te_heap e) = atom_name_to_index_table (te_heap e0)"

lemma env_frame_trans: "env_frame e0 e1 \<Longrightarrow> env_frame e1 e2 \<Longrightarrow> env_frame e0 e2"
  by (simp add: env_frame_def)

definition linv :: "tenv \<Rightarrow> nat set \<Rightarrow> nat set \<Rightarrow> nat set \<Rightarrow> cell \<Rightarrow> cell \<Rightarrow> tenv \<Rightarrow> (nat \<times> nat) set \<Rightarrow> (cell \<times> cell) list \<Rightarrow> nat list \<Rightarrow> bool" where
  "linv e0 D F B a0 b0 e Q ps t \<longleftrightarrow> heap_inv (te_heap e) \<and> env_frame e0 e \<and> stack e = flat ps @ stack e0 \<and>
     trail e = trail e0 @ t \<and> pinv (mem (te_heap e0)) D F B a0 b0 (mem (te_heap e)) Q ps t (temp_trail e)"

lemma heap_inv_watched: "heap_inv (add_watched h a) = heap_inv h" "mem (add_watched h a) = mem h"
  by (simp_all add: add_watched_def heap_inv_def mem_def fun_eq_iff)

lemma bind_ref_spec:
  assumes inv: "heap_inv (te_heap e)" and w: "cell_index a < hp_size (te_heap e)" and hb: "register_hb e = hp_size (te_heap e)"
  obtains e' where "bind_ref e a v = ok e'" "heap_inv (te_heap e')" "env_frame e e'" "stack e' = stack e"
    "temp_trail e' = temp_trail e" "trail e' = trail e @ [cell_index a]"
    "mem (te_heap e') = (mem (te_heap e))(cell_index a \<mapsto> v)"
proof -
  let ?h = "if cell_tag a = RFW_T then add_watched (te_heap e) (cell_index a) else te_heap e"
  have h: "heap_inv ?h" "hp_size ?h = hp_size (te_heap e)" "mem ?h = mem (te_heap e)"
    "coin_security_enabled ?h = coin_security_enabled (te_heap e)"
    "atom_index_to_name_table ?h = atom_index_to_name_table (te_heap e)"
    "atom_name_to_index_table ?h = atom_name_to_index_table (te_heap e)"
    using inv heap_inv_watched [of "te_heap e"] by (auto simp: add_watched_def)
  obtain h' where h': "heap_set ?h (cell_index a) v = ok h'" "heap_inv h'" "same_frame ?h h'" "mem h' = (mem ?h)(cell_index a \<mapsto> v)"
    using heap_set_mem [OF h(1)] w h(2) by metis
  show thesis
  proof (rule that)
    show "bind_ref e a v = ok (push_trail (e\<lparr>te_heap := h'\<rparr>) (cell_index a))"
      using h'(1) w hb by (cases "cell_tag a = RFW_T") (simp_all add: bind_ref_def Let_def on_heap_def trail_index_def)
  qed (use h h' in \<open>simp_all add: push_trail_def env_frame_def same_frame_def\<close>)
qed

lemma on_heap_watch_spec:
  assumes inv: "heap_inv (te_heap e)" and w: "self_ref (mem (te_heap e)) w"
  obtains e' where "on_heap e (\<lambda>h. heap_watch h w True) = ok e'" "heap_inv (te_heap e')" "env_frame e e'" "stack e' = stack e"
    "temp_trail e' = temp_trail e" "trail e' = trail e" "mem (te_heap e') = (mem (te_heap e))(w \<mapsto> rfw_cell w)"
proof -
  obtain c where c: "mem (te_heap e) w = Some c" "is_ref (cell_tag c)" "cell_index c = w" using w by (auto simp: self_ref_def)
  obtain h' where h': "heap_watch (te_heap e) w True = ok h'" "heap_inv h'" "same_frame (te_heap e) h'"
    "mem h' = (mem (te_heap e))(w \<mapsto> (if cell_tag c = REF_T \<and> True then rfw_cell (cell_index c)
       else if cell_tag c = RFW_T \<and> \<not> True then ref_cell (cell_index c) else c))"
    using heap_watch_mem [OF inv c(1), of True] by blast
  have "c = rfw_cell w" if "cell_tag c \<noteq> REF_T"
    using c(2,3) that ptr_cell_eqI [of c RFW_T w] by (simp add: is_ref_iff rfw_cell_def)
  then have "mem h' = (mem (te_heap e))(w \<mapsto> rfw_cell w)" using h'(4) c(3) by auto
  then show thesis
    using h' by (intro that [of "e\<lparr>te_heap := h'\<rparr>"]) (simp_all add: on_heap_def env_frame_def same_frame_def)
qed

lemma follow_fwd_spec:
  assumes s: "store_ok m0 D F B" and inv: "heap_inv h" and u: "uinv m0 D F B (mem h) Q" and i: "i \<in> F"
  shows "\<exists>g f. follow_fwd h i = ok (g, f) \<and> g \<in> F \<and> (i, g) \<in> cl Q \<and> mem h g = m0 g \<and> m0 g = Some f \<and> cell_tag f = CON_T"
proof -
  have "fwd_edges (mem h) F \<subseteq> F \<times> F" by (auto simp: fwd_edges_def)
  moreover have "finite F" using s by (simp add: store_ok_def)
  ultimately have "wf ((fwd_edges (mem h) F)\<inverse>)"
    using u by (intro finite_acyclic_wf_converse) (auto intro: finite_subset simp: uinv_def)
  then show ?thesis
    using i
  proof (induction i rule: wf_induct_rule)
    case (less i)
    consider "mem h i = m0 i" | g where "g \<in> F" "mem h i = Some (fwd_cell g)" "(i, g) \<in> cl Q"
      using u less.prems by (auto simp: uinv_def)
    then show ?case
    proof cases
      case 1
      obtain f where "m0 i = Some f" "cell_tag f = CON_T" using s less.prems by (auto simp: store_ok_def)
      then show ?thesis
        using 1 less.prems by (subst follow_fwd.simps) (simp add: heap_get_ok [OF inv, THEN iffD2])
    next
      case 2
      have "(g, i) \<in> (fwd_edges (mem h) F)\<inverse>" using 2 less.prems by (simp add: fwd_edges_def)
      from less.IH [OF this 2(1)] obtain r f where r: "follow_fwd h g = ok (r, f)" "r \<in> F" "(g, r) \<in> cl Q"
        "mem h r = m0 r" "m0 r = Some f" "cell_tag f = CON_T" by blast
      have "follow_fwd h i = ok (r, f)"
        using 2(2) r(1) store_limit [OF s] 2(1)
        by (subst follow_fwd.simps) (simp add: heap_get_ok [OF inv, THEN iffD2])
      then show ?thesis using r cl_trans [OF 2(3) r(3)] by blast
    qed
  qed
qed

lemma arg_spec:
  assumes "heap_inv h" "cell_tag a = STR_T" "mem h (cell_index a + 1 + k) = Some c" "derefs (mem h) c d"
  shows "arg h a k = ok d"
  using assms by (simp add: arg_def heap_get_ok [THEN iffD2] deref_derefs add.commute)

text \<open>Big numbers are outside the cells that change.\<close>

lemma big_area_same:
  assumes s: "store_ok m0 D F B" and u: "uinv m0 D F B m Q" and b: "b \<in> B"
  shows "m b = m0 b" "big_cells m b (num_bytes_at m0 b)" "num_bytes_at m b = num_bytes_at m0 b"
    "big_data m b (num_bytes_at m0 b) = big_data m0 b (num_bytes_at m0 b)"
proof -
  let ?A = "big_area b (num_bytes_at m0 b)"
  have A: "m x = m0 x" if "x \<in> ?A" for x
    using s u b that unfolding store_ok_def uinv_def by (metis IntI empty_iff)
  have "b \<in> ?A" by (simp add: big_area_def)
  then show mb: "m b = m0 b" by (rule A)
  then show "num_bytes_at m b = num_bytes_at m0 b" by (simp add: num_bytes_at_def)
  have "m x \<noteq> None" if "m0 x \<noteq> None" for x
    using u that unfolding uinv_def by (metis UnE option.distinct(1))
  then show "big_cells m b (num_bytes_at m0 b)" using s b big_cells_mono [of m0] by (auto simp: store_ok_def)
  show "big_data m b (num_bytes_at m0 b) = big_data m0 b (num_bytes_at m0 b)"
    using A in_big_area [of _ "num_bytes_at m0 b" b] by (auto simp: big_data_def data_bytes_def data_byte_def)
qed

definition import_bits_doc :: "(u8 list \<Rightarrow> int) \<Rightarrow> bool" where
  "import_bits_doc import_bits \<longleftrightarrow> (\<forall>bs. import_bits bs = int (be_value bs))"

lemma unify_big_spec:
  assumes s: "store_ok m0 D F B" and inv: "heap_inv (te_heap e)" and u: "uinv m0 D F B (mem (te_heap e)) Q"
    and t: "cell_tag a = BIG_T" "cell_tag b = BIG_T" and ok: "term_ok D F B a" "term_ok D F B b" and i: "import_bits_doc imp"
  shows "unify_big imp e a b = ok (same_big m0 (cell_index a) (cell_index b))"
proof -
  let ?h = "te_heap e"
  have bits: "heap_num_bits ?h c = ok (num_bits (the (m0 (cell_index c))))"
    and get: "get_big_int imp ?h c = ok (int (be_value (big_data m0 (cell_index c) (num_bytes_at m0 (cell_index c)))), num_bits (the (m0 (cell_index c))))"
    if c: "cell_tag c = BIG_T" "term_ok D F B c" for c
  proof -
    let ?b = "cell_index c"
    have "?b \<in> B" using c by (simp add: term_ok_def)
    note A = big_area_same [OF s u this]
    obtain hd where hd: "mem ?h ?b = Some hd" using big_cells_head [OF A(2)] by blast
    then show bits: "heap_num_bits ?h c = ok (num_bits (the (m0 ?b)))"
      using A(1) by (simp add: heap_num_bits_def heap_get_ok [OF inv, THEN iffD2])
    have nb: "num_bytes_at m0 ?b = (num_bits hd + 7) div 8" using A(1) hd by (metis num_bytes_at_def option.sel)
    obtain it where it: "big_begin ?h c = ok it" "big_reader ?h it ?b 4 (num_bytes_at m0 ?b)"
      by (rule big_begin_reader [OF inv cell_index_bound [of c] refl _ hd nb]) (use A(2) c in simp_all)
    have "get_big_loop ?h it (num_bytes_at m0 ?b) = ok (data_bytes (mem ?h) ?b 4 (num_bytes_at m0 ?b))"
      by (rule get_big_loop_spec [OF it(2)]) simp
    then show "get_big_int imp ?h c = ok (int (be_value (big_data m0 ?b (num_bytes_at m0 ?b))), num_bits (the (m0 ?b)))"
      using c bits i A(4) it(1) by (simp add: get_big_int_def import_bits_doc_def big_data_def num_bytes_at_def)
  qed
  have l: "length (big_data m0 x n) = n" for x n by (simp add: big_data_def)
  show ?thesis
    using bits [OF t(1) ok(1)] bits [OF t(2) ok(2)] get [OF t(1) ok(1)] get [OF t(2) ok(2)]
      be_value_inj [of "big_data m0 (cell_index a) (num_bytes_at m0 (cell_index a))" "big_data m0 (cell_index b) (num_bytes_at m0 (cell_index b))"]
    by (auto simp: unify_big_def same_big_def num_bytes_at_def l)
qed

text \<open>The cases of a round.\<close>

lemma linvD:
  assumes "linv e0 D F B a0 b0 e Q ps t"
  shows "heap_inv (te_heap e)" "env_frame e0 e" "stack e = flat ps @ stack e0" "trail e = trail e0 @ t"
    "pinv (mem (te_heap e0)) D F B a0 b0 (mem (te_heap e)) Q ps t (temp_trail e)" "uinv (mem (te_heap e0)) D F B (mem (te_heap e)) Q"
  using assms by (simp_all add: linv_def pinv_def)

lemma bind_step:
  assumes s: "store_ok (mem (te_heap e0)) D F B" and inv: "heap_inv (te_heap e)" and fr: "env_frame e0 e"
    and st: "stack e = flat ps @ stack e0" and tr: "trail e = trail e0 @ t" and hb: "register_hb e0 = hp_size (te_heap e0)"
    and p: "pinv (mem (te_heap e0)) D F B a0 b0 (mem (te_heap e)) Q ((x, y) # ps) t (temp_trail e)"
    and d: "derefs (mem (te_heap e)) x a" "derefs (mem (te_heap e)) y b" "a \<noteq> b" and w: "{var, v'} = {a, b}" "is_ref (cell_tag var)"
    and v: "v = v' \<or> is_ref (cell_tag v) \<and> is_ref (cell_tag v') \<and> cell_index v' = cell_index v"
    and i: "cell_index var' = cell_index var"
  shows "\<exists>e'. bind_ref e var' v = ok e' \<and> linv e0 D F B a0 b0 e' Q ps (t @ [cell_index var]) \<and> temp_trail e' = temp_trail e"
proof -
  have "root (mem (te_heap e)) var" using w(1) d derefs_root by (auto simp: doubleton_eq_iff)
  then have "mem (te_heap e) (cell_index var) = Some var" using w(2) by (simp add: root_def)
  then have sz: "cell_index var < hp_size (te_heap e)" by (rule mem_size)
  have hb': "register_hb e = hp_size (te_heap e)" using fr hb by (simp add: env_frame_def)
  obtain e' where e': "bind_ref e var' v = ok e'" "heap_inv (te_heap e')" "env_frame e e'" "stack e' = stack e"
    "temp_trail e' = temp_trail e" "trail e' = trail e @ [cell_index var]"
    "mem (te_heap e') = (mem (te_heap e))(cell_index var \<mapsto> v)"
    using bind_ref_spec [OF inv, of var' v] sz hb' i by metis
  have "linv e0 D F B a0 b0 e' Q ps (t @ [cell_index var])"
    using e' env_frame_trans [OF fr e'(3)] st tr pinv_bind [OF s p d w v] by (simp add: linv_def)
  then show ?thesis using e' by blast
qed

text \<open>Two variables: the one at the higher address is bound; if it is watched, the other becomes watched first.\<close>

lemma watch_bind_step:
  assumes s: "store_ok (mem (te_heap e0)) D F B" and inv: "heap_inv (te_heap e)" and fr: "env_frame e0 e"
    and st: "stack e = flat ps @ stack e0" and tr: "trail e = trail e0 @ t" and hb: "register_hb e0 = hp_size (te_heap e0)"
    and p: "pinv (mem (te_heap e0)) D F B a0 b0 (mem (te_heap e)) Q ((x, y) # ps) t (temp_trail e)"
    and d: "derefs (mem (te_heap e)) x a" "derefs (mem (te_heap e)) y b" "a \<noteq> b" and w: "{var, v} = {a, b}" "is_ref (cell_tag var)" "is_ref (cell_tag v)"
  shows "\<exists>e'. bindR (if watched_ref var then on_heap e (\<lambda>h. heap_watch h (cell_index v) True) else ok e) (\<lambda>e. bind_ref e var v) = ok e' \<and>
    linv e0 D F B a0 b0 e' Q ps (t @ [cell_index var]) \<and> temp_trail e' = temp_trail e"
proof (cases "watched_ref var")
  case False
  then show ?thesis
    using bind_step [OF s inv fr st tr hb p d w(1,2), of v var] by simp
next
  case True
  let ?v = "cell_index v"
  have u: "uinv (mem (te_heap e0)) D F B (mem (te_heap e)) Q" "term_ok D F B x" "term_ok D F B y" using p by (simp_all add: pinv_def)
  have ok: "term_ok D F B a" "term_ok D F B b"
    using uinv_total [OF s u(1) u(2)] uinv_total [OF s u(1) u(3)] derefs_unique d(1,2) by metis+
  have rt: "root (mem (te_heap e)) var" "root (mem (te_heap e)) v" using w(1) d derefs_root by (auto simp: doubleton_eq_iff)
  have vD: "?v \<in> D" using ok w by (auto simp: doubleton_eq_iff term_ok_def)
  have lim: "?v < addr_limit" by simp
  have ne: "cell_index var \<noteq> ?v" using root_inj [OF rt w(2,3)] w(1) d(3) by (auto simp: doubleton_eq_iff)
  obtain e1 where e1: "on_heap e (\<lambda>h. heap_watch h ?v True) = ok e1" "heap_inv (te_heap e1)" "env_frame e e1" "stack e1 = stack e"
    "temp_trail e1 = temp_trail e" "trail e1 = trail e" "mem (te_heap e1) = (mem (te_heap e))(?v \<mapsto> rfw_cell ?v)"
    using on_heap_watch_spec [OF inv root_var [OF rt(2) w(3)]] by blast
  let ?a = "if a = v then rfw_cell ?v else a" and ?b = "if b = v then rfw_cell ?v else b"
  have up: "derefs (mem (te_heap e1)) c (if is_ref (cell_tag d') \<and> cell_index d' = ?v then rfw_cell ?v else d')"
    if "derefs (mem (te_heap e)) c d'" for c d'
    unfolding e1(7) by (rule upd_derefs [OF root_var [OF rt(2) w(3)] watch_derefs [OF lim] that])
  have eqv: "d' = v" if "is_ref (cell_tag d')" "cell_index d' = ?v" "d' = a \<or> d' = b" for d'
    using that w(1) ne by (auto simp: doubleton_eq_iff)
  have d1: "derefs (mem (te_heap e1)) x ?a" "derefs (mem (te_heap e1)) y ?b" "?a \<noteq> ?b" "{var, rfw_cell ?v} = {?a, ?b}"
    using up [OF d(1)] up [OF d(2)] eqv w d(3) ne by (auto simp: doubleton_eq_iff split: if_splits)
  have p1: "pinv (mem (te_heap e0)) D F B a0 b0 (mem (te_heap e1)) Q ((x, y) # ps) t (temp_trail e1)"
    unfolding e1(5,7) by (rule pinv_watch [OF s p vD root_var [OF rt(2) w(3)]])
  have st1: "stack e1 = flat ps @ stack e0" "trail e1 = trail e0 @ t" using e1(4,6) st tr by simp_all
  have "\<exists>e'. bind_ref e1 var v = ok e' \<and> linv e0 D F B a0 b0 e' Q ps (t @ [cell_index var]) \<and> temp_trail e' = temp_trail e1"
    by (rule bind_step [OF s e1(2) env_frame_trans [OF fr e1(3)] st1 hb p1 d1 w(2)]) (use w(3) lim in auto)
  then show ?thesis using True e1(1,5) by auto
qed

definition weight :: "nat set \<Rightarrow> tenv \<Rightarrow> (cell \<times> cell) list \<Rightarrow> nat \<times> nat" where
  "weight F e ps = (card F - length (temp_trail e), length ps)"

lemma fwd_room:
  assumes "finite F" "forwards m0 F m (f # fs)"
  shows "card F - length (f # fs) < card F - length fs"
proof -
  have "set (f # fs) \<subseteq> F" "distinct (f # fs)" using assms(2) fwd_ok_sub [of m0 F m "f # fs"] by (auto simp: forwards_def)
  then have "length (f # fs) \<le> card F" using assms(1) by (metis card_mono distinct_card)
  then show ?thesis by simp
qed

lemma str_step:
  assumes s: "store_ok (mem (te_heap e0)) D F B" and inv: "heap_inv (te_heap e)" and fr: "env_frame e0 e"
    and st: "stack e = flat ps @ stack e0" and tr: "trail e = trail e0 @ t"
    and p: "pinv (mem (te_heap e0)) D F B a0 b0 (mem (te_heap e)) Q ((x, y) # ps) t (temp_trail e)"
    and d: "derefs (mem (te_heap e)) x a" "derefs (mem (te_heap e)) y b" and tg: "cell_tag a = STR_T" "cell_tag b = STR_T"
  shows "\<exists>r e'. unify_str e a b = ok (r, e') \<and>
    (if r then \<exists>Q' ps'. linv e0 D F B a0 b0 e' Q' ps' t \<and> (weight F e' ps', weight F e ((x, y) # ps)) \<in> less_than <*lex*> less_than
     else e' = e \<and> \<not> unifiable (mem (te_heap e0)) D F B a0 b0)"
proof -
  let ?M = "mem (te_heap e0)" and ?m = "mem (te_heap e)" and ?i = "cell_index a" and ?j = "cell_index b"
  have u: "uinv ?M D F B ?m Q" "term_ok D F B x" "term_ok D F B y" using p by (simp_all add: pinv_def)
  have ok: "term_ok D F B a" "term_ok D F B b"
    using uinv_total [OF s u(1) u(2)] uinv_total [OF s u(1) u(3)] derefs_unique d(1,2) by metis+
  have F: "?i \<in> F" "?j \<in> F" using ok tg by (simp_all add: term_ok_def)
  obtain ri fi where ri: "follow_fwd (te_heap e) ?i = ok (ri, fi)" "ri \<in> F" "(?i, ri) \<in> cl Q" "?m ri = ?M ri" "?M ri = Some fi" "cell_tag fi = CON_T"
    using follow_fwd_spec [OF s inv u(1) F(1)] by blast
  obtain rj fj where rj: "follow_fwd (te_heap e) ?j = ok (rj, fj)" "rj \<in> F" "(?j, rj) \<in> cl Q" "?m rj = ?M rj" "?M rj = Some fj"
    using follow_fwd_spec [OF s inv u(1) F(2)] by blast
  have i0: "?M ?i = Some fi" "?M ?j = Some fj" using cl_same(1) [OF u(1)] ri(3,5) rj(3,5) by metis+
  consider "ri = rj" | "ri \<noteq> rj" "fi \<noteq> fj" | "ri \<noteq> rj" "fi = fj" by blast
  then show ?thesis
  proof cases
    case 1
    then have "(?i, ?j) \<in> cl Q" using ri(3) rj(3) cl_sym cl_trans by blast
    then have "same_value ?M Q a b" using tg by (simp add: same_value_def)
    then have "linv e0 D F B a0 b0 e Q ps t"
      using inv fr st tr pinv_skip [OF p d] by (simp add: linv_def)
    then show ?thesis using 1 ri(1,6) rj(1) by (auto simp: unify_str_def weight_def)
  next
    case 2
    have "\<not> agree ?M E a b" for E using 2(2) i0 tg by (simp add: agree_def)
    then have "\<not> unifiable ?M D F B a0 b0" using pinv_clash [OF s p d] tg by simp
    then show ?thesis using 2 ri(1,6) rj(1) by (auto simp: unify_str_def)
  next
    case 3
    let ?e1 = "temp_trail_push e ri" and ?n = "arity fi" and ?m' = "?m(ri \<mapsto> fwd_cell rj)" and ?Q = "insert (?i, ?j) Q"
    have "ri < hp_size (te_heap e)" using ri(4,5) mem_size by metis
    then obtain h where h: "heap_set (te_heap e) ri (fwd_cell rj) = ok h" "heap_inv h" "same_frame (te_heap e) h" "mem h = ?m'"
      using heap_set_mem [OF inv] by metis
    let ?e2 = "?e1\<lparr>te_heap := h\<rparr>"
    have u2: "uinv ?M D F B (mem h) ?Q"
      unfolding h(4) using uinv_link [OF s u(1) F ri(2) rj(2) ri(3) rj(3) ri(4) rj(4)] ri(5) rj(5) 3 by simp
    have args: "\<exists>c r. mem h (f + 1 + k) = Some c \<and> term_ok D F B c \<and> derefs (mem h) c r \<and> derefs (mem h) (ref_cell (f + 1 + k)) r"
      if f: "f \<in> F" "?M f = Some fi" and k: "k < ?n" for f k
    proof -
      have D: "f + 1 + k \<in> D" using functor_arg(1) [OF s f(1)] f(2) k by simp
      then obtain c where c: "mem h (f + 1 + k) = Some c" "term_ok D F B c" using u2 by (auto simp: uinv_def)
      obtain r where "derefs (mem h) c r" using uinv_total [OF s u2 c(2)] by blast
      then show ?thesis using c derefs_at [where m = "mem h", OF c(1)] store_limit [OF s] D by blast
    qed
    have "\<exists>r. arg h a k = ok r \<and> derefs ?m' (ref_cell (?i + 1 + k)) r" if "k < ?n" for k
      using args [OF F(1) i0(1) that] arg_spec [OF h(2) tg(1)] h(4) by metis
    then obtain g where g: "\<And>k. k < ?n \<Longrightarrow> arg h a k = ok (g k) \<and> derefs ?m' (ref_cell (?i + 1 + k)) (g k)" by metis
    have "\<exists>r. arg h b k = ok r \<and> derefs ?m' (ref_cell (?j + 1 + k)) r" if "k < ?n" for k
      using args [OF F(2) _ that] i0(2) 3(2) arg_spec [OF h(2) tg(2)] h(4) by metis
    then obtain g' where g': "\<And>k. k < ?n \<Longrightarrow> arg h b k = ok (g' k) \<and> derefs ?m' (ref_cell (?j + 1 + k)) (g' k)" by metis
    let ?qs = "map (\<lambda>k. (g k, g' k)) [0..<?n]"
    let ?e3 = "?e2\<lparr>stack := flat ?qs @ stack ?e2\<rparr>"
    have "push_args2 ?e2 a b ?n = ok ?e3"
      using h(2) tg g g' by (intro push_args2_spec) auto
    then have res: "unify_str e a b = ok (True, ?e3)"
      using 3 ri(1,6) rj(1) h(1) by (simp add: unify_str_def on_heap_def temp_trail_push_def)
    have pl: "pinv ?M D F B a0 b0 ?m' ?Q (?qs @ ps) t (ri # temp_trail e)"
      using g g' ri(5) rj(5) 3
      by (intro pinv_link [OF s p d tg ri(2) rj(2) ri(3) rj(3) ri(4) rj(4)]) auto
    then have "linv e0 D F B a0 b0 ?e3 ?Q (?qs @ ps) t"
      using h(2-4) fr st tr by (simp add: linv_def temp_trail_push_def env_frame_def same_frame_def)
    moreover have "card F - length (temp_trail ?e3) < card F - length (temp_trail e)"
      using fwd_room [of F ?M ?m' ri "temp_trail e"] pl s by (simp add: pinv_def temp_trail_push_def store_ok_def)
    ultimately show ?thesis
      using res unfolding weight_def
      by (intro exI [of _ True] exI [of _ ?e3]) (simp, blast)
  qed
qed

lemma round_spec:
  assumes s: "store_ok (mem (te_heap e0)) D F B" and l: "linv e0 D F B a0 b0 e Q ((x, y) # ps) t"
    and hb: "register_hb e0 = hp_size (te_heap e0)" and imp: "import_bits_doc imp"
  shows "\<exists>r cost' e'. unify_round imp e cost = ok (r, cost', e') \<and>
    (if r then \<exists>Q' ps' t'. linv e0 D F B a0 b0 e' Q' ps' t' \<and> (weight F e' ps', weight F e ((x, y) # ps)) \<in> less_than <*lex*> less_than
     else e' = e\<lparr>stack := flat ps @ stack e0\<rparr> \<and> \<not> unifiable (mem (te_heap e0)) D F B a0 b0)"
proof -
  let ?M = "mem (te_heap e0)" and ?m = "mem (te_heap e)" and ?e = "e\<lparr>stack := flat ps @ stack e0\<rparr>"
  note L = linvD [OF l]
  have ok: "term_ok D F B x" "term_ok D F B y" using L(5) by (simp_all add: pinv_def)
  obtain a where a: "derefs ?m x a" "term_ok D F B a" using uinv_total [OF s L(6) ok(1)] by blast
  obtain b where b: "derefs ?m y b" "term_ok D F B b" using uinv_total [OF s L(6) ok(2)] by blast
  obtain c where pop: "pop2_deref e = ok (a, b, c, ?e)"
    using pop2_deref_spec [OF L(1), of x y "flat ps @ stack e0" a b] L(3) a b by auto
  have E: "heap_inv (te_heap ?e)" "env_frame e0 ?e" "stack ?e = flat ps @ stack e0" "trail ?e = trail e0 @ t"
    "pinv ?M D F B a0 b0 (mem (te_heap ?e)) Q ((x, y) # ps) t (temp_trail ?e)"
    "derefs (mem (te_heap ?e)) x a" "derefs (mem (te_heap ?e)) y b" "weight F ?e = weight F e"
    using L a b by (simp_all add: env_frame_def weight_def fun_eq_iff)
  have less: "(weight F e' ps, weight F e ((x, y) # ps)) \<in> less_than <*lex*> less_than" if "temp_trail e' = temp_trail ?e" for e'
    using that by (simp add: weight_def)
  have clash: "\<not> unifiable ?M D F B a0 b0" if "\<not> is_ref (cell_tag a)" "\<not> is_ref (cell_tag b)" "\<And>E. \<not> agree ?M E a b"
    by (rule pinv_clash [OF s L(5) a(1) b(1) that])
  have skip: "linv e0 D F B a0 b0 ?e Q ps t" if "same_value ?M Q a b"
    using E(1-4) pinv_skip [OF E(5-7) that] by (simp add: linv_def)
  have fin: ?thesis if "unify_round imp e cost = ok (True, k, e')" "linv e0 D F B a0 b0 e' Q ps t'" "temp_trail e' = temp_trail ?e" for k e' t'
    using that less [of e'] by (intro exI [of _ True] exI [of _ k] exI [of _ e']) auto
  have fail: ?thesis if "unify_round imp e cost = ok (False, k, ?e)" "\<not> unifiable ?M D F B a0 b0" for k
    using that by (intro exI [of _ False] exI [of _ k] exI [of _ ?e]) auto
  consider (eq) "a = b" | (vars) "a \<noteq> b" "is_ref (cell_tag a)" "is_ref (cell_tag b)" | (left) "a \<noteq> b" "is_ref (cell_tag a)" "\<not> is_ref (cell_tag b)"
    | (right) "a \<noteq> b" "\<not> is_ref (cell_tag a)" "is_ref (cell_tag b)"
    | (vals) "a \<noteq> b" "\<not> is_ref (cell_tag a)" "\<not> is_ref (cell_tag b)" by blast
  then show ?thesis
  proof cases
    case eq
    then have "linv e0 D F B a0 b0 ?e Q ps t" using skip by simp
    then show ?thesis using eq pop by (intro fin [of "cost + c" ?e t]) (auto simp: unify_round_def)
  next
    case vars
    obtain e' t' where "bind_vars ?e a b = ok e'" "linv e0 D F B a0 b0 e' Q ps t'" "temp_trail e' = temp_trail ?e"
    proof -
      have "\<exists>e' t'. bind_vars ?e a b = ok e' \<and> linv e0 D F B a0 b0 e' Q ps t' \<and> temp_trail e' = temp_trail ?e"
    proof (cases "cell_index a < cell_index b")
      case True
      then show ?thesis
        using watch_bind_step [OF s E(1-4) hb E(5-7) vars(1), of b a] vars by (auto simp: bind_vars_def insert_commute)
    next
      case False
      then show ?thesis
        using watch_bind_step [OF s E(1-4) hb E(5-7) vars(1), of a b] vars by (auto simp: bind_vars_def)
    qed
      then show thesis using that by blast
    qed
    then show ?thesis
      using vars pop by (intro fin [of "cost + c" e' t']) (auto simp: unify_round_def)
  next
    case left
    have "\<exists>e'. bind_ref ?e a b = ok e' \<and> linv e0 D F B a0 b0 e' Q ps (t @ [cell_index a]) \<and> temp_trail e' = temp_trail ?e"
      by (rule bind_step [OF s E(1-4) hb E(5-7) left(1), of a b]) (use left in auto)
    then obtain e' where "bind_ref ?e a b = ok e'" "linv e0 D F B a0 b0 e' Q ps (t @ [cell_index a])" "temp_trail e' = temp_trail ?e"
      by blast
    then show ?thesis using left pop by (intro fin [of "cost + c" e' "t @ [cell_index a]"]) (auto simp: unify_round_def)
  next
    case right
    have "\<exists>e'. bind_ref ?e b a = ok e' \<and> linv e0 D F B a0 b0 e' Q ps (t @ [cell_index b]) \<and> temp_trail e' = temp_trail ?e"
      by (rule bind_step [OF s E(1-4) hb E(5-7) right(1), of b a]) (use right in auto)
    then obtain e' where "bind_ref ?e b a = ok e'" "linv e0 D F B a0 b0 e' Q ps (t @ [cell_index b])" "temp_trail e' = temp_trail ?e"
      by blast
    then show ?thesis using right pop by (intro fin [of "cost + c" e' "t @ [cell_index b]"]) (auto simp: unify_round_def)
  next
    case vals
    consider (tags) "cell_tag a \<noteq> cell_tag b" | (const) "cell_tag a = cell_tag b" "cell_tag a \<in> {CON_T, INT_T}"
      | (str) "cell_tag a = STR_T" "cell_tag b = STR_T" | (big) "cell_tag a = BIG_T" "cell_tag b = BIG_T"
      using vals a(2) by (cases "cell_tag a = cell_tag b"; cases "cell_tag a") (auto simp: term_ok_def)
    then show ?thesis
    proof cases
      case tags
      then have "\<not> unifiable ?M D F B a0 b0" using clash vals by (simp add: agree_def)
      then show ?thesis using tags vals pop by (intro fail [of "cost + c"]) (auto simp: unify_round_def)
    next
      case const
      then have "\<not> unifiable ?M D F B a0 b0" using clash vals by (auto simp: agree_def)
      then show ?thesis using const vals pop by (intro fail [of "cost + c"]) (auto simp: unify_round_def)
    next
      case str
      obtain r e' where r: "unify_str ?e a b = ok (r, e')"
        "if r then \<exists>Q' ps'. linv e0 D F B a0 b0 e' Q' ps' t \<and> (weight F e' ps', weight F ?e ((x, y) # ps)) \<in> less_than <*lex*> less_than
         else e' = ?e \<and> \<not> unifiable ?M D F B a0 b0"
        using str_step [OF s E(1-7) str] by blast
      then show ?thesis
        using str vals pop E(8) by (intro exI [of _ r] exI [of _ "cost + c"] exI [of _ e']) (cases r, auto simp: unify_round_def)
    next
      case big
      have ub: "unify_big imp ?e a b = ok (same_big ?M (cell_index a) (cell_index b))"
        by (rule unify_big_spec [OF s E(1) _ big a(2) b(2) imp]) (use L(6) in simp)
      have "linv e0 D F B a0 b0 ?e Q ps t" if "same_big ?M (cell_index a) (cell_index b)"
        using skip big that by (simp add: same_value_def)
      moreover have "\<not> unifiable ?M D F B a0 b0" if "\<not> same_big ?M (cell_index a) (cell_index b)"
        using clash vals big that by (simp add: agree_def)
      ultimately show ?thesis
        using big vals pop ub fin [of "cost + c" ?e t] fail [of "cost + c"]
        by (cases "same_big ?M (cell_index a) (cell_index b)") (auto simp: unify_round_def)
    qed
  qed
qed

subsection \<open>The loop\<close>

lemma stack_size_flat: "stack e = flat ps @ stack e0 \<Longrightarrow> stack_size e0 < stack_size e \<longleftrightarrow> ps \<noteq> []"
  by (cases ps) (auto simp: stack_size_def)

definition cinv :: "tenv \<Rightarrow> nat set \<Rightarrow> nat set \<Rightarrow> nat set \<Rightarrow> cell \<Rightarrow> cell \<Rightarrow> tenv \<Rightarrow> (nat \<times> nat) set \<Rightarrow> (cell \<times> cell) list \<Rightarrow> nat list \<Rightarrow> bool" where
  "cinv e0 D F B a0 b0 e Q ps t \<longleftrightarrow> heap_inv (te_heap e) \<and> env_frame e0 e \<and> (\<exists>st. stack e = st @ stack e0) \<and>
     trail e = trail e0 @ t \<and> pinv (mem (te_heap e0)) D F B a0 b0 (mem (te_heap e)) Q ps t (temp_trail e)"

lemma unify_loop_spec:
  assumes s: "store_ok (mem (te_heap e0)) D F B" and hb: "register_hb e0 = hp_size (te_heap e0)" and imp: "import_bits_doc imp"
    and l: "linv e0 D F B a0 b0 e Q ps t"
  shows "\<exists>r cost' e' Q' ps' t'. unify_loop imp (stack_size e0) e cost = ok (r, cost', e') \<and>
    cinv e0 D F B a0 b0 e' Q' ps' t' \<and>
    (if r then ps' = [] \<and> stack e' = stack e0 else \<not> unifiable (mem (te_heap e0)) D F B a0 b0)"
proof -
  have "wf (inv_image (less_than <*lex*> less_than) (\<lambda>(e, ps). weight F e ps))" by (intro wf_inv_image wf_lex_prod wf_less_than)
  then show ?thesis
    using l
  proof (induction "(e, ps)" arbitrary: e ps Q t cost rule: wf_induct_rule)
    case less
    note L = linvD [OF less.prems]
    show ?case
    proof (cases ps)
      case Nil
      then have "unify_loop imp (stack_size e0) e cost = ok (True, cost, e)"
        using stack_size_flat [OF L(3)] by (simp add: unify_loop.simps)
      moreover have "cinv e0 D F B a0 b0 e Q [] t" "stack e = stack e0" using L Nil by (simp_all add: cinv_def)
      ultimately show ?thesis
        by (intro exI [of _ True] exI [of _ cost] exI [of _ e] exI [of _ Q] exI [of _ "[]"] exI [of _ t]) simp
    next
      case (Cons xy qs)
      obtain x y where xy: "xy = (x, y)" by fastforce
      obtain r c e' where r: "unify_round imp e cost = ok (r, c, e')"
        "if r then \<exists>Q' ps' t'. linv e0 D F B a0 b0 e' Q' ps' t' \<and> (weight F e' ps', weight F e ps) \<in> less_than <*lex*> less_than
         else e' = e\<lparr>stack := flat qs @ stack e0\<rparr> \<and> \<not> unifiable (mem (te_heap e0)) D F B a0 b0"
        using round_spec [OF s _ hb imp, of a0 b0 e Q x y qs t cost] less.prems Cons xy by auto
      have step: "unify_loop imp (stack_size e0) e cost =
          (if r then unify_loop imp (stack_size e0) e' c else ok (False, c, e'))"
        using r(1) stack_size_flat [OF L(3)] Cons by (subst unify_loop.simps) simp
      show ?thesis
      proof (cases r)
        case True
        then obtain Q' ps' t' where n: "linv e0 D F B a0 b0 e' Q' ps' t'" "(weight F e' ps', weight F e ps) \<in> less_than <*lex*> less_than"
          using r(2) by auto
        have "((e', ps'), (e, ps)) \<in> inv_image (less_than <*lex*> less_than) (\<lambda>(e, ps). weight F e ps)" using n(2) by simp
        from less.hyps [OF this n(1), of c] show ?thesis using step True by simp
      next
        case False
        then have "e' = e\<lparr>stack := flat qs @ stack e0\<rparr>" "\<not> unifiable (mem (te_heap e0)) D F B a0 b0" using r(2) by simp_all
        moreover from this have "cinv e0 D F B a0 b0 e' Q ps t" using L by (auto simp: cinv_def env_frame_def)
        ultimately show ?thesis
          using step False
          by (intro exI [of _ False] exI [of _ c] exI [of _ e'] exI [of _ Q] exI [of _ ps] exI [of _ t]) simp
      qed
    qed
  qed
qed

subsection \<open>Restoring functors, undoing bindings, tidying the trail\<close>

lemma restore_spec:
  assumes "heap_inv (te_heap e)" "forwards m0 F (mem (te_heap e)) (temp_trail e)" "F \<subseteq> {..<addr_limit}"
    "\<And>f. f \<in> F \<Longrightarrow> m0 f \<noteq> None"
  shows "\<exists>e'. restore_cells_after_unify e = ok e' \<and> heap_inv (te_heap e') \<and> env_frame e e' \<and> stack e' = stack e \<and>
    trail e' = trail e \<and> temp_trail e' = [] \<and> mem (te_heap e') = (\<lambda>a. if a \<in> F then m0 a else mem (te_heap e) a)"
  using assms
proof (induction "temp_trail e" arbitrary: e)
  case Nil
  then have "mem (te_heap e) = (\<lambda>a. if a \<in> F then m0 a else mem (te_heap e) a)" by (auto simp: forwards_def)
  then show ?case
    using Nil by (intro exI [of _ e]) (auto simp: restore_cells_after_unify.simps env_frame_def)
next
  case (Cons f fs)
  let ?h = "te_heap e"
  from Cons.prems(2) obtain g where g: "f \<in> F" "f \<notin> set fs" "g \<in> F" "mem ?h f = Some (fwd_cell g)" "g \<notin> set (f # fs)" "m0 g = m0 f"
    "fwd_ok m0 F (mem ?h) fs" "\<forall>x\<in>F. x \<notin> set (f # fs) \<longrightarrow> mem ?h x = m0 x"
    unfolding Cons.hyps(2) [symmetric] by (auto simp: forwards_def)
  obtain c where c: "m0 g = Some c" using Cons.prems(4) [OF g(3)] by blast
  have mg: "mem ?h g = Some c" using g(3,5,8) c by simp
  have gi: "cell_index (fwd_cell g) = g" using Cons.prems(3) g(3) by auto
  obtain h where h: "heap_set ?h f c = ok h" "heap_inv h" "same_frame ?h h" "mem h = (mem ?h)(f \<mapsto> c)"
    using heap_set_mem [OF Cons.prems(1) mem_size [OF g(4)]] by blast
  let ?e = "e\<lparr>temp_trail := fs, te_heap := h\<rparr>"
  have "fwd_ok m0 F (mem h) fs" by (rule fwd_ok_agree [OF g(7)]) (use g(2) h(4) in auto)
  then have fw: "forwards m0 F (mem h) fs" using g h(4) c by (auto simp: forwards_def)
  obtain e' where e': "restore_cells_after_unify ?e = ok e'" "heap_inv (te_heap e')" "env_frame ?e e'" "stack e' = stack ?e"
    "trail e' = trail ?e" "temp_trail e' = []" "mem (te_heap e') = (\<lambda>a. if a \<in> F then m0 a else mem (te_heap ?e) a)"
    using Cons.hyps(1) [of ?e] h(2) fw Cons.prems(3,4) by auto
  have "restore_cells_after_unify e = ok e'"
    using e'(1) Cons.hyps(2) [symmetric] h(1) g(4) mg gi
    by (subst restore_cells_after_unify.simps) (simp add: heap_get_ok [OF Cons.prems(1), THEN iffD2])
  moreover have "env_frame e e'" using e'(3) h(3) by (simp add: env_frame_def same_frame_def)
  moreover have "mem (te_heap e') = (\<lambda>a. if a \<in> F then m0 a else mem ?h a)" using e'(7) h(4) g(1) by (auto simp: fun_eq_iff)
  ultimately show ?case using e' by auto
qed

lemma unwind_trail_spec:
  assumes "heap_inv (te_heap e)" "i \<le> n" "n \<le> length (trail e)" "\<And>k. i \<le> k \<Longrightarrow> k < n \<Longrightarrow> trail e ! k < hp_size (te_heap e)"
  shows "\<exists>e'. unwind_trail e i n = ok e' \<and> heap_inv (te_heap e') \<and> env_frame e e' \<and> stack e' = stack e \<and> trail e' = trail e \<and>
    temp_trail e' = temp_trail e \<and>
    mem (te_heap e') = (\<lambda>a. if \<exists>k. i \<le> k \<and> k < n \<and> trail e ! k = a then Some (ref_cell a) else mem (te_heap e) a)"
  using assms
proof (induction "n - i" arbitrary: e i)
  case 0
  then have "i = n" by simp
  moreover have "\<nexists>k. n \<le> k \<and> k < n \<and> trail e ! k = a" for a by auto
  ultimately have "mem (te_heap e) = (\<lambda>a. if \<exists>k. i \<le> k \<and> k < n \<and> trail e ! k = a then Some (ref_cell a) else mem (te_heap e) a)"
    by (auto simp: fun_eq_iff)
  then show ?case using \<open>i = n\<close> 0 by (intro exI [of _ e]) (auto simp: unwind_trail.simps env_frame_def)
next
  case (Suc d)
  then have i: "i < n" "i < length (trail e)" by simp_all
  let ?x = "trail e ! i"
  obtain h where h: "heap_set (te_heap e) ?x (ref_cell ?x) = ok h" "heap_inv h" "same_frame (te_heap e) h"
    "mem h = (mem (te_heap e))(?x \<mapsto> ref_cell ?x)"
    using heap_set_mem [OF Suc.prems(1) Suc.prems(4) [OF le_refl i(1)]] by blast
  let ?e = "e\<lparr>te_heap := h\<rparr>"
  have "\<exists>e'. unwind_trail ?e (i + 1) n = ok e' \<and> heap_inv (te_heap e') \<and> env_frame ?e e' \<and> stack e' = stack ?e \<and> trail e' = trail ?e \<and>
    temp_trail e' = temp_trail ?e \<and>
    mem (te_heap e') = (\<lambda>a. if \<exists>k. i + 1 \<le> k \<and> k < n \<and> trail ?e ! k = a then Some (ref_cell a) else mem (te_heap ?e) a)"
    using Suc.hyps(2) Suc.prems h(2,3) by (intro Suc.hyps(1)) (auto simp: same_frame_def)
  then obtain e' where e': "unwind_trail ?e (i + 1) n = ok e'" "heap_inv (te_heap e')" "env_frame ?e e'" "stack e' = stack ?e" "trail e' = trail ?e"
    "temp_trail e' = temp_trail ?e"
    "mem (te_heap e') = (\<lambda>a. if \<exists>k. i + 1 \<le> k \<and> k < n \<and> trail ?e ! k = a then Some (ref_cell a) else mem (te_heap ?e) a)"
    by blast
  have ex: "(\<exists>k. i \<le> k \<and> k < n \<and> trail e ! k = a) \<longleftrightarrow> a = ?x \<or> (\<exists>k. i + 1 \<le> k \<and> k < n \<and> trail e ! k = a)" for a
    using i(1) by (metis Suc_eq_plus1 le_eq_less_or_eq less_eq_Suc_le order_refl)
  have "mem (te_heap e') = (\<lambda>a. if \<exists>k. i \<le> k \<and> k < n \<and> trail e ! k = a then Some (ref_cell a) else mem (te_heap e) a)"
    unfolding e'(7) ex using h(4) by (auto simp: fun_eq_iff)
  moreover have "unwind_trail e i n = ok e'" using i h(1) e'(1) by (subst unwind_trail.simps) (simp add: on_heap_def)
  moreover have "env_frame e e'" using e'(3) h(3) by (simp add: env_frame_def same_frame_def)
  ultimately show ?case using e' by auto
qed

definition seg :: "nat list \<Rightarrow> nat \<Rightarrow> nat \<Rightarrow> nat list" where
  "seg tr i n = take (n - i) (drop i tr)"

lemma seg_Cons: "i < n \<Longrightarrow> n \<le> length tr \<Longrightarrow> seg tr i n = tr ! i # seg tr (Suc i) n"
  by (simp add: seg_def Cons_nth_drop_Suc [symmetric] Suc_diff_Suc [symmetric])

lemma seg_snoc: "i < n \<Longrightarrow> n \<le> length tr \<Longrightarrow> seg tr i n = seg tr i (n - 1) @ [tr ! (n - 1)]"
  by (simp add: seg_def Suc_diff_Suc [symmetric] take_Suc_conv_app_nth)

lemma seg_swap:
  assumes "i < n" "n \<le> length tr"
  shows "mset (seg (tr[i := tr ! (n - 1)]) i (n - 1)) = mset (seg tr (Suc i) n)"
proof (cases "i = n - 1")
  case False
  then have i: "i < n - 1" "Suc i < n" using assms by simp_all
  have "seg (tr[i := tr ! (n - 1)]) (Suc i) (n - 1) = seg tr (Suc i) (n - 1)" by (simp add: seg_def)
  then show ?thesis
    using i assms seg_Cons [OF i(1), of "tr[i := tr ! (n - 1)]"] seg_snoc [OF i(2), of tr] by simp
qed (use assms in \<open>simp add: seg_def\<close>)

lemma tidy_loop_spec:
  assumes "i \<le> n" "n \<le> length tr"
  shows "\<exists>tr' n'. tidy_loop hb tr i n = ok (tr', n') \<and> i \<le> n' \<and> n' \<le> n \<and> length tr' = length tr \<and> take i tr' = take i tr \<and>
    mset (seg tr' i n') = filter_mset (\<lambda>a. a < hb) (mset (seg tr i n))"
  using assms
proof (induction hb tr i n rule: tidy_loop.induct)
  case (1 hb tr i n)
  show ?case
  proof (cases "i < n")
    case False
    then show ?thesis using "1.prems" by (subst tidy_loop.simps) (auto simp: seg_def)
  next
    case i: True
    show ?thesis
    proof (cases "tr ! i < hb")
      case True
      obtain tr' n' where r: "tidy_loop hb tr (i + 1) n = ok (tr', n')" "i + 1 \<le> n'" "n' \<le> n" "length tr' = length tr"
        "take (i + 1) tr' = take (i + 1) tr" "mset (seg tr' (i + 1) n') = filter_mset (\<lambda>a. a < hb) (mset (seg tr (i + 1) n))"
        using "1.IH"(1) [OF i "1.prems"(2) True] i "1.prems" by auto
      have "tr' ! i = tr ! i" using arg_cong [OF r(5), of "\<lambda>xs. xs ! i"] by simp
      moreover have "take i tr' = take i tr" using arg_cong [OF r(5), of "take i"] by (simp add: min_def)
      ultimately show ?thesis
        using r i True "1.prems" seg_Cons [of i n tr] seg_Cons [of i n' tr'] by (subst tidy_loop.simps) auto
    next
      case False
      let ?tr = "tr[i := tr ! (n - 1)]"
      obtain tr' n' where r: "tidy_loop hb ?tr i (n - 1) = ok (tr', n')" "i \<le> n'" "n' \<le> n - 1" "length tr' = length ?tr"
        "take i tr' = take i ?tr" "mset (seg tr' i n') = filter_mset (\<lambda>a. a < hb) (mset (seg ?tr i (n - 1)))"
      proof -
        have "i \<le> n - 1" "n - 1 \<le> length ?tr" using i "1.prems" by simp_all
        then show thesis using "1.IH"(2) [OF i "1.prems"(2) False] that by blast
      qed
      have "filter_mset (\<lambda>a. a < hb) (mset (seg ?tr i (n - 1))) = filter_mset (\<lambda>a. a < hb) (mset (seg tr i n))"
        unfolding seg_swap [OF i "1.prems"(2)] seg_Cons [OF i "1.prems"(2)] using False by simp
      then show ?thesis using r i False "1.prems" by (subst tidy_loop.simps) auto
    qed
  qed
qed

lemma tidy_trail_spec:
  assumes "from \<le> length (trail e)"
  obtains t where "tidy_trail e from (length (trail e)) = ok (e\<lparr>trail := take from (trail e) @ t\<rparr>)"
    "mset t = filter_mset (\<lambda>a. a < register_hb e) (mset (drop from (trail e)))"
proof -
  obtain tr n where r: "tidy_loop (register_hb e) (trail e) from (length (trail e)) = ok (tr, n)" "from \<le> n" "n \<le> length (trail e)"
    "length tr = length (trail e)" "take from tr = take from (trail e)"
    "mset (seg tr from n) = filter_mset (\<lambda>a. a < register_hb e) (mset (seg (trail e) from (length (trail e))))"
    using tidy_loop_spec [OF assms le_refl, of "register_hb e"] by blast
  have "take n tr = take from (trail e) @ seg tr from n"
    using r(2,5) by (metis le_add_diff_inverse seg_def take_add)
  then show thesis
    using r that [of "seg tr from n"] by (simp add: tidy_trail_def resize_trail_def seg_def)
qed

subsection \<open>The result of the helper\<close>

lemma cinvD:
  assumes "cinv e0 D F B a0 b0 e Q ps t"
  shows "heap_inv (te_heap e)" "env_frame e0 e" "\<exists>st. stack e = st @ stack e0" "trail e = trail e0 @ t"
    "pinv (mem (te_heap e0)) D F B a0 b0 (mem (te_heap e)) Q ps t (temp_trail e)"
  using assms by (simp_all add: cinv_def)

lemma pinv_done:
  assumes "store_ok m0 D F B" "pinv m0 D F B a0 b0 m Q [] t fs"
  shows "unifiable m0 D F B a0 b0"
proof -
  have p: "uinv m0 D F B m Q" "moves (term_ok D F B) m0 m" "args_todo (term_ok D F B) m0 m Q []" "todo (term_ok D F B) m0 m Q [] a0 b0"
    using assms(2) by (simp_all add: pinv_def)
  have "joined_ok (term_ok D F B) m0 m Q a0 b0" using todo_done [OF p(4)] by (simp add: joined_ok_def)
  then show ?thesis using joined_solution [OF assms(1) p(1,3,2)] unfolding unifiable_def by blast
qed

definition restored :: "(nat \<Rightarrow> cell option) \<Rightarrow> nat set \<Rightarrow> (nat \<Rightarrow> cell option) \<Rightarrow> nat \<Rightarrow> cell option" where
  "restored m0 F m = (\<lambda>a. if a \<in> F then m0 a else m a)"

definition helper_outcome :: "tenv \<Rightarrow> nat set \<Rightarrow> nat set \<Rightarrow> nat set \<Rightarrow> cell \<Rightarrow> cell \<Rightarrow> bool \<Rightarrow> tenv \<Rightarrow> (nat \<Rightarrow> cell option) \<Rightarrow>
    (nat \<times> nat) set \<Rightarrow> (cell \<times> cell) list \<Rightarrow> nat list \<Rightarrow> nat list \<Rightarrow> cell list \<Rightarrow> bool" where
  "helper_outcome e D F B a b r e' m Q ps t fs st \<longleftrightarrow> r = unifiable (mem (te_heap e)) D F B a b \<and>
    heap_inv (te_heap e') \<and> env_frame e e' \<and> stack e' = st @ stack e \<and> trail e' = trail e @ t \<and> temp_trail e' = [] \<and>
    mem (te_heap e') = restored (mem (te_heap e)) F m \<and> pinv (mem (te_heap e)) D F B a b m Q ps t fs \<and> (r \<longrightarrow> st = [] \<and> ps = [])"

lemma helper_spec:
  assumes inv: "heap_inv (te_heap e)" and s: "store_ok (mem (te_heap e)) D F B" and ok: "term_ok D F B a" "term_ok D F B b"
    and tt: "temp_trail e = []" and imp: "import_bits_doc imp" and hb: "register_hb e = hp_size (te_heap e)"
  obtains r cost e' m Q ps t fs st where "unify_helper imp e a b = ok (r, cost, e')" "helper_outcome e D F B a b r e' m Q ps t fs st"
proof -
  let ?M = "mem (te_heap e)"
  have "linv e D F B a b (push (push e b) a) {} [(a, b)] []"
    using inv tt pinv_init [OF s ok] by (simp add: linv_def push_def env_frame_def)
  then obtain r cost e1 Q ps t where l: "unify_loop imp (stack_size e) (push (push e b) a) 0 = ok (r, cost, e1)"
    "cinv e D F B a b e1 Q ps t" "if r then ps = [] \<and> stack e1 = stack e else \<not> unifiable ?M D F B a b"
    using unify_loop_spec [OF s hb imp, of a b _ _ _ _ 0] by blast
  note c = cinvD [OF l(2)]
  have r: "r = unifiable ?M D F B a b" using l(3) pinv_done [OF s, of a b _ Q t] c(5) by (cases r) auto
  have "forwards ?M F (mem (te_heap e1)) (temp_trail e1)" using c(5) by (simp add: pinv_def)
  moreover have "F \<subseteq> {..<addr_limit}" "\<And>f. f \<in> F \<Longrightarrow> ?M f \<noteq> None" using s by (auto simp: store_ok_def)
  ultimately obtain e' where e': "restore_cells_after_unify e1 = ok e'" "heap_inv (te_heap e')" "env_frame e1 e'" "stack e' = stack e1"
    "trail e' = trail e1" "temp_trail e' = []" "mem (te_heap e') = (\<lambda>a. if a \<in> F then ?M a else mem (te_heap e1) a)"
    using restore_spec [OF c(1)] by blast
  obtain st where st: "stack e1 = st @ stack e" using c(3) by blast
  have "unify_helper imp e a b = ok (r, cost, e')" using l(1) e'(1) by (simp add: unify_helper_def)
  moreover have "r \<longrightarrow> st = [] \<and> ps = []" using l(3) st by (cases r) auto
  then have "helper_outcome e D F B a b r e' (mem (te_heap e1)) Q ps t (temp_trail e1) st"
    using r e' env_frame_trans [OF c(2) e'(3)] c(4,5) st by (simp add: helper_outcome_def restored_def)
  ultimately show thesis by (rule that)
qed

text \<open>Solutions of the store after the bindings.\<close>

lemma restored_derefs:
  assumes s: "store_ok m0 D F B" and u: "uinv m0 D F B m Q" and c: "term_ok D F B c"
  shows "derefs (restored m0 F m) c d \<longleftrightarrow> derefs m c d"
proof -
  have cl: "refs_closed m D" using u by (intro term_ok_refs [of D m F B]) (simp add: uinv_def)
  have ag: "restored m0 F m a = m a" if "a \<in> D" for a using that s by (auto simp: restored_def store_ok_def)
  have 1: "derefs (restored m0 F m) c e" if "derefs m c e" for e
    by (rule derefs_agree [OF that cl]) (use c ag in \<open>auto simp: term_ok_def\<close>)
  obtain e where "derefs m c e" using uinv_total [OF s u c] by blast
  then show ?thesis using 1 derefs_unique by metis
qed

lemma solution_restored:
  assumes s: "store_ok m0 D F B" and u: "uinv m0 D F B m Q" and mv: "moves (term_ok D F B) m0 m"
  shows "solution (restored m0 F m) D F B E \<longleftrightarrow>
    solution m0 D F B E \<and> (\<forall>c d. term_ok D F B c \<longrightarrow> derefs m c d \<longrightarrow> E c d)"
proof -
  let ?m = "restored m0 F m" and ?T = "term_ok D F B"
  have big: "same_big ?m a b = same_big m0 a b" if "a \<in> B" "b \<in> B" for a b
  proof -
    have r: "?m x = m0 x" if "x \<in> big_area c (num_bytes_at m0 c)" "c \<in> B" for x c
    proof -
      have "big_area c (num_bytes_at m0 c) \<inter> (D \<union> F) = {}" using s that(2) by (simp add: store_ok_def)
      then have "x \<notin> D \<union> F" using that(1) by blast
      then show ?thesis using u by (simp add: restored_def uinv_def)
    qed
    have "?m c = m0 c" "big_data ?m c (num_bytes_at m0 c) = big_data m0 c (num_bytes_at m0 c)" if "c \<in> B" for c
      using r [OF _ that] in_big_area [of _ "num_bytes_at m0 c" c]
      by (auto simp: big_area_def big_data_def data_bytes_def data_byte_def)
    then show ?thesis using that by (simp add: same_big_def num_bytes_at_def)
  qed
  have ag: "agree ?m E c d = agree m0 E c d" if "?T c" "?T d" for c d
  proof -
    have "cell_tag c = BIG_T \<Longrightarrow> cell_index c \<in> B" "cell_tag d = BIG_T \<Longrightarrow> cell_index d \<in> B"
      "cell_tag c = STR_T \<Longrightarrow> ?m (cell_index c) = m0 (cell_index c)" "cell_tag d = STR_T \<Longrightarrow> ?m (cell_index d) = m0 (cell_index d)"
      using that by (simp_all add: term_ok_def restored_def)
    then show ?thesis using big by (cases "cell_tag c = cell_tag d"; cases "cell_tag c") (simp_all add: agree_def)
  qed
  have der: "(\<forall>c d. ?T c \<longrightarrow> derefs m0 c d \<longrightarrow> E c d)" if E: "equivp E" "\<And>c d. ?T c \<Longrightarrow> derefs m c d \<Longrightarrow> E c d"
  proof (intro allI impI)
    fix c d assume c: "?T c" "derefs m0 c d"
    obtain \<phi> where f: "\<And>c d. ?T c \<Longrightarrow> derefs m0 c d \<Longrightarrow> derefs m c (\<phi> d)" "\<And>d. \<not> is_ref (cell_tag d) \<Longrightarrow> \<phi> d = d"
      using mv unfolding moves_def by blast
    have d: "?T d" using uinv_total [OF s uinv_init [OF s] c(1)] derefs_unique [OF c(2)] by metis
    have "E c (\<phi> d)" "E d (\<phi> d)" using E(2) c d f(1) derefs_idem [OF c(2)] by blast+
    then show "E c d" using E(1) by (meson equivp_symp equivp_transp)
  qed
  have dr: "(\<forall>c d. ?T c \<longrightarrow> derefs ?m c d \<longrightarrow> E c d) \<longleftrightarrow> (\<forall>c d. ?T c \<longrightarrow> derefs m c d \<longrightarrow> E c d)"
    using restored_derefs [OF s u] by blast
  show ?thesis
  proof
    assume sol: "solution ?m D F B E"
    then have E: "equivp E" "\<forall>c d. ?T c \<longrightarrow> derefs m c d \<longrightarrow> E c d" unfolding solution_def dr by simp_all
    have "agree m0 E c d" if "?T c" "?T d" "\<not> is_ref (cell_tag c)" "\<not> is_ref (cell_tag d)" "E c d" for c d
      using solutionD(5) [OF sol that] ag [OF that(1,2)] by simp
    then show "solution m0 D F B E \<and> (\<forall>c d. ?T c \<longrightarrow> derefs m c d \<longrightarrow> E c d)"
      using E der unfolding solution_def by simp
  next
    assume sol: "solution m0 D F B E \<and> (\<forall>c d. ?T c \<longrightarrow> derefs m c d \<longrightarrow> E c d)"
    have "agree ?m E c d" if "?T c" "?T d" "\<not> is_ref (cell_tag c)" "\<not> is_ref (cell_tag d)" "E c d" for c d
      using solutionD(5) [OF conjunct1 [OF sol] that] ag [OF that(1,2)] by simp
    then show "solution ?m D F B E" using sol unfolding solution_def dr by simp
  qed
qed

definition unify_outcome :: "tenv \<Rightarrow> nat set \<Rightarrow> nat set \<Rightarrow> nat set \<Rightarrow> cell \<Rightarrow> cell \<Rightarrow> bool \<Rightarrow> tenv \<Rightarrow> (nat \<Rightarrow> cell option) \<Rightarrow>
    (nat \<times> nat) set \<Rightarrow> (cell \<times> cell) list \<Rightarrow> nat list \<Rightarrow> nat list \<Rightarrow> nat list \<Rightarrow> bool" where
  "unify_outcome e D F B a b r e' m Q ps t fs t' \<longleftrightarrow> r = unifiable (mem (te_heap e)) D F B a b \<and>
    heap_inv (te_heap e') \<and> stack e' = stack e \<and> temp_trail e' = [] \<and> register_hb e' = register_hb e \<and> trail e' = trail e @ t' \<and>
    pinv (mem (te_heap e)) D F B a b m Q ps t fs \<and>
    (if r then ps = [] \<and> mem (te_heap e') = restored (mem (te_heap e)) F m \<and> mset t' = filter_mset (\<lambda>x. x < register_hb e) (mset t)
     else t' = [] \<and> mem (te_heap e') = (\<lambda>x. if x \<in> set t then Some (ref_cell x) else restored (mem (te_heap e)) F m x))"

lemma unify_spec:
  assumes inv: "heap_inv (te_heap e)" and s: "store_ok (mem (te_heap e)) D F B" and ok: "term_ok D F B a" "term_ok D F B b"
    and tt: "temp_trail e = []" and imp: "import_bits_doc import_bits"
  obtains r cost e' m Q ps t fs t' where "unify import_bits e a b = ok (r, cost, e')" "unify_outcome e D F B a b r e' m Q ps t fs t'"
proof -
  let ?M = "mem (te_heap e)" and ?e = "e\<lparr>register_hb := hp_size (te_heap e)\<rparr>"
  have pre: "heap_inv (te_heap ?e)" "store_ok (mem (te_heap ?e)) D F B" "temp_trail ?e = []" "register_hb ?e = hp_size (te_heap ?e)"
    using assms by simp_all
  obtain r cost e1 m Q ps t fs st where o: "unify_helper import_bits ?e a b = ok (r, cost, e1)" "helper_outcome ?e D F B a b r e1 m Q ps t fs st"
    using helper_spec [OF pre(1,2) ok pre(3) imp pre(4)] by blast
  have h: "unify_helper import_bits ?e a b = ok (r, cost, e1)" "r = unifiable ?M D F B a b"
    "heap_inv (te_heap e1)" "env_frame ?e e1" "stack e1 = st @ stack e" "r \<longrightarrow> st = []" "trail e1 = trail e @ t" "temp_trail e1 = []"
    "mem (te_heap e1) = restored ?M F m" "pinv ?M D F B a b m Q ps t fs" "r \<longrightarrow> ps = []"
    using o by (simp_all add: helper_outcome_def)
  have u: "uinv ?M D F B m Q" "trailed ?M D m t" using h(10) by (simp_all add: pinv_def)
  show thesis
  proof (cases r)
    case True
    let ?e1 = "e1\<lparr>register_hb := register_hb e\<rparr>"
    obtain t' where t': "tidy_trail ?e1 (length (trail e)) (length (trail ?e1)) = ok (?e1\<lparr>trail := take (length (trail e)) (trail ?e1) @ t'\<rparr>)"
      "mset t' = filter_mset (\<lambda>x. x < register_hb e) (mset (drop (length (trail e)) (trail ?e1)))"
      using tidy_trail_spec [of "length (trail e)" ?e1] h(7) by auto
    have "unify import_bits e a b = ok (True, cost, ?e1\<lparr>trail := trail e @ t'\<rparr>)"
      using h(1,7) t'(1) True by (simp add: unify_def Let_def)
    then show thesis
      using h t'(2) True
      by (intro that [of r cost "?e1\<lparr>trail := trail e @ t'\<rparr>" m Q ps t fs t']) (auto simp: unify_outcome_def)
  next
    case False
    have sz: "hp_size (te_heap e1) = hp_size (te_heap e)" using h(4) by (simp add: env_frame_def)
    have tD: "\<And>x. x \<in> set t \<Longrightarrow> x \<in> D" using u(2) by (auto simp: trailed_def)
    have lt: "trail e1 ! k < hp_size (te_heap e1)" if "length (trail e) \<le> k" "k < length (trail e1)" for k
    proof -
      have "trail e1 ! k \<in> D" using that h(7) tD [of "trail e1 ! k"] by (simp add: nth_append)
      then obtain c where "?M (trail e1 ! k) = Some c" using s by (auto simp: store_ok_def)
      then show ?thesis using mem_size sz by metis
    qed
    obtain e2 where e2: "unwind_trail e1 (length (trail e)) (length (trail e1)) = ok e2" "heap_inv (te_heap e2)" "env_frame e1 e2"
      "stack e2 = stack e1" "trail e2 = trail e1" "temp_trail e2 = temp_trail e1"
      "mem (te_heap e2) = (\<lambda>a. if \<exists>k. length (trail e) \<le> k \<and> k < length (trail e1) \<and> trail e1 ! k = a then Some (ref_cell a) else mem (te_heap e1) a)"
    proof -
      have "length (trail e) \<le> length (trail e1)" using h(7) by simp
      then show thesis using unwind_trail_spec [OF h(3) _ le_refl lt] that by blast
    qed
    have mem_t: "(\<exists>k. length (trail e) \<le> k \<and> k < length (trail e1) \<and> trail e1 ! k = a) \<longleftrightarrow> a \<in> set t" for a
    proof
      assume "\<exists>k. length (trail e) \<le> k \<and> k < length (trail e1) \<and> trail e1 ! k = a"
      then obtain k where "length (trail e) \<le> k" "k < length (trail e1)" "trail e1 ! k = a" by blast
      then have "t ! (k - length (trail e)) = a" "k - length (trail e) < length t" using h(7) by (auto simp: nth_append)
      then show "a \<in> set t" by (metis nth_mem)
    next
      assume "a \<in> set t"
      then obtain i where "i < length t" "t ! i = a" by (auto simp: in_set_conv_nth)
      then have "length (trail e) \<le> length (trail e) + i \<and> length (trail e) + i < length (trail e1) \<and> trail e1 ! (length (trail e) + i) = a"
        using h(7) by simp
      then show "\<exists>k. length (trail e) \<le> k \<and> k < length (trail e1) \<and> trail e1 ! k = a" by blast
    qed
    let ?e3 = "(trim_stack (trim_trail e2 (length (trail e))) (stack_size e))\<lparr>register_hb := register_hb e\<rparr>"
    have "unify import_bits e a b = ok (False, cost, ?e3)"
      using h(1) e2(1) False by (simp add: unify_def Let_def stack_size_def)
    moreover have "stack ?e3 = stack e" "trail ?e3 = trail e"
      using e2(4,5) h(5,7) by (simp_all add: trim_stack_def trim_trail_def stack_size_def resize_trail_def)
    moreover have "heap_inv (te_heap ?e3)" "temp_trail ?e3 = []" "mem (te_heap ?e3) = mem (te_heap e2)"
      using e2(2,6) h(8) by (simp_all add: trim_stack_def trim_trail_def)
    ultimately show thesis
      using h(2,9,10) e2(7) False
      by (intro that [of r cost ?e3 m Q ps t fs "[]"]) (simp_all add: unify_outcome_def mem_t fun_eq_iff)
  qed
qed

subsection \<open>A sample environment\<close>

definition sample_env :: tenv where
  "sample_env = tenv_new\<lparr>te_heap := sample_heap\<rparr>"

definition be_int :: "u8 list \<Rightarrow> int" where
  "be_int bs = int (be_value bs)"

declare unify_loop.simps [code] deref_cost_loop.simps [code] follow_fwd.simps [code]

lemma sample_env_ok:
  "heap_inv (te_heap sample_env)" "store_ok (mem (te_heap sample_env)) {0, 1, 2, 3} {} {4}" "temp_trail sample_env = []"
  "import_bits_doc be_int" "term_ok {0, 1, 2, 3} {} {4} (ref_cell 3)" "term_ok {0, 1, 2, 3} {} {4} (int_cell n)"
proof -
  have e: "ref_edges (mem sample_heap) {0, 1, 2, 3} = {(0, 1), (1, 2)}"
    by (auto simp: ref_edges_def sample_heap_mem small_addr)
  have "wf (less_than)" by simp
  moreover have "(ref_edges (mem sample_heap) {0, 1, 2, 3}) \<subseteq> less_than" unfolding e by auto
  ultimately have "acyclic (ref_edges (mem sample_heap) {0, 1, 2, 3})" by (blast intro: wf_acyclic wf_subset)
  moreover have "big_area 4 (num_bytes_at (mem sample_heap) 4) = {4, 5}"
    unfolding num_bytes_at_def sample_heap_mem by (auto simp: big_area_def)
  ultimately show "store_ok (mem (te_heap sample_env)) {0, 1, 2, 3} {} {4}"
    by (simp add: store_ok_def sample_env_def sample_heap_mem small_addr term_ok_def has_cells_def big_cells_def big_end_def num_bytes_at_def)
qed (simp_all add: sample_env_def sample_heap_inv tenv_new_def import_bits_doc_def be_int_def term_ok_def small_addr)

lemma sample_unify:
  "\<exists>cost e'. unify be_int sample_env (ref_cell 3) (int_cell 7) = ok (True, cost, e')"
  "\<exists>cost e'. unify be_int sample_env (int_cell 8) (int_cell 7) = ok (False, cost, e')"
proof -
  have "case unify be_int sample_env (ref_cell 3) (int_cell 7) of Some (Inr (r, _, _)) \<Rightarrow> r | _ \<Rightarrow> False"
    "case unify be_int sample_env (int_cell 8) (int_cell 7) of Some (Inr (r, _, _)) \<Rightarrow> \<not> r | _ \<Rightarrow> False"
    by code_simp+
  then show "\<exists>cost e'. unify be_int sample_env (ref_cell 3) (int_cell 7) = ok (True, cost, e')"
    "\<exists>cost e'. unify be_int sample_env (int_cell 8) (int_cell 7) = ok (False, cost, e')"
    by (auto split: option.splits sum.splits)
qed

subsection \<open>Properties\<close>

text \<open>C1: unification decides unifiability.  On a well-formed store, with cyclic terms allowed, \<open>unify\<close> ends without
  an exception; it returns \<open>true\<close> exactly when some assignment of (possibly infinite) trees to the variables makes the two
  terms equal; and it leaves the stack, the temporary trail and the choice point register as they were.  Well-formed
  includes that every big number can be walked over: when a number ends with its last cell and the next cell is in
  another block than its header, that cell exists, since the iterator looks at it (\<open>big_cells\<close>).\<close>

theorem unify_decides:
  assumes "heap_inv (te_heap e)" "store_ok (mem (te_heap e)) D F B" "term_ok D F B a" "term_ok D F B b"
    "temp_trail e = []" "import_bits_doc import_bits"
  shows "\<exists>r cost e'. unify import_bits e a b = ok (r, cost, e') \<and> (r \<longleftrightarrow> unifiable (mem (te_heap e)) D F B a b) \<and>
    heap_inv (te_heap e') \<and> stack e' = stack e \<and> temp_trail e' = [] \<and> register_hb e' = register_hb e"
proof -
  obtain r cost e' m Q ps t fs t' where "unify import_bits e a b = ok (r, cost, e')" "unify_outcome e D F B a b r e' m Q ps t fs t'"
    using unify_spec [OF assms] by blast
  then show ?thesis by (auto simp: unify_outcome_def)
qed

theorem unify_decides_witness:
  "\<exists>r cost e'. unify be_int sample_env (ref_cell 3) (int_cell 7) = ok (r, cost, e') \<and>
    (r \<longleftrightarrow> unifiable (mem sample_heap) {0, 1, 2, 3} {} {4} (ref_cell 3) (int_cell 7)) \<and> stack e' = stack sample_env"
  using unify_decides [OF sample_env_ok(1,2,5) sample_env_ok(6) [of 7] sample_env_ok(3,4)] by (auto simp: sample_env_def)

text \<open>Terms that are equal under every assignment: the unbound variables are compared by their addresses.\<close>

definition identical :: "(nat \<Rightarrow> cell option) \<Rightarrow> nat set \<Rightarrow> nat set \<Rightarrow> nat set \<Rightarrow> cell \<Rightarrow> cell \<Rightarrow> bool" where
  "identical m D F B a b \<longleftrightarrow> (\<exists>R. solution m D F B R \<and> R a b \<and>
     (\<forall>c d c' d'. term_ok D F B c \<longrightarrow> term_ok D F B d \<longrightarrow> R c d \<longrightarrow> derefs m c c' \<longrightarrow> derefs m d d' \<longrightarrow>
        is_ref (cell_tag c') \<or> is_ref (cell_tag d') \<longrightarrow> c' = d'))"

lemma pinv_identical:
  assumes s: "store_ok m0 D F B" and p: "pinv m0 D F B a b m Q [] t fs"
  shows "identical (restored m0 F m) D F B a b"
proof -
  let ?T = "term_ok D F B" and ?m = "restored m0 F m"
  let ?R = "joined_ok ?T m0 m Q"
  have q: "uinv m0 D F B m Q" "moves ?T m0 m" "args_todo ?T m0 m Q []" "todo ?T m0 m Q [] a b" "entailed m0 D F B a b m []"
    using p by (simp_all add: pinv_def)
  have R0: "solution m0 D F B ?R" by (rule joined_solution [OF s q(1,3,2)])
  have ab: "?R a b" using todo_done [OF q(4)] by (simp add: joined_ok_def)
  have R: "solution ?m D F B ?R"
    unfolding solution_restored [OF s q(1,2)] using R0 entailedD(2) [OF q(5) R0 ab] by blast
  have rig: "c' = d'" if "?T c" "?T d" "?R c d" "derefs ?m c c'" "derefs ?m d d'" "is_ref (cell_tag c') \<or> is_ref (cell_tag d')" for c d c' d'
  proof -
    note cdR = that(3) and v = that(6)
    have cd: "derefs m c c'" "derefs m d d'" using that(4,5) restored_derefs [OF s q(1)] that(1,2) by blast+
    show ?thesis
    proof (cases "c = d")
      case False
      then obtain c2 d2 where "derefs m c c2" "derefs m d d2" "same_value m0 Q c2 d2"
        using cdR unfolding joined_ok_def joined_def by blast
      then have "same_value m0 Q c' d'" using derefs_unique cd by metis
      then show ?thesis using v by (auto simp: same_value_def)
    qed (use cd derefs_unique in blast)
  qed
  show ?thesis unfolding identical_def using R ab rig by blast
qed

text \<open>C2: a successful unification is most general.  After it the two terms are identical without binding any further
  variable, and it excludes no solution: the assignments that make the terms equal are exactly those that respect the
  bindings made.\<close>

theorem unify_most_general:
  assumes "heap_inv (te_heap e)" "store_ok (mem (te_heap e)) D F B" "term_ok D F B a" "term_ok D F B b"
    "temp_trail e = []" "import_bits_doc import_bits" "unify import_bits e a b = ok (True, cost, e')"
  shows "identical (mem (te_heap e')) D F B a b \<and>
    (\<forall>E. solution (mem (te_heap e)) D F B E \<and> E a b \<longleftrightarrow> solution (mem (te_heap e')) D F B E \<and> E a b)"
proof -
  let ?M = "mem (te_heap e)"
  obtain r c e2 m Q ps t fs t' where o: "unify import_bits e a b = ok (r, c, e2)" "unify_outcome e D F B a b r e2 m Q ps t fs t'"
    using unify_spec [OF assms(1-6)] by blast
  then have p: "pinv ?M D F B a b m Q [] t fs" and m: "mem (te_heap e') = restored ?M F m"
    using assms(7) by (auto simp: unify_outcome_def)
  have q: "uinv ?M D F B m Q" "moves (term_ok D F B) ?M m" "entailed ?M D F B a b m []" using p by (simp_all add: pinv_def)
  have "solution ?M D F B E \<and> E a b \<longleftrightarrow> solution (mem (te_heap e')) D F B E \<and> E a b" for E
    unfolding m solution_restored [OF assms(2) q(1,2)] using entailedD(2) [OF q(3), of E] by blast
  then show ?thesis using pinv_identical [OF assms(2) p] m by auto
qed

theorem unify_most_general_witness:
  "\<exists>cost e'. unify be_int sample_env (ref_cell 3) (int_cell 7) = ok (True, cost, e') \<and>
    identical (mem (te_heap e')) {0, 1, 2, 3} {} {4} (ref_cell 3) (int_cell 7)"
proof -
  obtain cost e' where u: "unify be_int sample_env (ref_cell 3) (int_cell 7) = ok (True, cost, e')" using sample_unify(1) by blast
  show ?thesis using unify_most_general [OF sample_env_ok(1,2,5,6,3,4) u] u by blast
qed

text \<open>C3: a failed unification is undone.  The trail is as before and every cell has its old content; only the watch
  mark of an unbound variable may have changed.\<close>

theorem unify_failure_undone:
  assumes "heap_inv (te_heap e)" "store_ok (mem (te_heap e)) D F B" "term_ok D F B a" "term_ok D F B b"
    "temp_trail e = []" "import_bits_doc import_bits" "unify import_bits e a b = ok (False, cost, e')"
  shows "trail e' = trail e \<and> (\<forall>x. mem (te_heap e') x = mem (te_heap e) x \<or>
    self_ref (mem (te_heap e)) x \<and> self_ref (mem (te_heap e')) x)"
proof -
  let ?M = "mem (te_heap e)"
  obtain r c e2 m Q ps t fs t' where o: "unify import_bits e a b = ok (r, c, e2)" "unify_outcome e D F B a b r e2 m Q ps t fs t'"
    using unify_spec [OF assms(1-6)] by blast
  then have p: "pinv ?M D F B a b m Q ps t fs" "trail e' = trail e @ t'" "t' = []"
    "mem (te_heap e') = (\<lambda>x. if x \<in> set t then Some (ref_cell x) else restored ?M F m x)"
    using assms(7) by (auto simp: unify_outcome_def)
  have u: "uinv ?M D F B m Q" "trailed ?M D m t" using p(1) by (simp_all add: pinv_def)
  have "mem (te_heap e') x = ?M x \<or> self_ref ?M x \<and> self_ref (mem (te_heap e')) x" for x
  proof (cases "x \<in> set t")
    case True
    then have "x \<in> D" "self_ref ?M x" using u(2) by (auto simp: trailed_def)
    then show ?thesis using True p(4) store_limit [OF assms(2)] by (auto simp: self_ref_def)
  next
    case False
    then have x: "mem (te_heap e') x = restored ?M F m x" using p(4) by simp
    show ?thesis
    proof (cases "x \<in> D \<and> x \<notin> F")
      case True
      then have "m x = ?M x \<or> self_ref m x" "m x = ?M x \<or> self_ref ?M x"
        using u False unfolding trailed_def uinv_def by blast+
      then show ?thesis using x True by (auto simp: restored_def self_ref_def)
    next
      case False
      then show ?thesis using x u(1) unfolding restored_def uinv_def by auto
    qed
  qed
  then show ?thesis using p(2,3) by simp
qed

theorem unify_failure_undone_witness:
  "\<exists>cost e'. unify be_int sample_env (int_cell 8) (int_cell 7) = ok (False, cost, e') \<and> trail e' = trail sample_env"
proof -
  obtain cost e' where u: "unify be_int sample_env (int_cell 8) (int_cell 7) = ok (False, cost, e')" using sample_unify(2) by blast
  show ?thesis using unify_failure_undone [OF sample_env_ok(1,2,6,6,3,4) u] u by blast
qed

text \<open>C4: what a successful unification changes.  Only cells of unbound variables change, and the variables pushed on the
  trail, each once, are exactly those that are older than the last choice point and became bound, so that backtracking
  can unbind them.\<close>

theorem unify_success_trail:
  assumes "heap_inv (te_heap e)" "store_ok (mem (te_heap e)) D F B" "term_ok D F B a" "term_ok D F B b"
    "temp_trail e = []" "import_bits_doc import_bits" "unify import_bits e a b = ok (True, cost, e')"
  shows "(\<forall>x. mem (te_heap e') x = mem (te_heap e) x \<or> self_ref (mem (te_heap e)) x) \<and>
    (\<exists>t. trail e' = trail e @ t \<and> distinct t \<and>
      set t = {x. x < register_hb e \<and> self_ref (mem (te_heap e)) x \<and> \<not> self_ref (mem (te_heap e')) x})"
proof -
  let ?M = "mem (te_heap e)"
  obtain r c e2 m Q ps t fs t' where o: "unify import_bits e a b = ok (r, c, e2)" "unify_outcome e D F B a b r e2 m Q ps t fs t'"
    using unify_spec [OF assms(1-6)] by blast
  then have p: "pinv ?M D F B a b m Q [] t fs" "trail e' = trail e @ t'"
    "mset t' = filter_mset (\<lambda>x. x < register_hb e) (mset t)" "mem (te_heap e') = restored ?M F m"
    using assms(7) by (auto simp: unify_outcome_def)
  have u: "uinv ?M D F B m Q" "trailed ?M D m t" using p(1) by (simp_all add: pinv_def)
  have ch: "restored ?M F m x = ?M x \<or> self_ref ?M x" for x
    using u(1) unfolding restored_def uinv_def by auto
  have keep: "self_ref (restored ?M F m) x = self_ref m x" if "x \<in> D" for x
    using that assms(2) by (auto simp: restored_def self_ref_def store_ok_def)
  have "x \<in> set t \<longleftrightarrow> self_ref ?M x \<and> \<not> self_ref (restored ?M F m) x" for x
  proof
    assume "x \<in> set t"
    then show "self_ref ?M x \<and> \<not> self_ref (restored ?M F m) x" using u(2) keep by (auto simp: trailed_def)
  next
    assume x: "self_ref ?M x \<and> \<not> self_ref (restored ?M F m) x"
    then have "restored ?M F m x \<noteq> ?M x" by (auto simp: self_ref_def)
    then have "x \<in> D" using u(1) by (auto simp: restored_def uinv_def split: if_splits)
    then have "m x = ?M x \<or> x \<in> set t" using u(2) x keep by (auto simp: trailed_def)
    then show "x \<in> set t" using x keep [OF \<open>x \<in> D\<close>] by (auto simp: self_ref_def)
  qed
  moreover have "set t' = {x \<in> set t. x < register_hb e}" using arg_cong [OF p(3), of set_mset] by auto
  moreover have "distinct t'"
  proof -
    have "mset t' = mset (filter (\<lambda>x. x < register_hb e) t)" using p(3) by simp
    then have "distinct t' \<longleftrightarrow> distinct (filter (\<lambda>x. x < register_hb e) t)" by (rule mset_eq_imp_distinct_iff)
    then show ?thesis using u(2) by (simp add: trailed_def)
  qed
  ultimately show ?thesis using ch p(2,4) by auto
qed

theorem unify_success_trail_witness:
  "\<exists>cost e' t. unify be_int sample_env (ref_cell 3) (int_cell 7) = ok (True, cost, e') \<and> trail e' = trail sample_env @ t"
proof -
  obtain cost e' where u: "unify be_int sample_env (ref_cell 3) (int_cell 7) = ok (True, cost, e')" using sample_unify(1) by blast
  show ?thesis using unify_success_trail [OF sample_env_ok(1,2,5,6,3,4) u] u by blast
qed

end
