(* ===== verification/Term_Walk.thy ===== *)
theory Term_Walk
  imports Term_Env
begin

section \<open>Walking over terms\<close>

text \<open>
  The operations of \<^verbatim>\<open>src/src/common/term_env.cpp\<close> and \<^verbatim>\<open>term_env.hpp\<close> that read terms: the standard order,
  the depth-first iterator with \<open>is_ground\<close>, naming the variables of a term, and strings as lists.  Finite terms
  are related to trees, which serve as the reference for equality, hashing, cost and order.
\<close>

subsection \<open>The standard order\<close>

text \<open>The lexicographic order of strings, with characters compared as bytes.  The library specifies only the sign of what
  \<open>std::string::compare\<close> returns, and the code passes the number on, so that function is a parameter \<open>compare\<close> with this
  documented sign.\<close>

fun string_compare :: "string \<Rightarrow> string \<Rightarrow> int" where
  "string_compare [] [] = 0"
| "string_compare [] (y # ys) = - 1"
| "string_compare (x # xs) [] = 1"
| "string_compare (x # xs) (y # ys) =
     (if (of_char x :: nat) < of_char y then - 1 else if (of_char y :: nat) < of_char x then 1 else string_compare xs ys)"

definition compare_doc :: "(string \<Rightarrow> string \<Rightarrow> int) \<Rightarrow> bool" where
  "compare_doc compare \<longleftrightarrow> (\<forall>x y. sgn (compare x y) = string_compare x y)"

definition functor_standard_order :: "(string \<Rightarrow> string \<Rightarrow> int) \<Rightarrow> heap \<Rightarrow> cell \<Rightarrow> cell \<Rightarrow> int tres" where
  "functor_standard_order compare h a b =
     (if a = b then ok 0
      else if arity a < arity b then ok (- 1)
      else if arity a > arity b then ok 1
      else bindR (atom_name h a) (\<lambda>na. bindR (atom_name h b) (\<lambda>nb. ok (compare na nb))))"

definition order_round :: "(string \<Rightarrow> string \<Rightarrow> int) \<Rightarrow> nat \<Rightarrow> tenv \<times> u64 \<Rightarrow> (tenv \<times> u64, int \<times> u64 \<times> tenv) loop_step tres" where
  "order_round compare d = (\<lambda>(e, cost). bindR (pop2_deref e) (\<lambda>(a, b, c, e). let cost = cost + c; h = te_heap e in
     if a = b then ok (Continue (e, cost))
     else if cell_tag a \<noteq> cell_tag b then
       ok (Return (if kind_code (cell_tag a) < kind_code (cell_tag b) then - 1 else 1, cost, trim_stack e d))
     else if cell_tag a = CON_T then
       bindR (functor_standard_order compare h a b) (\<lambda>cmp. ok (Return (if cmp < 0 then - 1 else 1, cost, trim_stack e d)))
     else if is_ref (cell_tag a) then
       ok (Return (if cell_index a < cell_index b then - 1 else 1, cost, trim_stack e d))
     else if cell_tag a = INT_T then
       ok (Return (if int_value a < int_value b then - 1 else 1, cost, trim_stack e d))
     else if cell_tag a = BIG_T then
       (let e = trim_stack e d in bindR (big_compare h a b) (\<lambda>(v, cost).
          if v \<noteq> 0 then ok (Return (v, cost, e)) else ok (Continue (e, cost))))
     else bindR (functor_of h a) (\<lambda>fa. bindR (functor_of h b) (\<lambda>fb.
       if fa \<noteq> fb then bindR (functor_standard_order compare h fa fb) (\<lambda>cmp. ok (Return (cmp, cost, trim_stack e d)))
       else bindR (push_args2 e a b (arity fa)) (\<lambda>e. ok (Continue (e, cost)))))))"

partial_function (option) order_loop :: "(string \<Rightarrow> string \<Rightarrow> int) \<Rightarrow> nat \<Rightarrow> tenv \<times> u64 \<Rightarrow> (int \<times> u64 \<times> tenv) tres" where
  "order_loop compare d s = (if stack_size (fst s) > d then
       bindR (order_round compare d s) (\<lambda>r. case r of Continue s' \<Rightarrow> order_loop compare d s' | Return x \<Rightarrow> ok x)
     else ok (0, snd s, fst s))"

definition standard_order :: "(string \<Rightarrow> string \<Rightarrow> int) \<Rightarrow> tenv \<Rightarrow> cell \<Rightarrow> cell \<Rightarrow> (int \<times> u64 \<times> tenv) tres" where
  "standard_order compare e a b = order_loop compare (stack_size e) (push (push e b) a, 0)"

subsection \<open>The depth-first iterator\<close>

text \<open>The stack of the iterator holds a structure, the index of the argument visited, and the arity; its top is
  first.  The end iterator has the raw cell 0 and an empty stack.\<close>

record dfs_iterator =
  elem :: cell
  dfs_stack :: "(cell \<times> nat \<times> nat) list"

partial_function (option) dfs_first_loop :: "heap \<Rightarrow> (cell \<times> nat \<times> nat) list \<Rightarrow> cell \<Rightarrow> dfs_iterator tres" where
  "dfs_first_loop h st p =
     (if cell_tag p = STR_T then bindR (functor_of h p) (\<lambda>f.
        if arity f > 0 then bindR (arg h p 0) (\<lambda>q. dfs_first_loop h ((p, 0, arity f) # st) q)
        else ok \<lparr>elem = p, dfs_stack = st\<rparr>)
      else ok \<lparr>elem = p, dfs_stack = st\<rparr>)"

definition dfs_first_of :: "heap \<Rightarrow> (cell \<times> nat \<times> nat) list \<Rightarrow> cell \<Rightarrow> dfs_iterator tres" where
  "dfs_first_of h st t = bindR (deref h t) (dfs_first_loop h st)"

definition dfs_begin :: "heap \<Rightarrow> cell \<Rightarrow> dfs_iterator tres" where
  "dfs_begin h t = dfs_first_of h [] t"

definition dfs_end :: dfs_iterator where
  "dfs_end = \<lparr>elem = 0, dfs_stack = []\<rparr>"

definition dfs_eq :: "dfs_iterator \<Rightarrow> dfs_iterator \<Rightarrow> bool" where
  "dfs_eq it other \<longleftrightarrow> elem it = elem other \<and> length (dfs_stack it) = length (dfs_stack other)"

definition dfs_advance :: "heap \<Rightarrow> dfs_iterator \<Rightarrow> dfs_iterator tres" where
  "dfs_advance h it = (case dfs_stack it of
       [] \<Rightarrow> ok (it\<lparr>elem := 0\<rparr>)
     | (parent, index, n) # st \<Rightarrow>
         (let new_index = index + 1 in
          if new_index = n then ok \<lparr>elem = parent, dfs_stack = st\<rparr>
          else bindR (arg h parent new_index) (dfs_first_of h ((parent, new_index, n) # st))))"

partial_function (option) ground_loop :: "heap \<Rightarrow> dfs_iterator \<Rightarrow> bool tres" where
  "ground_loop h it = (if dfs_eq it dfs_end then ok True
     else if is_ref (cell_tag (elem it)) then ok False
     else bindR (dfs_advance h it) (ground_loop h))"

definition is_ground :: "heap \<Rightarrow> cell \<Rightarrow> bool tres" where
  "is_ground h t = bindR (dfs_begin h t) (ground_loop h)"

partial_function (option) vars_loop :: "heap \<Rightarrow> dfs_iterator \<Rightarrow> cell list \<Rightarrow> cell list tres" where
  "vars_loop h it vs = (if dfs_eq it dfs_end then ok vs
     else let vs = (if is_ref (cell_tag (elem it)) \<and> elem it \<notin> set vs then vs @ [elem it] else vs)
       in bindR (dfs_advance h it) (\<lambda>it. vars_loop h it vs))"

text \<open>The set \<open>vars_of\<close> returns, as a list without repetitions.\<close>

definition vars_of :: "heap \<Rightarrow> cell \<Rightarrow> cell list tres" where
  "vars_of h t = bindR (dfs_begin h t) (\<lambda>it. vars_loop h it [])"

subsection \<open>The list iterator\<close>

text \<open>\<open>term_iterator\<close> goes over the elements of a list; \<open>None\<close> is \<open>term_exception_not_list\<close>.\<close>

definition list_first_of :: "heap \<Rightarrow> cell \<Rightarrow> cell option tres" where
  "list_first_of h t = bindR (is_empty_list h t) (\<lambda>em. if em then ok (Some t)
     else bindR (is_dotted_pair h t) (\<lambda>dp. if \<not> dp then ok None
     else bindR (arg h t 0) (\<lambda>x. ok (Some x))))"

definition list_advance :: "heap \<Rightarrow> cell \<Rightarrow> (cell \<times> cell) option tres" where
  "list_advance h current = bindR (deref h current) (\<lambda>t. if cell_tag t \<noteq> STR_T then ok None
     else bindR (arg h current 1) (\<lambda>next. bindR (list_first_of h next) (\<lambda>el.
       ok (map_option (\<lambda>x. (next, x)) el))))"

subsection \<open>Naming variables\<close>

fun nat_str :: "nat \<Rightarrow> string" where
  "nat_str n = (if n < 10 then [char_of (48 + n)] else nat_str (n div 10) @ [char_of (48 + n mod 10)])"

declare nat_str.simps [simp del]

text \<open>\<open>++count_occurrences[r]\<close> on a map that is ordered by address.\<close>

fun count_inc :: "cell \<Rightarrow> (cell \<times> nat) list \<Rightarrow> (cell \<times> nat) list" where
  "count_inc r [] = [(r, 1)]"
| "count_inc r ((k, n) # cs) =
     (if cell_index r < cell_index k then (r, 1) # (k, n) # cs
      else if cell_index k < cell_index r then (k, n) # count_inc r cs
      else (k, n + 1) # cs)"

record prettify_state =
  ps_temp :: "cell list"
  count_occurrences :: "(cell \<times> nat) list"
  ps_seen :: "cell list"
  used_names :: "string list"

primrec temp_args :: "heap \<Rightarrow> cell \<Rightarrow> cell list \<Rightarrow> nat \<Rightarrow> cell list tres" where
  "temp_args h t tmp 0 = ok tmp"
| "temp_args h t tmp (Suc n) = bindR (arg h t n) (\<lambda>a. temp_args h t (a # tmp) n)"

definition prettify_round :: "heap \<Rightarrow> naming_map \<Rightarrow> prettify_state \<Rightarrow> prettify_state tres" where
  "prettify_round h names s = (case ps_temp s of [] \<Rightarrow> throw Undefined_behaviour | t # tmp \<Rightarrow>
     bindR (deref h t) (\<lambda>t. let s = s\<lparr>ps_temp := tmp\<rparr> in
       if is_ref (cell_tag t) then
         ok (if \<not> has_name names t then s\<lparr>count_occurrences := count_inc t (count_occurrences s)\<rparr>
             else s\<lparr>used_names := List.insert (get_name names t) (used_names s)\<rparr>)
       else if t \<in> set (ps_seen s) then ok s
       else let s = s\<lparr>ps_seen := t # ps_seen s\<rparr> in
         if cell_tag t = STR_T then bindR (functor_of h t) (\<lambda>f. bindR (temp_args h t tmp (arity f)) (\<lambda>tmp. ok (s\<lparr>ps_temp := tmp\<rparr>)))
         else ok s))"

partial_function (option) prettify_loop :: "heap \<Rightarrow> naming_map \<Rightarrow> prettify_state \<Rightarrow> prettify_state tres" where
  "prettify_loop h names s = (if ps_temp s = [] then ok s else bindR (prettify_round h names s) (prettify_loop h names))"

definition friendly_name :: "string list \<Rightarrow> nat \<Rightarrow> string" where
  "friendly_name used n =
     (if n < 26 then (let name = [char_of (65 + n)] in if name \<in> set used then ''G_'' @ nat_str n else name)
      else ''G_'' @ nat_str n)"

fun name_vars :: "string list \<Rightarrow> nat \<Rightarrow> (cell \<times> nat) list \<Rightarrow> naming_map \<Rightarrow> naming_map" where
  "name_vars used n [] names = names"
| "name_vars used n ((v, k) # cs) names =
     (if k = 1 then name_vars used n cs (set_name names v ''_'')
      else name_vars used (n + 1) cs (set_name names v (friendly_name used n)))"

definition prettify_var_names :: "tenv \<Rightarrow> cell \<Rightarrow> cell list \<Rightarrow> (cell list \<times> tenv) tres" where
  "prettify_var_names e t0 touched =
     bindR (prettify_loop (te_heap e) (var_naming e) \<lparr>ps_temp = [t0], count_occurrences = [], ps_seen = [], used_names = []\<rparr>) (\<lambda>s.
       ok (touched @ map fst (count_occurrences s),
           e\<lparr>temp := [], var_naming := name_vars (used_names s) 0 (count_occurrences s) (var_naming e)\<rparr>))"

subsection \<open>Strings as lists\<close>

definition utils_list_to_string :: "heap \<Rightarrow> cell \<Rightarrow> string tres" where
  "utils_list_to_string src t = list_to_string src t []"

text \<open>\<open>char\<close> is signed, so the bytes from 128 on are negative and left out.\<close>

primrec string_to_list_loop :: "heap \<Rightarrow> string \<Rightarrow> cell \<Rightarrow> (heap \<times> cell) tres" where
  "string_to_list_loop h [] lst = ok (h, lst)"
| "string_to_list_loop h (ch # rev_str) lst =
     (if of_char ch \<ge> (128 :: nat) then string_to_list_loop h rev_str lst
      else bindR (new_dotted_pair h (int_cell (of_char ch)) lst) (\<lambda>(h, lst). string_to_list_loop h rev_str lst))"

definition string_to_list :: "heap \<Rightarrow> string \<Rightarrow> (heap \<times> cell) tres" where
  "string_to_list h str = string_to_list_loop h (rev str) EMPTY_LIST"

partial_function (option) utils_is_string :: "heap \<Rightarrow> cell \<Rightarrow> bool tres" where
  "utils_is_string src lst = bindR (is_dotted_pair src lst) (\<lambda>dp. if \<not> dp then is_empty_list src lst
     else bindR (arg src lst 0) (\<lambda>el. bindR (arg src lst 1) (\<lambda>lst.
       if cell_tag el \<noteq> INT_T then ok False
       else if int_value el < 0 \<or> int_value el > 255 then ok False
       else utils_is_string src lst)))"

end
