(* ===== verification/Term_Tree.thy ===== *)
theory Term_Tree
  imports Term_Walk
begin

section \<open>Finite terms as trees\<close>

text \<open>
  The cells of a heap as finite trees, and what equality, order, hashing and cost of terms compute on them.
\<close>

datatype ttree = TLeaf cell | TBig nat "u8 list" | TStr cell "ttree list"

text \<open>\<open>walks m c t\<close> asks that the bytes of the big numbers in the tree can be walked over, which involves the cell after a
  number that ends with a cell after a block boundary; for \<open>reads m c t\<close> the cells of the numbers are enough.\<close>

definition num_ok :: "bool \<Rightarrow> (nat \<Rightarrow> cell option) \<Rightarrow> nat \<Rightarrow> nat \<Rightarrow> bool" where
  "num_ok w m a n \<longleftrightarrow> has_cells m (big_area a n) \<and> (w \<longrightarrow> big_end m a n)"

inductive reads_as :: "bool \<Rightarrow> (nat \<Rightarrow> cell option) \<Rightarrow> cell \<Rightarrow> ttree \<Rightarrow> bool" for w m where
  leaf: "derefs m c d \<Longrightarrow> is_ref (cell_tag d) \<or> cell_tag d = CON_T \<or> cell_tag d = INT_T \<Longrightarrow> reads_as w m c (TLeaf d)"
| big: "derefs m c d \<Longrightarrow> cell_tag d = BIG_T \<Longrightarrow> m (cell_index d) = Some x \<Longrightarrow> n = (num_bits x + 7) div 8 \<Longrightarrow>
    num_ok w m (cell_index d) n \<Longrightarrow> reads_as w m c (TBig (num_bits x) (big_data m (cell_index d) n))"
| str: "derefs m c d \<Longrightarrow> cell_tag d = STR_T \<Longrightarrow> m (cell_index d) = Some f \<Longrightarrow> cell_tag f = CON_T \<Longrightarrow>
    length ts = arity f \<Longrightarrow> (\<forall>i<arity f. \<exists>x. m (Suc (cell_index d + i)) = Some x \<and> reads_as w m x (ts ! i)) \<Longrightarrow> reads_as w m c (TStr f ts)"

abbreviation reads :: "(nat \<Rightarrow> cell option) \<Rightarrow> cell \<Rightarrow> ttree \<Rightarrow> bool" where
  "reads \<equiv> reads_as False"

abbreviation walks :: "(nat \<Rightarrow> cell option) \<Rightarrow> cell \<Rightarrow> ttree \<Rightarrow> bool" where
  "walks \<equiv> reads_as True"

inductive_simps reads_leaf_simps: "reads_as w m c (TLeaf d)"
inductive_simps reads_big_simps: "reads_as w m c (TBig n bs)"
inductive_simps reads_str_simps: "reads_as w m c (TStr f ts)"

text \<open>\<open>reads0_as w m d t\<close>: the dereferenced cell \<open>d\<close> reads as \<open>t\<close>, with the cells of the arguments.\<close>

fun reads0_as :: "bool \<Rightarrow> (nat \<Rightarrow> cell option) \<Rightarrow> cell \<Rightarrow> ttree \<Rightarrow> bool" where
  "reads0_as w m d (TLeaf c) \<longleftrightarrow> d = c \<and> (is_ref (cell_tag d) \<or> cell_tag d = CON_T \<or> cell_tag d = INT_T)"
| "reads0_as w m d (TBig n bs) \<longleftrightarrow> cell_tag d = BIG_T \<and> (\<exists>x. m (cell_index d) = Some x \<and> n = num_bits x \<and>
     num_ok w m (cell_index d) ((n + 7) div 8) \<and> bs = big_data m (cell_index d) ((n + 7) div 8))"
| "reads0_as w m d (TStr f ts) \<longleftrightarrow> cell_tag d = STR_T \<and> m (cell_index d) = Some f \<and> cell_tag f = CON_T \<and> length ts = arity f \<and>
     (\<forall>i<arity f. \<exists>x. m (Suc (cell_index d + i)) = Some x \<and> reads_as w m x (ts ! i))"

abbreviation reads0 :: "(nat \<Rightarrow> cell option) \<Rightarrow> cell \<Rightarrow> ttree \<Rightarrow> bool" where
  "reads0 \<equiv> reads0_as False"

abbreviation walks0 :: "(nat \<Rightarrow> cell option) \<Rightarrow> cell \<Rightarrow> ttree \<Rightarrow> bool" where
  "walks0 \<equiv> reads0_as True"

lemma num_ok_big_cells: "num_ok True m a n \<longleftrightarrow> big_cells m a n"
  by (simp add: num_ok_def big_cells_def)

lemma reads_iff: "reads_as w m c t \<longleftrightarrow> (\<exists>d. derefs m c d \<and> reads0_as w m d t)"
  by (cases t) (auto simp: reads_leaf_simps reads_big_simps reads_str_simps)

lemma reads_derefs: "reads_as w m c t \<Longrightarrow> \<exists>d. derefs m c d \<and> reads_as w m d t"
  unfolding reads_iff by (blast intro: derefs_idem)

lemma reads_unique: "reads_as w m c t \<Longrightarrow> reads_as w m c t' \<Longrightarrow> t' = t"
proof (induction t arbitrary: c t')
  case (TLeaf x)
  then obtain d where "derefs m c d" "reads0_as w m d (TLeaf x)" "reads0_as w m d t'" unfolding reads_iff by (metis derefs_unique)
  then show ?case by (cases t') auto
next
  case (TBig n bs)
  then obtain d where "derefs m c d" "reads0_as w m d (TBig n bs)" "reads0_as w m d t'" unfolding reads_iff by (metis derefs_unique)
  then show ?case by (cases t') auto
next
  case (TStr f ts)
  then obtain d where d: "reads0_as w m d (TStr f ts)" "reads0_as w m d t'" unfolding reads_iff [of w m c] by (metis derefs_unique)
  then obtain ts' where t': "t' = TStr f ts'" "length ts' = length ts" by (cases t') auto
  have "ts' ! i = ts ! i" if "i < length ts" for i
  proof -
    obtain x where "reads_as w m x (ts ! i)" "reads_as w m x (ts' ! i)" using d t' \<open>i < length ts\<close> by fastforce
    then show ?thesis using TStr.IH \<open>i < length ts\<close> by (metis nth_mem)
  qed
  then show ?case using t' by (auto intro: nth_equalityI)
qed

text \<open>What the operations find when they dereference a cell that reads as a tree.\<close>

lemma arg_reads:
  assumes inv: "heap_inv h" and s: "cell_tag s = STR_T" and m: "mem h (Suc (cell_index s + i)) = Some x" and t: "reads_as w (mem h) x t"
  shows "\<exists>y. arg h s i = ok y \<and> reads_as w (mem h) y t"
  using reads_derefs [OF t] s m by (auto simp: arg_def heap_get_ok [OF inv, THEN iffD2] deref_derefs [OF inv])

lemma functor_of_str:
  assumes inv: "heap_inv h" and s: "cell_tag s = STR_T" and f: "mem h (cell_index s) = Some f" "cell_tag f = CON_T"
  shows "functor_of h s = ok f"
  using s f mem_size [OF f(1)]
  by (simp add: functor_of_def functor_str_def check_index_def heap_get_ok [OF inv, THEN iffD2])

lemma reads0_args:
  assumes inv: "heap_inv h" and r: "reads0_as w (mem h) d (TStr f ts)"
  obtains g where "\<And>i. i < arity f \<Longrightarrow> arg h d i = ok (g i) \<and> reads_as w (mem h) (g i) (ts ! i)"
proof -
  have "\<forall>i. \<exists>y. i < arity f \<longrightarrow> arg h d i = ok y \<and> reads_as w (mem h) y (ts ! i)"
    using r arg_reads [OF inv] by (metis reads0_as.simps(3))
  then show thesis using that by metis
qed

lemma reads0_unique: "reads0_as w m d t \<Longrightarrow> reads0_as w m d t' \<Longrightarrow> derefs m d d \<Longrightarrow> t' = t"
  using reads_unique [of w m d t t'] by (auto simp: reads_iff)

subsection \<open>Equality\<close>

text \<open>The pairs on the stack with the trees they stand for.\<close>

definition pairs_read :: "(nat \<Rightarrow> cell option) \<Rightarrow> (cell \<times> cell) list \<Rightarrow> (ttree \<times> ttree) list \<Rightarrow> bool" where
  "pairs_read m = list_all2 (\<lambda>(a, b) (t, u). walks m a t \<and> walks m b u)"

abbreviation pairs_size :: "(ttree \<times> ttree) list \<Rightarrow> nat" where
  "pairs_size ts \<equiv> sum_list (map (\<lambda>(t, u). Suc (size t)) ts)"

lemma pairs_read_simps [simp]:
  "pairs_read m [] ts \<longleftrightarrow> ts = []" "pairs_read m ps [] \<longleftrightarrow> ps = []"
  "pairs_read m ((a, b) # ps) ((t, u) # ts) \<longleftrightarrow> walks m a t \<and> walks m b u \<and> pairs_read m ps ts"
  by (auto simp: pairs_read_def)

lemma pairs_read_app: "pairs_read m ps ts \<Longrightarrow> pairs_read m qs us \<Longrightarrow> pairs_read m (ps @ qs) (ts @ us)"
  by (simp add: pairs_read_def list_all2_appendI)

lemma size_zip_args: "length ts = length us \<Longrightarrow> pairs_size (zip ts us) \<le> size_list size ts"
  by (induction ts us rule: list_induct2) auto

text \<open>Two structures with the same functor are replaced by their arguments.\<close>

lemma push_args2_reads:
  assumes inv: "heap_inv (te_heap e)" and a: "walks0 (mem (te_heap e)) a (TStr f ts)" and b: "walks0 (mem (te_heap e)) b (TStr f us)"
  obtains qs where "push_args2 e a b (arity f) = ok (e\<lparr>stack := flat qs @ stack e\<rparr>)" "pairs_read (mem (te_heap e)) qs (zip ts us)"
proof -
  obtain g where g: "\<And>i. i < arity f \<Longrightarrow> arg (te_heap e) a i = ok (g i) \<and> walks (mem (te_heap e)) (g i) (ts ! i)"
    using reads0_args [OF inv a] by blast
  obtain h where h: "\<And>i. i < arity f \<Longrightarrow> arg (te_heap e) b i = ok (h i) \<and> walks (mem (te_heap e)) (h i) (us ! i)"
    using reads0_args [OF inv b] by blast
  have "push_args2 e a b (arity f) = ok (e\<lparr>stack := flat (map (\<lambda>k. (g k, h k)) [0..<arity f]) @ stack e\<rparr>)"
    using a b g h by (intro push_args2_spec [OF inv]) auto
  moreover have "pairs_read (mem (te_heap e)) (map (\<lambda>k. (g k, h k)) [0..<arity f]) (zip ts us)"
    using a b g h by (auto simp: pairs_read_def list_all2_conv_all_nth)
  ultimately show thesis by (rule that)
qed

lemma big_reads:
  assumes inv: "heap_inv h" and a: "walks0 (mem h) a (TBig n bs)" and b: "walks0 (mem h) b (TBig n' bs')"
  shows "\<exists>k1 k2. big_equal h a b = ok (n = n' \<and> bs = bs', k1) \<and>
    big_compare h a b = ok (if n \<noteq> n' then sgn_compare n n' else sgn_compare (be_value bs) (be_value bs'), k2)"
proof -
  have e: "a = big_cell (cell_index a)" "b = big_cell (cell_index b)"
    using a b ptr_cell_eqI [of a BIG_T] ptr_cell_eqI [of b BIG_T] by (simp_all add: big_cell_def)
  obtain x y where xy: "mem h (cell_index a) = Some x" "n = num_bits x" "mem h (cell_index b) = Some y" "n' = num_bits y"
    using a b by auto
  show ?thesis
    using a b xy big_compare_spec [OF inv xy(1,3)] by (subst (1 2) e, subst (1 2) e(2)) (auto simp: num_ok_big_cells)
qed

lemma tree_kinds:
  "walks0 m a t \<Longrightarrow> walks0 m b u \<Longrightarrow> cell_tag a \<noteq> cell_tag b \<Longrightarrow> t \<noteq> u"
  by (cases t; cases u) auto

lemma trim_stack_drop: "trim_stack (e\<lparr>stack := xs @ s0\<rparr>) (length s0) = e\<lparr>stack := s0\<rparr>"
  by (simp add: trim_stack_def stack_size_def)

text \<open>Equality and order walk over a stack of pairs in the same way.  A round returns a verdict on the first pair,
  or replaces it by pairs of smaller trees on which the verdict depends.\<close>

definition walk_step :: "('r \<Rightarrow> bool) \<Rightarrow> ((ttree \<times> ttree) list \<Rightarrow> bool) \<Rightarrow> tenv \<Rightarrow> (cell \<times> cell) list \<Rightarrow> cell list \<Rightarrow> ttree \<Rightarrow>
    (tenv \<times> u64, 'r \<times> u64 \<times> tenv) loop_step \<Rightarrow> bool" where
  "walk_step stop cont e ps s0 t r \<longleftrightarrow> (case r of
     Return x \<Rightarrow> stop (fst x) \<and> snd (snd x) = e\<lparr>stack := s0\<rparr>
   | Continue s \<Rightarrow> (\<exists>qs us. pairs_read (mem (te_heap e)) qs us \<and> pairs_size us \<le> size t \<and> cont us \<and>
       fst s = e\<lparr>stack := flat qs @ flat ps @ s0\<rparr>))"

lemma walk_stop: "stop v \<Longrightarrow> walk_step stop cont e ps s0 t (Return (v, c, e\<lparr>stack := s0\<rparr>))"
  by (simp add: walk_step_def)

lemma walk_next: "cont [] \<Longrightarrow> walk_step stop cont e ps s0 t (Continue (e\<lparr>stack := flat ps @ s0\<rparr>, c))"
  by (auto simp: walk_step_def intro!: exI [of _ "[]"])

lemma walk_push: "pairs_read (mem (te_heap e)) qs us \<Longrightarrow> pairs_size us \<le> size t \<Longrightarrow> cont us \<Longrightarrow>
    walk_step stop cont e ps s0 t (Continue (e\<lparr>stack := flat qs @ flat ps @ s0\<rparr>, c))"
  by (auto simp: walk_step_def)

locale pair_walk =
  fixes h :: heap
    and round :: "nat \<Rightarrow> tenv \<times> u64 \<Rightarrow> (tenv \<times> u64, 'r \<times> u64 \<times> tenv) loop_step tres"
    and loop :: "nat \<Rightarrow> tenv \<times> u64 \<Rightarrow> ('r \<times> u64 \<times> tenv) tres"
    and good :: "ttree \<times> ttree \<Rightarrow> bool"
    and nil :: 'r
    and seen :: "'r \<Rightarrow> 'v"
    and verdict :: "(ttree \<times> ttree) list \<Rightarrow> 'v"
  assumes loop_eq: "loop d s = (if stack_size (fst s) > d then
       bindR (round d s) (\<lambda>r. case r of Continue s' \<Rightarrow> loop d s' | Return x \<Rightarrow> ok x) else ok (nil, snd s, fst s))"
    and seen_nil: "seen nil = verdict []"
    and round_ok: "heap_inv h \<Longrightarrow> te_heap e = h \<Longrightarrow> walks (mem h) x t \<Longrightarrow> walks (mem h) y u \<Longrightarrow> good (t, u) \<Longrightarrow>
       stack e = x # y # flat ps @ s0 \<Longrightarrow> \<exists>r. round (length s0) (e, cost) = ok r \<and>
         walk_step (\<lambda>v. \<forall>ts. verdict ((t, u) # ts) = seen v) (\<lambda>us. (\<forall>p\<in>set us. good p) \<and> (\<forall>ts. verdict ((t, u) # ts) = verdict (us @ ts))) e ps s0 t r"
begin

lemma loop_spec:
  assumes inv: "heap_inv h"
  shows "te_heap e = h \<Longrightarrow> pairs_read (mem h) ps ts \<Longrightarrow> \<forall>p\<in>set ts. good p \<Longrightarrow> stack e = flat ps @ s0 \<Longrightarrow>
    \<exists>c v. loop (length s0) (e, cost) = ok (v, c, e\<lparr>stack := s0\<rparr>) \<and> seen v = verdict ts"
proof (induction "pairs_size ts" arbitrary: e ps ts cost rule: less_induct)
  case less
  show ?case
  proof (cases ps)
    case Nil
    then have "e\<lparr>stack := s0\<rparr> = e" using less.prems by simp
    then show ?thesis using Nil less.prems seen_nil by (subst loop_eq) (simp add: stack_size_def)
  next
    case (Cons p ps')
    obtain x y where p: "p = (x, y)" by (cases p)
    obtain t u ts' where ts: "ts = (t, u) # ts'"
      using less.prems(2) Cons p by (auto simp: pairs_read_def list_all2_Cons1)
    have rd: "walks (mem h) x t" "walks (mem h) y u" "pairs_read (mem h) ps' ts'" "good (t, u)"
      using less.prems Cons p ts by simp_all
    have sz: "length s0 < stack_size e" using less.prems(4) Cons p by (simp add: stack_size_def)
    obtain r where r: "round (length s0) (e, cost) = ok r"
      "walk_step (\<lambda>v. \<forall>ts. verdict ((t, u) # ts) = seen v) (\<lambda>us. (\<forall>p\<in>set us. good p) \<and> (\<forall>ts. verdict ((t, u) # ts) = verdict (us @ ts))) e ps' s0 t r"
      using round_ok [OF inv less.prems(1) rd(1,2,4), of ps' s0 cost] less.prems(4) Cons p by auto
    show ?thesis
    proof (cases r)
      case (Return z)
      then have "z = (fst z, fst (snd z), e\<lparr>stack := s0\<rparr>)" "seen (fst z) = verdict ts"
        using r(2) ts by (cases z; simp add: walk_step_def)+
      then show ?thesis using sz r(1) Return by (subst loop_eq) auto
    next
      case (Continue z)
      then obtain qs us where q: "pairs_read (mem h) qs us" "pairs_size us \<le> size t" "\<forall>p\<in>set us. good p"
        "\<forall>ts. verdict ((t, u) # ts) = verdict (us @ ts)" "fst z = e\<lparr>stack := flat qs @ flat ps' @ s0\<rparr>"
        using r(2) less.prems(1) by (auto simp: walk_step_def)
      let ?e = "e\<lparr>stack := flat qs @ flat ps' @ s0\<rparr>"
      have "\<exists>c v. loop (length s0) (?e, snd z) = ok (v, c, ?e\<lparr>stack := s0\<rparr>) \<and> seen v = verdict (us @ ts')"
        using less.prems(1,3) q ts pairs_read_app [OF q(1) rd(3)] by (intro less.hyps [of "us @ ts'" ?e "qs @ ps'"]) auto
      then show ?thesis using sz r(1) Continue q(4,5) ts by (subst loop_eq) (cases z, simp)
    qed
  qed
qed

end

definition all_equal :: "(ttree \<times> ttree) list \<Rightarrow> bool" where
  "all_equal ts \<longleftrightarrow> (\<forall>p\<in>set ts. fst p = snd p)"

lemma all_equal_simps [simp]: "all_equal []" "all_equal (p # ts) \<longleftrightarrow> fst p = snd p \<and> all_equal ts"
  "all_equal (ts @ us) \<longleftrightarrow> all_equal ts \<and> all_equal us"
  by (auto simp: all_equal_def)

lemma all_equal_zip: "length ts = length us \<Longrightarrow> all_equal (zip ts us) \<longleftrightarrow> ts = us"
  by (induction ts us rule: list_induct2) auto

lemma equal_round_spec:
  assumes inv: "heap_inv h" and h: "te_heap e = h" and rd: "walks (mem h) x t" "walks (mem h) y u"
    and st: "stack e = x # y # flat ps @ s0"
  shows "\<exists>r. equal_round (length s0) (e, cost) = ok r \<and> walk_step (\<lambda>v. \<forall>ts. all_equal ((t, u) # ts) = v)
    (\<lambda>us. (\<forall>p\<in>set us. True) \<and> (\<forall>ts. all_equal ((t, u) # ts) = all_equal (us @ ts))) e ps s0 t r"
proof -
  let ?e = "e\<lparr>stack := flat ps @ s0\<rparr>"
  obtain a b where a: "derefs (mem h) x a" "walks0 (mem h) a t" and b: "derefs (mem h) y b" "walks0 (mem h) b u"
    using rd by (auto simp: reads_iff)
  obtain c where pop: "pop2_deref e = ok (a, b, c, ?e)"
    using pop2_deref_spec [of e x y "flat ps @ s0" a b] st inv h a(1) b(1) by auto
  note trim = trim_stack_drop [of "flat ps" s0 e] and er = equal_round_def Let_def h
  show ?thesis
  proof (cases "a = b")
    case True
    then have "t = u" using reads0_unique [OF a(2)] b(2) derefs_idem [OF a(1)] by blast
    then show ?thesis using True pop by (simp add: er walk_next)
  next
    case ab: False
    show ?thesis
    proof (cases "cell_tag a = cell_tag b")
      case False
      then show ?thesis using ab pop tree_kinds [OF a(2) b(2) False] by (simp add: er trim walk_stop)
    next
      case tags: True
      show ?thesis
      proof (cases t)
        case (TLeaf d)
        then have "u \<noteq> t" "cell_tag a \<noteq> BIG_T" "cell_tag a \<noteq> STR_T" using ab a b tags by (cases u; auto)+
        then show ?thesis using ab pop tags by (simp add: er trim walk_stop)
      next
        case (TBig n bs)
        then obtain n' bs' where u: "u = TBig n' bs'" using a b tags by (cases u) auto
        obtain k where "big_equal h a b = ok (n = n' \<and> bs = bs', k)"
          using big_reads [OF inv] a(2) b(2) TBig u by blast
        then show ?thesis
          using ab pop a tags TBig u by (auto simp: er trim intro: walk_stop walk_next)
      next
        case (TStr f ts')
        then obtain g us' where u: "u = TStr g us'" using a b tags by (cases u) auto
        have fg: "functor_of h a = ok f" "functor_of h b = ok g"
          using a(2) b(2) TStr u by (auto intro: functor_of_str [OF inv])
        show ?thesis
        proof (cases "f = g")
          case False
          then show ?thesis using ab pop a tags fg TStr u by (simp add: er trim walk_stop)
        next
          case True
          obtain qs where qs: "push_args2 ?e a b (arity f) = ok (?e\<lparr>stack := flat qs @ stack ?e\<rparr>)" "pairs_read (mem h) qs (zip ts' us')"
            using push_args2_reads [of ?e a f ts' b us'] inv h a(2) b(2) TStr u True by auto
          have l: "length ts' = length us'" using a(2) b(2) TStr u True by simp
          have "walk_step (\<lambda>v. \<forall>ts. all_equal ((t, u) # ts) = v) (\<lambda>us. (\<forall>p\<in>set us. True) \<and>
              (\<forall>ts. all_equal ((t, u) # ts) = all_equal (us @ ts))) e ps s0 t (Continue (e\<lparr>stack := flat qs @ flat ps @ s0\<rparr>, cost + c))"
            using qs(2) size_zip_args [OF l] TStr u True all_equal_zip [OF l] h by (intro walk_push [of _ _ "zip ts' us'"]) auto
          then show ?thesis using ab pop a tags fg TStr u True qs(1) by (simp add: er)
        qed
      qed
    qed
  qed
qed

interpretation eq_walk: pair_walk h equal_round equal_loop "\<lambda>p. True" True "\<lambda>v. v" all_equal for h
proof
  show "equal_loop d s = (if stack_size (fst s) > d then
       bindR (equal_round d s) (\<lambda>r. case r of Continue s' \<Rightarrow> equal_loop d s' | Return x \<Rightarrow> ok x) else ok (True, snd s, fst s))" for d s
    by (rule equal_loop.simps)
qed (simp, rule equal_round_spec)

subsection \<open>Hashing\<close>

fun tree_hash :: "ttree \<Rightarrow> u64 \<Rightarrow> u64" and trees_hash :: "ttree list \<Rightarrow> u64 \<Rightarrow> u64" where
  "tree_hash (TLeaf c) acc = acc + c"
| "tree_hash (TBig n bs) acc = foldl (\<lambda>a b. push_bit 8 a + ucast b) (acc + of_nat n) (take 4 bs)"
| "tree_hash (TStr f ts) acc = trees_hash ts (acc + f)"
| "trees_hash [] acc = acc"
| "trees_hash (t # ts) acc = tree_hash t (trees_hash ts acc)"

lemma trees_hash_append: "trees_hash (ts @ us) acc = trees_hash ts (trees_hash us acc)"
  by (induction ts) simp_all

lemma hash_big_loop_spec:
  "big_reader h it a i n \<Longrightarrow> i + k \<le> n + 4 \<Longrightarrow>
    hash_big_loop h it k acc = ok (foldl (\<lambda>a b. push_bit 8 a + ucast b) acc (data_bytes (mem h) a i k))"
proof (induction k arbitrary: it i acc)
  case (Suc k)
  obtain it' where "big_next h it = ok (h, it')" "big_reader h it' a (Suc i) n"
    using big_reader_next [OF Suc.prems(1)] Suc.prems(2) by auto
  then show ?case using Suc.IH [of it' "Suc i"] Suc.prems big_reader_get [OF Suc.prems(1)] by simp
qed simp

lemma hash_big_reads:
  assumes inv: "heap_inv h" and r: "walks0 (mem h) d (TBig n bs)"
  shows "hash_big h d acc = ok (tree_hash (TBig n bs) acc)"
proof -
  let ?k = "(n + 7) div 8"
  obtain x where x: "mem h (cell_index d) = Some x" "n = num_bits x" "big_cells (mem h) (cell_index d) ?k"
    "bs = big_data (mem h) (cell_index d) ?k" "cell_tag d = BIG_T" using r by (auto simp: num_ok_big_cells)
  obtain it where it: "big_begin h d = ok it" "big_reader h it (cell_index d) 4 ?k"
    using big_begin_reader [OF inv cell_index_bound [of d] refl _ x(1), of ?k] x by auto
  then have "hash_big_loop h it (min 4 ?k) (acc + of_nat n) =
      ok (foldl (\<lambda>a b. push_bit 8 a + ucast b) (acc + of_nat n) (data_bytes (mem h) (cell_index d) 4 (min 4 ?k)))"
    by (intro hash_big_loop_spec) auto
  moreover have "take 4 bs = data_bytes (mem h) (cell_index d) 4 (min 4 ?k)"
    unfolding x(4) big_data_def data_bytes_def by (simp add: take_map take_upt min_def)
  ultimately show ?thesis
    using x(1,2) it(1) by (simp add: hash_big_def heap_num_bits_def heap_get_ok [OF inv, THEN iffD2])
qed

lemma push_args_spec:
  assumes "\<And>k. i \<le> k \<Longrightarrow> k < i + n \<Longrightarrow> arg (te_heap e) t k = ok (g k)"
  shows "push_args e t i n = ok (e\<lparr>stack := rev (map g [i..<i + n]) @ stack e\<rparr>)"
  using assms
proof (induction n arbitrary: i e)
  case (Suc n)
  have "push_args (push e (g i)) t (Suc i) n = ok ((push e (g i))\<lparr>stack := rev (map g [Suc i..<Suc i + n]) @ stack (push e (g i))\<rparr>)"
    using Suc.prems by (intro Suc.IH) (auto simp: push_def)
  moreover have "[i..<i + Suc n] = i # [Suc i..<Suc i + n]" by (simp add: upt_conv_Cons)
  ultimately show ?case using Suc.prems [of i] by (simp add: push_def)
qed simp

lemma push_args_reads:
  assumes inv: "heap_inv (te_heap e)" and a: "walks0 (mem (te_heap e)) a (TStr f ts)"
  obtains cs where "push_args e a 0 (arity f) = ok (e\<lparr>stack := rev cs @ stack e\<rparr>)" "list_all2 (walks (mem (te_heap e))) cs ts"
proof -
  obtain g where g: "\<And>i. i < arity f \<Longrightarrow> arg (te_heap e) a i = ok (g i) \<and> walks (mem (te_heap e)) (g i) (ts ! i)"
    using reads0_args [OF inv a] by blast
  have "push_args e a 0 (arity f) = ok (e\<lparr>stack := rev (map g [0..<arity f]) @ stack e\<rparr>)"
    using g push_args_spec [of 0 "arity f" e a g] by simp
  moreover have "list_all2 (walks (mem (te_heap e))) (map g [0..<arity f]) ts"
    using a g by (auto simp: list_all2_conv_all_nth)
  ultimately show thesis by (rule that)
qed

abbreviation trees_size :: "ttree list \<Rightarrow> nat" where
  "trees_size ts \<equiv> sum_list (map (\<lambda>t. Suc (size t)) ts)"

lemma size_list_trees: "trees_size ts = size_list size ts"
  by (induction ts) auto

lemma term_hash_round_spec:
  assumes inv: "heap_inv (te_heap e)" and rd: "walks (mem (te_heap e)) x t" and st: "stack e = x # st"
  shows "\<exists>cs ts acc'. list_all2 (walks (mem (te_heap e))) cs ts \<and> trees_size ts \<le> size t \<and>
    term_hash_round (e, acc) = ok (e\<lparr>stack := cs @ st\<rparr>, acc') \<and> trees_hash (rev ts) acc' = tree_hash t acc"
proof -
  obtain a where a: "derefs (mem (te_heap e)) x a" "walks0 (mem (te_heap e)) a t" using rd by (auto simp: reads_iff)
  have d: "deref (te_heap e) x = ok a" by (rule deref_derefs [OF inv a(1)])
  note tr = term_hash_round_def pop_def st
  have leaf: ?thesis if "term_hash_round (e, acc) = ok (e\<lparr>stack := st\<rparr>, tree_hash t acc)"
    using that by (intro exI [of _ "[]"]) simp
  show ?thesis
  proof (cases t)
    case (TLeaf c)
    then show ?thesis using d a(2) by (intro leaf) (cases "cell_tag a"; simp add: tr)
  next
    case (TBig n bs)
    then have "hash_big (te_heap e) a acc = ok (tree_hash t acc)" "cell_tag a = BIG_T"
      using hash_big_reads [OF inv, of a n bs acc] a(2) by simp_all
    then show ?thesis using d by (intro leaf) (simp add: tr)
  next
    case (TStr f ts)
    obtain cs where cs: "push_args (e\<lparr>stack := st\<rparr>) a 0 (arity f) = ok (e\<lparr>stack := rev cs @ st\<rparr>)" "list_all2 (walks (mem (te_heap e))) cs ts"
      using push_args_reads [of "e\<lparr>stack := st\<rparr>" a f ts] inv a(2) TStr by auto
    have f: "functor_of (te_heap e) a = ok f" using a(2) TStr by (auto intro: functor_of_str [OF inv])
    have "term_hash_round (e, acc) = ok (e\<lparr>stack := rev cs @ st\<rparr>, acc + f)"
      using d a(2) TStr f cs(1) by (simp add: tr)
    then show ?thesis using cs(2) TStr size_list_trees [of ts]
      by (intro exI [of _ "rev cs"] exI [of _ "rev ts"] exI [of _ "acc + f"]) (simp add: rev_map [symmetric])
  qed
qed

lemma term_hash_loop_spec:
  assumes "heap_inv (te_heap e)" "list_all2 (walks (mem (te_heap e))) cs ts" "stack e = cs @ s0"
  shows "term_hash_loop (length s0) (e, acc) = ok (e\<lparr>stack := s0\<rparr>, trees_hash (rev ts) acc)"
  using assms
proof (induction "trees_size ts" arbitrary: e cs ts acc rule: less_induct)
  case less
  show ?case
  proof (cases cs)
    case Nil
    then have "e\<lparr>stack := s0\<rparr> = e" using less.prems by simp
    then show ?thesis using Nil less.prems by (subst term_hash_loop.simps) (simp add: stack_size_def)
  next
    case (Cons x cs')
    then obtain t ts' where ts: "ts = t # ts'" "walks (mem (te_heap e)) x t" "list_all2 (walks (mem (te_heap e))) cs' ts'"
      using less.prems(2) by (auto simp: list_all2_Cons1)
    have sz: "length s0 < stack_size e" using less.prems(3) Cons by (simp add: stack_size_def)
    obtain ds us acc' where r: "list_all2 (walks (mem (te_heap e))) ds us" "trees_size us \<le> size t"
      "term_hash_round (e, acc) = ok (e\<lparr>stack := ds @ cs' @ s0\<rparr>, acc')" "trees_hash (rev us) acc' = tree_hash t acc"
      using term_hash_round_spec [OF less.prems(1) ts(2), of "cs' @ s0" acc] less.prems(3) Cons by auto
    let ?e = "e\<lparr>stack := ds @ cs' @ s0\<rparr>"
    have "term_hash_loop (length s0) (?e, acc') = ok (?e\<lparr>stack := s0\<rparr>, trees_hash (rev (us @ ts')) acc')"
      using less.prems(1) r(1,2) ts(1,3) by (intro less.hyps [of "us @ ts'" ?e "ds @ cs'"]) (auto intro: list_all2_appendI)
    then show ?thesis using sz r(3,4) ts(1) by (subst term_hash_loop.simps) (simp add: trees_hash_append)
  qed
qed

subsection \<open>The standard order\<close>

text \<open>The intended order: variables, integers, big numbers, constants and structures; constants and functors by arity
  and then by name; structures with the same functor by their arguments from left to right.\<close>

definition name_of :: "heap \<Rightarrow> cell \<Rightarrow> string" where
  "name_of h c = (case atom_name h c of Some (Inr n) \<Rightarrow> n | _ \<Rightarrow> [])"

definition con_compare :: "heap \<Rightarrow> cell \<Rightarrow> cell \<Rightarrow> int" where
  "con_compare h a b = (if arity a < arity b then - 1 else if arity b < arity a then 1 else string_compare (name_of h a) (name_of h b))"

definition leaf_compare :: "heap \<Rightarrow> cell \<Rightarrow> cell \<Rightarrow> int" where
  "leaf_compare h a b = (if cell_tag a = CON_T then con_compare h a b
     else if cell_tag a = INT_T then sgn_compare (int_value a) (int_value b) else sgn_compare (cell_index a) (cell_index b))"

primrec tree_kind :: "ttree \<Rightarrow> kind_t" where
  "tree_kind (TLeaf c) = cell_tag c"
| "tree_kind (TBig n bs) = BIG_T"
| "tree_kind (TStr f ts) = STR_T"

fun tree_compare :: "heap \<Rightarrow> ttree \<Rightarrow> ttree \<Rightarrow> int" and trees_compare :: "heap \<Rightarrow> ttree list \<Rightarrow> ttree list \<Rightarrow> int" where
  "tree_compare h (TStr f ts) (TStr g us) = (if f = g then trees_compare h ts us else con_compare h f g)"
| "tree_compare h (TLeaf a) (TLeaf b) =
     (if cell_tag a = cell_tag b then leaf_compare h a b else sgn_compare (kind_code (cell_tag a)) (kind_code (cell_tag b)))"
| "tree_compare h (TBig n bs) (TBig k cs) = (if n = k then sgn_compare (be_value bs) (be_value cs) else sgn_compare n k)"
| "tree_compare h t u = sgn_compare (kind_code (tree_kind t)) (kind_code (tree_kind u))"
| "trees_compare h (t # ts) (u # us) = (if tree_compare h t u = 0 then trees_compare h ts us else tree_compare h t u)"
| "trees_compare h ts us = 0"

primrec tree_cons :: "ttree \<Rightarrow> cell set" where
  "tree_cons (TLeaf c) = (if cell_tag c = CON_T then {c} else {})"
| "tree_cons (TBig n bs) = {}"
| "tree_cons (TStr f ts) = insert f (\<Union> (set (map tree_cons ts)))"

primrec no_big :: "ttree \<Rightarrow> bool" where
  "no_big (TLeaf c) = True"
| "no_big (TBig n bs) = False"
| "no_big (TStr f ts) = list_all id (map no_big ts)"

text \<open>Constants have names, and no two of them have the same name and arity.\<close>

definition names_ok :: "heap \<Rightarrow> cell set \<Rightarrow> bool" where
  "names_ok h C \<longleftrightarrow> (\<forall>c\<in>C. \<exists>n. atom_name h c = ok n) \<and>
     (\<forall>c\<in>C. \<forall>d\<in>C. arity c = arity d \<and> atom_name h c = atom_name h d \<longrightarrow> c = d)"

lemma names_ok_mono: "names_ok h C \<Longrightarrow> D \<subseteq> C \<Longrightarrow> names_ok h D"
  unfolding names_ok_def by blast

lemma of_char_nat_eq: "(of_char x :: nat) = of_char y \<longleftrightarrow> x = y"
  by (metis char_of_char)

lemma of_char_cases:
  obtains "(of_char x :: nat) < of_char y" | "(of_char y :: nat) < of_char x" | "x = y"
  using of_char_nat_eq linorder_cases [of "of_char x :: nat" "of_char y"] by blast

lemma string_compare_range: "string_compare x y \<in> {- 1, 0, 1}"
  by (induction x y rule: string_compare.induct) simp_all

lemma string_compare_zero: "string_compare x y = 0 \<longleftrightarrow> x = y"
proof (induction x y rule: string_compare.induct)
  case (4 x xs y ys)
  then show ?case by (cases x y rule: of_char_cases) auto
qed simp_all

lemma string_compare_minus: "string_compare y x = - string_compare x y"
proof (induction x y rule: string_compare.induct)
  case (4 x xs y ys)
  then show ?case by (cases x y rule: of_char_cases) auto
qed simp_all

lemma string_compare_trans: "string_compare x y = - 1 \<Longrightarrow> string_compare y z = - 1 \<Longrightarrow> string_compare x z = - 1"
proof (induction x y arbitrary: z rule: string_compare.induct)
  case (2 y ys)
  then show ?case by (cases z) auto
next
  case (4 x xs y ys)
  obtain c zs where z: "z = c # zs" using 4(3) by (cases z) auto
  show ?case
  proof (cases x y rule: of_char_cases)
    case 1
    then show ?thesis using 4(3) z by (cases y c rule: of_char_cases) auto
  next
    case 3
    then show ?thesis using 4 z by (cases y c rule: of_char_cases) auto
  qed (use 4(2) in simp)
qed auto

lemma con_compare_simps:
  assumes "names_ok h C" "a \<in> C" "b \<in> C"
  shows "con_compare h a b \<in> {- 1, 0, 1}" "con_compare h a b = 0 \<longleftrightarrow> a = b" "con_compare h b a = - con_compare h a b"
    "compare_doc compare \<Longrightarrow> \<exists>v. functor_standard_order compare h a b = ok v \<and> sgn v = con_compare h a b"
proof -
  obtain n k where n: "atom_name h a = ok n" "atom_name h b = ok k" using assms unfolding names_ok_def by meson
  have "a = b" if "arity a = arity b" "n = k" using assms n that unfolding names_ok_def by metis
  then show "con_compare h a b \<in> {- 1, 0, 1}" "con_compare h a b = 0 \<longleftrightarrow> a = b" "con_compare h b a = - con_compare h a b"
    "compare_doc compare \<Longrightarrow> \<exists>v. functor_standard_order compare h a b = ok v \<and> sgn v = con_compare h a b"
    using n string_compare_range [of n k] string_compare_zero [of n k] string_compare_minus [of k n] string_compare_zero [of k k]
    by (auto simp: con_compare_def functor_standard_order_def name_of_def compare_doc_def)
qed

lemma con_compare_trans: "con_compare h a b = - 1 \<Longrightarrow> con_compare h b c = - 1 \<Longrightarrow> con_compare h a c = - 1"
  using string_compare_trans [of "name_of h a" "name_of h b" "name_of h c"]
  by (auto simp: con_compare_def split: if_splits)

primrec tree_wf :: "ttree \<Rightarrow> bool" where
  "tree_wf (TLeaf c) \<longleftrightarrow> is_ref (cell_tag c) \<or> cell_tag c = CON_T \<or> cell_tag c = INT_T"
| "tree_wf (TBig n bs) \<longleftrightarrow> length bs = (n + 7) div 8"
| "tree_wf (TStr f ts) \<longleftrightarrow> length ts = arity f \<and> list_all id (map tree_wf ts)"

lemma reads_wf: "reads_as w m c t \<Longrightarrow> tree_wf t"
proof (induction rule: reads_as.induct)
  case (str c d f ts)
  then show ?case by (auto simp: list_all_length)
qed (auto simp: big_data_def)

lemma sgn_compare_simps [simp]:
  "sgn_compare x y \<in> {- 1, 0, 1}" "sgn_compare x y = 0 \<longleftrightarrow> x = y" "sgn_compare x y = - 1 \<longleftrightarrow> x < y"
  by (auto simp: sgn_compare_def)

lemma sgn_compare_minus: "sgn_compare y x = - sgn_compare x y"
  by (cases x y rule: linorder_cases) (auto simp: sgn_compare_def)

lemma kind_code_eq [simp]: "kind_code k = kind_code k' \<longleftrightarrow> k = k'"
  by (cases k; cases k') simp_all

text \<open>A comparison with three results that is a total order.\<close>

definition compares :: "('a \<Rightarrow> 'a \<Rightarrow> int) \<Rightarrow> 'a \<Rightarrow> 'a \<Rightarrow> bool" where
  "compares f x y \<longleftrightarrow> f x y \<in> {- 1, 0, 1} \<and> (f x y = 0 \<longleftrightarrow> x = y) \<and> f y x = - f x y"

lemma compares_key:
  assumes "k a = k b \<longleftrightarrow> a = b" "f a b = sgn_compare (k a) (k b)" "f b a = sgn_compare (k b) (k a)"
  shows "compares f a b"
  unfolding compares_def assms(2,3) using assms(1) sgn_compare_simps(1,2) [of "k a" "k b"] sgn_compare_minus [of "k b" "k a"] by simp

lemma compares_same:
  assumes "compares f a b" "g x y = f a b" "g y x = f b a" "x = y \<longleftrightarrow> a = b"
  shows "compares g x y"
  using assms(1) unfolding compares_def assms(2-4) .

lemma con_compares: "names_ok h C \<Longrightarrow> a \<in> C \<Longrightarrow> b \<in> C \<Longrightarrow> compares (con_compare h) a b"
  unfolding compares_def using con_compare_simps [of h C a b] by blast

lemma int_eq: "cell_tag a = INT_T \<Longrightarrow> cell_tag b = INT_T \<Longrightarrow> int_value a = int_value b \<longleftrightarrow> a = b"
  by (metis int_cell_value)

lemma index_eq: "cell_tag a = cell_tag b \<Longrightarrow> cell_index a = cell_index b \<longleftrightarrow> a = b"
  by (metis ptr_cell_eqI)

lemma leaf_compares:
  assumes n: "names_ok h C" and tag: "cell_tag a = cell_tag b"
    and C: "tree_cons (TLeaf a) \<subseteq> C" "tree_cons (TLeaf b) \<subseteq> C"
  shows "compares (leaf_compare h) a b"
proof (cases "cell_tag a = CON_T")
  case True
  then have "a \<in> C" "b \<in> C" using C tag by auto
  from con_compares [OF n this] show ?thesis by (rule compares_same) (use True tag in \<open>auto simp: leaf_compare_def\<close>)
next
  case False
  show ?thesis
  proof (cases "cell_tag a = INT_T")
    case True
    then show ?thesis using tag by (intro compares_key [of int_value]) (auto simp: leaf_compare_def int_eq)
  next
    case no_int: False
    show ?thesis using False no_int tag by (intro compares_key [of cell_index]) (auto simp: leaf_compare_def index_eq)
  qed
qed

lemma kinds_compare: "tree_kind t \<noteq> tree_kind u \<Longrightarrow> tree_compare h t u = sgn_compare (kind_code (tree_kind t)) (kind_code (tree_kind u))"
  by (cases t; cases u) auto

lemma kinds_compares: "tree_kind t \<noteq> tree_kind u \<Longrightarrow> compares (tree_compare h) t u"
  by (rule compares_key [of "\<lambda>t. kind_code (tree_kind t)"]) (auto simp: kinds_compare)

lemma compares_nil: "compares (trees_compare h) [] []"
  by (simp add: compares_def)

lemma wf_leaf_kind: "tree_wf (TLeaf c) \<Longrightarrow> cell_tag c \<noteq> BIG_T \<and> cell_tag c \<noteq> STR_T"
  by auto

lemma tree_compares:
  assumes n: "names_ok h C"
  shows "tree_wf t \<Longrightarrow> tree_wf u \<Longrightarrow> tree_cons t \<union> tree_cons u \<subseteq> C \<Longrightarrow> compares (tree_compare h) t u"
    "list_all tree_wf ts \<Longrightarrow> list_all tree_wf us \<Longrightarrow> length ts = length us \<Longrightarrow> (\<Union>t\<in>set ts. tree_cons t) \<union> (\<Union>u\<in>set us. tree_cons u) \<subseteq> C \<Longrightarrow>
      compares (trees_compare h) ts us"
  using n
proof (induction h t u and h ts us rule: tree_compare_trees_compare.induct)
  case (1 h f ts g us)
  show ?case
  proof (cases "f = g")
    case True
    have "compares (trees_compare h) ts us" using 1 True by (intro 1(1)) (auto simp: list_all_iff)
    then show ?thesis by (rule compares_same) (use True in auto)
  next
    case False
    have "f \<in> C" "g \<in> C" using 1(4) by auto
    from con_compares [OF 1(5) this] show ?thesis by (rule compares_same) (use False in auto)
  qed
next
  case (2 h a b)
  show ?case
  proof (cases "cell_tag a = cell_tag b")
    case True
    have "compares (leaf_compare h) a b" using 2 True by (intro leaf_compares) auto
    then show ?thesis by (rule compares_same) (use True in auto)
  next
    case False
    then show ?thesis by (intro kinds_compares) simp
  qed
next
  case (3 h n bs k cs)
  show ?case
  proof (cases "n = k")
    case True
    then show ?thesis using 3 be_value_inj [of bs cs]
      by (intro compares_key [of "\<lambda>t. case t of TBig n bs \<Rightarrow> be_value bs | _ \<Rightarrow> 0"]) auto
  next
    case False
    then show ?thesis by (intro compares_key [of "\<lambda>t. case t of TBig n bs \<Rightarrow> n | _ \<Rightarrow> 0"]) auto
  qed
next
  case (5 h t ts u us)
  have *: "compares (tree_compare h) t u" using 5 by (intro 5(1)) auto
  show ?case
  proof (cases "tree_compare h t u = 0")
    case True
    then have "compares (trees_compare h) ts us" using 5(3-) by (intro 5(2)) auto
    then show ?thesis by (rule compares_same) (use True * in \<open>auto simp: compares_def\<close>)
  next
    case False
    from * show ?thesis by (rule compares_same) (use False * in \<open>auto simp: compares_def\<close>)
  qed
qed (auto intro!: kinds_compares compares_nil dest: wf_leaf_kind simp del: tree_wf.simps(1))

lemma leaf_trans:
  assumes "cell_tag a = cell_tag b" "cell_tag b = cell_tag c" "leaf_compare h a b = - 1" "leaf_compare h b c = - 1"
  shows "leaf_compare h a c = - 1"
  using assms con_compare_trans [of h a b c] by (auto simp: leaf_compare_def split: if_splits)

lemma kind_trans:
  assumes "tree_compare h t u = - 1" "tree_compare h u v = - 1" "tree_kind t \<noteq> tree_kind u \<or> tree_kind u \<noteq> tree_kind v"
    "tree_wf t" "tree_wf u" "tree_wf v"
  shows "tree_compare h t v = - 1"
proof -
  have le: "kind_code (tree_kind x) \<le> kind_code (tree_kind y)" if "tree_compare h x y = - 1" for x y
    using that kinds_compare [of x y h] by (cases "tree_kind x = tree_kind y") auto
  have "kind_code (tree_kind t) < kind_code (tree_kind v)"
    using le [OF assms(1)] le [OF assms(2)] assms(3) kind_code_eq [of "tree_kind t" "tree_kind u"] kind_code_eq [of "tree_kind u" "tree_kind v"]
    by (metis order.order_iff_strict order.strict_trans)
  then have "tree_kind t \<noteq> tree_kind v" "sgn_compare (kind_code (tree_kind t)) (kind_code (tree_kind v)) = - 1" by auto
  then show ?thesis using kinds_compare by simp
qed

lemma same_kind:
  assumes "tree_kind t = tree_kind u" "tree_wf t" "tree_wf u"
  obtains a b where "t = TLeaf a" "u = TLeaf b" "cell_tag a = cell_tag b" | n bs k cs where "t = TBig n bs" "u = TBig k cs" |
    f ts g us where "t = TStr f ts" "u = TStr g us"
  using assms wf_leaf_kind by (cases t; cases u) auto

lemma tree_compare_trans:
  assumes n: "names_ok h C"
  shows "tree_wf t \<Longrightarrow> tree_wf u \<Longrightarrow> tree_wf v \<Longrightarrow> tree_cons t \<union> tree_cons u \<union> tree_cons v \<subseteq> C \<Longrightarrow>
    tree_compare h t u = - 1 \<Longrightarrow> tree_compare h u v = - 1 \<Longrightarrow> tree_compare h t v = - 1"
proof (induction t arbitrary: u v)
  case (TLeaf a)
  show ?case
  proof (cases "tree_kind (TLeaf a) = tree_kind u \<and> tree_kind u = tree_kind v")
    case True
    then obtain b c where "u = TLeaf b" "v = TLeaf c" "cell_tag a = cell_tag b" "cell_tag b = cell_tag c"
      using TLeaf(1-3) by (metis same_kind tree_kind.simps(1) ttree.distinct(1,3))
    then show ?thesis using TLeaf leaf_trans [of a b c h] by simp
  qed (use kind_trans TLeaf in blast)
next
  case (TBig n bs)
  show ?case
  proof (cases "tree_kind (TBig n bs) = tree_kind u \<and> tree_kind u = tree_kind v")
    case True
    then obtain k cs l ds where "u = TBig k cs" "v = TBig l ds"
      using TBig(1-3) by (metis same_kind ttree.distinct(1,5))
    then show ?thesis using TBig(5,6) by (auto split: if_splits)
  qed (use kind_trans TBig in blast)
next
  case (TStr f ts)
  show ?case
  proof (cases "tree_kind (TStr f ts) = tree_kind u \<and> tree_kind u = tree_kind v")
    case True
    then obtain g us k vs where uv: "u = TStr g us" "v = TStr k vs"
      using TStr(2-4) by (metis same_kind ttree.distinct(3,5))
    have C: "f \<in> C" "g \<in> C" "k \<in> C" using TStr.prems uv by auto
    have lists: "trees_compare h xs zs = - 1"
      if "set xs \<subseteq> set ts" "length xs = length ys" "length ys = length zs" "list_all tree_wf xs" "list_all tree_wf ys" "list_all tree_wf zs"
        "\<Union> (tree_cons ` set (xs @ ys @ zs)) \<subseteq> C" "trees_compare h xs ys = - 1" "trees_compare h ys zs = - 1" for xs ys zs
      using that
    proof (induction xs arbitrary: ys zs)
      case (Cons x xs)
      then obtain y ys' z zs' where yz: "ys = y # ys'" "zs = z # zs'" by (metis length_Suc_conv)
      have c: "compares (tree_compare h) x y" "compares (tree_compare h) y z"
        using Cons.prems yz by (auto intro!: tree_compares(1) [OF n])
      have IH: "tree_compare h x y = - 1 \<Longrightarrow> tree_compare h y z = - 1 \<Longrightarrow> tree_compare h x z = - 1"
        using Cons.prems(1-7) yz by (intro TStr.IH [of x y z]) auto
      have tl: "trees_compare h xs ys' = - 1 \<Longrightarrow> trees_compare h ys' zs' = - 1 \<Longrightarrow> trees_compare h xs zs' = - 1"
        using Cons.prems(1-7) yz by (intro Cons.IH [of ys' zs']) auto
      have xy: "(if tree_compare h x y = 0 then trees_compare h xs ys' else tree_compare h x y) = - 1"
        "(if tree_compare h y z = 0 then trees_compare h ys' zs' else tree_compare h y z) = - 1"
        using Cons.prems(8,9) yz by simp_all
      have c0: "tree_compare h x y = 0 \<longleftrightarrow> x = y" "tree_compare h y z = 0 \<longleftrightarrow> y = z" using c by (simp_all add: compares_def)
      show ?case
      proof (cases "x = y")
        case True
        then show ?thesis using xy c0 tl yz by (cases "y = z") simp_all
      next
        case False
        then have "tree_compare h x y = - 1" using xy(1) c0 by simp
        then show ?thesis using xy c0 IH yz by (cases "y = z") simp_all
      qed
    qed simp
    have l: "f = g \<Longrightarrow> g = k \<Longrightarrow> trees_compare h ts us = - 1 \<Longrightarrow> trees_compare h us vs = - 1 \<Longrightarrow> trees_compare h ts vs = - 1"
      using TStr.prems uv by (intro lists [of ts us vs]) (auto simp: list_all_iff)
    have fg: "(if f = g then trees_compare h ts us else con_compare h f g) = - 1"
      "(if g = k then trees_compare h us vs else con_compare h g k) = - 1" using TStr.prems(5,6) uv by simp_all
    have z: "con_compare h f f = 0" using con_compare_simps(2) [OF n C(1) C(1)] by simp
    consider "f = g" "g = k" | "f = g" "g \<noteq> k" | "f \<noteq> g" "g = k" | "f \<noteq> g" "g \<noteq> k" by blast
    then show ?thesis
    proof cases
      case 4
      then have t: "con_compare h f k = - 1" using con_compare_trans fg by simp
      then have "f \<noteq> k" using z by auto
      then show ?thesis using t uv by simp
    qed (use fg l uv in simp_all)
  qed (use kind_trans TStr in blast)
qed

text \<open>The walk of the standard order over trees without big numbers.\<close>

definition pairs_compare :: "heap \<Rightarrow> (ttree \<times> ttree) list \<Rightarrow> int" where
  "pairs_compare h ps = trees_compare h (map fst ps) (map snd ps)"

lemma pairs_compare_simps [simp]: "pairs_compare h [] = 0"
  "pairs_compare h ((t, u) # ps) = (if tree_compare h t u = 0 then pairs_compare h ps else tree_compare h t u)"
  by (simp_all add: pairs_compare_def)

lemma pairs_compare_zip:
  "length ts = length us \<Longrightarrow> pairs_compare h (zip ts us @ ps) = (if trees_compare h ts us = 0 then pairs_compare h ps else trees_compare h ts us)"
  by (induction ts us rule: list_induct2) (auto simp: pairs_compare_def)

definition comparable :: "heap \<Rightarrow> ttree \<times> ttree \<Rightarrow> bool" where
  "comparable h = (\<lambda>(t, u). no_big t \<and> no_big u \<and> names_ok h (tree_cons t \<union> tree_cons u))"

lemma comparable_args:
  assumes "comparable h (TStr f ts, TStr f us)" "(t, u) \<in> set (zip ts us)"
  shows "comparable h (t, u)"
proof -
  have "t \<in> set ts" "u \<in> set us" using assms(2) by (auto dest: set_zip_leftD set_zip_rightD)
  then show ?thesis
    using assms(1) names_ok_mono [of h "tree_cons (TStr f ts) \<union> tree_cons (TStr f us)" "tree_cons t \<union> tree_cons u"]
    by (auto simp: comparable_def list_all_iff)
qed

lemma order_round_spec:
  assumes doc: "compare_doc compare"
    and inv: "heap_inv h" and h: "te_heap e = h" and rd: "walks (mem h) x t" "walks (mem h) y u" and g: "comparable h (t, u)"
    and st: "stack e = x # y # flat ps @ s0"
  shows "\<exists>r. order_round compare (length s0) (e, cost) = ok r \<and> walk_step (\<lambda>v. \<forall>ts. pairs_compare h ((t, u) # ts) = sgn v)
    (\<lambda>us. (\<forall>p\<in>set us. comparable h p) \<and> (\<forall>ts. pairs_compare h ((t, u) # ts) = pairs_compare h (us @ ts))) e ps s0 t r"
    (is "\<exists>r. _ \<and> ?step r")
proof -
  let ?e = "e\<lparr>stack := flat ps @ s0\<rparr>"
  obtain a b where a: "derefs (mem h) x a" "walks0 (mem h) a t" and b: "derefs (mem h) y b" "walks0 (mem h) b u"
    using rd by (auto simp: reads_iff)
  obtain c where pop: "pop2_deref e = ok (a, b, c, ?e)"
    using pop2_deref_spec [of e x y "flat ps @ s0" a b] st inv h a(1) b(1) by auto
  note trim = trim_stack_drop [of "flat ps" s0 e] and er = order_round_def Let_def h
  have nm: "names_ok h (tree_cons t \<union> tree_cons u)" and wf: "tree_wf t" "tree_wf u"
    using g rd reads_wf by (auto simp: comparable_def)
  have cmp: "compares (tree_compare h) t u" using tree_compares(1) [OF nm wf] by simp
  have kinds: "cell_tag a = tree_kind t" "cell_tag b = tree_kind u" using a(2) b(2) by (cases t; cases u; auto)+
  show ?thesis
  proof (cases "a = b")
    case True
    then have "t = u" using reads0_unique [OF a(2)] b(2) derefs_idem [OF a(1)] by blast
    then show ?thesis using True pop cmp by (simp add: er walk_next compares_def)
  next
    case ab: False
    show ?thesis
    proof (cases "cell_tag a = cell_tag b")
      case False
      then have "tree_compare h t u = (if kind_code (cell_tag a) < kind_code (cell_tag b) then - 1 else 1)"
        using kinds kinds_compare [of t u h] kind_code_eq [of "tree_kind t" "tree_kind u"]
        by (auto simp: sgn_compare_def not_less order.order_iff_strict)
      then show ?thesis using ab pop False by (auto simp: er trim intro!: walk_stop)
    next
      case tags: True
      show ?thesis
      proof (cases t)
        case (TLeaf d)
        then have u: "u = TLeaf b" "t = TLeaf a" using a b tags by (cases u; auto)+
        then have tc: "tree_compare h t u = leaf_compare h a b" "tree_compare h t u \<noteq> 0" "cell_tag a \<noteq> BIG_T" "cell_tag a \<noteq> STR_T"
          using tags cmp ab wf by (auto simp: compares_def)
        show ?thesis
        proof (cases "cell_tag a = CON_T")
          case True
          then have "a \<in> tree_cons t \<union> tree_cons u" "b \<in> tree_cons t \<union> tree_cons u" using u tags by auto
          note con = con_compare_simps [OF nm this]
          obtain v where v: "functor_standard_order compare h a b = ok v" "sgn v = con_compare h a b" using con(4) [OF doc] by blast
          have "tree_compare h t u = (if v < 0 then - 1 else 1)"
            using tc(1,2) v(2) True by (auto simp: leaf_compare_def sgn_if split: if_splits)
          then show ?thesis using ab pop tags True v(1) by (auto simp: er trim intro!: walk_stop)
        next
          case no_con: False
          show ?thesis
          proof (cases "cell_tag a = INT_T")
            case True
            then have "tree_compare h t u = (if int_value a < int_value b then - 1 else 1)"
              using tc(1,2) by (auto simp: leaf_compare_def sgn_compare_def split: if_splits)
            then show ?thesis using ab pop tags True by (auto simp: er trim intro!: walk_stop)
          next
            case False
            then have "is_ref (cell_tag a)" using wf(1) u(2) no_con by simp
            moreover have "tree_compare h t u = (if cell_index a < cell_index b then - 1 else 1)"
              using tc(1,2) no_con False by (auto simp: leaf_compare_def sgn_compare_def split: if_splits)
            ultimately show ?thesis using ab pop tags no_con by (auto simp: er trim intro!: walk_stop)
          qed
        qed
      next
        case (TBig n bs)
        then show ?thesis using g by (simp add: comparable_def)
      next
        case (TStr f ts')
        then obtain k us' where u: "u = TStr k us'" using a b tags by (cases u) auto
        have fg: "functor_of h a = ok f" "functor_of h b = ok k" and st: "cell_tag a = STR_T"
          using a(2) b(2) TStr u by (auto intro: functor_of_str [OF inv])
        show ?thesis
        proof (cases "f = k")
          case False
          have "f \<in> tree_cons t \<union> tree_cons u" "k \<in> tree_cons t \<union> tree_cons u" using TStr u by auto
          note con = con_compare_simps [OF nm this]
          obtain v where v: "functor_standard_order compare h f k = ok v" "sgn v = con_compare h f k" using con(4) [OF doc] by blast
          have "tree_compare h t u = sgn v" "sgn v \<noteq> 0" using TStr u False con(2) v(2) by auto
          then show ?thesis using ab pop tags st fg False v(1) by (auto simp: er trim intro!: walk_stop)
        next
          case True
          obtain qs where qs: "push_args2 ?e a b (arity f) = ok (?e\<lparr>stack := flat qs @ stack ?e\<rparr>)" "pairs_read (mem h) qs (zip ts' us')"
            using push_args2_reads [of ?e a f ts' b us'] inv h a(2) b(2) TStr u True by auto
          have l: "length ts' = length us'" using a(2) b(2) TStr u True by simp
          have "?step (Continue (e\<lparr>stack := flat qs @ flat ps @ s0\<rparr>, cost + c))"
            using qs(2) size_zip_args [OF l] TStr u True pairs_compare_zip [OF l, of h] comparable_args [of h f ts' us'] g h
            by (intro walk_push [of _ _ "zip ts' us'"]) auto
          then show ?thesis using ab pop tags st fg True qs(1) by (simp add: er)
        qed
      qed
    qed
  qed
qed

text \<open>The interpretation is on an arbitrary \<open>compare\<close>: pairs count as good only when it has the documented sign.\<close>

interpretation order_walk: pair_walk h "order_round compare" "order_loop compare" "\<lambda>p. compare_doc compare \<and> comparable h p" 0 sgn
  "pairs_compare h" for compare h
proof
  show "order_loop compare d s = (if stack_size (fst s) > d then
       bindR (order_round compare d s) (\<lambda>r. case r of Continue s' \<Rightarrow> order_loop compare d s' | Return x \<Rightarrow> ok x) else ok (0, snd s, fst s))" for d s
    by (rule order_loop.simps)
next
  fix e :: tenv and x t y u ps s0 and cost :: u64
  assume "heap_inv h" "te_heap e = h" "walks (mem h) x t" "walks (mem h) y u" "compare_doc compare \<and> comparable h (t, u)"
    "stack e = x # y # flat ps @ s0"
  then show "\<exists>r. order_round compare (length s0) (e, cost) = ok r \<and>
    walk_step (\<lambda>v. \<forall>ts. pairs_compare h ((t, u) # ts) = sgn v)
      (\<lambda>us. (\<forall>p\<in>set us. compare_doc compare \<and> comparable h p) \<and> (\<forall>ts. pairs_compare h ((t, u) # ts) = pairs_compare h (us @ ts))) e ps s0 t r"
    using order_round_spec [of compare h e x t y u ps s0 cost] by simp
qed simp

subsection \<open>Ground terms\<close>

primrec tree_ground :: "ttree \<Rightarrow> bool" where
  "tree_ground (TLeaf c) \<longleftrightarrow> \<not> is_ref (cell_tag c)"
| "tree_ground (TBig n bs) \<longleftrightarrow> True"
| "tree_ground (TStr f ts) \<longleftrightarrow> list_all id (map tree_ground ts)"

text \<open>After the last element of a subterm the iterator advances from the subterm itself.\<close>

abbreviation ground_after :: "heap \<Rightarrow> cell \<Rightarrow> (cell \<times> nat \<times> nat) list \<Rightarrow> bool tres" where
  "ground_after h p st \<equiv> bindR (dfs_advance h \<lparr>elem = p, dfs_stack = st\<rparr>) (ground_loop h)"

lemma str_nonzero: "cell_tag p = STR_T \<Longrightarrow> p \<noteq> 0"
proof
  assume "cell_tag p = STR_T" "p = 0"
  moreover have "cell_tag 0 = REF_T" by code_simp
  ultimately show False by simp
qed

lemma ground_step: "p \<noteq> 0 \<or> st \<noteq> [] \<Longrightarrow> ground_loop h \<lparr>elem = p, dfs_stack = st\<rparr> = (if is_ref (cell_tag p) then ok False else ground_after h p st)"
  by (subst ground_loop.simps) (auto simp: dfs_eq_def dfs_end_def)

lemma ground_first:
  assumes inv: "heap_inv h"
  shows "reads0_as w (mem h) p t \<Longrightarrow> p \<noteq> 0 \<or> st \<noteq> [] \<Longrightarrow>
    bindR (dfs_first_loop h st p) (ground_loop h) = (if tree_ground t then ground_after h p st else ok False)"
proof (induction t arbitrary: p st)
  case (TLeaf c)
  then show ?case by (subst dfs_first_loop.simps) (auto simp: ground_step)
next
  case (TBig n bs)
  then show ?case by (subst dfs_first_loop.simps) (simp add: ground_step)
next
  case (TStr f ts)
  have p: "cell_tag p = STR_T" "functor_of h p = ok f" "length ts = arity f"
    using TStr.prems(1) by (auto intro: functor_of_str [OF inv])
  obtain g where g: "\<And>i. i < arity f \<Longrightarrow> arg h p i = ok (g i) \<and> reads_as w (mem h) (g i) (ts ! i)"
    using reads0_args [OF inv TStr.prems(1)] by blast
  have fin: "ground_loop h \<lparr>elem = p, dfs_stack = st\<rparr> = ground_after h p st"
    using str_nonzero [OF p(1)] p(1) by (simp add: ground_step)
  have args: "bindR (dfs_first_of h ((p, i, arity f) # st) (g i)) (ground_loop h) =
      (if list_all tree_ground (drop i ts) then ground_after h p st else ok False)" if "i < arity f" for i
    using that
  proof (induction "arity f - i" arbitrary: i)
    case (Suc k)
    obtain d where d: "derefs (mem h) (g i) d" "reads0_as w (mem h) d (ts ! i)" using g [of i] Suc.prems by (auto simp: reads_iff)
    have sub: "bindR (dfs_first_loop h ((p, i, arity f) # st) d) (ground_loop h) =
        (if tree_ground (ts ! i) then ground_after h d ((p, i, arity f) # st) else ok False)"
      using d(2) Suc.prems p(3) by (intro TStr.IH) auto
    have dr: "drop i ts = ts ! i # drop (Suc i) ts" using Suc.prems p(3) by (simp add: Cons_nth_drop_Suc)
    show ?case
    proof (cases "Suc i = arity f")
      case True
      then have "drop (Suc i) ts = []" using p(3) by simp
      then show ?thesis using sub dr True by (simp add: dfs_first_of_def deref_derefs [OF inv d(1)] dfs_advance_def fin)
    next
      case False
      then have i: "Suc i < arity f" using Suc.prems by simp
      then have "bindR (dfs_first_of h ((p, Suc i, arity f) # st) (g (Suc i))) (ground_loop h) =
          (if list_all tree_ground (drop (Suc i) ts) then ground_after h p st else ok False)"
        using Suc.hyps(2) by (intro Suc.hyps(1)) simp_all
      then show ?thesis using sub dr i g [of "Suc i"] by (simp add: dfs_first_of_def deref_derefs [OF inv d(1)] dfs_advance_def)
    qed
  qed simp
  show ?case
  proof (cases "arity f = 0")
    case True
    then show ?thesis using p fin by (subst dfs_first_loop.simps) simp
  next
    case False
    obtain d where d: "derefs (mem h) (g 0) d" using g [of 0] False by (auto simp: reads_iff)
    have "arg h p 0 = ok d"
    proof -
      have "derefs (mem h) (g 0) (g 0)"
        using g [of 0] False by (auto simp: arg_def bindR_ok_iff deref_iff [OF inv] intro: derefs_idem)
      then show ?thesis using g [of 0] False derefs_unique [OF d] by simp
    qed
    then show ?thesis
      using args [of 0] False p deref_derefs [OF inv d] by (subst dfs_first_loop.simps) (simp add: dfs_first_of_def list_all_iff)
  qed
qed

subsection \<open>Terms in a larger heap\<close>

lemma derefs_mono: "derefs m c d \<Longrightarrow> (\<And>x y. m x = Some y \<Longrightarrow> m' x = Some y) \<Longrightarrow> derefs m' c d"
  by (induction rule: derefs.induct) (auto intro: derefs.intros)

lemma big_data_mono:
  assumes "has_cells m (big_area a n)" "\<And>x y. m x = Some y \<Longrightarrow> m' x = Some y"
  shows "big_data m' a n = big_data m a n"
proof -
  have "m' (a + i div 8) = m (a + i div 8)" if "4 \<le> i" "i < 4 + n" for i
    using assms in_big_area [OF that, of a] by (force simp: has_cells_def)
  then show ?thesis by (auto simp: big_data_def data_bytes_def data_byte_def)
qed

lemma reads_mono: "reads_as w m c t \<Longrightarrow> (\<And>x y. m x = Some y \<Longrightarrow> m' x = Some y) \<Longrightarrow> reads_as w m' c t"
proof (induction rule: reads_as.induct)
  case (leaf c d)
  then show ?case by (auto intro: reads_as.leaf derefs_mono)
next
  case (big c d x n)
  have "num_ok w m' (cell_index d) n" using big.hyps(5) big.prems by (fastforce simp: num_ok_def has_cells_def big_end_def)
  then have "reads_as w m' c (TBig (num_bits x) (big_data m' (cell_index d) n))"
    using big by (intro reads_as.big [of m' c d x n]) (auto intro: derefs_mono)
  then show ?case using big_data_mono [of m "cell_index d" n m'] big.hyps(5) big.prems by (simp add: num_ok_def)
next
  case (str c d f ts)
  have "\<forall>i<arity f. \<exists>x. m' (Suc (cell_index d + i)) = Some x \<and> reads_as w m' x (ts ! i)"
    using str.IH str.prems by blast
  then show ?case using str.hyps str.prems by (intro reads_as.str [of m' c d f ts]) (auto intro: derefs_mono)
qed

lemma ext_mono: "heap_ext h h' \<Longrightarrow> mem h x = Some y \<Longrightarrow> mem h' x = Some y"
  using heap_extD(3) mem_size by metis

lemma ext_reads: "heap_ext h h' \<Longrightarrow> reads_as w (mem h) c t \<Longrightarrow> reads_as w (mem h') c t"
  using reads_mono ext_mono by blast

subsection \<open>Similar trees\<close>

text \<open>Trees with the same shape, where \<open>V\<close> relates the variables and \<open>K\<close> the constants.\<close>

inductive similar :: "(cell \<Rightarrow> cell \<Rightarrow> bool) \<Rightarrow> (cell \<Rightarrow> cell \<Rightarrow> bool) \<Rightarrow> ttree \<Rightarrow> ttree \<Rightarrow> bool" for V K where
  var: "is_ref (cell_tag a) \<Longrightarrow> is_ref (cell_tag b) \<Longrightarrow> V a b \<Longrightarrow> similar V K (TLeaf a) (TLeaf b)"
| con: "cell_tag a = CON_T \<Longrightarrow> cell_tag b = CON_T \<Longrightarrow> K a b \<Longrightarrow> similar V K (TLeaf a) (TLeaf b)"
| int: "cell_tag a = INT_T \<Longrightarrow> similar V K (TLeaf a) (TLeaf a)"
| big: "similar V K (TBig n bs) (TBig n bs)"
| str: "K f g \<Longrightarrow> length ts = length us \<Longrightarrow> (\<forall>i<length ts. similar V K (ts ! i) (us ! i)) \<Longrightarrow> similar V K (TStr f ts) (TStr g us)"

lemma similar_mono:
  "similar V K t u \<Longrightarrow> (\<And>a b. V a b \<Longrightarrow> V' a b) \<Longrightarrow> (\<And>a b. K a b \<Longrightarrow> K' a b) \<Longrightarrow> similar V' K' t u"
proof (induction rule: similar.induct)
  case (str f g ts us)
  then show ?case by (intro similar.str) blast+
qed (auto intro: similar.intros)

lemma similar_comp: "similar V K t u \<Longrightarrow> similar V' K' u v \<Longrightarrow> similar (V OO V') (K OO K') t v"
proof (induction arbitrary: v rule: similar.induct)
  case (str f g ts us)
  from str.prems obtain k vs where v: "v = TStr k vs" "K' g k" "length us = length vs" "\<forall>i<length us. similar V' K' (us ! i) (vs ! i)"
    by (cases rule: similar.cases) auto
  then show ?case using str by (auto intro!: similar.str)
qed (erule similar.cases; auto intro: similar.intros)+

subsection \<open>Strings\<close>

lemma list_cells [simp]: "cell_tag DOTTED_PAIR = CON_T" "arity DOTTED_PAIR = 2" "DOTTED_PAIR \<noteq> COIN" "cell_tag EMPTY_LIST = CON_T"
  "EMPTY_LIST \<noteq> DOTTED_PAIR"
  by code_simp+

primrec list_tree :: "ttree list \<Rightarrow> ttree" where
  "list_tree [] = TLeaf EMPTY_LIST"
| "list_tree (t # ts) = TStr DOTTED_PAIR [t, list_tree ts]"

definition char_tree :: "char \<Rightarrow> ttree" where
  "char_tree c = TLeaf (int_cell (of_char c))"

lemma set_arg_spec:
  assumes inv: "heap_inv h" and s: "cell_tag s = STR_T" and i: "Suc (cell_index s + i) < hp_size h"
  obtains h' where "set_arg h s i c = ok h'" "heap_inv h'" "same_frame h h'" "mem h' = (mem h)(Suc (cell_index s + i) \<mapsto> c)"
  using heap_set_mem [OF inv i, of c] s by (auto simp: set_arg_def)

lemma new_dotted_pair_spec:
  assumes inv: "heap_inv h" and sz: "hp_size h + MAX_SIZE + 4 < addr_limit"
    and a: "reads_as w (mem h) a t" and b: "reads_as w (mem h) b u"
  obtains h' s where "new_dotted_pair h a b = ok (h', s)" "heap_ext h h'" "hp_size h' \<le> hp_size h + MAX_SIZE + 4"
    "cell_tag s = STR_T" "reads_as w (mem h') s (TStr DOTTED_PAIR [t, u])"
proof -
  obtain h1 p where h1: "new_str h DOTTED_PAIR = ok (h1, str_cell (p + 1))" "heap_ext h h1" "hp_size h \<le> p"
    "hp_size h1 = p + 4" "mem h1 (p + 1) = Some DOTTED_PAIR" "p \<le> hp_size h + MAX_SIZE"
  proof -
    have "\<not> (coin_security_enabled h \<and> DOTTED_PAIR = COIN)" by simp
    then show thesis by (rule new_str_spec [OF inv]) (rule that, simp_all)
  qed
  have lim: "p + 1 < addr_limit" using h1(6) sz by simp
  obtain h2 where h2: "set_arg h1 (str_cell (p + 1)) 0 a = ok h2" "heap_inv h2" "same_frame h1 h2" "mem h2 = (mem h1)(p + 2 \<mapsto> a)"
    using set_arg_spec [OF heap_extD(1) [OF h1(2)], of "str_cell (p + 1)" 0 a] h1(4) lim by auto
  obtain h3 where h3: "set_arg h2 (str_cell (p + 1)) 1 b = ok h3" "heap_inv h3" "same_frame h2 h3" "mem h3 = (mem h2)(p + 3 \<mapsto> b)"
    using set_arg_spec [OF h2(2), of "str_cell (p + 1)" 1 b] h1(4) h2(3) lim by (auto simp: same_frame_def numeral_3_eq_3)
  have fr: "same_frame h1 h3" using h2(3) h3(3) by (rule same_frame_trans)
  have ext: "heap_ext h h3" using h1(2,3) h2(4) h3(2,4) fr by (auto simp: heap_ext_def same_frame_def)
  have tu: "reads_as w (mem h3) a t" "reads_as w (mem h3) b u" using a b ext_reads [OF ext] by auto
  have m: "mem h3 (p + 1) = Some DOTTED_PAIR" "mem h3 (p + 2) = Some a" "mem h3 (p + 3) = Some b"
    using h1(5) h2(4) h3(4) by auto
  have "\<exists>x. mem h3 (Suc (p + 1 + i)) = Some x \<and> reads_as w (mem h3) x ([t, u] ! i)" if i2: "i < 2" for i
  proof -
    consider "i = 0" | "i = 1" using i2 by linarith
    then show ?thesis using m tu by cases (simp_all add: numeral_3_eq_3)
  qed
  then have "reads_as w (mem h3) (str_cell (p + 1)) (TStr DOTTED_PAIR [t, u])"
    using m(1) lim by (intro reads_as.str [of _ _ "str_cell (p + 1)"]) (auto intro: derefs.nonref)
  moreover have "new_dotted_pair h a b = ok (h3, str_cell (p + 1))" using h1(1) h2(1) h3(1) by (simp add: new_dotted_pair_def)
  moreover have "hp_size h3 \<le> hp_size h + MAX_SIZE + 4" using h1(4,6) fr by (simp add: same_frame_def)
  ultimately show thesis using ext by (intro that) auto
qed

lemma string_to_list_loop_spec:
  assumes "\<forall>c\<in>set cs. ascii c"
  shows "heap_inv h \<Longrightarrow> hp_size h + length cs * (MAX_SIZE + 4) < addr_limit \<Longrightarrow> reads_as w (mem h) lst (list_tree ts) \<Longrightarrow> derefs (mem h) lst lst \<Longrightarrow>
    \<exists>h' l. string_to_list_loop h cs lst = ok (h', l) \<and> heap_ext h h' \<and> reads_as w (mem h') l (list_tree (map char_tree (rev cs) @ ts)) \<and> derefs (mem h') l l"
  using assms
proof (induction cs arbitrary: h lst ts)
  case (Cons c cs)
  have c: "\<not> (128 :: nat) \<le> of_char c" using Cons.prems(5) by (simp add: ascii_def)
  have rd: "reads_as w (mem h) (int_cell (of_char c)) (char_tree c)"
    by (simp add: char_tree_def reads_leaf_simps derefs.nonref)
  have sz: "hp_size h + MAX_SIZE + 4 < addr_limit" using Cons.prems(2) by simp
  obtain h1 s where h1: "new_dotted_pair h (int_cell (of_char c)) lst = ok (h1, s)" "heap_ext h h1"
    "hp_size h1 \<le> hp_size h + MAX_SIZE + 4" "cell_tag s = STR_T" "reads_as w (mem h1) s (TStr DOTTED_PAIR [char_tree c, list_tree ts])"
    using new_dotted_pair_spec [OF Cons.prems(1) sz rd Cons.prems(3)] by metis
  have "derefs (mem h1) s s" using h1(4) by (auto intro: derefs.nonref)
  then obtain h2 l where h2: "string_to_list_loop h1 cs s = ok (h2, l)" "heap_ext h1 h2"
    "reads_as w (mem h2) l (list_tree (map char_tree (rev cs) @ char_tree c # ts))" "derefs (mem h2) l l"
    using Cons.IH [OF heap_extD(1) [OF h1(2)], of s "char_tree c # ts"] Cons.prems(2,5) h1(3,5) by auto
  then show ?case using c h1(1) heap_ext_trans [OF h1(2) h2(2)] by auto
qed (auto intro: heap_ext_refl)

text \<open>What the functions on strings find in a list of characters.\<close>

lemma dotted_pair_reads:
  assumes inv: "heap_inv h" and l: "reads0_as w (mem h) l (TStr DOTTED_PAIR [t, u])"
  obtains a b where "is_dotted_pair h l = ok True" "arg h l 0 = ok a" "reads0_as w (mem h) a t" "arg h l 1 = ok b" "reads0_as w (mem h) b u"
proof -
  obtain x y where xy: "mem h (Suc (cell_index l + 0)) = Some x" "reads_as w (mem h) x t" "mem h (Suc (cell_index l + 1)) = Some y" "reads_as w (mem h) y u"
  proof -
    have "\<exists>x. mem h (Suc (cell_index l + i)) = Some x \<and> reads_as w (mem h) x ([t, u] ! i)" if "i < 2" for i using l that by simp
    from this [of 0] this [of 1] show thesis using that by auto
  qed
  obtain a b where "derefs (mem h) x a" "reads0_as w (mem h) a t" "derefs (mem h) y b" "reads0_as w (mem h) b u"
    using xy(2,4) by (auto simp: reads_iff)
  moreover have "functor_of h l = ok DOTTED_PAIR" "cell_tag l = STR_T" using l by (auto intro: functor_of_str [OF inv])
  ultimately show thesis
    using that xy(1,3) by (simp add: is_dotted_pair_def is_con_or_str_def arg_def heap_get_ok [OF inv, THEN iffD2] deref_derefs [OF inv])
qed

lemma char_cell:
  assumes "ascii c"
  shows "int_value (int_cell (of_char c)) = of_char c" "byte_char (word_of_int (of_char c)) = c" "(of_char c :: int) < 128" "(0 :: int) \<le> of_char c"
proof -
  define n where "n = (of_char c :: nat)"
  have n: "n = (of_char c :: nat)" "n < 128" "(of_char c :: int) = int n"
    using assms of_nat_of_char [of c, where ?'a = int] by (simp_all add: ascii_def n_def)
  then show "(of_char c :: int) < 128" "(0 :: int) \<le> of_char c" by simp_all
  then show "int_value (int_cell (of_char c)) = of_char c" by (simp add: int61_range_def)
  have "unat (word_of_int (int n) :: u8) = n" using n(2) by (simp add: unsigned_of_nat take_bit_nat_eq_self)
  then show "byte_char (word_of_int (of_char c)) = c" using n(1,3) by (simp add: byte_char_def)
qed

lemma string_functions_spec:
  assumes inv: "heap_inv h"
  shows "\<forall>c\<in>set cs. ascii c \<Longrightarrow> reads0_as w (mem h) l (list_tree (map char_tree cs)) \<Longrightarrow>
    list_to_string h l acc = ok (acc @ cs) \<and> utils_is_string h l = ok True"
proof (induction cs arbitrary: l acc)
  case Nil
  then have "l = EMPTY_LIST" by simp
  then have "is_dotted_pair h l = ok False" "is_empty_list h l = ok True" by (simp_all add: is_dotted_pair_def is_empty_list_def is_con_or_str_def)
  then show ?case by (subst list_to_string.simps, subst utils_is_string.simps) simp
next
  case (Cons c cs)
  obtain a b where ab: "is_dotted_pair h l = ok True" "arg h l 0 = ok a" "reads0_as w (mem h) a (char_tree c)" "arg h l 1 = ok b"
    "reads0_as w (mem h) b (list_tree (map char_tree cs))"
    using dotted_pair_reads [OF inv, of w l "char_tree c" "list_tree (map char_tree cs)"] Cons.prems(2) by auto
  have c: "ascii c" "a = int_cell (of_char c)" using Cons.prems(1) ab(3) by (simp_all add: char_tree_def)
  show ?case
    using ab c char_cell [of c] Cons.IH [of b] Cons.prems(1)
    by (subst list_to_string.simps, subst utils_is_string.simps) simp
qed

subsection \<open>A sample environment\<close>

text \<open>Address 0 is an unbound variable; 1 and 4 hold the pairs of a big number with 1 and with 2; 11 and 14 hold
  the list of the integer 1.\<close>

definition walk_cells :: "cell list" where
  "walk_cells = [ref_cell 0, DOTTED_PAIR, big_cell 7, int_cell 1, DOTTED_PAIR, big_cell 9, int_cell 2, dat_cell 40, 5, dat_cell 40, 5,
     DOTTED_PAIR, int_cell 1, EMPTY_LIST, DOTTED_PAIR, int_cell 1, EMPTY_LIST]"

definition walk_heap :: heap where
  "walk_heap = heap_new\<lparr>hp_size := 17, head_block := Some 0, blocks := [\<lparr>hb_index = 0, hb_size = 17, hb_changed = True,
     hb_cells = (\<lambda>i. if i < 17 then Some (walk_cells ! i) else None)\<rparr>]\<rparr>"

definition walk_env :: tenv where
  "walk_env = tenv_new\<lparr>te_heap := walk_heap\<rparr>"

declare deref.simps [code] deref_cost_loop.simps [code] equal_loop.simps [code] order_loop.simps [code]
  dfs_first_loop.simps [code] ground_loop.simps [code] term_hash_loop.simps [code]

lemma walk_heap_inv: "heap_inv walk_heap"
  by (simp add: walk_heap_def heap_inv_def heap_new_def MAX_SIZE_def)

lemma walk_heap_mem: "mem walk_heap i = (if i < 17 then Some (walk_cells ! i) else None)"
  by (auto simp: mem_def walk_heap_def heap_new_def MAX_SIZE_def)

lemma walk_env_heap [simp]: "te_heap walk_env = walk_heap"
  by (simp add: walk_env_def)

lemma walk_lists:
  "reads_as w (mem walk_heap) (str_cell 11) (list_tree [TLeaf (int_cell 1)])" "reads_as w (mem walk_heap) (str_cell 14) (list_tree [TLeaf (int_cell 1)])"
proof -
  have "reads_as w (mem walk_heap) (str_cell p) (list_tree [TLeaf (int_cell 1)])"
    if p: "p < addr_limit" "mem walk_heap p = Some DOTTED_PAIR" "mem walk_heap (p + 1) = Some (int_cell 1)" "mem walk_heap (p + 2) = Some EMPTY_LIST" for p
  proof -
    have "\<exists>x. mem walk_heap (Suc (p + i)) = Some x \<and> reads_as w (mem walk_heap) x ([TLeaf (int_cell 1), TLeaf EMPTY_LIST] ! i)" if i2: "i < 2" for i
    proof -
      consider "i = 0" | "i = 1" using i2 by linarith
      then show ?thesis using p by cases (simp_all add: reads_leaf_simps derefs.nonref)
    qed
    then show ?thesis using p derefs.nonref [of "str_cell p" "mem walk_heap"] by (auto simp: reads_iff [of w _ "str_cell p"])
  qed
  then show "reads_as w (mem walk_heap) (str_cell 11) (list_tree [TLeaf (int_cell 1)])" "reads_as w (mem walk_heap) (str_cell 14) (list_tree [TLeaf (int_cell 1)])"
    by (simp_all add: walk_heap_mem walk_cells_def small_addr)
qed

lemma walk_big:
  assumes "mem walk_heap a = Some (dat_cell 40)" "mem walk_heap (Suc a) = Some 5"
  shows "num_ok True (mem walk_heap) a 5" "big_data (mem walk_heap) a 5 = [0, 0, 0, 0, 5]"
proof -
  have "big_area a 5 = {a, Suc a}" by (auto simp: big_area_def)
  then show "num_ok True (mem walk_heap) a 5" using assms by (simp add: num_ok_def has_cells_def big_end_def)
  have z: "get_byte (dat_cell 40) i = 0" if "i \<in> {4, 5, 6, 7}" for i using that by (auto, code_simp+)
  have b: "get_byte 5 8 = 5" by code_simp
  show "big_data (mem walk_heap) a 5 = [0, 0, 0, 0, 5]"
    using assms z b by (simp add: big_data_def data_bytes_def data_byte_def upt_rec)
qed

lemma walk_pair_arg:
  assumes "p < 17" "mem walk_heap (Suc p) = Some (big_cell a)"
  shows "arg walk_heap (str_cell p) 0 = ok (big_cell a)"
  using assms by (simp add: arg_def heap_get_ok [OF walk_heap_inv, THEN iffD2] small_addr)

lemma walk_pair:
  assumes "p < 17" "mem walk_heap p = Some DOTTED_PAIR" "mem walk_heap (Suc p) = Some (big_cell a)" "a < 17"
    "mem walk_heap (Suc (Suc p)) = Some (int_cell n)" "mem walk_heap a = Some (dat_cell 40)" "mem walk_heap (Suc a) = Some 5"
  shows "walks0 (mem walk_heap) (str_cell p) (TStr DOTTED_PAIR [TBig 40 [0, 0, 0, 0, 5], TLeaf (int_cell n)])"
proof -
  have "walks (mem walk_heap) (big_cell a) (TBig 40 [0, 0, 0, 0, 5])"
    unfolding reads_iff
    by (rule exI [of _ "big_cell a"]) (use walk_big [OF assms(6,7)] assms(4,6) derefs.nonref [of "big_cell a"] in \<open>simp add: small_addr\<close>)
  moreover have "walks (mem walk_heap) (int_cell n) (TLeaf (int_cell n))" by (simp add: reads_leaf_simps derefs.nonref)
  ultimately have "\<exists>x. mem walk_heap (Suc (p + i)) = Some x \<and> walks (mem walk_heap) x ([TBig 40 [0, 0, 0, 0, 5], TLeaf (int_cell n)] ! i)"
    if i2: "i < 2" for i
  proof -
    consider "i = 0" | "i = 1" using i2 by linarith
    then show ?thesis using assms by cases (simp_all add: \<open>walks _ (big_cell a) _\<close> \<open>walks _ (int_cell n) _\<close>)
  qed
  then show ?thesis using assms(1,2) by (simp add: small_addr)
qed

subsection \<open>Properties\<close>

text \<open>C11: equality of terms.  On finite terms whose big numbers can be walked over (\<open>walks\<close>: where a number ends with its
  last cell and the next cell is in another block than its header, that cell exists) \<open>equal\<close> ends, answers whether the two terms are the same tree, and leaves
  the environment as it was.\<close>

theorem term_equal_correct:
  assumes "heap_inv (te_heap e)" "walks (mem (te_heap e)) a t" "walks (mem (te_heap e)) b u"
  shows "\<exists>cost. term_equal e a b = ok (t = u, cost, e)"
proof -
  have "\<exists>c v. equal_loop (length (stack e)) (push (push e b) a, 0) = ok (v, c, (push (push e b) a)\<lparr>stack := stack e\<rparr>) \<and>
      v = all_equal [(t, u)]"
    using assms by (intro eq_walk.loop_spec [of "te_heap e" _ "[(a, b)]"]) (auto simp: push_def)
  then show ?thesis by (simp add: term_equal_def stack_size_def push_def)
qed

theorem term_equal_correct_witness: "\<exists>cost. term_equal walk_env (str_cell 11) (str_cell 14) = ok (True, cost, walk_env)"
  using term_equal_correct [of walk_env, simplified, OF walk_heap_inv walk_lists] by simp

text \<open>C12: hashing agrees with equality.  Hashing a finite term whose big numbers can be walked over (\<open>walks\<close>, as for
  equality) ends and leaves the environment as it was, and terms that \<open>equal\<close> finds equal have the same hash.\<close>

theorem hash_respects_equal:
  assumes "heap_inv (te_heap e)" "walks (mem (te_heap e)) a t" "walks (mem (te_heap e)) b u"
  shows "\<exists>ha hb. term_hash e a = ok (ha, e) \<and> term_hash e b = ok (hb, e) \<and>
    (\<forall>cost e'. term_equal e a b = ok (True, cost, e') \<longrightarrow> ha = hb)"
proof -
  have h: "term_hash e c = ok (tree_hash v 0, e)" if "walks (mem (te_heap e)) c v" for c v
    using that assms(1) term_hash_loop_spec [of "push e c" "[c]" "[v]" "stack e" 0]
    by (simp add: term_hash_def stack_size_def push_def)
  have "t = u" if "term_equal e a b = ok (True, cost, e')" for cost e'
    using that eq_walk.loop_spec [of "te_heap e" "push (push e b) a" "[(a, b)]" "[(t, u)]" "stack e" 0] assms
    by (auto simp: term_equal_def stack_size_def push_def)
  then show ?thesis using h [OF assms(2)] h [OF assms(3)] by auto
qed

theorem hash_respects_equal_witness:
  "\<exists>ha hb. term_hash walk_env (str_cell 11) = ok (ha, walk_env) \<and> term_hash walk_env (str_cell 14) = ok (hb, walk_env) \<and>
    (\<forall>cost e'. term_equal walk_env (str_cell 11) (str_cell 14) = ok (True, cost, e') \<longrightarrow> ha = hb)"
  using hash_respects_equal [of walk_env] walk_heap_inv walk_lists unfolding walk_env_heap by blast



text \<open>C15: the standard order and big numbers.  When two structures with the same functor start with equal big numbers at
  different addresses, \<open>standard_order\<close> finds no difference, whatever the other arguments are and whatever \<open>compare\<close>
  returns: it empties its stack before it compares the numbers and then goes on.  The numbers can be walked over
  (\<open>walks0\<close>: a number that ends with its last cell after a block boundary has a cell after it).\<close>

theorem standard_order_big_ignored:
  assumes inv: "heap_inv (te_heap e)" and a: "walks0 (mem (te_heap e)) a (TStr f (TBig n bs # ts))"
    and b: "walks0 (mem (te_heap e)) b (TStr f (TBig n bs # us))" and ne: "arg (te_heap e) a 0 \<noteq> arg (te_heap e) b 0"
  shows "\<exists>cost. standard_order compare e a b = ok (0, cost, e)"
proof -
  let ?h = "te_heap e" and ?d = "length (stack e)"
  obtain g where g: "\<And>i. i < arity f \<Longrightarrow> arg ?h a i = ok (g i) \<and> walks (mem ?h) (g i) ((TBig n bs # ts) ! i)"
    using reads0_args [OF inv a] by blast
  obtain k where k: "\<And>i. i < arity f \<Longrightarrow> arg ?h b i = ok (k i) \<and> walks (mem ?h) (k i) ((TBig n bs # us) ! i)"
    using reads0_args [OF inv b] by blast
  have f: "0 < arity f" "cell_tag a = STR_T" "cell_tag b = STR_T" "functor_of ?h a = ok f" "functor_of ?h b = ok f"
    using a b by (auto intro: functor_of_str [OF inv])
  have root: "derefs (mem ?h) (g 0) (g 0)" "derefs (mem ?h) (k 0) (k 0)"
    using g [of 0] k [of 0] f(1) by (auto simp: arg_def bindR_ok_iff deref_iff [OF inv] intro: derefs_idem)
  then have big: "walks0 (mem ?h) (g 0) (TBig n bs)" "walks0 (mem ?h) (k 0) (TBig n bs)"
    using g [of 0] k [of 0] f(1) derefs_unique by (fastforce simp: reads_iff)+
  let ?ps = "map (\<lambda>i. (g i, k i)) [0..<arity f]" and ?qs = "map (\<lambda>i. (g i, k i)) [1..<arity f]"
  let ?e1 = "e\<lparr>stack := flat ?ps @ stack e\<rparr>"
  have ps: "?ps = (g 0, k 0) # ?qs" using f(1) by (simp add: upt_conv_Cons)
  have ab: "a \<noteq> b" using ne by auto
  have d: "derefs (mem ?h) a a" "derefs (mem ?h) b b" using f by (auto intro: derefs.nonref)
  obtain c1 where p1: "pop2_deref (push (push e b) a) = ok (a, b, c1, e)"
    using pop2_deref_spec [of "push (push e b) a" a b "stack e" a b] inv d by (auto simp: push_def)
  have "push_args2 e a b (arity f) = ok ?e1" using g k f by (intro push_args2_spec [OF inv]) auto
  then have r1: "order_round compare ?d (push (push e b) a, 0) = ok (Continue (?e1, c1))"
    using p1 ab f by (simp add: order_round_def Let_def)
  obtain c2 where p2: "pop2_deref ?e1 = ok (g 0, k 0, c2, ?e1\<lparr>stack := flat ?qs @ stack e\<rparr>)"
    using pop2_deref_spec [of ?e1 "g 0" "k 0" "flat ?qs @ stack e" "g 0" "k 0"] inv root ps by auto
  obtain c3 where "big_compare ?h (g 0) (k 0) = ok (0, c3)" using big_reads [OF inv big] by (auto simp: sgn_compare_def)
  moreover have "g 0 \<noteq> k 0" using ne g [of 0] k [of 0] f(1) by auto
  ultimately have r2: "order_round compare ?d (?e1, c1) = ok (Continue (e, c3))"
    using p2 big trim_stack_drop [of "flat ?qs" "stack e" e] by (simp add: order_round_def Let_def)
  have "order_loop compare ?d (e, c3) = ok (0, c3, e)" by (subst order_loop.simps) (simp add: stack_size_def)
  then have "order_loop compare ?d (?e1, c1) = ok (0, c3, e)"
    using r2 f(1) ps by (subst order_loop.simps) (simp add: stack_size_def)
  then show ?thesis using r1 by (subst standard_order_def, subst order_loop.simps) (simp add: stack_size_def push_def)
qed

theorem standard_order_big_ignored_witness:
  "\<exists>cost. standard_order string_compare walk_env (str_cell 1) (str_cell 4) = ok (0, cost, walk_env)"
proof (rule standard_order_big_ignored)
  show "heap_inv (te_heap walk_env)" by (simp add: walk_heap_inv)
  show "walks0 (mem (te_heap walk_env)) (str_cell 1) (TStr DOTTED_PAIR [TBig 40 [0, 0, 0, 0, 5], TLeaf (int_cell 1)])"
    "walks0 (mem (te_heap walk_env)) (str_cell 4) (TStr DOTTED_PAIR [TBig 40 [0, 0, 0, 0, 5], TLeaf (int_cell 2)])"
    using walk_pair [of 1 7 1] walk_pair [of 4 9 2] by (simp_all add: walk_heap_mem walk_cells_def)
  show "arg (te_heap walk_env) (str_cell 1) 0 \<noteq> arg (te_heap walk_env) (str_cell 4) 0"
  proof -
    have "big_cell 7 \<noteq> big_cell 9" by code_simp
    then show ?thesis using walk_pair_arg [of 1 7] walk_pair_arg [of 4 9] by (simp add: walk_heap_mem walk_cells_def)
  qed
qed

text \<open>C14: groundness.  \<open>is_ground\<close> ends on every finite term that is not the variable at address 0, and answers whether
  the term has no variables.\<close>

theorem is_ground_correct:
  assumes "heap_inv h" "reads (mem h) c t" "t \<noteq> TLeaf 0"
  shows "is_ground h c = ok (tree_ground t)"
proof -
  obtain d where d: "derefs (mem h) c d" "reads0 (mem h) d t" using assms(2) by (auto simp: reads_iff)
  have "d \<noteq> 0"
  proof
    assume "d = 0"
    moreover have "cell_tag 0 = REF_T" by code_simp
    ultimately show False using d(2) assms(3) by (cases t) auto
  qed
  then have "bindR (dfs_first_loop h [] d) (ground_loop h) = (if tree_ground t then ground_after h d [] else ok False)"
    using ground_first [OF assms(1) d(2)] by simp
  moreover have "ground_after h d [] = ok True"
    by (simp add: dfs_advance_def) (subst ground_loop.simps, simp add: dfs_eq_def dfs_end_def)
  ultimately show ?thesis by (simp add: is_ground_def dfs_begin_def dfs_first_of_def deref_derefs [OF assms(1) d(1)])
qed

theorem is_ground_correct_witness: "is_ground walk_heap (str_cell 11) = ok True"
  using is_ground_correct [OF walk_heap_inv walk_lists(1)] by simp

text \<open>C16: groundness of the variable at address 0.  Its cell is the raw value of the end iterator, so the loop over its
  elements is empty and it counts as ground.\<close>

theorem is_ground_address_zero:
  assumes "heap_inv h" "mem h 0 = Some (ref_cell 0)"
  shows "deref h (ref_cell 0) = ok (ref_cell 0) \<and> is_ref (cell_tag (ref_cell 0)) \<and> is_ground h (ref_cell 0) = ok True"
proof -
  have z: "ref_cell 0 = 0" by code_simp
  have d: "deref h (ref_cell 0) = ok (ref_cell 0)"
    using assms by (intro deref_derefs derefs.unbound) (simp_all add: small_addr)
  have "dfs_begin h (ref_cell 0) = ok dfs_end"
    unfolding dfs_begin_def dfs_first_of_def d by (simp add: dfs_first_loop.simps dfs_end_def) (simp add: z)
  moreover have "ground_loop h dfs_end = ok True" by (subst ground_loop.simps) (simp add: dfs_eq_def)
  ultimately show ?thesis using d by (simp add: is_ground_def)
qed

theorem is_ground_address_zero_witness: "deref walk_heap (ref_cell 0) = ok (ref_cell 0) \<and> is_ground walk_heap (ref_cell 0) = ok True"
proof -
  have "mem walk_heap 0 = Some (ref_cell 0)" by (simp add: walk_heap_mem walk_cells_def)
  then show ?thesis using is_ground_address_zero [OF walk_heap_inv] by blast
qed

text \<open>C13: strings.  A string of ASCII characters that is made a list reads back, is recognised as a string, and making
  it changes no existing cell.\<close>

theorem string_list_roundtrip:
  assumes "heap_inv h" "\<forall>c\<in>set str. ascii c" "hp_size h + length str * (MAX_SIZE + 4) < addr_limit"
  shows "\<exists>h' lst. string_to_list h str = ok (h', lst) \<and> heap_inv h' \<and> (\<forall>x<hp_size h. mem h' x = mem h x) \<and>
    utils_list_to_string h' lst = ok str \<and> utils_is_string h' lst = ok True"
proof -
  have "reads (mem h) EMPTY_LIST (list_tree [])" "derefs (mem h) EMPTY_LIST EMPTY_LIST" by (simp_all add: reads_leaf_simps derefs.nonref)
  then obtain h' l where l: "string_to_list_loop h (rev str) EMPTY_LIST = ok (h', l)" "heap_ext h h'"
    "reads (mem h') l (list_tree (map char_tree str))" "derefs (mem h') l l"
    using string_to_list_loop_spec [of "rev str" h False EMPTY_LIST "[]"] assms by auto
  have "reads0 (mem h') l (list_tree (map char_tree str))" using l(3,4) derefs_unique unfolding reads_iff by blast
  then have "list_to_string h' l [] = ok str \<and> utils_is_string h' l = ok True"
    using string_functions_spec [OF heap_extD(1) [OF l(2)] assms(2), of False l "[]"] by simp
  then show ?thesis using l heap_extD by (auto simp: string_to_list_def utils_list_to_string_def)
qed

theorem string_list_roundtrip_witness:
  "\<exists>h' lst. string_to_list walk_heap ''abc'' = ok (h', lst) \<and> utils_list_to_string h' lst = ok ''abc'' \<and> utils_is_string h' lst = ok True"
proof -
  have "\<forall>c\<in>set ''abc''. ascii c" by (simp add: ascii_def)
  moreover have "hp_size walk_heap + length ''abc'' * (MAX_SIZE + 4) < addr_limit"
    by (simp add: walk_heap_def MAX_SIZE_def addr_limit_def)
  ultimately show ?thesis using string_list_roundtrip [OF walk_heap_inv] by blast
qed

end
