(* ===== verification/Serializer.thy ===== *)
theory Serializer
  imports Term_Env
begin

section \<open>The term serializer\<close>

text \<open>
  The class \<open>term_serializer\<close> of \<^verbatim>\<open>src/src/common/term_serializer.hpp\<close> and \<^verbatim>\<open>term_serializer.cpp\<close>: a term becomes a
  sequence of bytes, eight per cell, with a header that names the constants and variables; reading appends the cells
  to the heap, patches their addresses, and checks the integrity of what was read.
  The exceptions keep the cells and offsets of their messages.  Offsets in messages are computed in \<open>size_t\<close>.
\<close>

datatype ser_error =
    Env term_error
  | Unexpected_data cell nat
  | Unexpected_end nat
  | Unsupported_version cell
  | Missing_index cell
  | Dangling_pointer cell u64
  | Illegal_functor cell u64 cell u64
  | Illegal_dat cell u64 cell u64
  | Missing_argument cell u64 cell u64
  | Erroneous_argument cell u64 cell u64
  | Dat_too_small cell nat
  | Dat_too_big cell nat nat
  | Self_reference cell u64
  | Cyclic_reference cell u64 "cell list"
  | Length_error

type_synonym 'a sres = "(ser_error, 'a) res"
type_synonym buffer = "u8 list"

text \<open>An exception of the environment passes through the serializer.\<close>

definition env_op :: "'a tres \<Rightarrow> 'a sres" where
  "env_op r = map_option (map_sum Env id) r"

lemma env_op_simps [simp]: "env_op (ok x) = ok x" "env_op (throw e) = throw (Env e)" "env_op None = None"
  by (simp_all add: env_op_def)

lemma env_op_mono [partial_function_mono]: "mono_option F \<Longrightarrow> mono_option (\<lambda>f. env_op (F f))"
  unfolding env_op_def monotone_def flat_ord_def fun_ord_def by (metis map_option_is_None)

subsection \<open>Cells in a buffer\<close>

primrec read_cell_loop :: "buffer \<Rightarrow> nat \<Rightarrow> nat \<Rightarrow> u64 \<Rightarrow> u64" where
  "read_cell_loop bytes offset 0 raw = raw"
| "read_cell_loop bytes offset (Suc n) raw = read_cell_loop bytes offset n (push_bit 8 raw OR ucast (bytes ! (offset + n)))"

definition read_cell :: "buffer \<Rightarrow> nat \<Rightarrow> cell sres" where
  "read_cell bytes offset =
     (if offset + 8 > length bytes then throw (Unexpected_end offset) else ok (read_cell_loop bytes offset 8 0))"

primrec write_cell_loop :: "buffer \<Rightarrow> nat \<Rightarrow> u64 \<Rightarrow> nat \<Rightarrow> buffer" where
  "write_cell_loop bytes offset v 0 = bytes"
| "write_cell_loop bytes offset v (Suc n) = write_cell_loop (bytes[offset := ucast (v AND 0xff)]) (Suc offset) (drop_bit 8 v) n"

definition write_cell :: "buffer \<Rightarrow> nat \<Rightarrow> cell \<Rightarrow> buffer sres" where
  "write_cell bytes offset c =
     (let bytes = (if offset = length bytes then bytes @ replicate 8 0 else bytes) in
      if offset + 8 \<le> length bytes then ok (write_cell_loop bytes offset c 8) else throw (Env Undefined_behaviour))"

definition cell_count :: "nat \<Rightarrow> nat" where
  "cell_count offset = offset div 8"

subsection \<open>The index of terms\<close>

type_synonym indexor = "cell \<Rightarrow> nat option"

definition index_term :: "indexor \<Rightarrow> cell \<Rightarrow> nat \<Rightarrow> nat \<times> indexor" where
  "index_term ix t new_id = (case ix t of None \<Rightarrow> (new_id, ix(t \<mapsto> new_id)) | Some i \<Rightarrow> (i, ix))"

definition is_indexed :: "indexor \<Rightarrow> cell \<Rightarrow> bool" where
  "is_indexed ix t \<longleftrightarrow> ix t \<noteq> None"

definition remapped_term :: "indexor \<Rightarrow> cell \<Rightarrow> nat \<Rightarrow> (cell \<times> indexor) sres" where
  "remapped_term ix t count = (case cell_tag t of
       RFW_T \<Rightarrow> (case index_term ix (unwatch t) count of (i, ix) \<Rightarrow> ok (ptr_cell REF_T i, ix))
     | REF_T \<Rightarrow> (case index_term ix t count of (i, ix) \<Rightarrow> ok (ptr_cell REF_T i, ix))
     | BIG_T \<Rightarrow> (case index_term ix t count of (i, ix) \<Rightarrow> ok (ptr_cell BIG_T i, ix))
     | STR_T \<Rightarrow> (case index_term ix t count of (i, ix) \<Rightarrow> ok (ptr_cell STR_T i, ix))
     | CON_T \<Rightarrow> (if is_direct t then ok (t, ix)
         else (case index_term ix (to_atom t) count of (i, ix) \<Rightarrow> ok (con_cell_index i (arity t), ix)))
     | INT_T \<Rightarrow> ok (t, ix)
     | _ \<Rightarrow> throw (Env Assertion_failed))"

subsection \<open>Writing\<close>

record writer =
  bytes :: buffer
  term_index :: indexor

definition put_cell :: "writer \<Rightarrow> nat \<Rightarrow> cell \<Rightarrow> writer sres" where
  "put_cell w offset c = bindR (write_cell (bytes w) offset c) (\<lambda>b. ok (w\<lparr>bytes := b\<rparr>))"

definition put_remapped :: "writer \<Rightarrow> nat \<Rightarrow> cell \<Rightarrow> nat \<Rightarrow> writer sres" where
  "put_remapped w offset c count = bindR (remapped_term (term_index w) c count) (\<lambda>(c, ix).
     put_cell (w\<lparr>term_index := ix\<rparr>) offset c)"

definition write_con_cell :: "writer \<Rightarrow> nat \<Rightarrow> cell \<Rightarrow> writer sres" where
  "write_con_cell w offset c = (if is_direct c then put_cell w offset c else put_remapped w offset c (cell_count offset))"

definition write_ref_cell :: "writer \<Rightarrow> nat \<Rightarrow> cell \<Rightarrow> writer sres" where
  "write_ref_cell w offset c = put_remapped w offset (unwatch c) (cell_count offset)"

text \<open>A name goes into cells of seven characters; \<open>i\<close> is the position of the next one.\<close>

function write_encoded_loop :: "writer \<Rightarrow> string \<Rightarrow> nat \<Rightarrow> writer sres" where
  "write_encoded_loop w str i =
     (if i < length str then
        (case encode_str str i (i + 7) (i + 7 < length str) of
           None \<Rightarrow> throw (Env Assertion_failed)
         | Some ic \<Rightarrow> bindR (put_cell w (length (bytes w)) ic) (\<lambda>w. write_encoded_loop w str (i + 7)))
      else ok w)"
  by pat_completeness auto
termination
  by (relation "measure (\<lambda>(w, str, i). length str - i)") auto

declare write_encoded_loop.simps [simp del]

definition write_encoded_string :: "writer \<Rightarrow> string \<Rightarrow> writer sres" where
  "write_encoded_string w str = write_encoded_loop w str 0"

definition VER1 :: cell where "VER1 = con_cell_direct ''ver1'' 0"
definition REMAP :: cell where "REMAP = con_cell_direct ''remap'' 0"
definition PAMER :: cell where "PAMER = con_cell_direct ''pamer'' 0"

text \<open>The arguments of a structure, the first one on top: \<open>temp_stack_.push_back(env_.deref(env_.arg(t1, ...)))\<close>.\<close>

primrec header_args :: "heap \<Rightarrow> cell \<Rightarrow> cell list \<Rightarrow> nat \<Rightarrow> cell list tres" where
  "header_args h t tmp 0 = ok tmp"
| "header_args h t tmp (Suc n) = bindR (arg h t n) (\<lambda>a. bindR (deref h a) (\<lambda>a. header_args h t (a # tmp) n))"

text \<open>One round of the header loop on the writer, the stack and the set of terms seen.\<close>

definition header_round :: "tenv \<Rightarrow> writer \<times> cell list \<times> cell list \<Rightarrow> (writer \<times> cell list \<times> cell list) sres" where
  "header_round e = (\<lambda>(w, tmp, seen). case tmp of [] \<Rightarrow> throw (Env Undefined_behaviour) | t # tmp \<Rightarrow>
     bindR (env_op (deref (te_heap e) t)) (\<lambda>t1.
       if cell_tag t1 = CON_T \<or> cell_tag t1 = STR_T then
         bindR (env_op (functor_of (te_heap e) t1)) (\<lambda>f.
         bindR (if \<not> is_direct f \<and> \<not> is_indexed (term_index w) (to_atom f) then
                  bindR (env_op (atom_name (te_heap e) f)) (\<lambda>name.
                  bindR (write_con_cell w (length (bytes w)) f) (\<lambda>w. write_encoded_string w name))
                else ok w) (\<lambda>w.
           if t1 \<in> set seen then ok (w, tmp, seen)
           else if cell_tag t1 = STR_T then
             bindR (env_op (header_args (te_heap e) t1 tmp (arity f))) (\<lambda>tmp. ok (w, tmp, t1 # seen))
           else ok (w, tmp, t1 # seen)))
       else if is_ref (cell_tag t1) then
         (if \<not> is_indexed (term_index w) t1 \<and> has_name (var_naming e) t1 then
            bindR (write_ref_cell w (length (bytes w)) t1) (\<lambda>w.
            bindR (write_encoded_string w (get_name (var_naming e) t1)) (\<lambda>w. ok (w, tmp, seen)))
          else ok (w, tmp, seen))
       else ok (w, tmp, seen)))"

partial_function (option) header_loop :: "tenv \<Rightarrow> writer \<times> cell list \<times> cell list \<Rightarrow> (writer \<times> cell list \<times> cell list) sres" where
  "header_loop e s = (if fst (snd s) = [] then ok s else bindR (header_round e s) (header_loop e))"

definition write_all_header :: "tenv \<Rightarrow> writer \<Rightarrow> cell \<Rightarrow> writer sres" where
  "write_all_header e w t =
     bindR (write_con_cell w (length (bytes w)) VER1) (\<lambda>w.
     bindR (write_con_cell w (length (bytes w)) REMAP) (\<lambda>w.
     bindR (header_loop e (w, [t], [])) (\<lambda>(w, _, _).
       write_con_cell w (length (bytes w)) PAMER)))"

text \<open>The stack of the writer holds offsets with the term to write there; its top is first.\<close>

type_synonym wstack = "(nat \<times> cell) list"

primrec stack_args :: "heap \<Rightarrow> cell \<Rightarrow> nat \<Rightarrow> wstack \<Rightarrow> nat \<Rightarrow> wstack tres" where
  "stack_args h c new_offset st 0 = ok st"
| "stack_args h c new_offset st (Suc n) = bindR (arg h c n) (\<lambda>a. stack_args h c new_offset ((new_offset + n * 8, a) # st) n)"

definition write_str_cell :: "tenv \<Rightarrow> writer \<times> wstack \<Rightarrow> nat \<Rightarrow> cell \<Rightarrow> (writer \<times> wstack) sres" where
  "write_str_cell e = (\<lambda>(w, st) offset c.
     if is_indexed (term_index w) c then bindR (put_remapped w offset c 0) (\<lambda>w. ok (w, st))
     else
       bindR (env_op (functor_of (te_heap e) c)) (\<lambda>f.
       bindR (put_remapped w offset c (cell_count (length (bytes w)))) (\<lambda>w.
       bindR (write_con_cell w (length (bytes w)) f) (\<lambda>w.
         let new_offset = length (bytes w); w = w\<lparr>bytes := bytes w @ replicate (8 * arity f) 0\<rparr> in
         bindR (env_op (stack_args (te_heap e) c new_offset st (arity f))) (\<lambda>st. ok (w, st))))))"

primrec write_dat_loop :: "heap \<Rightarrow> writer \<Rightarrow> nat \<Rightarrow> nat \<Rightarrow> nat \<Rightarrow> writer sres" where
  "write_dat_loop h w offset a 0 = ok w"
| "write_dat_loop h w offset a (Suc n) = bindR (env_op (heap_get h a)) (\<lambda>dc.
     bindR (put_cell w offset dc) (\<lambda>w. write_dat_loop h w (offset + 8) (Suc a) n))"

definition write_big_cell :: "tenv \<Rightarrow> writer \<Rightarrow> nat \<Rightarrow> cell \<Rightarrow> writer sres" where
  "write_big_cell e w offset c =
     (if is_indexed (term_index w) c then put_remapped w offset c 0
      else bindR (put_remapped w offset c (cell_count (length (bytes w)))) (\<lambda>w.
        bindR (env_op (heap_get (te_heap e) (cell_index c))) (\<lambda>dat.
          let offset = length (bytes w); num_dat = num_cells dat; w = w\<lparr>bytes := bytes w @ replicate (8 * num_dat) 0\<rparr> in
          write_dat_loop (te_heap e) w offset (cell_index c) num_dat)))"

definition write_round :: "tenv \<Rightarrow> writer \<times> wstack \<Rightarrow> (writer \<times> wstack) sres" where
  "write_round e = (\<lambda>(w, st). case st of [] \<Rightarrow> throw (Env Undefined_behaviour) | (offset, t) # st \<Rightarrow>
     bindR (env_op (deref (te_heap e) t)) (\<lambda>t1.
       case cell_tag t1 of
         CON_T \<Rightarrow> bindR (write_con_cell w offset t1) (\<lambda>w. ok (w, st))
       | INT_T \<Rightarrow> bindR (put_cell w offset t1) (\<lambda>w. ok (w, st))
       | RFW_T \<Rightarrow> bindR (write_ref_cell w offset (unwatch t1)) (\<lambda>w. ok (w, st))
       | REF_T \<Rightarrow> bindR (write_ref_cell w offset t1) (\<lambda>w. ok (w, st))
       | STR_T \<Rightarrow> write_str_cell e (w, st) offset t1
       | BIG_T \<Rightarrow> bindR (write_big_cell e w offset t1) (\<lambda>w. ok (w, st))
       | _ \<Rightarrow> ok (w, st)))"

partial_function (option) write_loop :: "tenv \<Rightarrow> writer \<times> wstack \<Rightarrow> writer sres" where
  "write_loop e s = (if snd s = [] then ok (fst s) else bindR (write_round e s) (write_loop e))"

text \<open>\<open>write\<close> appends to the bytes of the caller.  The stack is empty when it starts and when it returns.\<close>

definition write_term :: "tenv \<Rightarrow> buffer \<Rightarrow> cell \<Rightarrow> buffer sres" where
  "write_term e b t =
     bindR (write_all_header e \<lparr>bytes = b, term_index = Map.empty\<rparr> t) (\<lambda>w.
       let offset = length (bytes w) in
       bindR (put_cell w offset t) (\<lambda>w.
       bindR (write_loop e (w, [(offset, t)])) (\<lambda>w. ok (bytes w))))"

subsection \<open>Reading\<close>

lemma read_cell_ok: "read_cell bs offset = ok c \<Longrightarrow> offset + 8 \<le> length bs"
  by (simp add: read_cell_def split: if_splits)

text \<open>Encoded names: the offset behind the last chunk is returned with the name.\<close>

function read_encoded_loop :: "buffer \<Rightarrow> nat \<Rightarrow> string \<Rightarrow> (string \<times> nat) sres" where
  "read_encoded_loop bs offset str = bindR (read_cell bs offset) (\<lambda>c.
     if cell_tag c \<noteq> INT_T then throw (Unexpected_data c offset)
     else if \<not> is_char_chunk c then throw (Unexpected_data c offset)
     else let str = str @ as_char_chunk c in
       if is_last_char_chunk c then ok (str, offset + 8) else read_encoded_loop bs (offset + 8) str)"
  by pat_completeness auto
termination
  by (relation "measure (\<lambda>(bs, offset, str). length bs - offset)") (auto dest!: read_cell_ok)

declare read_encoded_loop.simps [simp del]

definition read_encoded_string :: "buffer \<Rightarrow> nat \<Rightarrow> (string \<times> nat) sres" where
  "read_encoded_string bs offset = read_encoded_loop bs offset []"

record reader =
  renv :: tenv
  rindex :: indexor
  new_to_old :: "cell \<Rightarrow> cell option"

definition read_index :: "reader \<Rightarrow> buffer \<Rightarrow> nat \<Rightarrow> cell \<Rightarrow> (reader \<times> nat) sres" where
  "read_index r bs offset c = bindR (read_encoded_string bs offset) (\<lambda>(name, offset).
     case cell_tag c of
       CON_T \<Rightarrow> (case resolve_atom_index (te_heap (renv r)) name of (h, i) \<Rightarrow>
         ok (r\<lparr>renv := (renv r)\<lparr>te_heap := h\<rparr>, rindex := snd (index_term (rindex r) (to_atom c) i)\<rparr>, offset))
     | REF_T \<Rightarrow> bindR (env_op (new_ref (te_heap (renv r)))) (\<lambda>(h, ref).
         ok (r\<lparr>renv := (renv r)\<lparr>te_heap := h, var_naming := set_name (var_naming (renv r)) ref name\<rparr>,
               rindex := snd (index_term (rindex r) c (cell_index ref))\<rparr>, offset))
     | _ \<Rightarrow> ok (r, offset))"

lemma read_encoded_loop_offset: "read_encoded_loop bs offset str = ok (s, offset') \<Longrightarrow> offset < offset' \<and> offset' \<le> length bs"
proof (induction bs offset str rule: read_encoded_loop.induct)
  case (1 bs offset str)
  from 1(2) obtain c where c: "read_cell bs offset = ok c" "cell_tag c = INT_T" "is_char_chunk c"
    "(if is_last_char_chunk c then ok (str @ as_char_chunk c, offset + 8) else read_encoded_loop bs (offset + 8) (str @ as_char_chunk c)) = ok (s, offset')"
    by (subst (asm) read_encoded_loop.simps) (auto simp: bindR_ok_iff Let_def split: if_splits)
  then show ?case
    using 1(1) [OF c(1)] read_cell_ok [OF c(1)] by (cases "is_last_char_chunk c") auto
qed

lemma read_index_offset: "read_index r bs offset c = ok (r', offset') \<Longrightarrow> offset < offset' \<and> offset' \<le> length bs"
  by (cases "cell_tag c")
    (auto simp: read_index_def read_encoded_string_def bindR_ok_iff case_prod_beta dest!: read_encoded_loop_offset)

function remap_loop :: "reader \<Rightarrow> buffer \<Rightarrow> nat \<Rightarrow> (reader \<times> nat) sres" where
  "remap_loop r bs offset = bindR (read_cell bs offset) (\<lambda>c.
     let offset = offset + 8 in
     if c = PAMER then ok (r, offset)
     else if cell_tag c = REF_T \<or> cell_tag c = CON_T then
       bindR (read_index r bs offset c) (\<lambda>x. remap_loop (fst x) bs (snd x))
     else throw (Unexpected_data c offset))"
  by pat_completeness auto
termination
  by (relation "measure (\<lambda>(r, bs, offset). length bs - offset)") (auto dest!: read_cell_ok read_index_offset)

declare remap_loop.simps [simp del]

text \<open>The message of the version exception holds the name of the constant, and \<open>con_cell::name\<close> asserts that it is direct.\<close>

definition read_all_header :: "reader \<Rightarrow> buffer \<Rightarrow> nat \<Rightarrow> (reader \<times> nat) sres" where
  "read_all_header r bs offset =
     bindR (read_cell bs offset) (\<lambda>ver.
     if cell_tag ver \<noteq> CON_T then throw (Unexpected_data ver offset)
     else if ver \<noteq> VER1 then throw (if is_direct ver then Unsupported_version ver else Env Assertion_failed)
     else let offset = offset + 8 in
       bindR (read_cell bs offset) (\<lambda>remap.
       if cell_tag remap \<noteq> CON_T then throw (Unexpected_data remap offset)
       else if remap \<noteq> REMAP then throw (Unexpected_data remap offset)
       else remap_loop r bs (offset + 8)))"

text \<open>\<open>used\<close> is a vector of bits relative to \<open>heap_start\<close>.  An address below \<open>heap_start\<close> wraps around and asks for
  more bits than a vector can hold, except that for the address just below \<open>heap_start\<close> the new size wraps around to 0
  and the bit is then written outside the vector.\<close>

definition set_used :: "nat \<Rightarrow> bool list \<Rightarrow> nat \<Rightarrow> bool list sres" where
  "set_used heap_start used heap_index =
     (if heap_index < heap_start then throw (if heap_index + 1 = heap_start then Env Undefined_behaviour else Length_error)
      else let rel = heap_index - heap_start in
        ok ((used @ replicate (rel + 1 - length used) False)[rel := True]))"

definition is_used :: "nat \<Rightarrow> bool list \<Rightarrow> nat \<Rightarrow> bool" where
  "is_used heap_start used heap_index \<longleftrightarrow> heap_start \<le> heap_index \<and> heap_index - heap_start < length used \<and> used ! (heap_index - heap_start)"

record body =
  rd :: reader
  ptr_terms :: "nat list"
  old_new_index :: "nat \<Rightarrow> nat option"
  used :: "bool list"
  num_dat :: nat
  result_index :: "nat option"

definition alloc_cell :: "body \<Rightarrow> cell \<Rightarrow> (body \<times> nat) sres" where
  "alloc_cell b c = bindR (env_op (new_cell0 (te_heap (renv (rd b))) c True)) (\<lambda>(h, i).
     ok (b\<lparr>rd := (rd b)\<lparr>renv := (renv (rd b))\<lparr>te_heap := h\<rparr>\<rparr>\<rparr>, i))"

definition map_old :: "body \<Rightarrow> cell \<Rightarrow> cell \<Rightarrow> body" where
  "map_old b new old = b\<lparr>rd := (rd b)\<lparr>new_to_old := (new_to_old (rd b))(new \<mapsto> old)\<rparr>\<rparr>"

definition read_con :: "body \<Rightarrow> bool \<Rightarrow> cell \<Rightarrow> (body \<times> nat, cell) loop_step sres" where
  "read_con b single_cell c =
     (if is_direct c then
        (if single_cell \<and> c = EMPTY_LIST then ok (Return c)
         else bindR (alloc_cell b c) (\<lambda>x. ok (Continue x)))
      else (case rindex (rd b) (to_atom c) of
          None \<Rightarrow> throw (Missing_index (to_atom c))
        | Some i \<Rightarrow> (let newcon = con_cell_index i (arity c) in
            bindR (alloc_cell b newcon) (\<lambda>(b, i). ok (Continue (map_old b newcon c, i))))))"

definition read_ptr :: "body \<Rightarrow> nat \<Rightarrow> cell \<Rightarrow> (body \<times> nat) sres" where
  "read_ptr b old_hdr c =
     bindR (if cell_index c < old_hdr then
              (case rindex (rd b) c of None \<Rightarrow> throw (Missing_index c) | Some i \<Rightarrow> ok (i, False))
            else ok (cell_index c - old_hdr, True)) (\<lambda>(new_addr, needs_patching).
       let new_cell = ptr_cell (cell_tag c) new_addr in
       bindR (alloc_cell b new_cell) (\<lambda>(b, i).
         let b = (if needs_patching then b\<lparr>ptr_terms := ptr_terms b @ [i]\<rparr> else b)
         in ok (map_old b new_cell c, i)))"

definition read_dat :: "body \<Rightarrow> nat \<Rightarrow> nat \<Rightarrow> cell \<Rightarrow> (body \<times> nat) sres" where
  "read_dat b offset n c =
     (if num_bits c < 1 \<or> num_cells c = 0 then throw (Dat_too_small c offset)
      else if offset + num_cells c * 8 > n then throw (Dat_too_big c offset n)
      else bindR (alloc_cell b c) (\<lambda>(b, i). ok (b\<lparr>num_dat := num_cells c - 1\<rparr>, i)))"

text \<open>One round at \<open>offset\<close>; \<open>base\<close> is where the header started and \<open>hdr_size\<close> the number of its bytes.\<close>

definition read_round :: "buffer \<Rightarrow> nat \<Rightarrow> nat \<Rightarrow> nat \<Rightarrow> nat \<Rightarrow> bool \<Rightarrow> body \<Rightarrow> nat \<Rightarrow> (body, cell) loop_step sres" where
  "read_round bs n heap_start base hdr_size single_cell b offset = bindR (read_cell bs offset) (\<lambda>c.
     if num_dat b > 0 then
       bindR (env_op (new_dat_cell (te_heap (renv (rd b))) c)) (\<lambda>h.
         ok (Continue (b\<lparr>rd := (rd b)\<lparr>renv := (renv (rd b))\<lparr>te_heap := h\<rparr>\<rparr>, num_dat := num_dat b - 1\<rparr>)))
     else
       bindR (case cell_tag c of
           INT_T \<Rightarrow> bindR (alloc_cell b c) (\<lambda>x. ok (Continue x))
         | CON_T \<Rightarrow> read_con b single_cell c
         | RFW_T \<Rightarrow> bindR (read_ptr b (cell_count (base + hdr_size)) (unwatch c)) (\<lambda>x. ok (Continue x))
         | BIG_T \<Rightarrow> bindR (read_ptr b (cell_count (base + hdr_size)) c) (\<lambda>x. ok (Continue x))
         | REF_T \<Rightarrow> bindR (read_ptr b (cell_count (base + hdr_size)) c) (\<lambda>x. ok (Continue x))
         | STR_T \<Rightarrow> bindR (read_ptr b (cell_count (base + hdr_size)) c) (\<lambda>x. ok (Continue x))
         | DAT_T \<Rightarrow> bindR (read_dat b offset n c) (\<lambda>x. ok (Continue x))
         | FWD_T \<Rightarrow> ok (Continue (b, 0))) (\<lambda>s. case s of Return t \<Rightarrow> ok (Return t) | Continue x \<Rightarrow>
         bindR (set_used heap_start (used (fst x)) (snd x)) (\<lambda>u.
           ok (Continue ((fst x)\<lparr>used := u, old_new_index := (old_new_index (fst x))((offset - base - hdr_size) div 8 \<mapsto> snd x),
             result_index := (case result_index (fst x) of None \<Rightarrow> Some (snd x) | Some r \<Rightarrow> Some r)\<rparr>)))))"

lemma read_round_ok: "read_round bs n hs base hdr sc b offset = ok x \<Longrightarrow> offset + 8 \<le> length bs"
  by (auto simp: read_round_def bindR_ok_iff dest: read_cell_ok)

function read_loop :: "buffer \<Rightarrow> nat \<Rightarrow> nat \<Rightarrow> nat \<Rightarrow> nat \<Rightarrow> bool \<Rightarrow> body \<Rightarrow> nat \<Rightarrow> (body, cell) loop_step sres" where
  "read_loop bs n heap_start base hdr_size single_cell b offset =
     (if offset < n then
        bindR (read_round bs n heap_start base hdr_size single_cell b offset) (\<lambda>s. case s of
            Return t \<Rightarrow> ok (Return t)
          | Continue b \<Rightarrow> read_loop bs n heap_start base hdr_size single_cell b (offset + 8))
      else ok (Continue b))"
  by pat_completeness auto
termination
  by (relation "measure (\<lambda>(bs, n, hs, base, hdr, sc, b, offset). n - offset)") auto

declare read_loop.simps [simp del]

primrec patch_loop :: "heap \<Rightarrow> (nat \<Rightarrow> nat option) \<Rightarrow> nat \<Rightarrow> nat list \<Rightarrow> heap tres" where
  "patch_loop h old_new old_hdr [] = ok h"
| "patch_loop h old_new old_hdr (tindex # rest) = bindR (heap_get h tindex) (\<lambda>c.
     let new_index = (case old_new (cell_index c) of None \<Rightarrow> cell_index c + old_hdr | Some i \<Rightarrow> i) in
     bindR (heap_set h tindex (set_index c new_index)) (\<lambda>h. patch_loop h old_new old_hdr rest))"

text \<open>The inner \<open>read\<close> from \<open>offset\<close>; it returns the reader, the term, the bits and the header sizes.\<close>

definition read_from :: "tenv \<Rightarrow> buffer \<Rightarrow> nat \<Rightarrow> nat \<Rightarrow> nat \<Rightarrow> (reader \<times> cell \<times> bool list \<times> nat \<times> nat) sres" where
  "read_from e bs n heap_start offset =
     (let base = offset; new_addr_base = hp_size (te_heap e) in
      bindR (read_all_header \<lparr>renv = e, rindex = Map.empty, new_to_old = Map.empty\<rparr> bs offset) (\<lambda>(r, offset).
        let hdr_size = offset - base;
            new_hdr_size = hp_size (te_heap (renv r)) - new_addr_base;
            b = \<lparr>rd = r, ptr_terms = [], old_new_index = Map.empty, used = [], num_dat = 0, result_index = None\<rparr> in
        bindR (read_loop bs n heap_start base hdr_size (offset + 8 = n) b offset) (\<lambda>s. case s of
            Return t \<Rightarrow> ok (r, t, [], hdr_size, new_hdr_size)
          | Continue b \<Rightarrow>
              bindR (env_op (patch_loop (te_heap (renv (rd b))) (old_new_index b) (cell_count (base + hdr_size)) (ptr_terms b))) (\<lambda>h.
              bindR (env_op (heap_get h (case result_index b of None \<Rightarrow> 0 | Some i \<Rightarrow> i))) (\<lambda>t.
                ok ((rd b)\<lparr>renv := (renv (rd b))\<lparr>te_heap := h\<rparr>\<rparr>, t, used b, hdr_size, new_hdr_size))))))"

subsection \<open>The integrity check\<close>

record check_ctx =
  c_heap :: heap
  c_start :: nat
  c_end :: nat
  old_hdr_size :: nat
  new_hdr_size :: nat
  c_new_to_old :: "cell \<Rightarrow> cell option"
  c_used :: "bool list"

definition compute_old_index :: "check_ctx \<Rightarrow> nat \<Rightarrow> u64" where
  "compute_old_index k heap_index =
     of_nat heap_index - of_nat (c_start k) - of_nat (new_hdr_size k) + of_nat (cell_count (old_hdr_size k))"

definition compute_old_offset :: "check_ctx \<Rightarrow> nat \<Rightarrow> u64" where
  "compute_old_offset k heap_index = compute_old_index k heap_index * 8"

definition compute_old_cell :: "check_ctx \<Rightarrow> cell \<Rightarrow> cell" where
  "compute_old_cell k new_cell = (case c_new_to_old k new_cell of Some c \<Rightarrow> c | None \<Rightarrow> new_cell)"

definition check_pointer :: "check_ctx \<Rightarrow> cell \<Rightarrow> nat \<Rightarrow> unit sres" where
  "check_pointer k p heap_index =
     (if cell_index p < c_start k \<or> c_end k \<le> cell_index p
      then throw (Dangling_pointer (compute_old_cell k p) (compute_old_offset k heap_index)) else ok ())"

definition check_bignum :: "check_ctx \<Rightarrow> cell \<Rightarrow> nat \<Rightarrow> unit sres" where
  "check_bignum k p heap_index = bindR (env_op (heap_get (c_heap k) (cell_index p))) (\<lambda>c.
     if cell_tag c \<noteq> DAT_T
     then throw (Illegal_dat (compute_old_cell k c) (compute_old_offset k (cell_index p)) (compute_old_cell k p) (compute_old_offset k heap_index))
     else ok ())"

definition check_str_functor :: "check_ctx \<Rightarrow> cell \<Rightarrow> nat \<Rightarrow> unit sres" where
  "check_str_functor k p heap_index = bindR (env_op (heap_get (c_heap k) (cell_index p))) (\<lambda>c.
     if cell_tag c \<noteq> CON_T
     then throw (Illegal_functor (compute_old_cell k c) (compute_old_offset k (cell_index p)) (compute_old_cell k p) (compute_old_offset k heap_index))
     else ok ())"

definition legal_argument :: "cell \<Rightarrow> bool" where
  "legal_argument c \<longleftrightarrow> cell_tag c \<in> {REF_T, RFW_T, INT_T, STR_T, BIG_T} \<or> cell_tag c = CON_T \<and> arity c = 0"

text \<open>The arguments from \<open>a\<close> on; \<open>n\<close> are left.\<close>

primrec check_args_loop :: "check_ctx \<Rightarrow> cell \<Rightarrow> nat \<Rightarrow> nat \<Rightarrow> nat \<Rightarrow> unit sres" where
  "check_args_loop k p heap_index a 0 = ok ()"
| "check_args_loop k p heap_index a (Suc n) = bindR (env_op (heap_get (c_heap k) a)) (\<lambda>c.
     if legal_argument c then check_args_loop k p heap_index (Suc a) n
     else throw (Erroneous_argument (compute_old_cell k c) (compute_old_offset k a) (compute_old_cell k p) (compute_old_offset k heap_index)))"

definition check_functor_args :: "check_ctx \<Rightarrow> cell \<Rightarrow> nat \<Rightarrow> unit sres" where
  "check_functor_args k p heap_index = bindR (env_op (heap_get (c_heap k) (cell_index p))) (\<lambda>f.
     if c_end k \<le> cell_index p + arity f
     then throw (Missing_argument (compute_old_cell k f) (compute_old_offset k (cell_index p)) (compute_old_cell k p) (compute_old_offset k heap_index))
     else check_args_loop k p heap_index (cell_index p + 1) (arity f))"

text \<open>The path of a cyclic reference as the list of the cells the message shows.\<close>

partial_function (option) path_loop :: "check_ctx \<Rightarrow> nat \<Rightarrow> nat \<Rightarrow> cell list \<Rightarrow> cell list sres" where
  "path_loop k i stop path = bindR (env_op (heap_get (c_heap k) i)) (\<lambda>c.
     if i \<noteq> stop then path_loop k (cell_index c) stop (path @ [compute_old_cell k c])
     else ok (path @ [compute_old_cell k c]))"

definition compute_path :: "check_ctx \<Rightarrow> nat \<Rightarrow> nat \<Rightarrow> cell list sres" where
  "compute_path k start stop = bindR (path_loop k start stop []) (\<lambda>path.
     bindR (env_op (heap_get (c_heap k) start)) (\<lambda>c. ok (path @ [compute_old_cell k c])))"

text \<open>\<open>check_ref_chain\<close> returns the addresses checked so far; \<open>visit\<close> are those on the chain.\<close>

partial_function (option) ref_chain_loop :: "check_ctx \<Rightarrow> cell \<Rightarrow> nat \<Rightarrow> nat \<Rightarrow> nat list \<Rightarrow> nat list \<Rightarrow> nat list sres" where
  "ref_chain_loop k refcell heap_index index checked visit = bindR (env_op (heap_get (c_heap k) index)) (\<lambda>c.
     if is_ref (cell_tag c) then
       bindR (check_pointer k c index) (\<lambda>_.
         let visit = index # visit in
         if index \<in> set checked \<or> cell_index c = index then ok (visit @ checked)
         else if cell_index c \<in> set visit then
           bindR (compute_path k heap_index index) (\<lambda>path.
             throw (Cyclic_reference (compute_old_cell k refcell) (compute_old_offset k heap_index) path))
         else ref_chain_loop k refcell heap_index (cell_index c) checked visit)
     else ok checked)"

definition check_ref_chain :: "check_ctx \<Rightarrow> cell \<Rightarrow> nat \<Rightarrow> nat list \<Rightarrow> nat list sres" where
  "check_ref_chain k refcell heap_index checked = ref_chain_loop k refcell heap_index heap_index checked []"

text \<open>What is checked at address \<open>i\<close>: the addresses checked so far and the next address are returned.\<close>

definition check_cell :: "check_ctx \<Rightarrow> nat \<Rightarrow> nat list \<Rightarrow> (nat list \<times> nat) sres" where
  "check_cell k i checked = bindR (env_op (heap_get (c_heap k) i)) (\<lambda>c.
     case cell_tag c of
       DAT_T \<Rightarrow> ok (checked, i + num_cells c)
     | BIG_T \<Rightarrow> bindR (check_pointer k c i) (\<lambda>_. bindR (check_bignum k c i) (\<lambda>_. ok (checked, i + 1)))
     | STR_T \<Rightarrow> bindR (check_pointer k c i) (\<lambda>_. bindR (check_str_functor k c i) (\<lambda>_.
         bindR (check_functor_args k c i) (\<lambda>_. ok (checked, i + 1))))
     | REF_T \<Rightarrow> bindR (check_ref_chain k c i checked) (\<lambda>checked. ok (checked, i + 1))
     | RFW_T \<Rightarrow> bindR (check_ref_chain k c i checked) (\<lambda>checked. ok (checked, i + 1))
     | _ \<Rightarrow> ok (checked, i + 1))"

lemma check_cell_next: "check_cell k i checked = ok (checked', j) \<Longrightarrow> i < j"
proof -
  assume "check_cell k i checked = ok (checked', j)"
  then obtain c where c: "env_op (heap_get (c_heap k) i) = ok c" "check_cell k i checked = ok (checked', j)"
    by (auto simp: check_cell_def bindR_ok_iff)
  then show ?thesis by (cases "cell_tag c") (auto simp: check_cell_def bindR_ok_iff)
qed

function check_loop :: "check_ctx \<Rightarrow> nat \<Rightarrow> nat list \<Rightarrow> unit sres" where
  "check_loop k i checked =
     (if i < c_end k then
        (if i \<in> set checked \<or> \<not> is_used (c_start k) (c_used k) i then check_loop k (i + 1) checked
         else bindR (check_cell k i checked) (\<lambda>x. check_loop k (snd x) (fst x)))
      else ok ())"
  by pat_completeness auto
termination
  by (relation "measure (\<lambda>(k, i, checked). c_end k - i)") (auto dest!: check_cell_next)

declare check_loop.simps [simp del]

definition integrity_check :: "check_ctx \<Rightarrow> unit sres" where
  "integrity_check k = check_loop k (c_start k) []"

definition read_term :: "tenv \<Rightarrow> buffer \<Rightarrow> nat \<Rightarrow> (tenv \<times> cell) sres" where
  "read_term e bs n =
     (let heap_start = hp_size (te_heap e) in
      bindR (read_from e bs n heap_start 0) (\<lambda>(r, t, used, old_hdr_size, new_hdr_size).
        bindR (integrity_check \<lparr>c_heap = te_heap (renv r), c_start = heap_start, c_end = hp_size (te_heap (renv r)),
            old_hdr_size = old_hdr_size, new_hdr_size = new_hdr_size, c_new_to_old = new_to_old r, c_used = used\<rparr>) (\<lambda>_.
          ok (renv r, t))))"

definition read_all :: "tenv \<Rightarrow> buffer \<Rightarrow> (tenv \<times> cell) sres" where
  "read_all e bs = read_term e bs (length bs)"

end
