(* ===== verification/Serializer_Cells.thy ===== *)
theory Serializer_Cells
  imports Serializer
begin

section \<open>Buffers of cells\<close>

text \<open>
  The serializer's readers and writers of cells are those of 64-bit little-endian integers, so the buffers the
  serializer produces are sequences of the codec \<open>uint64_codec\<close>.
\<close>

lemma bit_read_cell_loop:
  "i < 64 \<Longrightarrow> bit (read_cell_loop bs k m raw) i \<longleftrightarrow> (if i < 8 * m then bit (bs ! (k + i div 8)) (i mod 8) else bit raw (i - 8 * m))"
proof (induction m arbitrary: raw)
  case (Suc m)
  consider "i < 8 * m" | "8 * m \<le> i" "i < 8 * Suc m" | "8 * Suc m \<le> i" by linarith
  then show ?case
  proof cases
    case 2
    then have "i div 8 = m" "i mod 8 = i - 8 * m" by (simp_all add: div_nat_eqI modulo_nat_def)
    moreover have "\<not> 8 \<le> i - 8 * m" "i - 8 * m < 64" using 2 Suc.prems by auto
    ultimately show ?thesis using 2 Suc by (simp add: bit_simps)
  next
    case 3
    then have "\<not> i - 8 * m < 8" "i - 8 * m - 8 = i - 8 * Suc m" by simp_all
    then show ?thesis using 3 Suc by (auto simp: bit_simps dest: bit_imp_le_length)
  qed (use Suc in simp)
qed simp

lemma bit_read_uint64:
  assumes "i < 64"
  shows "bit (read_uint64 bs) i \<longleftrightarrow> bit (bs ! (i div 8)) (i mod 8)"
proof -
  have q: "i div 8 = j \<and> i mod 8 = i - 8 * j" if "8 * j \<le> i" "i < 8 * j + 8" for j
    using that by (auto simp: div_nat_eqI modulo_nat_def)
  consider "i < 8" | "8 \<le> i" "i < 16" | "16 \<le> i" "i < 24" | "24 \<le> i" "i < 32"
    | "32 \<le> i" "i < 40" | "40 \<le> i" "i < 48" | "48 \<le> i" "i < 56" | "56 \<le> i" "i < 64"
    using assms by fastforce
  then show ?thesis
    by cases (use q [of 0] q [of 1] q [of 2] q [of 3] q [of 4] q [of 5] q [of 6] q [of 7] in
      \<open>simp_all add: read_uint64_def mask8 bit_or_iff bit_placed_byte bit_placed_byte0 del: push_bit_and\<close>)
qed

lemma read_cell_uint64: "k + 8 \<le> length bs \<Longrightarrow> read_cell bs k = ok (read_uint64 (drop k bs))"
  by (simp add: read_cell_def) (rule bit_word_eqI, simp add: bit_read_cell_loop bit_read_uint64)

lemma bytes_uint64:
  "write_uint64 v = map (\<lambda>i. ucast (drop_bit (8 * i) v AND 0xff)) [0..<8]"
  by (simp add: write_uint64_def upt_rec)

lemma write_cell_loop_spec:
  "k + n \<le> length bs \<Longrightarrow> write_cell_loop bs k v n = take k bs @ map (\<lambda>i. ucast (drop_bit (8 * i) v AND 0xff)) [0..<n] @ drop (k + n) bs"
proof (induction n arbitrary: bs k v)
  case (Suc n)
  let ?f = "\<lambda>v i. ucast (drop_bit (8 * i) v AND 0xff)"
  have "write_cell_loop (bs[k := ucast (v AND 0xff)]) (Suc k) (drop_bit 8 v) n =
      take (Suc k) (bs[k := ucast (v AND 0xff)]) @ map (?f (drop_bit 8 v)) [0..<n] @ drop (Suc k + n) bs"
    using Suc.prems Suc.IH [of "Suc k" "bs[k := ucast (v AND 0xff)]"] by simp
  also have "take (Suc k) (bs[k := ucast (v AND 0xff)]) = take k bs @ [?f v 0]"
    using Suc.prems by (simp add: take_Suc_conv_app_nth)
  also have "map (?f (drop_bit 8 v)) [0..<n] = map (?f v) [1..<Suc n]"
    unfolding One_nat_def map_Suc_upt [symmetric] by (simp add: comp_def add.commute)
  finally show ?case by (simp add: upt_conv_Cons [of 0 "Suc n"] del: upt_Suc)
qed simp

lemma write_cell_spec: "k + 8 \<le> length bs \<Longrightarrow> write_cell bs k c = ok (take k bs @ write_uint64 c @ drop (k + 8) bs)"
  by (simp add: write_cell_def write_cell_loop_spec bytes_uint64 del: upt_Suc)

lemma write_cell_end: "write_cell bs (length bs) c = ok (bs @ write_uint64 c)"
  by (simp add: write_cell_def write_cell_loop_spec bytes_uint64 del: upt_Suc)

subsection \<open>Sequences of cells\<close>

abbreviation cells :: "cell list \<Rightarrow> buffer" where
  "cells \<equiv> uint64_codec.encode_seq"

lemma cells_simps [simp]: "length (cells cs) = 8 * length cs" "cells (cs @ ds) = cells cs @ cells ds" "cells [] = []" "cells (c # cs) = write_uint64 c @ cells cs"
  by (simp_all add: uint64_codec.encode_seq_length uint64_codec.encode_seq_append) (simp_all add: uint64_codec.encode_seq_def)

lemma read_cells: "i < length cs \<Longrightarrow> read_cell (cells cs) (8 * i) = ok (cs ! i)"
  using uint64_codec.decode_nth [of i cs "[]"] by (simp add: read_cell_uint64)

lemma read_cells_end: "length cs \<le> i \<Longrightarrow> read_cell (cells cs) (8 * i) = throw (Unexpected_end (8 * i))"
  by (simp add: read_cell_def)

lemma write_cells_end: "write_cell (cells cs) (8 * length cs) c = ok (cells (cs @ [c]))"
  using write_cell_end [of "cells cs" c] by simp

lemma write_cells: "i < length cs \<Longrightarrow> write_cell (cells cs) (8 * i) c = ok (cells (cs[i := c]))"
proof -
  assume i: "i < length cs"
  then have cs: "cs = take i cs @ cs ! i # drop (Suc i) cs" by (simp add: id_take_nth_drop)
  have "take (8 * i) (cells cs) = cells (take i cs)" "drop (8 * i + 8) (cells cs) = cells (drop (Suc i) cs)"
    by (subst (1) cs, use i in simp)+
  then show ?thesis using i write_cell_spec [of "8 * i" "cells cs" c] by (simp add: upd_conv_take_nth_drop)
qed

text \<open>\<open>bytes.resize\<close> appends zero cells.\<close>

lemma cells_zeros: "replicate (8 * n) 0 = cells (replicate n 0)"
proof (induction n)
  case (Suc n)
  have "write_uint64 0 = replicate 8 0" by (simp add: write_uint64_def numeral_eq_Suc)
  then show ?case using Suc replicate_add [of 8 "8 * n" "0 :: u8"] by simp
qed simp

end
