(* ===== verification/Serializer_Read.thy ===== *)
theory Serializer_Read
  imports Serializer_Cells Unify
begin

section \<open>Reading any sequence of bytes\<close>

text \<open>
  What reading does on every sequence of bytes, not only on those that were written by the serializer: it ends, it
  has no undefined behaviour when the cells fit in the current heap block, it keeps the cells that were there, and what
  the integrity check accepts is a region of well-formed cells.
\<close>

subsection \<open>A logic for results\<close>

text \<open>\<open>returns m E P\<close>: the computation \<open>m\<close> ends, with an exception in \<open>E\<close> or with a result in \<open>P\<close>.\<close>

definition returns :: "('e, 'a) res \<Rightarrow> ('e \<Rightarrow> bool) \<Rightarrow> ('a \<Rightarrow> bool) \<Rightarrow> bool" where
  "returns m E P \<longleftrightarrow> (case m of None \<Rightarrow> False | Some (Inl e) \<Rightarrow> E e | Some (Inr x) \<Rightarrow> P x)"

lemma returns_simps [simp]: "returns (ok x) E P \<longleftrightarrow> P x" "returns (throw e) E P \<longleftrightarrow> E e" "\<not> returns None E P"
  by (simp_all add: returns_def)

lemma returns_bind: "returns m E Q \<Longrightarrow> (\<And>x. m = ok x \<Longrightarrow> Q x \<Longrightarrow> returns (f x) E P) \<Longrightarrow> returns (bindR m f) E P"
  by (cases m; cases "the m") (auto simp: returns_def)

lemma returns_conseq: "returns m E Q \<Longrightarrow> (\<And>x. m = ok x \<Longrightarrow> Q x \<Longrightarrow> P x) \<Longrightarrow> returns m E P"
  by (cases m; cases "the m") (auto simp: returns_def)

lemma returns_ok: "returns m E P \<Longrightarrow> m = ok x \<Longrightarrow> P x"
  by simp

text \<open>In the strict reading an exception is none of those that stand for undefined behaviour.\<close>

definition harmless :: "bool \<Rightarrow> ser_error \<Rightarrow> bool" where
  "harmless strict err \<longleftrightarrow> (strict \<longrightarrow> err \<noteq> Env Undefined_behaviour \<and> err \<noteq> Env Assertion_failed)"

lemma harmless_simps [simp]:
  "harmless st (Unexpected_data c n)" "harmless st (Unexpected_end n)" "harmless st (Unsupported_version c)" "harmless st (Missing_index c)"
  "harmless st (Dangling_pointer c w)" "harmless st (Illegal_functor c w d v)" "harmless st (Illegal_dat c w d v)"
  "harmless st (Missing_argument c w d v)" "harmless st (Erroneous_argument c w d v)" "harmless st (Dat_too_small c n)"
  "harmless st (Dat_too_big c n k)" "harmless st (Cyclic_reference c w cs)" "harmless st Length_error"
  "harmless st (Env err) \<longleftrightarrow> (st \<longrightarrow> err \<noteq> Undefined_behaviour \<and> err \<noteq> Assertion_failed)"
  by (simp_all add: harmless_def)

lemma read_cell_returns: "returns (read_cell bs offset) (harmless (st \<and> sf)) (\<lambda>c. offset + 8 \<le> length bs)"
  by (simp add: read_cell_def)

subsection \<open>Allocating one cell\<close>

text \<open>\<open>fits n h\<close>: the next \<open>n\<close> cells do not cross the boundary of a block.\<close>

definition fits :: "nat \<Rightarrow> heap \<Rightarrow> bool" where
  "fits n h \<longleftrightarrow> hp_size h mod MAX_SIZE + n \<le> MAX_SIZE"

text \<open>\<open>adds st h0 h\<close>: \<open>h\<close> has the cells of \<open>h0\<close>; when reading strictly, all the cells after them are there too.\<close>

definition adds :: "bool \<Rightarrow> heap \<Rightarrow> heap \<Rightarrow> bool" where
  "adds st h0 h \<longleftrightarrow> heap_inv h \<and> hp_size h0 \<le> hp_size h \<and> (\<forall>x<hp_size h0. mem h x = mem h0 x) \<and>
     (st \<longrightarrow> (\<forall>x. hp_size h0 \<le> x \<and> x < hp_size h \<longrightarrow> mem h x \<noteq> None))"

lemma adds_refl: "heap_inv h \<Longrightarrow> adds st h h"
  by (auto simp: adds_def)

lemma fits_le: "fits n h \<Longrightarrow> k \<le> n \<Longrightarrow> fits k h"
  by (simp add: fits_def)

lemma fits_next: "fits (Suc n) h \<Longrightarrow> hp_size h' = Suc (hp_size h) \<Longrightarrow> fits n h'"
  by (auto simp: fits_def mod_Suc)

lemma ensure_allocate_fits:
  assumes inv: "heap_inv h" and f: "fits n h"
  shows "hp_size (ensure_allocate h n) = hp_size h"
proof (cases "blocks h = []")
  case True
  then have "hp_size h = 0" "head h = None" using head_none [OF inv] by simp_all
  then show ?thesis using True by (simp add: ensure_allocate_def new_block_default_def set_head_block_def new_heap_block_def Let_def)
next
  case False
  note hd = head_some [OF inv False]
  show ?thesis
  proof (cases "hb_size (last (blocks h)) + n \<le> MAX_SIZE")
    case True
    then show ?thesis using hd(1) by (simp add: ensure_allocate_def can_allocate_def)
  next
    case no: False
    have "hb_size (last (blocks h)) = MAX_SIZE"
    proof (rule ccontr)
      assume "hb_size (last (blocks h)) \<noteq> MAX_SIZE"
      then have "hp_size h mod MAX_SIZE = hb_size (last (blocks h))" using hd(4,6) by simp
      then show False using no f by (simp add: fits_def)
    qed
    then have "hp_size h = length (blocks h) * MAX_SIZE" using hd(4) False by (cases "length (blocks h)") simp_all
    then show ?thesis using no hd(1)
      by (simp add: ensure_allocate_def can_allocate_def new_block_default_def set_head_block_def new_heap_block_def Let_def)
  qed
qed

lemma allocate_addr:
  assumes "heap_inv h" "n \<le> MAX_SIZE" "allocate h tag n = ok (h', a)"
  shows "a = hp_size (ensure_allocate h n)"
proof -
  note e = ensure_allocate_spec [OF assms(1,2)]
  note hd = head_some [OF heap_extD(1) [OF e(1)] e(2)]
  show ?thesis using assms(3) hd(1,2,4,5) by (simp add: allocate_def block_allocate_def Let_def bindR_ok_iff split: if_splits prod.splits)
qed

text \<open>\<open>one_more n c h h' a\<close>: \<open>h'\<close> is \<open>h\<close> with the cell \<open>c\<close> at \<open>a\<close>; it is the next address if \<open>n\<close> cells fit.\<close>

definition one_more :: "nat \<Rightarrow> cell \<Rightarrow> heap \<Rightarrow> heap \<Rightarrow> nat \<Rightarrow> bool" where
  "one_more n c h h' a \<longleftrightarrow> heap_ext h h' \<and> hp_size h \<le> a \<and> hp_size h' = Suc a \<and> mem h' a = Some c \<and> (fits n h \<longrightarrow> a = hp_size h)"

lemma allocate_put:
  assumes inv: "heap_inv h"
  obtains h2 h3 a where "allocate h tag 1 = ok (h2, a)" "block_put h2 (the (head_block h2)) a (f a) = ok h3" "one_more 1 (f a) h h3 a"
proof -
  have n: "0 < (1 :: nat)" "1 \<le> MAX_SIZE" by (simp_all add: MAX_SIZE_def)
  obtain h2 a where h2: "allocate h tag 1 = ok (h2, a)" "heap_ext h h2" "hp_size h \<le> a" "hp_size h2 = a + 1"
    "\<And>x. a \<le> x \<Longrightarrow> x < a + 1 \<Longrightarrow> x div MAX_SIZE = the (head_block h2)"
    using allocate_spec [OF inv n] by metis
  obtain h3 where h3: "heap_set h2 a (f a) = ok h3" "heap_inv h3" "same_frame h2 h3" "mem h3 = (mem h2)(a \<mapsto> f a)"
    using heap_set_mem [OF heap_extD(1) [OF h2(2)], of a] h2(4) by auto
  have "heap_ext h h3" using h2(2,3) h3(2-4) by (auto simp: heap_ext_def same_frame_def)
  then have "one_more 1 (f a) h h3 a"
    using h2(3,4) h3(3,4) allocate_addr [OF inv n(2) h2(1)] ensure_allocate_fits [OF inv] by (simp add: one_more_def same_frame_def)
  moreover have "block_put h2 (the (head_block h2)) a (f a) = ok h3" using h2(5) [of a] h3(1) by (simp add: block_put_heap_set)
  ultimately show thesis using h2(1) by (intro that)
qed

lemma new_ref_one:
  assumes inv: "heap_inv h"
  obtains h' a where "new_ref h = ok (h', ref_cell a)" "one_more 1 (ref_cell a) h h' a"
proof -
  obtain h2 h3 a where "allocate h REF_T 1 = ok (h2, a)" "block_put h2 (the (head_block h2)) a (ref_cell a) = ok h3" "one_more 1 (ref_cell a) h h3 a"
    using allocate_put [OF inv, where f = ref_cell] by blast
  then show thesis by (intro that) (simp_all add: new_ref_def set_index_str del: set_index_conv)
qed

lemma new_cell0_one:
  assumes inv: "heap_inv h"
  obtains h' a where "new_cell0 h c tg = ok (h', a)" "one_more (1 + arity c) c h h' a"
proof -
  let ?h1 = "if tg \<and> cell_tag c = CON_T then ensure_allocate h (1 + arity c) else h"
  have ar: "1 + arity c \<le> MAX_SIZE" using arity_bound [of c] by (simp add: MAX_SIZE_def)
  have e: "heap_ext h ?h1" using ensure_allocate_spec(1) [OF inv ar] heap_ext_refl [OF inv] by simp
  obtain h2 h3 a where h3: "allocate ?h1 STR_T 1 = ok (h2, a)" "block_put h2 (the (head_block h2)) a c = ok h3" "one_more 1 c ?h1 h3 a"
    using allocate_put [OF heap_extD(1) [OF e], where f = "\<lambda>_. c"] by blast
  have "a = hp_size h" if "fits (1 + arity c) h"
  proof -
    have "hp_size ?h1 = hp_size h" using ensure_allocate_fits [OF inv that] by simp
    then show ?thesis using fits_le [OF that, of 1] h3(3) by (simp add: fits_def one_more_def)
  qed
  then have "one_more (1 + arity c) c h h3 a"
    using h3(3) heap_ext_trans [OF e] heap_extD(2) [OF e] by (auto simp: one_more_def)
  then show thesis using h3(1,2) by (intro that) (simp_all add: new_cell0_def Let_def)
qed

lemma new_dat_cell_one:
  assumes inv: "heap_inv h"
  obtains h' where "new_dat_cell h c = ok h'" "one_more 0 c h h' (hp_size h)"
proof -
  obtain h1 where h1: "allocate_span h DAT_T 1 = ok (h1, hp_size h)" "heap_ext h h1" "hp_size h1 = hp_size h + 1"
    using allocate_span_spec [OF inv zero_less_one] by metis
  obtain h2 where h2: "heap_set h1 (hp_size h) c = ok h2" "heap_inv h2" "same_frame h1 h2" "mem h2 = (mem h1)(hp_size h \<mapsto> c)"
    using heap_set_mem [OF heap_extD(1) [OF h1(2)], of "hp_size h"] h1(3) by auto
  have "heap_ext h h2" using h1(2) h2(2-4) by (auto simp: heap_ext_def same_frame_def)
  then have "one_more 0 c h h2 (hp_size h)" unfolding one_more_def using h1(3) h2(3,4) by (simp add: same_frame_def)
  then show thesis using h1(1) h2(1) by (intro that) (simp_all add: new_dat_cell_def)
qed

lemma one_more_next: "one_more k c h h' a \<Longrightarrow> fits (Suc n) h \<Longrightarrow> k \<le> Suc n \<Longrightarrow> fits n h'"
  using fits_next [of n h h'] fits_le [of "Suc n" h k] by (simp add: one_more_def)

lemma one_more_adds:
  assumes "one_more k c h h' a" "adds st h0 h" "st \<longrightarrow> fits k h"
  shows "adds st h0 h'"
  unfolding adds_def
proof (intro conjI allI impI)
  show "heap_inv h'" "hp_size h0 \<le> hp_size h'" using assms(1,2) by (simp_all add: one_more_def adds_def heap_ext_def)
  show "mem h' x = mem h0 x" if "x < hp_size h0" for x using assms(1,2) that by (simp add: one_more_def adds_def heap_ext_def)
  show "mem h' x \<noteq> None" if st and x: "hp_size h0 \<le> x \<and> x < hp_size h'" for x
  proof (cases "x = a")
    case False
    then have "x < hp_size h" using assms(1,3) \<open>st\<close> x by (simp add: one_more_def)
    then show ?thesis using assms(1,2) x \<open>st\<close> by (simp add: one_more_def adds_def heap_ext_def)
  qed (use assms(1) in \<open>simp add: one_more_def\<close>)
qed

lemma one_more_old: "one_more k c h h' a \<Longrightarrow> x < hp_size h \<Longrightarrow> mem h' x = mem h x"
  by (simp add: one_more_def heap_ext_def)

subsection \<open>The header\<close>

definition same_stacks :: "tenv \<Rightarrow> tenv \<Rightarrow> bool" where
  "same_stacks e e' \<longleftrightarrow> stack e' = stack e \<and> trail e' = trail e \<and> temp e' = temp e \<and> temp_trail e' = temp_trail e \<and> register_hb e' = register_hb e"

text \<open>\<open>reading st e bs h offset\<close>: the heap \<open>h\<close> after reading up to \<open>offset\<close>; strictly, the rest fits in the block.\<close>

definition reading :: "bool \<Rightarrow> tenv \<Rightarrow> buffer \<Rightarrow> tenv \<Rightarrow> nat \<Rightarrow> bool" where
  "reading st e bs e' offset \<longleftrightarrow> adds st (te_heap e) (te_heap e') \<and> (st \<longrightarrow> fits (4096 + (length bs - offset) div 8) (te_heap e')) \<and> same_stacks e e'"

lemma rest_cells: "offset + 8 \<le> n \<Longrightarrow> (n - offset) div 8 = Suc ((n - (offset + 8)) div 8)"
  by linarith

lemma reading_one:
  assumes r: "reading st e bs e' offset" and o: "offset + 8 \<le> length bs" and k: "k \<le> 4096" and m: "one_more k c (te_heap e') h' a"
    and e'': "te_heap e'' = h'" "same_stacks e' e''"
  shows "reading st e bs e'' (offset + 8)"
proof -
  have f: "st \<longrightarrow> fits (Suc (4096 + (length bs - (offset + 8)) div 8)) (te_heap e')" using r rest_cells [OF o] by (simp add: reading_def)
  have "adds st (te_heap e) h'" using m f k by (intro one_more_adds [OF m]) (use r in \<open>auto simp: reading_def intro: fits_le\<close>)
  moreover have "st \<longrightarrow> fits (4096 + (length bs - (offset + 8)) div 8) h'" using one_more_next [OF m] f k by simp
  ultimately show ?thesis using e'' r by (simp add: reading_def same_stacks_def)
qed

lemma reading_later: "reading st e bs e' offset \<Longrightarrow> offset \<le> o' \<Longrightarrow> reading st e bs e' o'"
  unfolding reading_def by (meson add_left_mono diff_le_mono2 div_le_mono fits_le)

lemma reading_heap: "reading st e bs e' offset \<Longrightarrow> heap_inv (te_heap e')"
  by (simp add: reading_def adds_def)

lemma reading_same: "reading st e bs e' offset \<Longrightarrow> hp_size (te_heap e'') = hp_size (te_heap e') \<Longrightarrow> mem (te_heap e'') = mem (te_heap e') \<Longrightarrow>
    heap_inv (te_heap e'') \<Longrightarrow> same_stacks e' e'' \<Longrightarrow> reading st e bs e'' offset"
  by (simp add: reading_def adds_def fits_def same_stacks_def)

lemma resolve_heap:
  "resolve_atom_index h name = (h', i) \<Longrightarrow> heap_inv h' = heap_inv h \<and> hp_size h' = hp_size h \<and> mem h' = mem h"
  by (auto simp: resolve_atom_index_def Let_def heap_inv_def mem_def fun_eq_iff split: option.splits)

text \<open>The cells the header adds are unbound variables.\<close>

definition only_vars :: "bool \<Rightarrow> tenv \<Rightarrow> tenv \<Rightarrow> bool" where
  "only_vars st e e' \<longleftrightarrow> (st \<longrightarrow> (\<forall>x. hp_size (te_heap e) \<le> x \<and> x < hp_size (te_heap e') \<longrightarrow> mem (te_heap e') x = Some (ref_cell x)))"

lemma only_vars_one:
  assumes "only_vars st e e'" "one_more k (ref_cell a) (te_heap e') (te_heap e'') a" "st \<longrightarrow> fits k (te_heap e')"
  shows "only_vars st e e''"
  unfolding only_vars_def
proof (intro impI allI)
  fix x assume st and x: "hp_size (te_heap e) \<le> x \<and> x < hp_size (te_heap e'')"
  show "mem (te_heap e'') x = Some (ref_cell x)"
  proof (cases "x = a")
    case False
    then have "x < hp_size (te_heap e')" using assms(2,3) x \<open>st\<close> by (simp add: one_more_def)
    then show ?thesis using assms(1) one_more_old [OF assms(2)] x \<open>st\<close> by (simp add: only_vars_def)
  qed (use assms(2) in \<open>simp add: one_more_def\<close>)
qed

lemma read_encoded_loop_returns:
  "returns (read_encoded_loop bs offset str) (harmless (st \<and> sf)) (\<lambda>(s, o'). offset + 8 \<le> o' \<and> o' \<le> length bs)"
proof (induction bs offset str rule: read_encoded_loop.induct)
  case (1 bs offset str)
  show ?case
  proof (subst read_encoded_loop.simps, rule returns_bind [OF read_cell_returns])
    fix c assume c: "read_cell bs offset = ok c" "offset + 8 \<le> length bs"
    show "returns (if cell_tag c \<noteq> INT_T then throw (Unexpected_data c offset) else if \<not> is_char_chunk c then throw (Unexpected_data c offset)
        else let str = str @ as_char_chunk c in if is_last_char_chunk c then ok (str, offset + 8) else read_encoded_loop bs (offset + 8) str)
      (harmless (st \<and> sf)) (\<lambda>(s, o'). offset + 8 \<le> o' \<and> o' \<le> length bs)"
      using c 1 [OF c(1)] by (auto simp: Let_def intro: returns_conseq)
  qed
qed

lemma read_index_returns:
  assumes c: "cell_tag c = REF_T \<or> cell_tag c = CON_T" and r: "reading st e bs (renv r) offset" and v: "only_vars st e (renv r)"
  shows "returns (read_index r bs offset c) (harmless (st \<and> sf)) (\<lambda>(r', o'). offset + 8 \<le> o' \<and> o' \<le> length bs \<and>
    reading st e bs (renv r') o' \<and> only_vars st e (renv r') \<and> new_to_old r' = new_to_old r)"
  unfolding read_index_def read_encoded_string_def
proof (rule returns_bind [OF read_encoded_loop_returns], clarsimp)
  fix name o' assume o': "offset + 8 \<le> o'" "o' \<le> length bs"
  show "returns (case cell_tag c of
       CON_T \<Rightarrow> (case resolve_atom_index (te_heap (renv r)) name of (h, i) \<Rightarrow>
         ok (r\<lparr>renv := (renv r)\<lparr>te_heap := h\<rparr>, rindex := snd (index_term (rindex r) (to_atom c) i)\<rparr>, o'))
     | REF_T \<Rightarrow> bindR (env_op (new_ref (te_heap (renv r)))) (\<lambda>(h, ref).
         ok (r\<lparr>renv := (renv r)\<lparr>te_heap := h, var_naming := set_name (var_naming (renv r)) ref name\<rparr>,
               rindex := snd (index_term (rindex r) c (cell_index ref))\<rparr>, o'))
     | _ \<Rightarrow> ok (r, o')) (harmless (st \<and> sf)) (\<lambda>(r', o'). offset + 8 \<le> o' \<and> o' \<le> length bs \<and> reading st e bs (renv r') o' \<and> only_vars st e (renv r') \<and> new_to_old r' = new_to_old r)"
  proof (cases "cell_tag c = CON_T")
    case True
    obtain h i where h: "resolve_atom_index (te_heap (renv r)) name = (h, i)" by force
    have "reading st e bs ((renv r)\<lparr>te_heap := h\<rparr>) o'"
      using resolve_heap [OF h] reading_heap [OF r] o'(1) by (intro reading_same [OF reading_later [OF r]]) (simp_all add: same_stacks_def)
    moreover have "only_vars st e ((renv r)\<lparr>te_heap := h\<rparr>)" using v resolve_heap [OF h] by (simp add: only_vars_def)
    ultimately show ?thesis using True o' h by simp
  next
    case False
    then have t: "cell_tag c = REF_T" using c by simp
    obtain h a where h: "new_ref (te_heap (renv r)) = ok (h, ref_cell a)" "one_more 1 (ref_cell a) (te_heap (renv r)) h a"
      using new_ref_one [OF reading_heap [OF r]] by blast
    let ?e = "(renv r)\<lparr>te_heap := h, var_naming := set_name (var_naming (renv r)) (ref_cell a) name\<rparr>"
    have "reading st e bs ?e (offset + 8)" using o' h(2) by (intro reading_one [OF r]) (simp_all add: same_stacks_def)
    moreover have "only_vars st e ?e"
      by (rule only_vars_one [OF v, of 1 a]) (use h(2) r in \<open>auto simp: reading_def intro: fits_le\<close>)
    ultimately show ?thesis using t o' h(1) by (auto intro: reading_later)
  qed
qed

lemma remap_loop_returns:
  assumes "reading st e bs (renv r) offset" "only_vars st e (renv r)"
  shows "returns (remap_loop r bs offset) (harmless (st \<and> sf)) (\<lambda>(r', o'). offset + 8 \<le> o' \<and> o' \<le> length bs \<and>
    reading st e bs (renv r') o' \<and> only_vars st e (renv r') \<and> new_to_old r' = new_to_old r)"
  using assms
proof (induction r bs offset rule: remap_loop.induct)
  case (1 r bs offset)
  show ?case
  proof (subst remap_loop.simps, rule returns_bind [OF read_cell_returns], unfold Let_def)
    fix c assume c: "read_cell bs offset = ok c" "offset + 8 \<le> length bs"
    note rd = reading_later [OF 1(2), of "offset + 8"]
    show "returns (if c = PAMER then ok (r, offset + 8) else if cell_tag c = REF_T \<or> cell_tag c = CON_T then
         bindR (read_index r bs (offset + 8) c) (\<lambda>x. remap_loop (fst x) bs (snd x)) else throw (Unexpected_data c (offset + 8)))
      (harmless (st \<and> sf)) (\<lambda>(r', o'). offset + 8 \<le> o' \<and> o' \<le> length bs \<and> reading st e bs (renv r') o' \<and> only_vars st e (renv r') \<and> new_to_old r' = new_to_old r)"
    proof (cases "c = PAMER \<or> \<not> (cell_tag c = REF_T \<or> cell_tag c = CON_T)")
      case True
      then show ?thesis using rd 1(3) c(2) by auto
    next
      case False
      show ?thesis
        using False rd 1(3) by (auto intro!: returns_bind [OF read_index_returns [of c st e bs r "offset + 8"]] intro: returns_conseq dest!: 1(1) [OF c(1) refl])
    qed
  qed
qed

definition indexed_version :: "buffer \<Rightarrow> bool" where
  "indexed_version bs \<longleftrightarrow> (\<exists>c. read_cell bs 0 = ok c \<and> cell_tag c = CON_T \<and> \<not> is_direct c)"

lemma read_all_header_returns:
  assumes "reading st e bs (renv r) 0" "only_vars st e (renv r)" and iv: "st \<and> sf \<longrightarrow> \<not> indexed_version bs"
  shows "returns (read_all_header r bs 0) (harmless (st \<and> sf)) (\<lambda>(r', o'). o' \<le> length bs \<and> reading st e bs (renv r') o' \<and>
    only_vars st e (renv r') \<and> new_to_old r' = new_to_old r)"
  unfolding read_all_header_def
proof (rule returns_bind [OF read_cell_returns], unfold Let_def)
  fix ver assume "read_cell bs 0 = ok ver"
  then have v: "st \<and> sf \<longrightarrow> cell_tag ver = CON_T \<longrightarrow> is_direct ver" using iv by (auto simp: indexed_version_def)
  show "returns (if cell_tag ver \<noteq> CON_T then throw (Unexpected_data ver 0)
      else if ver \<noteq> VER1 then throw (if is_direct ver then Unsupported_version ver else Env Assertion_failed)
      else bindR (read_cell bs (0 + 8)) (\<lambda>remap. if cell_tag remap \<noteq> CON_T then throw (Unexpected_data remap (0 + 8))
        else if remap \<noteq> REMAP then throw (Unexpected_data remap (0 + 8)) else remap_loop r bs (0 + 8 + 8)))
    (harmless (st \<and> sf)) (\<lambda>(r', o'). o' \<le> length bs \<and> reading st e bs (renv r') o' \<and> only_vars st e (renv r') \<and> new_to_old r' = new_to_old r)"
  proof (cases "cell_tag ver = CON_T \<and> ver \<noteq> VER1")
    case False
    then show ?thesis using remap_loop_returns [OF reading_later [OF assms(1), of 16] assms(2), of sf]
      by (auto intro!: returns_bind [OF read_cell_returns] elim!: returns_conseq)
  qed (use v in auto)
qed

subsection \<open>The body\<close>

abbreviation benv :: "body \<Rightarrow> tenv" where
  "benv b \<equiv> renv (rd b)"

abbreviation bheap :: "body \<Rightarrow> heap" where
  "bheap b \<equiv> te_heap (renv (rd b))"

definition is_ptr :: "cell \<Rightarrow> bool" where
  "is_ptr c \<longleftrightarrow> cell_tag c \<in> {REF_T, RFW_T, STR_T, BIG_T}"

definition has_dat :: "nat \<Rightarrow> heap \<Rightarrow> bool" where
  "has_dat lo h \<longleftrightarrow> (\<exists>x c. lo \<le> x \<and> mem h x = Some c \<and> cell_tag c = DAT_T)"

definition no_fwd :: "nat \<Rightarrow> heap \<Rightarrow> bool" where
  "no_fwd lo h \<longleftrightarrow> (\<forall>x c. lo \<le> x \<and> mem h x = Some c \<longrightarrow> cell_tag c \<noteq> FWD_T)"

definition body_inv :: "bool \<Rightarrow> tenv \<Rightarrow> buffer \<Rightarrow> body \<Rightarrow> nat \<Rightarrow> bool" where
  "body_inv st e bs b offset \<longleftrightarrow> reading st e bs (benv b) offset \<and> distinct (ptr_terms b) \<and>
     (\<forall>i\<in>set (ptr_terms b). is_used (hp_size (te_heap e)) (used b) i \<and> (\<exists>c. mem (bheap b) i = Some c \<and> is_ptr c)) \<and>
     (st \<longrightarrow> (\<forall>x. hp_size (te_heap e) \<le> x \<and> x < hp_size (bheap b) \<longrightarrow>
        is_used (hp_size (te_heap e)) (used b) x \<or> mem (bheap b) x = Some (ref_cell x) \<or> has_dat (hp_size (te_heap e)) (bheap b))) \<and>
     (st \<longrightarrow> no_fwd (hp_size (te_heap e)) (bheap b) \<or> has_dat (hp_size (te_heap e)) (bheap b)) \<and>
     (num_dat b > 0 \<longrightarrow> has_dat (hp_size (te_heap e)) (bheap b)) \<and>
     (\<forall>i. result_index b = Some i \<longrightarrow> hp_size (te_heap e) \<le> i \<and> (i < hp_size (bheap b) \<or> i = 0))"

text \<open>\<open>added b b' a\<close>: \<open>b'\<close> has one more cell, at \<open>a\<close>, than \<open>b\<close>.\<close>

definition added :: "body \<Rightarrow> body \<Rightarrow> nat \<Rightarrow> bool" where
  "added b b' a \<longleftrightarrow> (\<exists>k c. one_more k c (bheap b) (bheap b') a \<and> k \<le> 4096 \<and> cell_tag c \<noteq> FWD_T \<and> same_stacks (benv b) (benv b') \<and>
     used b' = used b \<and> result_index b' = result_index b \<and> old_new_index b' = old_new_index b \<and>
     (ptr_terms b' = ptr_terms b \<or> ptr_terms b' = ptr_terms b @ [a] \<and> is_ptr c) \<and> (num_dat b' = num_dat b \<or> cell_tag c = DAT_T))"

lemma alloc_cell_one:
  assumes "heap_inv (bheap b)"
  obtains b' a where "alloc_cell b c = ok (b', a)" "one_more (1 + arity c) c (bheap b) (bheap b') a"
    "b' = b\<lparr>rd := (rd b)\<lparr>renv := (benv b)\<lparr>te_heap := bheap b'\<rparr>\<rparr>\<rparr>"
proof -
  obtain h a where h: "new_cell0 (bheap b) c True = ok (h, a)" "one_more (1 + arity c) c (bheap b) h a"
    using new_cell0_one [OF assms] by blast
  then show thesis by (intro that [of "b\<lparr>rd := (rd b)\<lparr>renv := (benv b)\<lparr>te_heap := h\<rparr>\<rparr>\<rparr>" a]) (simp_all add: alloc_cell_def)
qed

definition allocated :: "body \<Rightarrow> cell \<Rightarrow> body \<times> nat \<Rightarrow> bool" where
  "allocated b c = (\<lambda>(b1, a). one_more (1 + arity c) c (bheap b) (bheap b1) a \<and> same_stacks (benv b) (benv b1) \<and> used b1 = used b \<and>
     result_index b1 = result_index b \<and> old_new_index b1 = old_new_index b \<and> ptr_terms b1 = ptr_terms b \<and> num_dat b1 = num_dat b)"

lemma alloc_cell_returns:
  assumes "heap_inv (bheap b)"
  shows "returns (alloc_cell b c) E (allocated b c)"
proof -
  obtain b' a where b': "alloc_cell b c = ok (b', a)" "one_more (1 + arity c) c (bheap b) (bheap b') a"
    "b' = b\<lparr>rd := (rd b)\<lparr>renv := (benv b)\<lparr>te_heap := bheap b'\<rparr>\<rparr>\<rparr>"
    using alloc_cell_one [OF assms] by blast
  have "same_stacks (benv b) (benv b')" "used b' = used b" "result_index b' = result_index b" "old_new_index b' = old_new_index b"
    "ptr_terms b' = ptr_terms b" "num_dat b' = num_dat b"
    by (subst b'(3), simp add: same_stacks_def)+
  then show ?thesis using b'(1,2) by (simp add: allocated_def)
qed

lemma is_ptr_fwd: "is_ptr c \<Longrightarrow> cell_tag c \<noteq> FWD_T"
  by (auto simp: is_ptr_def)

lemma allocated_added:
  assumes "allocated b c (b1, a)" "cell_tag c \<noteq> FWD_T" "benv b' = benv b1" "used b' = used b1" "result_index b' = result_index b1" "old_new_index b' = old_new_index b1"
    "ptr_terms b' = ptr_terms b1 \<or> ptr_terms b' = ptr_terms b1 @ [a] \<and> is_ptr c" "num_dat b' = num_dat b1 \<or> cell_tag c = DAT_T"
  shows "added b b' a"
  using assms arity_bound [of c] unfolding added_def allocated_def
  by (intro exI [of _ "1 + arity c"] exI [of _ c]) (simp add: less_eq_Suc_le)

lemma map_old_simps [simp]: "benv (map_old b c d) = benv b" "used (map_old b c d) = used b" "result_index (map_old b c d) = result_index b"
  "old_new_index (map_old b c d) = old_new_index b" "ptr_terms (map_old b c d) = ptr_terms b" "num_dat (map_old b c d) = num_dat b"
  by (simp_all add: map_old_def)

text \<open>The term that starts at a token: it is returned at once or added to the heap.\<close>

definition token_step :: "nat \<Rightarrow> body \<Rightarrow> (body \<times> nat, cell) loop_step \<Rightarrow> bool" where
  "token_step lo b s \<longleftrightarrow> (case s of Return t \<Rightarrow> t = EMPTY_LIST | Continue (b', a) \<Rightarrow> added b b' a \<or> b' = b \<and> a = 0)"

lemma read_con_returns:
  assumes "heap_inv (bheap b)" "cell_tag c = CON_T"
  shows "returns (read_con b sc c) (harmless (st \<and> sf)) (token_step lo b)"
proof -
  have 1: "returns (bindR (alloc_cell b d) (\<lambda>x. ok (Continue x))) (harmless (st \<and> sf)) (token_step lo b)" if "cell_tag d = CON_T" for d
    by (rule returns_bind [OF alloc_cell_returns [OF assms(1)]]) (use that in \<open>auto simp: token_step_def intro: allocated_added\<close>)
  have 2: "returns (bindR (alloc_cell b d) (\<lambda>(b, i). ok (Continue (map_old b d c, i)))) (harmless (st \<and> sf)) (token_step lo b)" if "cell_tag d = CON_T" for d
    by (rule returns_bind [OF alloc_cell_returns [OF assms(1)]]) (use that in \<open>auto simp: token_step_def intro!: allocated_added\<close>)
  show ?thesis using 1 2 assms(2) by (auto simp: read_con_def Let_def token_step_def split: option.split)
qed

lemma read_ptr_returns:
  assumes "heap_inv (bheap b)" "is_ptr c"
  shows "returns (bindR (read_ptr b old_hdr c) (\<lambda>x. ok (Continue x))) (harmless (st \<and> sf)) (token_step lo b)"
proof -
  have 1: "returns (bindR (alloc_cell b d) (\<lambda>(b, i). ok (map_old (if np then b\<lparr>ptr_terms := ptr_terms b @ [i]\<rparr> else b) d c, i)))
      (harmless (st \<and> sf)) (\<lambda>(b', a). added b b' a)" if "is_ptr d" for d np
    by (rule returns_bind [OF alloc_cell_returns [OF assms(1)]]) (use that is_ptr_fwd in \<open>auto intro!: allocated_added\<close>)
  have "is_ptr (ptr_cell (cell_tag c) i)" for i using assms(2) by (simp add: is_ptr_def)
  then have "returns (read_ptr b old_hdr c) (harmless (st \<and> sf)) (\<lambda>(b', a). added b b' a)"
    unfolding read_ptr_def by (intro returns_bind [where Q = "\<lambda>_. True"]) (auto simp: Let_def intro: 1 split: option.split)
  then show ?thesis by (rule returns_bind) (auto simp: token_step_def)
qed

lemma read_dat_returns:
  assumes "heap_inv (bheap b)" "cell_tag c = DAT_T"
  shows "returns (bindR (read_dat b offset n c) (\<lambda>x. ok (Continue x))) (harmless (st \<and> sf)) (token_step lo b)"
proof -
  have "returns (read_dat b offset n c) (harmless (st \<and> sf)) (\<lambda>(b', a). added b b' a)"
    unfolding read_dat_def using assms(2)
    by (auto intro!: returns_bind [OF alloc_cell_returns [OF assms(1)]] allocated_added)
  then show ?thesis by (rule returns_bind) (auto simp: token_step_def)
qed

lemma set_used_spec:
  assumes "lo \<le> a"
  obtains u where "set_used lo us a = ok u" "\<And>x. is_used lo u x \<longleftrightarrow> is_used lo us x \<or> x = a"
proof -
  let ?u = "(us @ replicate (a - lo + 1 - length us) False)[a - lo := True]"
  have "is_used lo ?u x \<longleftrightarrow> is_used lo us x \<or> x = a" for x
  proof (cases "lo \<le> x \<and> x \<noteq> a")
    case True
    then have "x - lo \<noteq> a - lo" using assms by linarith
    then show ?thesis using True by (auto simp: is_used_def nth_append)
  next
    case False
    then show ?thesis using assms by (auto simp: is_used_def nth_list_update)
  qed
  then show thesis using assms by (intro that [of ?u]) (simp_all add: set_used_def Let_def)
qed

lemma has_dat_one: "one_more k c h h' a \<Longrightarrow> has_dat lo h \<Longrightarrow> has_dat lo h'"
  unfolding has_dat_def by (metis mem_size one_more_old)

lemma no_fwd_one:
  assumes "one_more k c h h' a" "no_fwd lo h" "cell_tag c \<noteq> FWD_T" "fits k h"
  shows "no_fwd lo h'"
  unfolding no_fwd_def
proof (intro allI impI)
  fix x d assume x: "lo \<le> x \<and> mem h' x = Some d"
  then have "x < hp_size h'" using mem_size by blast
  then have "x = a \<or> x < hp_size h" using assms(1,4) by (auto simp: one_more_def)
  then show "cell_tag d \<noteq> FWD_T" using assms x one_more_old [OF assms(1)] by (auto simp: one_more_def no_fwd_def)
qed

lemma only_vars_no_fwd:
  assumes "only_vars st e e'" st
  shows "no_fwd (hp_size (te_heap e)) (te_heap e')"
  unfolding no_fwd_def
proof (intro allI impI)
  fix x c assume x: "hp_size (te_heap e) \<le> x \<and> mem (te_heap e') x = Some c"
  then have "x < hp_size (te_heap e')" using mem_size by blast
  then have "mem (te_heap e') x = Some (ref_cell x)" using assms x unfolding only_vars_def by blast
  then have "c = ref_cell x" using x by simp
  then show "cell_tag c \<noteq> FWD_T" by simp
qed

lemma body_inv_start:
  assumes "reading st e bs (renv r) offset" "only_vars st e (renv r)"
  shows "body_inv st e bs \<lparr>rd = r, ptr_terms = [], old_new_index = Map.empty, used = [], num_dat = 0, result_index = None\<rparr> offset"
  using assms only_vars_no_fwd [OF assms(2)] by (simp add: body_inv_def only_vars_def)

lemma body_added:
  assumes b: "body_inv st e bs b offset" "offset + 8 \<le> length bs" and a: "added b b1 a" and lo: "hp_size (te_heap e) \<le> a"
    and u: "\<And>x. is_used (hp_size (te_heap e)) (used b') x \<longleftrightarrow> is_used (hp_size (te_heap e)) (used b1) x \<or> x = a"
    and b': "benv b' = benv b1" "ptr_terms b' = ptr_terms b1" "num_dat b' = num_dat b1"
      "result_index b' = (case result_index b1 of None \<Rightarrow> Some a | Some r \<Rightarrow> Some r)"
  shows "body_inv st e bs b' (offset + 8)"
proof -
  let ?lo = "hp_size (te_heap e)"
  obtain k c where m: "one_more k c (bheap b) (bheap b1) a" "k \<le> 4096" "same_stacks (benv b) (benv b1)" "used b1 = used b" "result_index b1 = result_index b"
    "ptr_terms b1 = ptr_terms b \<or> ptr_terms b1 = ptr_terms b @ [a] \<and> is_ptr c" "num_dat b1 = num_dat b \<or> cell_tag c = DAT_T" "cell_tag c \<noteq> FWD_T"
    using a unfolding added_def by blast
  have rd: "reading st e bs (benv b) offset" using b(1) by (simp add: body_inv_def)
  have old: "x < hp_size (bheap b) \<Longrightarrow> mem (bheap b1) x = mem (bheap b) x" for x by (rule one_more_old [OF m(1)])
  have ma: "mem (bheap b1) a = Some c" "hp_size (bheap b1) = Suc a" "hp_size (bheap b) \<le> a" using m(1) by (simp_all add: one_more_def)
  have ptr: "i < hp_size (bheap b) \<and> is_used ?lo (used b) i \<and> (\<exists>c. mem (bheap b) i = Some c \<and> is_ptr c)" if "i \<in> set (ptr_terms b)" for i
    using b(1) that mem_size unfolding body_inv_def by blast
  show ?thesis
    unfolding body_inv_def b'(1-3)
  proof (intro conjI ballI allI impI)
    show "reading st e bs (benv b1) (offset + 8)" by (rule reading_one [OF rd b(2) m(2,1) refl m(3)])
    have "distinct (ptr_terms b)" "a \<notin> set (ptr_terms b)" using b(1) ptr [of a] ma(3) by (auto simp: body_inv_def)
    then show "distinct (ptr_terms b1)" using m(6) by auto
  next
    fix i assume "i \<in> set (ptr_terms b1)"
    then show "is_used ?lo (used b') i" "\<exists>c. mem (bheap b1) i = Some c \<and> is_ptr c"
      using m(4,6) ptr u old ma(1) by fastforce+
  next
    fix x assume st and x: "?lo \<le> x \<and> x < hp_size (bheap b1)"
    have fit: "fits k (bheap b)" using rd \<open>st\<close> m(2) by (auto simp: reading_def intro: fits_le)
    show "is_used ?lo (used b') x \<or> mem (bheap b1) x = Some (ref_cell x) \<or> has_dat ?lo (bheap b1)"
    proof (cases "x = a")
      case False
      then have "x < hp_size (bheap b)" using m(1) fit x by (simp add: one_more_def)
      then show ?thesis using b(1) \<open>st\<close> x old u m(4) has_dat_one [OF m(1)] unfolding body_inv_def by metis
    qed (use u in simp)
  next
    assume st
    then have "fits k (bheap b)" using rd m(2) by (auto simp: reading_def intro: fits_le)
    then show "no_fwd ?lo (bheap b1) \<or> has_dat ?lo (bheap b1)"
      using b(1) \<open>st\<close> no_fwd_one [OF m(1) _ m(8)] has_dat_one [OF m(1)] unfolding body_inv_def by blast
  next
    assume "0 < num_dat b1"
    then show "has_dat ?lo (bheap b1)"
      using m(7) b(1) has_dat_one [OF m(1)] lo ma(1) unfolding body_inv_def has_dat_def by metis
  next
    fix i assume i: "result_index b' = Some i"
    show "?lo \<le> i" "i < hp_size (bheap b1) \<or> i = 0"
      using i b'(4) m(5) lo b(1) ma(2,3) by (auto simp: body_inv_def split: option.splits)
  qed
qed

lemma body_skip:
  assumes b: "body_inv st e bs b offset" and lo: "hp_size (te_heap e) = 0"
    and u: "\<And>x. is_used 0 (used b') x \<longleftrightarrow> is_used 0 (used b) x \<or> x = 0"
    and b': "benv b' = benv b" "ptr_terms b' = ptr_terms b" "num_dat b' = num_dat b"
      "result_index b' = (case result_index b of None \<Rightarrow> Some 0 | Some r \<Rightarrow> Some r)"
  shows "body_inv st e bs b' (offset + 8)"
  unfolding body_inv_def b'
proof (intro conjI ballI allI impI)
  show "reading st e bs (benv b) (offset + 8)" using b reading_later unfolding body_inv_def by (meson le_add1)
  fix x assume st and "hp_size (te_heap e) \<le> x \<and> x < hp_size (bheap b)"
  then show "is_used (hp_size (te_heap e)) (used b') x \<or> mem (bheap b) x = Some (ref_cell x) \<or> has_dat (hp_size (te_heap e)) (bheap b)"
    using b u lo unfolding body_inv_def by metis
qed (use b u lo in \<open>auto simp: body_inv_def split: option.splits\<close>)

lemma body_dat:
  assumes b: "body_inv st e bs b offset" "offset + 8 \<le> length bs" "num_dat b > 0" and m: "one_more 0 c (bheap b) h' (hp_size (bheap b))"
  shows "body_inv st e bs (b\<lparr>rd := (rd b)\<lparr>renv := (benv b)\<lparr>te_heap := h'\<rparr>\<rparr>, num_dat := num_dat b - 1\<rparr>) (offset + 8)"
proof -
  have rd: "reading st e bs (benv b) offset" and d: "has_dat (hp_size (te_heap e)) (bheap b)" using b by (simp_all add: body_inv_def)
  have "reading st e bs ((benv b)\<lparr>te_heap := h'\<rparr>) (offset + 8)"
    using reading_one [OF rd b(2) _ m] by (simp add: same_stacks_def)
  moreover have "mem h' x = mem (bheap b) x" if "mem (bheap b) x = Some y" for x y using one_more_old [OF m mem_size [OF that]] .
  moreover have "hp_size h' = Suc (hp_size (bheap b))" using m by (simp add: one_more_def)
  ultimately show ?thesis using b(1) has_dat_one [OF m d] unfolding body_inv_def by fastforce
qed

lemma token_returns:
  assumes "heap_inv (bheap b)"
  shows "returns (case cell_tag c of
           INT_T \<Rightarrow> bindR (alloc_cell b c) (\<lambda>x. ok (Continue x))
         | CON_T \<Rightarrow> read_con b single_cell c
         | RFW_T \<Rightarrow> bindR (read_ptr b oh (unwatch c)) (\<lambda>x. ok (Continue x))
         | BIG_T \<Rightarrow> bindR (read_ptr b oh c) (\<lambda>x. ok (Continue x))
         | REF_T \<Rightarrow> bindR (read_ptr b oh c) (\<lambda>x. ok (Continue x))
         | STR_T \<Rightarrow> bindR (read_ptr b oh c) (\<lambda>x. ok (Continue x))
         | DAT_T \<Rightarrow> bindR (read_dat b offset n c) (\<lambda>x. ok (Continue x))
         | FWD_T \<Rightarrow> ok (Continue (b, 0))) (harmless (st \<and> sf)) (token_step lo b)"
proof -
  have i: "returns (bindR (alloc_cell b c) (\<lambda>x. ok (Continue x))) (harmless (st \<and> sf)) (token_step lo b)" if "cell_tag c = INT_T"
    by (rule returns_bind [OF alloc_cell_returns [OF assms]]) (use that in \<open>auto simp: token_step_def intro: allocated_added\<close>)
  have u: "is_ptr (unwatch c)" if "cell_tag c = RFW_T" using that by (simp add: is_ptr_def unwatch_def)
  show ?thesis
    by (cases "cell_tag c") (use i u read_con_returns [OF assms] read_ptr_returns [OF assms] read_dat_returns [OF assms] in \<open>auto simp: is_ptr_def token_step_def\<close>)
qed

lemma read_round_returns:
  assumes b: "body_inv st e bs b offset" and one: "st \<and> sf \<longrightarrow> hp_size (te_heap e) \<noteq> 1"
  shows "returns (read_round bs n (hp_size (te_heap e)) base hdr sc b offset) (harmless (st \<and> sf))
    (\<lambda>s. case s of Return t \<Rightarrow> t = EMPTY_LIST | Continue b' \<Rightarrow> body_inv st e bs b' (offset + 8))"
  unfolding read_round_def
proof (rule returns_bind [OF read_cell_returns])
  fix c assume o: "offset + 8 \<le> length bs"
  let ?lo = "hp_size (te_heap e)"
  have inv: "heap_inv (bheap b)" using b reading_heap unfolding body_inv_def by blast
  show "returns (if num_dat b > 0 then
       bindR (env_op (new_dat_cell (te_heap (renv (rd b))) c)) (\<lambda>h.
         ok (Continue (b\<lparr>rd := (rd b)\<lparr>renv := (renv (rd b))\<lparr>te_heap := h\<rparr>\<rparr>, num_dat := num_dat b - 1\<rparr>)))
     else
       bindR (case cell_tag c of
           INT_T \<Rightarrow> bindR (alloc_cell b c) (\<lambda>x. ok (Continue x))
         | CON_T \<Rightarrow> read_con b sc c
         | RFW_T \<Rightarrow> bindR (read_ptr b (cell_count (base + hdr)) (unwatch c)) (\<lambda>x. ok (Continue x))
         | BIG_T \<Rightarrow> bindR (read_ptr b (cell_count (base + hdr)) c) (\<lambda>x. ok (Continue x))
         | REF_T \<Rightarrow> bindR (read_ptr b (cell_count (base + hdr)) c) (\<lambda>x. ok (Continue x))
         | STR_T \<Rightarrow> bindR (read_ptr b (cell_count (base + hdr)) c) (\<lambda>x. ok (Continue x))
         | DAT_T \<Rightarrow> bindR (read_dat b offset n c) (\<lambda>x. ok (Continue x))
         | FWD_T \<Rightarrow> ok (Continue (b, 0))) (\<lambda>s. case s of Return t \<Rightarrow> ok (Return t) | Continue x \<Rightarrow>
         bindR (set_used ?lo (used (fst x)) (snd x)) (\<lambda>u.
           ok (Continue ((fst x)\<lparr>used := u, old_new_index := (old_new_index (fst x))((offset - base - hdr) div 8 \<mapsto> snd x),
             result_index := (case result_index (fst x) of None \<Rightarrow> Some (snd x) | Some r \<Rightarrow> Some r)\<rparr>)))))
    (harmless (st \<and> sf)) (\<lambda>s. case s of Return t \<Rightarrow> t = EMPTY_LIST | Continue b' \<Rightarrow> body_inv st e bs b' (offset + 8))"
  proof (cases "num_dat b > 0")
    case True
    obtain h' where "new_dat_cell (bheap b) c = ok h'" "one_more 0 c (bheap b) h' (hp_size (bheap b))"
      using new_dat_cell_one [OF inv] by blast
    then show ?thesis using True body_dat [OF b o True] by simp
  next
    case False
    show ?thesis
    proof (simp only: False if_False, rule returns_bind [OF token_returns [OF inv, where lo = ?lo]])
      fix s assume s: "token_step ?lo b s"
      show "returns (case s of Return t \<Rightarrow> ok (Return t) | Continue x \<Rightarrow>
         bindR (set_used ?lo (used (fst x)) (snd x)) (\<lambda>u.
           ok (Continue ((fst x)\<lparr>used := u, old_new_index := (old_new_index (fst x))((offset - base - hdr) div 8 \<mapsto> snd x),
             result_index := (case result_index (fst x) of None \<Rightarrow> Some (snd x) | Some r \<Rightarrow> Some r)\<rparr>))))
        (harmless (st \<and> sf)) (\<lambda>s. case s of Return t \<Rightarrow> t = EMPTY_LIST | Continue b' \<Rightarrow> body_inv st e bs b' (offset + 8))"
      proof (cases s)
        case (Return t)
        then show ?thesis using s by (simp add: token_step_def)
      next
        case (Continue x)
        obtain b1 a where x: "x = (b1, a)" by (cases x)
        have st: "added b b1 a \<or> b1 = b \<and> a = 0" using s Continue x by (simp add: token_step_def)
        show ?thesis
        proof (cases "?lo \<le> a")
          case True
          obtain u where u: "set_used ?lo (used b1) a = ok u" "\<And>x. is_used ?lo u x \<longleftrightarrow> is_used ?lo (used b1) x \<or> x = a"
            using set_used_spec [OF True] by blast
          let ?b = "b1\<lparr>used := u, old_new_index := (old_new_index b1)((offset - base - hdr) div 8 \<mapsto> a),
             result_index := (case result_index b1 of None \<Rightarrow> Some a | Some r \<Rightarrow> Some r)\<rparr>"
          have "body_inv st e bs ?b (offset + 8)"
            using st
          proof (elim disjE conjE)
            assume "added b b1 a"
            then show ?thesis by (rule body_added [OF b o _ True]) (simp_all add: u(2))
          next
            assume e0: "b1 = b" "a = 0"
            then have lo: "?lo = 0" using True by simp
            show ?thesis by (rule body_skip [OF b lo]) (use u(2) e0 lo in \<open>auto split: option.split\<close>)
          qed
          then show ?thesis using u(1) by (cases "result_index b1") (simp_all add: Continue x)
        next
          case False
          have "?lo \<le> hp_size (bheap b)" using b by (simp add: body_inv_def reading_def adds_def)
          then have "a = 0" using st False by (auto simp: added_def one_more_def)
          then show ?thesis using False one by (auto simp: Continue x set_used_def)
        qed
      qed
    qed
  qed
qed

lemma read_loop_returns:
  assumes "body_inv st e bs b offset" and one: "st \<and> sf \<longrightarrow> hp_size (te_heap e) \<noteq> 1"
  shows "returns (read_loop bs n (hp_size (te_heap e)) base hdr sc b offset) (harmless (st \<and> sf))
    (\<lambda>s. case s of Return t \<Rightarrow> t = EMPTY_LIST | Continue b' \<Rightarrow> \<exists>o'. body_inv st e bs b' o')"
  using assms(1)
proof (induction bs n "hp_size (te_heap e)" base hdr sc b offset rule: read_loop.induct)
  case (1 bs n base hdr sc b offset)
  show ?case
  proof (cases "offset < n")
    case True
    show ?thesis
      by (subst read_loop.simps, simp only: True if_True, rule returns_bind [OF read_round_returns [OF 1(2) one]])
        (auto split: loop_step.splits intro: 1(1) [OF True])
  qed (use 1(2) in \<open>subst read_loop.simps, auto\<close>)
qed

subsection \<open>Patching the addresses\<close>

definition patched :: "(nat \<Rightarrow> nat option) \<Rightarrow> nat \<Rightarrow> cell \<Rightarrow> cell" where
  "patched on oh c = set_index c (case on (cell_index c) of None \<Rightarrow> cell_index c + oh | Some i \<Rightarrow> i)"

lemma patch_loop_spec:
  assumes "heap_inv h" "distinct ps" "\<forall>i\<in>set ps. mem h i \<noteq> None"
  shows "\<exists>h'. patch_loop h on oh ps = ok h' \<and> heap_inv h' \<and> same_frame h h' \<and>
    mem h' = (\<lambda>x. if x \<in> set ps then Some (patched on oh (the (mem h x))) else mem h x)"
  using assms
proof (induction ps arbitrary: h)
  case (Cons i ps)
  obtain c where c: "mem h i = Some c" "i < hp_size h" using Cons.prems(3) mem_size by auto
  obtain h1 where h1: "heap_set h i (patched on oh c) = ok h1" "heap_inv h1" "same_frame h h1" "mem h1 = (mem h)(i \<mapsto> patched on oh c)"
    using heap_set_mem [OF Cons.prems(1) c(2)] by blast
  have d1: "\<forall>i\<in>set ps. mem h1 i \<noteq> None" using Cons.prems(3) h1(4) by simp
  obtain h' where h': "patch_loop h1 on oh ps = ok h'" "heap_inv h'" "same_frame h1 h'"
    "mem h' = (\<lambda>x. if x \<in> set ps then Some (patched on oh (the (mem h1 x))) else mem h1 x)"
    using Cons.IH [OF h1(2)] Cons.prems(2,3) d1 by auto
  have "patch_loop h on oh (i # ps) = ok h'"
    using c h1(1) h'(1) heap_get_ok [OF Cons.prems(1), THEN iffD2, OF c(1)] by (simp add: patched_def Let_def)
  moreover have "mem h' = (\<lambda>x. if x \<in> set (i # ps) then Some (patched on oh (the (mem h x))) else mem h x)"
    using h'(4) h1(4) c(1) Cons.prems(2) by auto
  ultimately show ?case using h' same_frame_trans [OF h1(3)] by blast
qed simp

lemma set_index_tag [simp]: "cell_tag (patched on oh c) = cell_tag c"
  by (simp add: patched_def set_index_def)

text \<open>What \<open>read\<close> has read before the check: the heap and which of its new cells are terms.\<close>

definition body_read :: "bool \<Rightarrow> tenv \<Rightarrow> tenv \<Rightarrow> bool list \<Rightarrow> bool" where
  "body_read st e e' us \<longleftrightarrow> adds st (te_heap e) (te_heap e') \<and> same_stacks e e' \<and>
     (st \<longrightarrow> (\<forall>x. hp_size (te_heap e) \<le> x \<and> x < hp_size (te_heap e') \<longrightarrow>
        is_used (hp_size (te_heap e)) us x \<or> mem (te_heap e') x = Some (ref_cell x) \<or> has_dat (hp_size (te_heap e)) (te_heap e')) \<and>
        (no_fwd (hp_size (te_heap e)) (te_heap e') \<or> has_dat (hp_size (te_heap e)) (te_heap e')))"

definition result_cell :: "tenv \<Rightarrow> tenv \<Rightarrow> cell \<Rightarrow> bool" where
  "result_cell e e' t \<longleftrightarrow> t = EMPTY_LIST \<or> (\<exists>i. mem (te_heap e') i = Some t \<and> (i = 0 \<or> hp_size (te_heap e) \<le> i))"

text \<open>With cells after the header, the result is the first of them.\<close>

definition result_new :: "tenv \<Rightarrow> tenv \<Rightarrow> cell \<Rightarrow> bool" where
  "result_new e e' t \<longleftrightarrow> t = EMPTY_LIST \<or> (\<exists>i. mem (te_heap e') i = Some t \<and> hp_size (te_heap e) \<le> i)"

lemma read_round_index:
  assumes "read_round bs n lo base hdr sc b offset = ok (Continue b')" "num_dat b = 0 \<or> result_index b \<noteq> None"
  shows "result_index b' \<noteq> None"
proof (cases "num_dat b > 0")
  case True
  then show ?thesis using assms by (auto simp: read_round_def bindR_ok_iff)
next
  case False
  then obtain t :: "(body \<times> nat, cell) loop_step" where t: "(case t of Return u \<Rightarrow> ok (Return u) | Continue x \<Rightarrow> bindR (set_used lo (used (fst x)) (snd x)) (\<lambda>u.
      ok (Continue ((fst x)\<lparr>used := u, old_new_index := (old_new_index (fst x))((offset - base - hdr) div 8 \<mapsto> snd x),
        result_index := (case result_index (fst x) of None \<Rightarrow> Some (snd x) | Some r \<Rightarrow> Some r)\<rparr>)))) = ok (Continue b')"
    using assms(1) unfolding read_round_def bindR_ok_iff by (simp only: False if_False bindR_ok_iff) (elim exE conjE, erule that)
  then show ?thesis by (cases t) (auto simp: bindR_ok_iff split: option.splits)
qed

lemma read_loop_index:
  "read_loop bs n lo base hdr sc b offset = ok (Continue b') \<Longrightarrow> result_index b \<noteq> None \<or> num_dat b = 0 \<and> offset < n \<Longrightarrow>
    result_index b' \<noteq> None"
proof (induction bs n lo base hdr sc b offset rule: read_loop.induct)
  case (1 bs n lo base hdr sc b offset)
  show ?case
  proof (cases "offset < n")
    case True
    obtain s where s: "read_round bs n lo base hdr sc b offset = ok s"
      "(case s of Return t \<Rightarrow> ok (Return t) | Continue b \<Rightarrow> read_loop bs n lo base hdr sc b (offset + 8)) = ok (Continue b')"
      using 1(2) True by (subst (asm) read_loop.simps) (auto simp: bindR_ok_iff)
    then obtain b1 where b1: "s = Continue b1" "read_loop bs n lo base hdr sc b1 (offset + 8) = ok (Continue b')"
      by (cases s) auto
    have "result_index b1 \<noteq> None" using read_round_index [of bs n lo base hdr sc b offset b1] s(1) b1(1) 1(3) by blast
    then show ?thesis using 1(1) [OF True, of s b1] s(1) b1 by blast
  next
    case False
    then show ?thesis using 1(2,3) by (subst (asm) read_loop.simps) simp
  qed
qed

lemma body_read_patch:
  assumes b: "body_inv st e bs b offset" and h: "patch_loop (bheap b) on oh (ptr_terms b) = ok h"
  shows "body_read st e ((benv b)\<lparr>te_heap := h\<rparr>) (used b)"
proof -
  let ?lo = "hp_size (te_heap e)"
  have rd: "reading st e bs (benv b) offset" and ps: "distinct (ptr_terms b)"
    and pt: "\<And>i. i \<in> set (ptr_terms b) \<Longrightarrow> is_used ?lo (used b) i \<and> (\<exists>c. mem (bheap b) i = Some c \<and> is_ptr c)"
    using b unfolding body_inv_def by blast+
  have ad: "adds st (te_heap e) (bheap b)" "same_stacks e (benv b)" using rd by (simp_all add: reading_def)
  have dm: "\<forall>i\<in>set (ptr_terms b). mem (bheap b) i \<noteq> None" using pt by fastforce
  obtain h' where "patch_loop (bheap b) on oh (ptr_terms b) = ok h'" and h': "heap_inv h'" "same_frame (bheap b) h'"
    "mem h' = (\<lambda>x. if x \<in> set (ptr_terms b) then Some (patched on oh (the (mem (bheap b) x))) else mem (bheap b) x)"
    using patch_loop_spec [OF reading_heap [OF rd] ps dm] by blast
  then have hh: "h' = h" using h by simp
  have sz: "hp_size h = hp_size (bheap b)" using h'(2) hh by (simp add: same_frame_def)
  have lo: "?lo \<le> i" if "i \<in> set (ptr_terms b)" for i using pt [OF that] by (simp add: is_used_def)
  have "adds st (te_heap e) h"
    unfolding adds_def sz
  proof (intro conjI allI impI)
    show "heap_inv h" "?lo \<le> hp_size (bheap b)" using h'(1) hh ad(1) by (simp_all add: adds_def)
    show "mem h x = mem (te_heap e) x" if "x < ?lo" for x
    proof -
      have "x \<notin> set (ptr_terms b)" using lo that by fastforce
      then show ?thesis using h'(3) hh ad(1) that by (simp add: adds_def)
    qed
    show "mem h x \<noteq> None" if st "?lo \<le> x \<and> x < hp_size (bheap b)" for x
      using h'(3) hh ad(1) that by (simp add: adds_def)
  qed
  moreover have "has_dat ?lo (bheap b) \<Longrightarrow> has_dat ?lo h"
    using h'(3) unfolding hh has_dat_def by auto
  moreover have "no_fwd ?lo (bheap b) \<Longrightarrow> no_fwd ?lo h"
    using h'(3) dm unfolding hh no_fwd_def by (auto split: if_splits)
  moreover have "mem h x = Some (ref_cell x)" if "mem (bheap b) x = Some (ref_cell x)" "\<not> is_used ?lo (used b) x" for x
    using that pt h'(3) hh by auto
  ultimately show ?thesis
    using ad(2) b sz unfolding body_read_def body_inv_def same_stacks_def by (simp; blast)
qed

lemma read_from_returns:
  assumes inv: "heap_inv (te_heap e)" and f: "st \<longrightarrow> fits (4096 + length bs div 8) (te_heap e) \<and> (0 < hp_size (te_heap e) \<longrightarrow> mem (te_heap e) 0 \<noteq> None)"
    and sf: "st \<and> sf \<longrightarrow> hp_size (te_heap e) \<noteq> 1 \<and> \<not> indexed_version bs"
  shows "returns (read_from e bs n (hp_size (te_heap e)) 0) (harmless (st \<and> sf))
    (\<lambda>(r, t, us, hd). body_read st e (renv r) us \<and> result_cell e (renv r) t \<and> (fst hd < n \<longrightarrow> result_new e (renv r) t))"
proof -
  let ?r = "\<lparr>renv = e, rindex = Map.empty, new_to_old = Map.empty\<rparr>"
  have r0: "reading st e bs (renv ?r) 0" using inv f by (simp add: reading_def adds_refl same_stacks_def)
  have v0: "only_vars st e (renv ?r)" by (auto simp: only_vars_def)
  show ?thesis
    unfolding read_from_def Let_def
  proof (rule returns_bind [OF read_all_header_returns [OF r0 v0]], (use sf in blast), clarsimp)
    fix r :: reader and o' assume r: "reading st e bs (renv r) o'" "only_vars st e (renv r)"
    let ?b = "\<lparr>rd = r, ptr_terms = [], old_new_index = Map.empty, used = [], num_dat = 0, result_index = None\<rparr>"
    note hv = r(1) [unfolded reading_def]
    have ret: "returns (ok (r, EMPTY_LIST, [], o', nh)) (harmless (st \<and> sf))
        (\<lambda>(r, t, us, hd). body_read st e (renv r) us \<and> result_cell e (renv r) t \<and> (fst hd < n \<longrightarrow> result_new e (renv r) t))" for nh
      using hv r(2) only_vars_no_fwd [OF r(2)] by (auto simp: body_read_def result_cell_def result_new_def only_vars_def)
    have cont: "returns (bindR (env_op (patch_loop (te_heap (renv (rd b))) (old_new_index b) (cell_count o') (ptr_terms b))) (\<lambda>h.
        bindR (env_op (heap_get h (case result_index b of None \<Rightarrow> 0 | Some i \<Rightarrow> i))) (\<lambda>t.
          ok ((rd b)\<lparr>renv := (renv (rd b))\<lparr>te_heap := h\<rparr>\<rparr>, t, used b, o', nh))))
      (harmless (st \<and> sf)) (\<lambda>(r, t, us, hd). body_read st e (renv r) us \<and> result_cell e (renv r) t \<and> (fst hd < n \<longrightarrow> result_new e (renv r) t))" if b: "body_inv st e bs b o2" and ri: "o' < n \<Longrightarrow> result_index b \<noteq> None" for b o2 nh
    proof -
      have pt: "distinct (ptr_terms b)" "\<forall>i\<in>set (ptr_terms b). mem (bheap b) i \<noteq> None" "heap_inv (bheap b)"
        using b reading_heap unfolding body_inv_def by fastforce+
      obtain h where h: "patch_loop (bheap b) (old_new_index b) (cell_count o') (ptr_terms b) = ok h" "heap_inv h" "hp_size h = hp_size (bheap b)"
        using patch_loop_spec [OF pt(3,1,2)] by (auto simp: same_frame_def)
      let ?e = "(benv b)\<lparr>te_heap := h\<rparr>" and ?i = "case result_index b of None \<Rightarrow> 0 | Some i \<Rightarrow> i"
      have br: "body_read st e ?e (used b)" by (rule body_read_patch [OF b h(1)])
      have "returns (env_op (heap_get h ?i)) (harmless (st \<and> sf)) (\<lambda>t. mem h ?i = Some t)"
      proof (cases "mem h ?i")
        case None
        then have g: "heap_get h ?i = (if hp_size h \<le> ?i then throw (Heap_index_out_of_range ?i (hp_size h)) else throw Undefined_behaviour)"
          using heap_get_mem [OF h(2)] by simp
        have "hp_size h \<le> ?i" if st
        proof (rule ccontr)
          assume "\<not> hp_size h \<le> ?i"
          moreover have "?i = 0 \<or> hp_size (te_heap e) \<le> ?i" using b by (auto simp: body_inv_def split: option.splits)
          moreover have "adds st (te_heap e) h" using br by (simp add: body_read_def)
          moreover have "mem h i \<noteq> None" if "i = 0 \<or> hp_size (te_heap e) \<le> i" "i < hp_size h" "adds st (te_heap e) h" for i
            using that f \<open>st\<close> unfolding adds_def by (cases "i < hp_size (te_heap e)") auto
          ultimately show False using None by (meson not_le)
        qed
        then show ?thesis by (simp add: g) blast
      next
        case (Some t)
        then show ?thesis using heap_get_ok [OF h(2), THEN iffD2] by simp
      qed
      moreover have "?i = 0 \<or> hp_size (te_heap e) \<le> ?i" using b by (auto simp: body_inv_def split: option.splits)
      moreover have "hp_size (te_heap e) \<le> ?i" if "o' < n" using b ri [OF that] by (auto simp: body_inv_def)
      ultimately show ?thesis using h(1) br by (auto simp: result_cell_def result_new_def elim!: returns_bind)
    qed
    show "returns (bindR (read_loop bs n (hp_size (te_heap e)) 0 o' (o' + 8 = n) ?b o') (\<lambda>s. case s of
            Return t \<Rightarrow> ok (r, t, [], o', hp_size (te_heap (renv r)) - hp_size (te_heap e))
          | Continue b \<Rightarrow>
              bindR (env_op (patch_loop (te_heap (renv (rd b))) (old_new_index b) (cell_count o') (ptr_terms b))) (\<lambda>h.
              bindR (env_op (heap_get h (case result_index b of None \<Rightarrow> 0 | Some i \<Rightarrow> i))) (\<lambda>t.
                ok ((rd b)\<lparr>renv := (renv (rd b))\<lparr>te_heap := h\<rparr>\<rparr>, t, used b, o', hp_size (te_heap (renv r)) - hp_size (te_heap e))))))
      (harmless (st \<and> sf)) (\<lambda>(r, t, us, hd). body_read st e (renv r) us \<and> result_cell e (renv r) t \<and> (fst hd < n \<longrightarrow> result_new e (renv r) t))"
    proof (rule returns_bind [OF read_loop_returns [OF body_inv_start [OF r]]], (use sf in blast))
      fix s assume lp: "read_loop bs n (hp_size (te_heap e)) 0 o' (o' + 8 = n) ?b o' = ok s" and s: "case s of Return t \<Rightarrow> t = EMPTY_LIST | Continue b' \<Rightarrow> \<exists>o'. body_inv st e bs b' o'"
      show "returns (case s of Return t \<Rightarrow> ok (r, t, [], o', hp_size (te_heap (renv r)) - hp_size (te_heap e))
          | Continue b \<Rightarrow>
              bindR (env_op (patch_loop (te_heap (renv (rd b))) (old_new_index b) (cell_count o') (ptr_terms b))) (\<lambda>h.
              bindR (env_op (heap_get h (case result_index b of None \<Rightarrow> 0 | Some i \<Rightarrow> i))) (\<lambda>t.
                ok ((rd b)\<lparr>renv := (renv (rd b))\<lparr>te_heap := h\<rparr>\<rparr>, t, used b, o', hp_size (te_heap (renv r)) - hp_size (te_heap e)))))
        (harmless (st \<and> sf)) (\<lambda>(r, t, us, hd). body_read st e (renv r) us \<and> result_cell e (renv r) t \<and> (fst hd < n \<longrightarrow> result_new e (renv r) t))"
      proof (cases s)
        case (Return t)
        then show ?thesis using s ret by simp
      next
        case (Continue b)
        then obtain o2 where o2: "body_inv st e bs b o2" using s by auto
        have "o' < n \<Longrightarrow> result_index b \<noteq> None" using read_loop_index [OF lp [unfolded Continue]] by simp
        then show ?thesis unfolding Continue loop_step.case by (rule cont [OF o2])
      qed
    qed
  qed
qed

subsection \<open>The check\<close>

abbreviation c_mem :: "check_ctx \<Rightarrow> nat \<Rightarrow> cell option" where
  "c_mem k \<equiv> mem (c_heap k)"

definition in_region :: "check_ctx \<Rightarrow> nat \<Rightarrow> bool" where
  "in_region k i \<longleftrightarrow> c_start k \<le> i \<and> i < c_end k"

definition checkable :: "bool \<Rightarrow> check_ctx \<Rightarrow> bool" where
  "checkable st k \<longleftrightarrow> heap_inv (c_heap k) \<and> c_end k = hp_size (c_heap k) \<and> (st \<longrightarrow> (\<forall>x. in_region k x \<longrightarrow> c_mem k x \<noteq> None))"

lemma region_get:
  assumes "checkable st k" "in_region k i"
  shows "returns (env_op (heap_get (c_heap k) i)) (harmless (st \<and> sf)) (\<lambda>c. c_mem k i = Some c)"
  using assms heap_get_mem [of "c_heap k" i] by (cases "c_mem k i") (auto simp: checkable_def in_region_def)

lemma check_pointer_returns:
  "returns (check_pointer k p i) (harmless (st \<and> sf)) (\<lambda>_. in_region k (cell_index p))"
  by (auto simp: check_pointer_def in_region_def)

definition ref_ok :: "check_ctx \<Rightarrow> cell \<Rightarrow> bool" where
  "ref_ok k c \<longleftrightarrow> in_region k (cell_index c) \<and> (\<exists>d. derefs (c_mem k) c d)"

definition str_ok :: "check_ctx \<Rightarrow> cell \<Rightarrow> bool" where
  "str_ok k c \<longleftrightarrow> in_region k (cell_index c) \<and> (\<exists>f. c_mem k (cell_index c) = Some f \<and> cell_tag f = CON_T \<and> cell_index c + arity f < c_end k \<and>
     (\<forall>i<arity f. \<exists>x. c_mem k (Suc (cell_index c + i)) = Some x \<and> legal_argument x))"

definition big_ok :: "check_ctx \<Rightarrow> cell \<Rightarrow> bool" where
  "big_ok k c \<longleftrightarrow> in_region k (cell_index c) \<and> (\<exists>x. c_mem k (cell_index c) = Some x \<and> cell_tag x = DAT_T)"

definition cell_ok :: "check_ctx \<Rightarrow> cell \<Rightarrow> bool" where
  "cell_ok k c \<longleftrightarrow> (is_ref (cell_tag c) \<longrightarrow> ref_ok k c) \<and> (cell_tag c = STR_T \<longrightarrow> str_ok k c) \<and> (cell_tag c = BIG_T \<longrightarrow> big_ok k c)"

lemma check_args_returns:
  assumes k: "checkable st k" and lo: "c_start k \<le> a"
  shows "a + n \<le> c_end k \<Longrightarrow> returns (check_args_loop k p hi a n) (harmless (st \<and> sf)) (\<lambda>_. \<forall>i<n. \<exists>x. c_mem k (a + i) = Some x \<and> legal_argument x)"
  using lo
proof (induction n arbitrary: a)
  case (Suc n)
  have a: "in_region k a" using Suc.prems by (simp add: in_region_def)
  show ?case
    unfolding check_args_loop.simps
  proof (rule returns_bind [OF region_get [OF k a]])
    fix c assume c: "c_mem k a = Some c"
    have "\<forall>i<Suc n. \<exists>x. c_mem k (a + i) = Some x \<and> legal_argument x" if "legal_argument c" "\<forall>i<n. \<exists>x. c_mem k (Suc a + i) = Some x \<and> legal_argument x"
    proof (intro allI impI)
      fix i assume "i < Suc n"
      then show "\<exists>x. c_mem k (a + i) = Some x \<and> legal_argument x" using that c by (cases i) auto
    qed
    then show "returns (if legal_argument c then check_args_loop k p hi (Suc a) n
        else throw (Erroneous_argument (compute_old_cell k c) (compute_old_offset k a) (compute_old_cell k p) (compute_old_offset k hi)))
      (harmless (st \<and> sf)) (\<lambda>_. \<forall>i<Suc n. \<exists>x. c_mem k (a + i) = Some x \<and> legal_argument x)"
      using Suc.IH [of "Suc a"] Suc.prems by (auto elim!: returns_conseq)
  qed
qed simp

lemma check_str_returns:
  assumes k: "checkable st k" and c: "in_region k (cell_index p)"
  shows "returns (bindR (check_str_functor k p i) (\<lambda>_. check_functor_args k p i)) (harmless (st \<and> sf)) (\<lambda>_. str_ok k p)"
proof (rule returns_bind [where Q = "\<lambda>_. \<exists>f. c_mem k (cell_index p) = Some f \<and> cell_tag f = CON_T"])
  show "returns (check_str_functor k p i) (harmless (st \<and> sf)) (\<lambda>_. \<exists>f. c_mem k (cell_index p) = Some f \<and> cell_tag f = CON_T)"
    unfolding check_str_functor_def by (rule returns_bind [OF region_get [OF k c]]) simp
  assume "\<exists>f. c_mem k (cell_index p) = Some f \<and> cell_tag f = CON_T"
  then obtain f where f: "c_mem k (cell_index p) = Some f" "cell_tag f = CON_T" by blast
  have get: "heap_get (c_heap k) (cell_index p) = ok f" using k f(1) by (simp add: checkable_def heap_get_ok)
  have lo: "c_start k \<le> cell_index p + 1" using c by (simp add: in_region_def)
  show "returns (check_functor_args k p i) (harmless (st \<and> sf)) (\<lambda>_. str_ok k p)"
    using check_args_returns [OF k lo, of "arity f" p i] f c
    by (auto simp: check_functor_args_def get str_ok_def elim!: returns_conseq)
qed

lemma check_bignum_returns:
  assumes k: "checkable st k" and c: "in_region k (cell_index p)"
  shows "returns (check_bignum k p i) (harmless (st \<and> sf)) (\<lambda>_. big_ok k p)"
  unfolding check_bignum_def by (rule returns_bind [OF region_get [OF k c]]) (use c in \<open>simp add: big_ok_def\<close>)

text \<open>The cells of a reference chain: the path that is printed for a cycle exists.\<close>

inductive hops :: "(nat \<Rightarrow> cell option) \<Rightarrow> nat \<Rightarrow> nat \<Rightarrow> bool" for m where
  stay: "m i = Some c \<Longrightarrow> hops m i i"
| hop: "m i = Some c \<Longrightarrow> hops m (cell_index c) j \<Longrightarrow> hops m i j"

lemma hops_step: "hops m i j \<Longrightarrow> m j = Some c \<Longrightarrow> m (cell_index c) = Some d \<Longrightarrow> hops m i (cell_index c)"
  by (induction rule: hops.induct) (auto intro: hops.intros)

lemma path_loop_returns:
  assumes k: "heap_inv (c_heap k)" and h: "hops (c_mem k) i j"
  shows "\<exists>p. path_loop k i j path = ok p"
  using h
proof (induction arbitrary: path rule: hops.induct)
  case (stay i c)
  then show ?case by (subst path_loop.simps) (simp add: heap_get_ok [OF k, THEN iffD2])
next
  case (hop i c j)
  then show ?case by (subst path_loop.simps) (simp add: heap_get_ok [OF k, THEN iffD2])
qed

lemma hops_source: "hops m i j \<Longrightarrow> \<exists>c. m i = Some c"
  by (induction rule: hops.induct) auto

lemma compute_path_returns:
  assumes "heap_inv (c_heap k)" "hops (c_mem k) i j"
  shows "\<exists>p. compute_path k i j = ok p"
proof -
  obtain p where p: "path_loop k i j [] = ok p" using path_loop_returns [OF assms] by blast
  obtain c where "c_mem k i = Some c" using hops_source [OF assms(2)] by blast
  then have "heap_get (c_heap k) i = ok c" using heap_get_ok [OF assms(1)] by blast
  then show ?thesis using p by (simp add: compute_path_def)
qed

text \<open>The addresses that were marked as checked hold references whose chains end.\<close>

definition marked_ok :: "check_ctx \<Rightarrow> nat list \<Rightarrow> bool" where
  "marked_ok k checked \<longleftrightarrow> (\<forall>i\<in>set checked. \<exists>c. c_mem k i = Some c \<and> is_ref (cell_tag c) \<and> ref_ok k c)"

definition chain :: "check_ctx \<Rightarrow> nat \<Rightarrow> nat list \<Rightarrow> bool" where
  "chain k index visit \<longleftrightarrow> distinct visit \<and> index \<notin> set visit \<and> (\<forall>v\<in>set visit. in_region k v \<and>
     (\<exists>c. c_mem k v = Some c \<and> is_ref (cell_tag c) \<and> in_region k (cell_index c) \<and>
       (\<forall>b d. c_mem k index = Some b \<and> derefs (c_mem k) b d \<longrightarrow> derefs (c_mem k) c d)))"

lemma chain_step:
  assumes ch: "chain k index visit" and i: "in_region k index" "c_mem k index = Some c" "is_ref (cell_tag c)" "in_region k (cell_index c)"
    and n: "cell_index c \<noteq> index" "cell_index c \<notin> set (index # visit)"
  shows "chain k (cell_index c) (index # visit)"
proof -
  have d: "derefs (c_mem k) c d" if "c_mem k (cell_index c) = Some b" "derefs (c_mem k) b d" for b d
  proof (cases "b = c")
    case False
    show ?thesis by (rule derefs.follow [OF i(3)]) (use that False in simp_all)
  qed (use that in simp)
  have "\<exists>c'. c_mem k v = Some c' \<and> is_ref (cell_tag c') \<and> in_region k (cell_index c') \<and>
      (\<forall>b d. c_mem k (cell_index c) = Some b \<and> derefs (c_mem k) b d \<longrightarrow> derefs (c_mem k) c' d)" if v: "v \<in> set visit" for v
  proof -
    obtain c' where c': "c_mem k v = Some c'" "is_ref (cell_tag c')" "in_region k (cell_index c')"
      "\<forall>b d. c_mem k index = Some b \<and> derefs (c_mem k) b d \<longrightarrow> derefs (c_mem k) c' d"
      using ch v unfolding chain_def by blast
    then show ?thesis using d i(2) by blast
  qed
  then show ?thesis using ch i n(2) d by (auto simp: chain_def)
qed

lemma chain_end:
  assumes "chain k index visit" "c_mem k index = Some c" "derefs (c_mem k) c d" "v \<in> set visit"
  shows "\<exists>c. c_mem k v = Some c \<and> is_ref (cell_tag c) \<and> ref_ok k c"
  using assms unfolding chain_def ref_ok_def by meson

lemma ref_okI: "in_region k (cell_index c) \<Longrightarrow> derefs (c_mem k) c d \<Longrightarrow> ref_ok k c"
  by (auto simp: ref_ok_def)

lemma marked_visit:
  assumes "marked_ok k checked" "chain k index visit" "c_mem k index = Some c" "is_ref (cell_tag c)" "ref_ok k c"
  shows "marked_ok k (index # visit @ checked)"
proof -
  obtain d where "derefs (c_mem k) c d" using assms(5) by (auto simp: ref_ok_def)
  then show ?thesis using assms chain_end [OF assms(2,3)] by (auto simp: marked_ok_def)
qed

lemma ref_ok_step:
  assumes "is_ref (cell_tag c)" "in_region k (cell_index c)" "c_mem k (cell_index c) = Some c'" "is_ref (cell_tag c') \<longrightarrow> ref_ok k c'"
  shows "ref_ok k c"
proof -
  obtain d where d: "derefs (c_mem k) c' d" using assms(4) by (auto simp: ref_ok_def intro: derefs.nonref)
  have "derefs (c_mem k) c d"
  proof (cases "c' = c")
    case False
    show ?thesis by (rule derefs.follow [OF assms(1)]) (use assms(3) False d in simp_all)
  qed (use d in simp)
  then show ?thesis using assms(2) by (rule ref_okI [rotated])
qed

definition chain_from :: "check_ctx \<Rightarrow> nat \<Rightarrow> nat \<Rightarrow> bool" where
  "chain_from k i j \<longleftrightarrow> j = i \<or> (\<exists>b c. hops (c_mem k) i b \<and> c_mem k b = Some c \<and> cell_index c = j)"

lemma chain_from_hops: "chain_from k i j \<Longrightarrow> c_mem k j = Some c \<Longrightarrow> hops (c_mem k) i j"
  unfolding chain_from_def using hops_step hops.stay by blast

lemma ref_chain_returns:
  assumes k: "checkable st k" and m: "marked_ok k checked"
  shows "chain k index visit \<Longrightarrow> in_region k index \<Longrightarrow> chain_from k hi index \<Longrightarrow>
    returns (ref_chain_loop k rc hi index checked visit) (harmless (st \<and> sf))
      (\<lambda>ch. marked_ok k ch \<and> (\<exists>c. c_mem k index = Some c \<and> (is_ref (cell_tag c) \<longrightarrow> ref_ok k c)))"
proof (induction "card ({c_start k..<c_end k} - set visit)" arbitrary: index visit rule: less_induct)
  case less
  show ?case
  proof (subst ref_chain_loop.simps, rule returns_bind [OF region_get [OF k less.prems(2)]])
    fix c assume c: "c_mem k index = Some c"
    note hp = chain_from_hops [OF less.prems(3) c]
    show "returns (if is_ref (cell_tag c) then
       bindR (check_pointer k c index) (\<lambda>_.
         let visit = index # visit in
         if index \<in> set checked \<or> cell_index c = index then ok (visit @ checked)
         else if cell_index c \<in> set visit then
           bindR (compute_path k hi index) (\<lambda>path. throw (Cyclic_reference (compute_old_cell k rc) (compute_old_offset k hi) path))
         else ref_chain_loop k rc hi (cell_index c) checked visit)
     else ok checked) (harmless (st \<and> sf)) (\<lambda>ch. marked_ok k ch \<and> (\<exists>c. c_mem k index = Some c \<and> (is_ref (cell_tag c) \<longrightarrow> ref_ok k c)))"
    proof (cases "is_ref (cell_tag c)")
      case False
      then show ?thesis using c m by simp
    next
      case ref: True
      show ?thesis
      proof (simp only: ref if_True, rule returns_bind [OF check_pointer_returns], unfold Let_def)
        assume r: "in_region k (cell_index c)"
        show "returns (if index \<in> set checked \<or> cell_index c = index then ok ((index # visit) @ checked)
          else if cell_index c \<in> set (index # visit) then
           bindR (compute_path k hi index) (\<lambda>path. throw (Cyclic_reference (compute_old_cell k rc) (compute_old_offset k hi) path))
          else ref_chain_loop k rc hi (cell_index c) checked (index # visit))
         (harmless (st \<and> sf)) (\<lambda>ch. marked_ok k ch \<and> (\<exists>c. c_mem k index = Some c \<and> (is_ref (cell_tag c) \<longrightarrow> ref_ok k c)))"
        proof (cases "index \<in> set checked \<or> cell_index c = index")
          case True
          have "ref_ok k c"
          proof (cases "index \<in> set checked")
            case True
            then show ?thesis using m c by (auto simp: marked_ok_def)
          next
            case False
            then have "derefs (c_mem k) c c" using True c ref by (intro derefs.unbound) simp_all
            then show ?thesis using r by (rule ref_okI [rotated])
          qed
          then show ?thesis using True c marked_visit [OF m less.prems(1) c ref] by simp
        next
          case new: False
          show ?thesis
          proof (cases "cell_index c \<in> set (index # visit)")
            case True
            obtain p where "compute_path k hi index = ok p" using compute_path_returns [OF _ hp] k by (auto simp: checkable_def)
            then show ?thesis using True new by simp
          next
            case False
            have sub: "card ({c_start k..<c_end k} - set (index # visit)) < card ({c_start k..<c_end k} - set visit)"
              using less.prems(1,2) by (intro psubset_card_mono) (auto simp: chain_def in_region_def)
            have cf: "chain_from k hi (cell_index c)" using hp c unfolding chain_from_def by blast
            have ch: "chain k (cell_index c) (index # visit)"
              using new False by (intro chain_step [OF less.prems(1,2) c ref r]) simp_all
            have "returns (ref_chain_loop k rc hi (cell_index c) checked (index # visit)) (harmless (st \<and> sf))
                (\<lambda>ch. marked_ok k ch \<and> (\<exists>c. c_mem k index = Some c \<and> (is_ref (cell_tag c) \<longrightarrow> ref_ok k c)))"
              using less.hyps [OF sub ch r cf] by (rule returns_conseq) (use c ref r ref_ok_step in blast)
            then show ?thesis using new False by simp
          qed
        qed
      qed
    qed
  qed
qed

lemma check_cell_returns:
  assumes k: "checkable st k" and m: "marked_ok k checked" and i: "in_region k i"
  shows "returns (check_cell k i checked) (harmless (st \<and> sf))
    (\<lambda>(ch, j). marked_ok k ch \<and> (\<exists>c. c_mem k i = Some c \<and> cell_ok k c \<and> (cell_tag c = DAT_T \<or> j = i + 1)))"
  unfolding check_cell_def
proof (rule returns_bind [OF region_get [OF k i]])
  fix c assume c: "c_mem k i = Some c"
  have ch: "chain k i []" "chain_from k i i" by (simp_all add: chain_def chain_from_def)
  have ref: "returns (bindR (check_ref_chain k c i checked) (\<lambda>checked. ok (checked, i + 1))) (harmless (st \<and> sf))
      (\<lambda>(ch, j). marked_ok k ch \<and> (\<exists>c. c_mem k i = Some c \<and> cell_ok k c \<and> (cell_tag c = DAT_T \<or> j = i + 1)))" if "is_ref (cell_tag c)"
    unfolding check_ref_chain_def
    by (rule returns_bind [OF ref_chain_returns [OF k m ch(1) i ch(2)]]) (use c that in \<open>auto simp: cell_ok_def\<close>)
  have str: "returns (bindR (check_pointer k c i) (\<lambda>_. bindR (check_str_functor k c i) (\<lambda>_.
         bindR (check_functor_args k c i) (\<lambda>_. ok (checked, i + 1))))) (harmless (st \<and> sf))
      (\<lambda>(ch, j). marked_ok k ch \<and> (\<exists>c. c_mem k i = Some c \<and> cell_ok k c \<and> (cell_tag c = DAT_T \<or> j = i + 1)))" if t: "cell_tag c = STR_T"
  proof (rule returns_bind [OF check_pointer_returns])
    assume r: "in_region k (cell_index c)"
    have "returns (bindR (bindR (check_str_functor k c i) (\<lambda>_. check_functor_args k c i)) (\<lambda>_. ok (checked, i + 1))) (harmless (st \<and> sf))
      (\<lambda>(ch, j). marked_ok k ch \<and> (\<exists>c. c_mem k i = Some c \<and> cell_ok k c \<and> (cell_tag c = DAT_T \<or> j = i + 1)))"
      by (rule returns_bind [OF check_str_returns [OF k r]]) (use c t m in \<open>simp add: cell_ok_def\<close>)
    then show "returns (bindR (check_str_functor k c i) (\<lambda>_. bindR (check_functor_args k c i) (\<lambda>_. ok (checked, i + 1)))) (harmless (st \<and> sf))
      (\<lambda>(ch, j). marked_ok k ch \<and> (\<exists>c. c_mem k i = Some c \<and> cell_ok k c \<and> (cell_tag c = DAT_T \<or> j = i + 1)))" by simp
  qed
  have big: "returns (bindR (check_pointer k c i) (\<lambda>_. bindR (check_bignum k c i) (\<lambda>_. ok (checked, i + 1)))) (harmless (st \<and> sf))
      (\<lambda>(ch, j). marked_ok k ch \<and> (\<exists>c. c_mem k i = Some c \<and> cell_ok k c \<and> (cell_tag c = DAT_T \<or> j = i + 1)))" if t: "cell_tag c = BIG_T"
    by (rule returns_bind [OF check_pointer_returns], rule returns_bind [OF check_bignum_returns [OF k]])
      (use c t m in \<open>simp_all add: cell_ok_def\<close>)
  show "returns (case cell_tag c of
       DAT_T \<Rightarrow> ok (checked, i + num_cells c)
     | BIG_T \<Rightarrow> bindR (check_pointer k c i) (\<lambda>_. bindR (check_bignum k c i) (\<lambda>_. ok (checked, i + 1)))
     | STR_T \<Rightarrow> bindR (check_pointer k c i) (\<lambda>_. bindR (check_str_functor k c i) (\<lambda>_.
         bindR (check_functor_args k c i) (\<lambda>_. ok (checked, i + 1))))
     | REF_T \<Rightarrow> bindR (check_ref_chain k c i checked) (\<lambda>checked. ok (checked, i + 1))
     | RFW_T \<Rightarrow> bindR (check_ref_chain k c i checked) (\<lambda>checked. ok (checked, i + 1))
     | _ \<Rightarrow> ok (checked, i + 1)) (harmless (st \<and> sf))
    (\<lambda>(ch, j). marked_ok k ch \<and> (\<exists>c. c_mem k i = Some c \<and> cell_ok k c \<and> (cell_tag c = DAT_T \<or> j = i + 1)))"
    by (cases "cell_tag c") (use ref str big c m in \<open>auto simp: cell_ok_def\<close>)
qed

text \<open>Every cell in use that is not behind a data header is checked.\<close>

definition covered :: "check_ctx \<Rightarrow> nat \<Rightarrow> bool" where
  "covered k i \<longleftrightarrow> (\<forall>x. i \<le> x \<and> x < c_end k \<and> is_used (c_start k) (c_used k) x \<longrightarrow> (\<exists>c. c_mem k x = Some c \<and> cell_ok k c))"

lemma covered_step:
  assumes "covered k (i + 1)" "is_used (c_start k) (c_used k) i \<longrightarrow> (\<exists>c. c_mem k i = Some c \<and> cell_ok k c)"
  shows "covered k i"
  unfolding covered_def
proof (intro allI impI)
  fix x assume "i \<le> x \<and> x < c_end k \<and> is_used (c_start k) (c_used k) x"
  then show "\<exists>c. c_mem k x = Some c \<and> cell_ok k c" using assms by (cases "x = i") (auto simp: covered_def)
qed

lemma marked_cell_ok: "marked_ok k checked \<Longrightarrow> i \<in> set checked \<Longrightarrow> \<exists>c. c_mem k i = Some c \<and> cell_ok k c"
  unfolding marked_ok_def cell_ok_def by fastforce

lemma check_loop_returns:
  assumes "checkable st k" "marked_ok k checked" "c_start k \<le> i"
  shows "returns (check_loop k i checked) (harmless (st \<and> sf)) (\<lambda>_. has_dat (c_start k) (c_heap k) \<or> covered k i)"
  using assms
proof (induction k i checked rule: check_loop.induct)
  case (1 k i checked)
  show ?case
  proof (cases "i < c_end k")
    case lt: True
    show ?thesis
    proof (cases "i \<in> set checked \<or> \<not> is_used (c_start k) (c_used k) i")
      case True
      have "returns (check_loop k (i + 1) checked) (harmless (st \<and> sf)) (\<lambda>_. has_dat (c_start k) (c_heap k) \<or> covered k (i + 1))"
        using 1(1) [OF lt True] 1(3-5) by simp
      then have "returns (check_loop k (i + 1) checked) (harmless (st \<and> sf)) (\<lambda>_. has_dat (c_start k) (c_heap k) \<or> covered k i)"
        by (rule returns_conseq) (use True covered_step marked_cell_ok [OF 1(4)] in blast)
      then show ?thesis using lt True by (subst check_loop.simps) simp
    next
      case False
      have i: "in_region k i" using lt 1(5) by (simp add: in_region_def)
      have "returns (bindR (check_cell k i checked) (\<lambda>x. check_loop k (snd x) (fst x))) (harmless (st \<and> sf))
          (\<lambda>_. has_dat (c_start k) (c_heap k) \<or> covered k i)"
      proof (rule returns_bind [OF check_cell_returns [OF 1(3,4) i]])
        fix x assume x: "check_cell k i checked = ok x"
          "case x of (ch, j) \<Rightarrow> marked_ok k ch \<and> (\<exists>c. c_mem k i = Some c \<and> cell_ok k c \<and> (cell_tag c = DAT_T \<or> j = i + 1))"
        obtain ch j where xx: "x = (ch, j)" by (cases x)
        obtain c where c: "marked_ok k ch" "c_mem k i = Some c" "cell_ok k c" "cell_tag c = DAT_T \<or> j = i + 1" using x(2) xx by auto
        have j: "i < j" using check_cell_next x(1) xx by blast
        have "returns (check_loop k j ch) (harmless (st \<and> sf)) (\<lambda>_. has_dat (c_start k) (c_heap k) \<or> covered k j)"
          using 1(2) [OF lt False x(1)] 1(3,5) c(1) j xx by simp
        then show "returns (check_loop k (snd x) (fst x)) (harmless (st \<and> sf)) (\<lambda>_. has_dat (c_start k) (c_heap k) \<or> covered k i)"
          unfolding xx fst_conv snd_conv
        proof (rule returns_conseq)
          assume "has_dat (c_start k) (c_heap k) \<or> covered k j"
          then show "has_dat (c_start k) (c_heap k) \<or> covered k i"
            using c(2-4) 1(5) covered_step [of k i] by (auto simp: has_dat_def)
        qed
      qed
      then show ?thesis using lt False by (subst check_loop.simps) simp
    qed
  qed (subst check_loop.simps, auto simp: covered_def)
qed

subsection \<open>Properties\<close>

text \<open>\<open>region_ok m lo hi\<close>: the cells from \<open>lo\<close> to \<open>hi\<close> form a region of terms.  References stay in the region and their chains
  end; structures have a functor and arguments in the region, and no argument is a functor.\<close>

definition region_ok :: "(nat \<Rightarrow> cell option) \<Rightarrow> nat \<Rightarrow> nat \<Rightarrow> bool" where
  "region_ok m lo hi \<longleftrightarrow> (\<forall>a. lo \<le> a \<and> a < hi \<longrightarrow> (\<exists>c. m a = Some c \<and>
     (is_ref (cell_tag c) \<longrightarrow> lo \<le> cell_index c \<and> cell_index c < hi \<and> (\<exists>d. derefs m c d)) \<and>
     (cell_tag c = STR_T \<longrightarrow> lo \<le> cell_index c \<and> (\<exists>f. m (cell_index c) = Some f \<and> cell_tag f = CON_T \<and> cell_index c + arity f < hi \<and>
        (\<forall>i<arity f. \<exists>x. m (Suc (cell_index c + i)) = Some x \<and> legal_argument x))) \<and>
     cell_tag c \<notin> {BIG_T, DAT_T, FWD_T}))"

lemma read_all_returns:
  assumes inv: "heap_inv (te_heap e)"
    and f: "st \<longrightarrow> fits (4096 + length bs div 8) (te_heap e) \<and> (0 < hp_size (te_heap e) \<longrightarrow> mem (te_heap e) 0 \<noteq> None)"
    and sf: "st \<and> sf \<longrightarrow> hp_size (te_heap e) \<noteq> 1 \<and> \<not> indexed_version bs"
  shows "returns (read_all e bs) (harmless (st \<and> sf)) (\<lambda>(e', t). adds st (te_heap e) (te_heap e') \<and> same_stacks e e' \<and> result_cell e e' t \<and>
    (st \<longrightarrow> has_dat (hp_size (te_heap e)) (te_heap e') \<or> addr_limit < hp_size (te_heap e') \<or>
       region_ok (mem (te_heap e')) (hp_size (te_heap e)) (hp_size (te_heap e'))))"
  unfolding read_all_def read_term_def Let_def
proof (rule returns_bind [OF read_from_returns [OF inv f sf]], clarify)
  fix r t us oh nh
  assume b: "body_read st e (renv r) us" and t: "result_cell e (renv r) t"
  let ?lo = "hp_size (te_heap e)" and ?h = "te_heap (renv r)"
  let ?k = "\<lparr>c_heap = ?h, c_start = ?lo, c_end = hp_size ?h, old_hdr_size = oh, new_hdr_size = nh, c_new_to_old = new_to_old r, c_used = us\<rparr>"
  have k: "checkable st ?k" using b by (simp add: checkable_def body_read_def adds_def in_region_def)
  have ad: "adds st (te_heap e) ?h" "same_stacks e (renv r)" using b by (simp_all add: body_read_def)
  show "returns (bindR (integrity_check ?k) (\<lambda>_. ok (renv r, t))) (harmless (st \<and> sf)) (\<lambda>(e', t). adds st (te_heap e) (te_heap e') \<and> same_stacks e e' \<and>
      result_cell e e' t \<and> (st \<longrightarrow> has_dat ?lo (te_heap e') \<or> addr_limit < hp_size (te_heap e') \<or> region_ok (mem (te_heap e')) ?lo (hp_size (te_heap e'))))"
    unfolding integrity_check_def
  proof (rule returns_bind [OF check_loop_returns [OF k]], simp_all only: returns_simps case_prod_conv)
    show "marked_ok ?k []" by (simp add: marked_ok_def)
    assume cv: "has_dat (c_start ?k) (c_heap ?k) \<or> covered ?k (c_start ?k)"
    have "region_ok (mem ?h) ?lo (hp_size ?h)" if st and nd: "\<not> has_dat ?lo ?h" and lim: "\<not> addr_limit < hp_size ?h"
      unfolding region_ok_def
    proof (intro allI impI)
      fix a assume a: "?lo \<le> a \<and> a < hp_size ?h"
      obtain c where c: "mem ?h a = Some c" using ad(1) a \<open>st\<close> unfolding adds_def by blast
      have "cell_ok ?k c"
      proof (cases "is_used ?lo us a")
        case True
        then show ?thesis using cv nd a c by (auto simp: covered_def)
      next
        case False
        then have "c = ref_cell a" using b a c nd \<open>st\<close> unfolding body_read_def by fastforce
        moreover have "cell_index (ref_cell a) = a" using a lim by simp
        moreover from calculation have "derefs (mem ?h) c c" using c by (intro derefs.unbound) simp_all
        ultimately show ?thesis using a by (auto simp: cell_ok_def ref_ok_def in_region_def)
      qed
      moreover have "cell_tag c \<noteq> DAT_T" using nd a c by (auto simp: has_dat_def)
      moreover have "cell_tag c \<noteq> FWD_T" using b nd a c \<open>st\<close> unfolding body_read_def no_fwd_def by blast
      moreover have "\<not> big_ok ?k c" using nd by (auto simp: has_dat_def big_ok_def in_region_def)
      ultimately show "\<exists>c. mem ?h a = Some c \<and>
         (is_ref (cell_tag c) \<longrightarrow> ?lo \<le> cell_index c \<and> cell_index c < hp_size ?h \<and> (\<exists>d. derefs (mem ?h) c d)) \<and>
         (cell_tag c = STR_T \<longrightarrow> ?lo \<le> cell_index c \<and> (\<exists>f. mem ?h (cell_index c) = Some f \<and> cell_tag f = CON_T \<and> cell_index c + arity f < hp_size ?h \<and>
            (\<forall>i<arity f. \<exists>x. mem ?h (Suc (cell_index c + i)) = Some x \<and> legal_argument x))) \<and>
         cell_tag c \<notin> {BIG_T, DAT_T, FWD_T}"
        using c by (auto simp: cell_ok_def ref_ok_def str_ok_def in_region_def)
    qed
    then show "adds st (te_heap e) ?h \<and> same_stacks e (renv r) \<and> result_cell e (renv r) t \<and>
        (st \<longrightarrow> has_dat ?lo ?h \<or> addr_limit < hp_size ?h \<or> region_ok (mem ?h) ?lo (hp_size ?h))"
      using ad t by blast
  qed
qed

text \<open>Reference chains that end have no cycle.\<close>

lemma chains_acyclic:
  assumes "\<And>a c. a \<in> D \<Longrightarrow> m a = Some c \<Longrightarrow> is_ref (cell_tag c) \<Longrightarrow> \<exists>d. derefs m c d"
  shows "acyclic (ref_edges m D)"
proof -
  let ?E = "ref_edges m D"
  have det: "b = b'" if "(a, b) \<in> ?E" "(a, b') \<in> ?E" for a b b' using that by (auto simp: ref_edges_def)
  have no: "(a, a) \<notin> ?E\<^sup>+" if "derefs m c d" "m a = Some c" for a c d
    using that
  proof (induction arbitrary: a rule: derefs.induct)
    case (nonref c)
    then have "(a, b) \<notin> ?E" for b by (auto simp: ref_edges_def)
    then show ?case by (meson tranclD)
  next
    case (unbound c)
    have n: "(cell_index c, b) \<notin> ?E" for b using unbound by (auto simp: ref_edges_def)
    have "b = cell_index c" if "(a, b) \<in> ?E" for b using that unbound.prems by (auto simp: ref_edges_def)
    then show ?case using n by (metis tranclD rtranclD)
  next
    case (follow c c' d)
    show ?case
    proof
      assume "(a, a) \<in> ?E\<^sup>+"
      then obtain b where b: "(a, b) \<in> ?E" "(b, a) \<in> ?E\<^sup>*" by (meson tranclD)
      then have "b = cell_index c" using follow.prems by (auto simp: ref_edges_def)
      then have "(b, b) \<notin> ?E\<^sup>+" using follow.IH follow.hyps(2) by blast
      then show False using b by (meson rtrancl_into_trancl1)
    qed
  qed
  have "(a, a) \<notin> ?E\<^sup>+" for a
  proof
    assume c: "(a, a) \<in> ?E\<^sup>+"
    then obtain b where "(a, b) \<in> ?E" by (meson tranclD)
    then obtain x where "a \<in> D" "m a = Some x" "is_ref (cell_tag x)" by (auto simp: ref_edges_def)
    then show False using c no assms by blast
  qed
  then show ?thesis by (simp add: acyclic_def)
qed

text \<open>The check does not look at what else points to a functor.  \<open>functors_apart\<close>: no reference points to the functor of a
  structure, and no functor is the argument of a structure.\<close>

definition functor_addrs :: "(nat \<Rightarrow> cell option) \<Rightarrow> nat \<Rightarrow> nat \<Rightarrow> nat set" where
  "functor_addrs m lo hi = {cell_index c | a c. lo \<le> a \<and> a < hi \<and> m a = Some c \<and> cell_tag c = STR_T}"

definition functors_apart :: "(nat \<Rightarrow> cell option) \<Rightarrow> nat \<Rightarrow> nat \<Rightarrow> bool" where
  "functors_apart m lo hi \<longleftrightarrow> (\<forall>a c. lo \<le> a \<and> a < hi \<and> m a = Some c \<longrightarrow>
     (is_ref (cell_tag c) \<longrightarrow> cell_index c \<notin> functor_addrs m lo hi) \<and>
     (cell_tag c = STR_T \<longrightarrow> (\<forall>i<arity (the (m (cell_index c))). Suc (cell_index c + i) \<notin> functor_addrs m lo hi)))"

lemma region_functors:
  assumes "region_ok m lo hi"
  shows "functor_addrs m lo hi \<subseteq> {lo..<hi}"
proof
  fix f assume "f \<in> functor_addrs m lo hi"
  then obtain a c where "lo \<le> a \<and> a < hi" "m a = Some c" "cell_tag c = STR_T" "f = cell_index c" by (auto simp: functor_addrs_def)
  then show "f \<in> {lo..<hi}" using assms [unfolded region_ok_def, rule_format, of a] by auto
qed

lemma region_store_ok:
  assumes r: "region_ok m lo hi" and s: "functors_apart m lo hi" and hi: "hi \<le> addr_limit"
  shows "store_ok m ({lo..<hi} - functor_addrs m lo hi) (functor_addrs m lo hi) {}"
proof -
  let ?F = "functor_addrs m lo hi"
  let ?D = "{lo..<hi} - ?F"
  have cell: "\<exists>c. m a = Some c \<and> (is_ref (cell_tag c) \<longrightarrow> lo \<le> cell_index c \<and> cell_index c < hi \<and> (\<exists>d. derefs m c d)) \<and>
     (cell_tag c = STR_T \<longrightarrow> lo \<le> cell_index c \<and> (\<exists>f. m (cell_index c) = Some f \<and> cell_tag f = CON_T \<and> cell_index c + arity f < hi \<and>
        (\<forall>i<arity f. \<exists>x. m (Suc (cell_index c + i)) = Some x \<and> legal_argument x))) \<and>
     cell_tag c \<notin> {BIG_T, DAT_T, FWD_T}" if "lo \<le> a" "a < hi" for a
    using r that unfolding region_ok_def by blast
  have F: "lo \<le> f \<and> f < hi \<and> (\<exists>c. m f = Some c \<and> cell_tag c = CON_T \<and> (\<forall>i<arity c. f + 1 + i \<in> ?D))" if f: "f \<in> ?F" for f
  proof -
    obtain a c where a: "lo \<le> a" "a < hi" "m a = Some c" "cell_tag c = STR_T" "f = cell_index c" using f by (auto simp: functor_addrs_def)
    obtain g where g: "m f = Some g" "cell_tag g = CON_T" "f + arity g < hi" "lo \<le> f" using cell [OF a(1,2)] a by auto
    have "Suc (f + i) \<notin> ?F" if "i < arity g" for i using s a g(1) that unfolding functors_apart_def by fastforce
    then show ?thesis using g by auto
  qed
  have D: "\<exists>c. m a = Some c \<and> term_ok ?D ?F {} c" if "a \<in> ?D" for a
  proof -
    have a: "lo \<le> a" "a < hi" using that by auto
    obtain c where c: "m a = Some c" "is_ref (cell_tag c) \<longrightarrow> lo \<le> cell_index c \<and> cell_index c < hi" "cell_tag c \<notin> {BIG_T, DAT_T, FWD_T}"
      using cell [OF a] by blast
    have "is_ref (cell_tag c) \<longrightarrow> cell_index c \<notin> ?F" using s a c(1) unfolding functors_apart_def by blast
    moreover have "cell_tag c = STR_T \<longrightarrow> cell_index c \<in> ?F" using a c(1) by (auto simp: functor_addrs_def)
    ultimately show ?thesis using c by (simp add: term_ok_def)
  qed
  have ac: "acyclic (ref_edges m ?D)" by (rule chains_acyclic) (use cell in fastforce)
  have sub: "?F \<subseteq> {lo..<hi}" using F by auto
  show ?thesis
    unfolding store_ok_def
  proof (intro conjI)
    show "finite ?D" "?D \<inter> ?F = {}" by auto
    show "finite ?F" using sub by (rule finite_subset) simp
    show "?D \<union> ?F \<subseteq> {..<addr_limit}" using sub hi by (auto simp: subset_eq)
  qed (use D F ac in blast)+
qed

subsection \<open>Buffers without names\<close>

lemma header_cells [simp]: "cell_tag VER1 = CON_T" "cell_tag REMAP = CON_T" "cell_tag PAMER = CON_T"
  by code_simp+

lemma empty_list_con: "cell_tag EMPTY_LIST = CON_T"
  by code_simp

abbreviation plain :: "cell list \<Rightarrow> buffer" where
  "plain cs \<equiv> cells (VER1 # REMAP # PAMER # cs)"

lemma read_plain: "i < length cs \<Longrightarrow> read_cell (plain cs) (24 + 8 * i) = ok (cs ! i)"
  using read_cells [of "3 + i" "VER1 # REMAP # PAMER # cs"] by (simp add: distrib_left)

lemma read_header_plain: "read_all_header r (plain cs) 0 = ok (r, 24)"
proof -
  have "read_cell (plain cs) 0 = ok VER1" "read_cell (plain cs) 8 = ok REMAP" "read_cell (plain cs) 16 = ok PAMER"
    using read_cells [of 0 "VER1 # REMAP # PAMER # cs"] read_cells [of 1 "VER1 # REMAP # PAMER # cs"] read_cells [of 2 "VER1 # REMAP # PAMER # cs"]
    by (simp_all add: numeral_2_eq_2)
  then show ?thesis by (simp add: read_all_header_def Let_def remap_loop.simps [of r "plain cs" 16] del: cells_simps)
qed

text \<open>Reading one reference that does not point into the buffer.\<close>

lemma read_one_ref:
  assumes inv: "heap_inv (te_heap e)" and f: "fits 4096 (te_heap e)" and i: "3 < i" "i < addr_limit"
  obtains h where "read_from e (plain [ref_cell i]) 32 (hp_size (te_heap e)) 0 =
      ok (\<lparr>renv = e\<lparr>te_heap := h\<rparr>, rindex = Map.empty, new_to_old = [ref_cell (i - 3) \<mapsto> ref_cell i]\<rparr>, ref_cell i, [True], 24, 0)"
    "heap_inv h" "hp_size h = Suc (hp_size (te_heap e))" "mem h (hp_size (te_heap e)) = Some (ref_cell i)"
    "\<forall>x<hp_size (te_heap e). mem h x = mem (te_heap e) x"
proof -
  let ?a = "hp_size (te_heap e)" and ?c = "ref_cell (i - 3)"
  let ?r = "\<lparr>renv = e, rindex = Map.empty, new_to_old = Map.empty\<rparr>"
  let ?b = "\<lparr>rd = ?r, ptr_terms = [], old_new_index = Map.empty, used = [], num_dat = 0, result_index = None\<rparr>"
  have ix: "cell_index (ref_cell i) = i" "cell_index ?c = i - 3" using i by simp_all
  have k: "1 + arity ?c \<le> 4096" using arity_bound [of ?c] by simp
  obtain h1 a where h1: "new_cell0 (te_heap e) ?c True = ok (h1, a)" "one_more (1 + arity ?c) ?c (te_heap e) h1 a"
    using new_cell0_one [OF inv] by blast
  have a: "a = ?a" using h1(2) fits_le [OF f k] by (simp add: one_more_def)
  have inv1: "heap_inv h1" and m1: "mem h1 ?a = Some ?c" "?a < hp_size h1" using h1(2) a by (simp_all add: one_more_def heap_ext_def)
  obtain h2 where h2: "heap_set h1 ?a (ref_cell i) = ok h2" "heap_inv h2" "same_frame h1 h2" "mem h2 = (mem h1)(?a \<mapsto> ref_cell i)"
    using heap_set_mem [OF inv1 m1(2)] by blast
  let ?b1 = "\<lparr>rd = \<lparr>renv = e\<lparr>te_heap := h1\<rparr>, rindex = Map.empty, new_to_old = [?c \<mapsto> ref_cell i]\<rparr>, ptr_terms = [?a],
    old_new_index = [0 \<mapsto> ?a], used = [True], num_dat = 0, result_index = Some ?a\<rparr>"
  have rc: "read_cell (plain [ref_cell i]) 24 = ok (ref_cell i)" using read_plain [of 0 "[ref_cell i]"] by simp
  have new: "ptr_cell REF_T (i - 3) = ?c" by (simp add: ref_cell_def)
  have "read_round (plain [ref_cell i]) 32 ?a 0 24 True ?b 24 = ok (Continue ?b1)"
    using rc h1(1) a i ix new
    by (simp add: read_round_def read_ptr_def alloc_cell_def map_old_def set_used_def cell_count_def Let_def del: cells_simps)
  then have loop: "read_loop (plain [ref_cell i]) 32 ?a 0 24 True ?b 24 = ok (Continue ?b1)"
    by (simp add: read_loop.simps [of _ _ _ _ _ _ ?b] read_loop.simps [of _ _ _ _ _ _ ?b1] del: cells_simps)
  have get: "heap_get h1 ?a = ok ?c" "heap_get h2 ?a = ok (ref_cell i)"
    using heap_get_ok [OF inv1] heap_get_ok [OF h2(2)] m1(1) h2(4) by simp_all
  have "patch_loop h1 [0 \<mapsto> ?a] 3 [?a] = ok h2"
    using get(1) h2(1) ix i by (simp add: ref_cell_def)
  then have "read_from e (plain [ref_cell i]) 32 ?a 0 =
      ok (\<lparr>renv = e\<lparr>te_heap := h2\<rparr>, rindex = Map.empty, new_to_old = [?c \<mapsto> ref_cell i]\<rparr>, ref_cell i, [True], 24, 0)"
    using loop get(2) by (simp add: read_from_def read_header_plain cell_count_def Let_def del: cells_simps)
  then show thesis
    using h2 h1(2) a by (intro that [of h2]) (auto simp: same_frame_def one_more_def heap_ext_def)
qed

text \<open>Reading one integer.\<close>

lemma read_one_int:
  assumes inv: "heap_inv (te_heap e)" and f: "fits 4096 (te_heap e)"
  shows "\<exists>e'. read_all e (plain [int_cell n]) = ok (e', int_cell n) \<and> hp_size (te_heap e') = Suc (hp_size (te_heap e)) \<and>
    mem (te_heap e') (hp_size (te_heap e)) = Some (int_cell n)"
proof -
  let ?a = "hp_size (te_heap e)" and ?c = "int_cell n"
  let ?r = "\<lparr>renv = e, rindex = Map.empty, new_to_old = Map.empty\<rparr>"
  let ?b = "\<lparr>rd = ?r, ptr_terms = [], old_new_index = Map.empty, used = [], num_dat = 0, result_index = None\<rparr>"
  have k: "1 + arity ?c \<le> 4096" using arity_bound [of ?c] by simp
  obtain h a where h: "new_cell0 (te_heap e) ?c True = ok (h, a)" "one_more (1 + arity ?c) ?c (te_heap e) h a"
    using new_cell0_one [OF inv] by blast
  have a: "a = ?a" using h(2) fits_le [OF f k] by (simp add: one_more_def)
  have inv1: "heap_inv h" and m1: "mem h ?a = Some ?c" "hp_size h = Suc ?a" using h(2) a by (simp_all add: one_more_def heap_ext_def)
  let ?b1 = "\<lparr>rd = \<lparr>renv = e\<lparr>te_heap := h\<rparr>, rindex = Map.empty, new_to_old = Map.empty\<rparr>, ptr_terms = [], old_new_index = [0 \<mapsto> ?a], used = [True], num_dat = 0, result_index = Some ?a\<rparr>"
  have rc: "read_cell (plain [?c]) 24 = ok ?c" using read_plain [of 0 "[?c]"] by simp
  have "read_round (plain [?c]) 32 ?a 0 24 True ?b 24 = ok (Continue ?b1)"
    using rc h(1) a by (simp add: read_round_def alloc_cell_def set_used_def Let_def del: cells_simps)
  then have loop: "read_loop (plain [?c]) 32 ?a 0 24 True ?b 24 = ok (Continue ?b1)"
    by (simp add: read_loop.simps [of _ _ _ _ _ _ ?b] read_loop.simps [of _ _ _ _ _ _ ?b1] del: cells_simps)
  have get: "heap_get h ?a = ok ?c" using heap_get_ok [OF inv1] m1(1) by simp
  have rdf: "read_from e (plain [?c]) 32 ?a 0 = ok (?r\<lparr>renv := e\<lparr>te_heap := h\<rparr>\<rparr>, ?c, [True], 24, 0)"
    using loop get by (simp add: read_from_def read_header_plain cell_count_def Let_def del: cells_simps)
  let ?k = "\<lparr>c_heap = h, c_start = ?a, c_end = Suc ?a, old_hdr_size = 24, new_hdr_size = 0, c_new_to_old = Map.empty, c_used = [True]\<rparr>"
  have "check_loop ?k (Suc ?a) ch = ok ()" for ch by (subst check_loop.simps) simp
  then have "check_loop ?k ?a [] = ok ()" using get by (subst check_loop.simps) (simp add: is_used_def check_cell_def)
  then have "read_all e (plain [?c]) = ok (e\<lparr>te_heap := h\<rparr>, ?c)" using rdf m1(2) by (simp add: read_all_def read_term_def integrity_check_def Let_def)
  then show ?thesis using m1 by (intro exI [of _ "e\<lparr>te_heap := h\<rparr>"]) simp
qed

lemma indexed_version_fails:
  "indexed_version bs \<Longrightarrow> read_all e bs = throw (Env Assertion_failed)"
proof -
  have "is_direct VER1" by code_simp
  moreover assume "indexed_version bs"
  then obtain c where "read_cell bs 0 = ok c" "cell_tag c = CON_T" "\<not> is_direct c" by (auto simp: indexed_version_def)
  ultimately show ?thesis by (auto simp: read_all_def read_term_def read_from_def read_all_header_def Let_def)
qed

text \<open>\<open>has_body e bs\<close>: the header is accepted and the buffer goes on after it.\<close>

definition has_body :: "tenv \<Rightarrow> buffer \<Rightarrow> bool" where
  "has_body e bs \<longleftrightarrow> (\<exists>r o'. read_all_header \<lparr>renv = e, rindex = Map.empty, new_to_old = Map.empty\<rparr> bs 0 = ok (r, o') \<and> o' < length bs)"

lemma read_all_result:
  assumes "heap_inv (te_heap e)" "has_body e bs" "read_all e bs = ok (e', t)"
  shows "result_new e e' t"
proof -
  let ?lo = "hp_size (te_heap e)"
  obtain r0 o' where h: "read_all_header \<lparr>renv = e, rindex = Map.empty, new_to_old = Map.empty\<rparr> bs 0 = ok (r0, o')" "o' < length bs"
    using assms(2) by (auto simp: has_body_def)
  obtain r us oh nh where f: "read_from e bs (length bs) ?lo 0 = ok (r, t, us, oh, nh)" "renv r = e'"
    using assms(3) by (auto simp: read_all_def read_term_def bindR_ok_iff Let_def split: prod.splits)
  have "oh = o'"
    using f(1) h(1) by (auto simp: read_from_def bindR_ok_iff Let_def split: loop_step.splits) (metis loop_step.exhaust)
  then show ?thesis
    using returns_ok [OF read_from_returns [OF assms(1), of False bs False "length bs"] f(1)] h(2) f(2) by simp
qed


lemma sample_readable:
  "heap_inv (te_heap sample_env)" "n \<le> 8186 \<Longrightarrow> fits n (te_heap sample_env)" "mem (te_heap sample_env) 0 = Some (ref_cell 1)"
  "hp_size (te_heap sample_env) = 6"
  by (simp_all add: sample_env_def sample_heap_inv sample_heap_mem fits_def) (simp_all add: sample_heap_def MAX_SIZE_def)


text \<open>C7: Reading ends on every sequence of bytes, with a term or an exception; when it returns a term, the cells that
  were there are the same, and so are stack, trail and temporary stacks.\<close>

theorem read_terminates:
  assumes "heap_inv (te_heap e)"
  shows "returns (read_all e bs) (\<lambda>err. True) (\<lambda>(e', t). heap_inv (te_heap e') \<and> hp_size (te_heap e) \<le> hp_size (te_heap e') \<and>
    (\<forall>x<hp_size (te_heap e). mem (te_heap e') x = mem (te_heap e) x) \<and> same_stacks e e')"
  using read_all_returns [OF assms, of False bs False]
  by (cases "read_all e bs"; cases "the (read_all e bs)") (auto simp: adds_def)

theorem read_terminates_witness:
  "returns (read_all sample_env [1, 2, 3]) (\<lambda>err. True) (\<lambda>(e', t). heap_inv (te_heap e') \<and> hp_size (te_heap sample_env) \<le> hp_size (te_heap e') \<and>
    (\<forall>x<hp_size (te_heap sample_env). mem (te_heap e') x = mem (te_heap sample_env) x) \<and> same_stacks sample_env e')"
  by (rule read_terminates) (rule sample_readable)



text \<open>The two unsafe inputs.\<close>

lemma read_fwd_undefined:
  assumes "hp_size (te_heap e) = 1"
  shows "read_all e (plain [fwd_cell n]) = throw (Env Undefined_behaviour)"
proof -
  have rc: "read_cell (plain [fwd_cell n]) 24 = ok (fwd_cell n)" using read_plain [of 0 "[fwd_cell n]"] by simp
  have "read_round (plain [fwd_cell n]) 32 1 0 24 True b 24 = throw (Env Undefined_behaviour)" if "num_dat b = 0" for b
    using rc that by (simp add: read_round_def set_used_def)
  then have "read_from e (plain [fwd_cell n]) 32 1 0 = throw (Env Undefined_behaviour)"
    by (simp add: read_header_plain read_from_def read_loop.simps [of _ _ _ _ _ _ _ 24] Let_def del: cells_simps)
  then show ?thesis using assms by (simp add: read_all_def read_term_def Let_def)
qed

text \<open>C9: Whether a pointer out of the buffer is found depends on the size of the heap.  The buffer holds one reference to a
  cell it does not have.  Reading keeps its address, so it is accepted when the address happens to be the one where the
  cell is put, and refused as a dangling pointer otherwise.\<close>

theorem read_dangling_pointer:
  assumes "heap_inv (te_heap e)" "fits 4096 (te_heap e)" "3 < i" "i < addr_limit"
  shows "if i = hp_size (te_heap e) then \<exists>e'. read_all e (plain [ref_cell i]) = ok (e', ref_cell i)
    else read_all e (plain [ref_cell i]) = throw (Dangling_pointer (ref_cell i) 24)"
proof -
  let ?a = "hp_size (te_heap e)"
  obtain h where h: "read_from e (plain [ref_cell i]) 32 ?a 0 =
      ok (\<lparr>renv = e\<lparr>te_heap := h\<rparr>, rindex = Map.empty, new_to_old = [ref_cell (i - 3) \<mapsto> ref_cell i]\<rparr>, ref_cell i, [True], 24, 0)"
    "heap_inv h" "hp_size h = Suc ?a" "mem h ?a = Some (ref_cell i)"
    using read_one_ref [OF assms] by metis
  let ?k = "\<lparr>c_heap = h, c_start = ?a, c_end = Suc ?a, old_hdr_size = 24, new_hdr_size = 0,
    c_new_to_old = [ref_cell (i - 3) \<mapsto> ref_cell i], c_used = [True]\<rparr>"
  have ix: "cell_index (ref_cell i) = i" "is_ref (cell_tag (ref_cell i))" using assms(4) by simp_all
  have get: "heap_get h ?a = ok (ref_cell i)" using heap_get_ok [OF h(2)] h(4) by simp
  have "cell_index (ref_cell (i - 3)) = i - 3" using assms(4) by simp
  then have ne: "ref_cell i \<noteq> ref_cell (i - 3)" using ix(1) assms(3) by fastforce
  have "read_all e (plain [ref_cell i]) = bindR (check_loop ?k ?a []) (\<lambda>_. ok (e\<lparr>te_heap := h\<rparr>, ref_cell i))"
    using h(1,3) by (simp add: read_all_def read_term_def integrity_check_def Let_def)
  also have "check_loop ?k ?a [] = bindR (ref_chain_loop ?k (ref_cell i) ?a ?a [] []) (\<lambda>ch. check_loop ?k (Suc ?a) ch)"
    using get by (subst check_loop.simps) (simp add: is_used_def check_cell_def check_ref_chain_def)
  also have "ref_chain_loop ?k (ref_cell i) ?a ?a [] [] = (if i = ?a then ok [?a] else throw (Dangling_pointer (ref_cell i) 24))"
    using get ix ne by (subst ref_chain_loop.simps)
      (auto simp: check_pointer_def compute_old_cell_def compute_old_offset_def compute_old_index_def cell_count_def Let_def)
  finally have all: "read_all e (plain [ref_cell i]) =
      bindR (bindR (if i = ?a then ok [?a] else throw (Dangling_pointer (ref_cell i) 24)) (\<lambda>ch. check_loop ?k (Suc ?a) ch)) (\<lambda>_. ok (e\<lparr>te_heap := h\<rparr>, ref_cell i))" .
  have cl: "check_loop ?k (Suc ?a) ch = ok ()" for ch by (subst check_loop.simps) simp
  show ?thesis
  proof (cases "i = ?a")
    case True
    show ?thesis unfolding all if_P [OF True] bindR_simps cl by blast
  qed (simp only: all if_False bindR_simps)
qed

theorem read_dangling_pointer_witness:
  "\<exists>e'. read_all sample_env (plain [ref_cell 6]) = ok (e', ref_cell 6)"
  using read_dangling_pointer [of sample_env 6] sample_readable by (simp add: addr_limit_def)

text \<open>A buffer that ends after its header is accepted; the term is whatever the first cell of the heap holds.\<close>

theorem read_header_only:
  assumes "heap_inv (te_heap e)" "mem (te_heap e) 0 = Some c"
  shows "read_all e (plain []) = ok (e, c)"
proof -
  have get: "heap_get (te_heap e) 0 = ok c" using assms heap_get_ok by blast
  have e: "e\<lparr>te_heap := te_heap e\<rparr> = e" by simp
  show ?thesis
    using get by (simp add: read_all_def read_term_def read_from_def read_header_plain [of _ "[]", simplified] read_loop.simps cell_count_def
        integrity_check_def check_loop.simps Let_def)
qed

theorem read_header_only_witness: "read_all sample_env (plain []) = ok (sample_env, ref_cell 1)"
  by (rule read_header_only) (rule sample_readable)+

end
