(* ===== verification/Term_Copy.thy ===== *)
theory Term_Copy
  imports Term_Env
begin

section \<open>Copying terms\<close>

text \<open>
  \<open>term_utils::copy\<close> of \<^verbatim>\<open>src/src/common/term_env.cpp\<close>, with the variants of \<^verbatim>\<open>term_env.hpp\<close>.  The source heap and the
  source names are the environment's own or another environment's.  Stack and temporary stack hold a cell below a mark:
  the integer 1 on the stack says that the arguments of a structure are done, on the temporary stack that the cell is
  a structure of the source that is still being copied.
\<close>

datatype 'a source = Own | Other 'a

record copy_state =
  cp_env :: tenv
  term_map :: "cell \<Rightarrow> cell option"
  con_map :: "cell \<Rightarrow> cell option"
  cyclic_args :: "(cell \<times> nat) list"
  current_path :: "cell set"
  cp_cost :: u64

definition src_heap :: "heap source \<Rightarrow> copy_state \<Rightarrow> heap" where
  "src_heap src s = (case src of Own \<Rightarrow> te_heap (cp_env s) | Other h \<Rightarrow> h)"

definition src_name :: "naming_map source option \<Rightarrow> copy_state \<Rightarrow> cell \<Rightarrow> string" where
  "src_name src_names s r = (case src_names of None \<Rightarrow> []
     | Some Own \<Rightarrow> get_name (var_naming (cp_env s)) r
     | Some (Other names) \<Rightarrow> get_name names r)"

definition on_env :: "copy_state \<Rightarrow> (tenv \<Rightarrow> tenv) \<Rightarrow> copy_state" where
  "on_env s f = s\<lparr>cp_env := f (cp_env s)\<rparr>"

definition push2 :: "copy_state \<Rightarrow> cell \<Rightarrow> int \<Rightarrow> copy_state" where
  "push2 s c mark = on_env s (\<lambda>e. push (push e c) (int_cell mark))"

definition temp_push2 :: "copy_state \<Rightarrow> cell \<Rightarrow> int \<Rightarrow> copy_state" where
  "temp_push2 s c mark = on_env s (\<lambda>e. temp_push (temp_push e c) (int_cell mark))"

definition leave_path :: "copy_state \<Rightarrow> cell \<Rightarrow> copy_state" where
  "leave_path s c = s\<lparr>current_path := current_path s - {c}\<rparr>"

definition copy_var :: "naming_map source option \<Rightarrow> copy_state \<Rightarrow> cell \<Rightarrow> copy_state tres" where
  "copy_var src_names s c = bindR (new_ref (te_heap (cp_env s))) (\<lambda>(h, v).
     let s = (on_env s (\<lambda>e. e\<lparr>te_heap := h\<rparr>))\<lparr>term_map := (term_map s)(c \<mapsto> v)\<rparr>;
         vn = src_name src_names s c;
         s = (if vn \<noteq> [] then on_env s (\<lambda>e. e\<lparr>var_naming := set_name (var_naming e) v vn\<rparr>) else s)
     in ok (leave_path (temp_push2 s v 0) c))"

text \<open>The constant of the destination for a constant of the source.\<close>

definition copy_con :: "heap source \<Rightarrow> copy_state \<Rightarrow> cell \<Rightarrow> (cell \<times> copy_state) tres" where
  "copy_con src s f = (case con_map s f of
       Some dst \<Rightarrow> ok (dst, s)
     | None \<Rightarrow> bindR (atom_name (src_heap src s) f) (\<lambda>name.
         bindR (new_functor (te_heap (cp_env s)) name (arity f)) (\<lambda>(h, dst).
           ok (dst, (on_env s (\<lambda>e. e\<lparr>te_heap := h\<rparr>))\<lparr>con_map := (con_map s)(f \<mapsto> dst)\<rparr>))))"

text \<open>The new arguments are on the temporary stack, the last one on top; \<open>i\<close> are left.\<close>

primrec copy_args :: "copy_state \<Rightarrow> cell \<Rightarrow> nat \<Rightarrow> copy_state tres" where
  "copy_args s newstr 0 = ok s"
| "copy_args s newstr (Suc i) = bindR (temp_pop (cp_env s)) (\<lambda>(mark, e). bindR (temp_pop e) (\<lambda>(new_arg, e).
     bindR (on_heap e (\<lambda>h. set_arg h newstr i new_arg)) (\<lambda>e.
       let s = s\<lparr>cp_env := e\<rparr>;
           s = (if mark = int_cell 1 then s\<lparr>cyclic_args := cyclic_args s @ [(newstr, i)]\<rparr> else s)
       in copy_args s newstr i)))"

text \<open>The arguments of the source are pushed, the first one on top; \<open>i\<close> are left.\<close>

primrec copy_push_args :: "heap source \<Rightarrow> copy_state \<Rightarrow> cell \<Rightarrow> nat \<Rightarrow> copy_state tres" where
  "copy_push_args src s c 0 = ok s"
| "copy_push_args src s c (Suc i) = bindR (arg (src_heap src s) c i) (\<lambda>a. copy_push_args src (push2 s a 0) c i)"

definition copy_str :: "heap source \<Rightarrow> copy_state \<Rightarrow> cell \<Rightarrow> bool \<Rightarrow> copy_state tres" where
  "copy_str src s c processed = bindR (functor_of (src_heap src s) c) (\<lambda>f. bindR (copy_con src s f) (\<lambda>(dst_f, s).
     if processed then
       bindR (new_str (te_heap (cp_env s)) dst_f) (\<lambda>(h, newstr).
         let s = (on_env s (\<lambda>e. e\<lparr>te_heap := h\<rparr>))\<lparr>term_map := (term_map s)(c \<mapsto> newstr)\<rparr> in
         bindR (copy_args s newstr (arity f)) (\<lambda>s. ok (leave_path (temp_push2 s newstr 0) c)))
     else copy_push_args src (push2 s c 1) c (arity f)))"

primrec copy_dat :: "heap source \<Rightarrow> copy_state \<Rightarrow> nat \<Rightarrow> nat \<Rightarrow> nat \<Rightarrow> copy_state tres" where
  "copy_dat src s to from 0 = ok s"
| "copy_dat src s to from (Suc n) = bindR (heap_get (src_heap src s) from) (\<lambda>c.
     bindR (on_heap (cp_env s) (\<lambda>h. heap_set h to c)) (\<lambda>e. copy_dat src (s\<lparr>cp_env := e\<rparr>) (Suc to) (Suc from) n))"

definition copy_big :: "bool \<Rightarrow> heap source \<Rightarrow> copy_state \<Rightarrow> cell \<Rightarrow> copy_state tres" where
  "copy_big dont_copy_big src s c =
     (if dont_copy_big then ok (temp_push2 s c 0)
      else bindR (heap_get (src_heap src s) (cell_index c)) (\<lambda>dat.
        bindR (new_big (te_heap (cp_env s)) (num_bits dat)) (\<lambda>(h, newbig).
          bindR (copy_dat src (on_env s (\<lambda>e. e\<lparr>te_heap := h\<rparr>)) (cell_index newbig) (cell_index c) (num_cells dat)) (\<lambda>s.
            ok (temp_push2 s newbig 0)))))"

definition copy_round :: "bool \<Rightarrow> heap source \<Rightarrow> naming_map source option \<Rightarrow> copy_state \<Rightarrow> copy_state tres" where
  "copy_round dont_copy_big src src_names s = bindR (pop (cp_env s)) (\<lambda>(mark, e). bindR (pop e) (\<lambda>(c, e).
     let processed = (mark = int_cell 1); s = s\<lparr>cp_env := e, cp_cost := cp_cost s + 1\<rparr> in
     case term_map s c of
       Some new_c \<Rightarrow> ok (temp_push2 s new_c 0)
     | None \<Rightarrow>
         if cell_tag c = STR_T \<and> \<not> processed \<and> c \<in> current_path s then ok (temp_push2 s c 1)
         else (let s = s\<lparr>current_path := insert c (current_path s)\<rparr> in
           case cell_tag c of
             REF_T \<Rightarrow> copy_var src_names s c
           | RFW_T \<Rightarrow> copy_var src_names s c
           | CON_T \<Rightarrow> (if is_direct c then ok (leave_path (temp_push2 s c 0) c)
               else bindR (copy_con src s c) (\<lambda>(dst, s). ok (leave_path (temp_push2 s dst 0) c)))
           | INT_T \<Rightarrow> ok (leave_path (temp_push2 s c 0) c)
           | STR_T \<Rightarrow> copy_str src s c processed
           | BIG_T \<Rightarrow> copy_big dont_copy_big src s c
           | _ \<Rightarrow> ok s)))"

partial_function (option) copy_loop :: "bool \<Rightarrow> heap source \<Rightarrow> naming_map source option \<Rightarrow> nat \<Rightarrow> copy_state \<Rightarrow> copy_state tres" where
  "copy_loop dont_copy_big src src_names d s = (if stack_size (cp_env s) > d then
       bindR (copy_round dont_copy_big src src_names s) (copy_loop dont_copy_big src src_names d)
     else ok s)"

text \<open>\<open>term_map[old_arg]\<close> is the raw cell 0 when there is no entry.\<close>

primrec patch_cyclic :: "copy_state \<Rightarrow> (cell \<times> nat) list \<Rightarrow> copy_state tres" where
  "patch_cyclic s [] = ok s"
| "patch_cyclic s (a # rest) = bindR (arg (te_heap (cp_env s)) (fst a) (snd a)) (\<lambda>old_arg.
     bindR (on_heap (cp_env s) (\<lambda>h. set_arg h (fst a) (snd a) (case term_map s old_arg of None \<Rightarrow> 0 | Some c \<Rightarrow> c))) (\<lambda>e.
       patch_cyclic (s\<lparr>cp_env := e\<rparr>) rest))"

definition utils_copy :: "bool \<Rightarrow> tenv \<Rightarrow> cell \<Rightarrow> heap source \<Rightarrow> naming_map source option \<Rightarrow> (cell \<times> u64 \<times> tenv) tres" where
  "utils_copy dont_copy_big e c src src_names =
     (let d = stack_size e;
          s = \<lparr>cp_env = temp_clear e, term_map = Map.empty, con_map = Map.empty, cyclic_args = [], current_path = {}, cp_cost = 0\<rparr> in
      bindR (deref (src_heap src s) c) (\<lambda>c.
      bindR (copy_loop dont_copy_big src src_names d (push2 s c 0)) (\<lambda>s.
      bindR (patch_cyclic s (cyclic_args s)) (\<lambda>s.
      bindR (temp_pop (cp_env s)) (\<lambda>(_, e).
      bindR (temp_pop e) (\<lambda>(r, e). ok (r, cp_cost s, e)))))))"

definition copy_without_names :: "tenv \<Rightarrow> cell \<Rightarrow> (cell \<times> u64 \<times> tenv) tres" where
  "copy_without_names e t = utils_copy False e t Own None"

definition copy_term :: "tenv \<Rightarrow> cell \<Rightarrow> (cell \<times> u64 \<times> tenv) tres" where
  "copy_term e t = utils_copy False e t Own (Some Own)"

definition copy_from :: "tenv \<Rightarrow> cell \<Rightarrow> tenv \<Rightarrow> (cell \<times> u64 \<times> tenv) tres" where
  "copy_from e t src = utils_copy False e t (Other (te_heap src)) (Some (Other (var_naming src)))"

definition copy_except_big :: "tenv \<Rightarrow> cell \<Rightarrow> (cell \<times> u64 \<times> tenv) tres" where
  "copy_except_big e t = utils_copy True e t Own None"

end
