(* ===== verification/Copy_Correct.thy ===== *)
theory Copy_Correct
  imports Term_Copy Term_Tree
begin

section \<open>Correctness of copying\<close>

text \<open>
  Copying a finite term yields a term of the same shape: constants keep name and arity, variables are replaced one to
  one by fresh ones, numbers are the same, and no existing cell changes.  The run of the loop on one subterm is a big
  step from the stack with the subterm on top to the temporary stack with its copy on top.
\<close>

subsection \<open>Heaps that grow\<close>

primrec tree_weight :: "ttree \<Rightarrow> nat" where
  "tree_weight (TLeaf c) = 1"
| "tree_weight (TBig n bs) = 1"
| "tree_weight (TStr f ts) = 3 + sum_list (map tree_weight ts)"

definition NODE :: nat where "NODE = 2 ^ 29"

text \<open>\<open>grows k h h'\<close>: \<open>h'\<close> keeps what \<open>h\<close> has and is larger by at most \<open>k\<close> nodes.\<close>

definition grows :: "nat \<Rightarrow> heap \<Rightarrow> heap \<Rightarrow> bool" where
  "grows k h h' \<longleftrightarrow> heap_inv h' \<and> atoms_inv h' \<and> hp_size h \<le> hp_size h' \<and> hp_size h' \<le> hp_size h + k * NODE \<and>
     (\<forall>x<hp_size h. mem h' x = mem h x) \<and> coin_security_enabled h' = coin_security_enabled h \<and>
     (\<forall>c n. atom_name h c = ok n \<longrightarrow> atom_name h' c = ok n) \<and>
     length (atom_name_to_index_table h') \<le> length (atom_name_to_index_table h) + k"

lemma grows_refl: "heap_inv h \<Longrightarrow> atoms_inv h \<Longrightarrow> grows k h h"
  by (simp add: grows_def)

lemma grows_trans: "grows j h h1 \<Longrightarrow> grows k h1 h2 \<Longrightarrow> grows (j + k) h h2"
  by (auto simp: grows_def add_mult_distrib)

lemma grows_le: "grows j h h1 \<Longrightarrow> j \<le> k \<Longrightarrow> grows k h h1"
  unfolding grows_def by (meson add_le_mono1 add_left_mono le_trans mult_le_mono1)

lemma grows_mono: "grows k h h' \<Longrightarrow> mem h x = Some y \<Longrightarrow> mem h' x = Some y"
  using mem_size [of h x y] by (simp add: grows_def)

lemma grows_reads: "grows k h h' \<Longrightarrow> reads (mem h) c t \<Longrightarrow> reads (mem h') c t"
  using reads_mono grows_mono by blast

lemma atom_name_tables: "atom_index_to_name_table h' = atom_index_to_name_table h \<Longrightarrow> atom_name h' c = atom_name h c"
  by (simp add: atom_name_def)

lemma grows_ext:
  assumes "heap_ext h h'" "atoms_inv h" "hp_size h' \<le> hp_size h + NODE"
  shows "grows 1 h h'"
  using assms atom_name_tables [of h' h] by (auto simp: grows_def heap_ext_def atoms_inv_def)

subsection \<open>Constants\<close>

definition con_ok :: "(cell \<Rightarrow> string) \<Rightarrow> cell \<Rightarrow> bool" where
  "con_ok nm c \<longleftrightarrow> cell_tag c = CON_T \<and> arity c < (if length (nm c) \<le> 7 then 32 else 4096) \<and> length (nm c) < MAX_NAME_LENGTH \<and>
     (length (nm c) \<le> 7 \<longrightarrow> nm c \<noteq> [] \<and> list_all ascii (nm c))"

definition same_con :: "(cell \<Rightarrow> string) \<Rightarrow> heap \<Rightarrow> cell \<Rightarrow> cell \<Rightarrow> bool" where
  "same_con nm h a b \<longleftrightarrow> cell_tag b = CON_T \<and> arity b = arity a \<and> atom_name h b = ok (nm a)"

lemma same_con_grows: "same_con nm h a b \<Longrightarrow> grows k h h' \<Longrightarrow> same_con nm h' a b"
  by (simp add: same_con_def grows_def)

lemma resolve_frame:
  "resolve_atom_index h name = (h', i) \<Longrightarrow> heap_inv h' = heap_inv h \<and> coin_security_enabled h' = coin_security_enabled h \<and>
     length (atom_name_to_index_table h') \<le> Suc (length (atom_name_to_index_table h))"
  by (auto simp: resolve_atom_index_def Let_def heap_inv_def length_update_new split: option.splits)

lemma new_functor_frame:
  "new_functor h name n = ok (h', c) \<Longrightarrow> heap_inv h' = heap_inv h \<and> coin_security_enabled h' = coin_security_enabled h \<and>
     length (atom_name_to_index_table h') \<le> Suc (length (atom_name_to_index_table h))"
  using resolve_frame [of h name] by (auto simp: new_functor_def bindR_ok_iff split: if_splits prod.splits)

lemma new_functor_grows:
  assumes inv: "heap_inv h" "atoms_inv h" and c: "con_ok nm f" and tab: "length (atom_name_to_index_table h) < 2 ^ 47"
  obtains h' g where "new_functor h (nm f) (arity f) = ok (h', g)" "grows 1 h h'" "same_con nm h' f g" "mem h' = mem h" "hp_size h' = hp_size h"
proof -
  have "atom_ok h (nm f)" using c tab by (auto simp: atom_ok_def con_ok_def)
  then obtain h' g where g: "new_functor h (nm f) (arity f) = ok (h', g)" "atoms_inv h'" "cell_tag g = CON_T" "arity g = arity f"
    "atom_name h' g = ok (nm f)" "\<And>d m. atom_name h d = ok m \<Longrightarrow> atom_name h' d = ok m" "mem h' = mem h" "hp_size h' = hp_size h"
    using new_functor_spec [OF inv(2), of "nm f" "arity f"] c unfolding con_ok_def by metis
  show thesis
    using new_functor_frame [OF g(1)] g inv by (intro that [OF g(1)]) (auto simp: grows_def same_con_def)
qed

subsection \<open>The state of a copy\<close>

lemma root_reads0: "root m c \<Longrightarrow> reads m c t \<Longrightarrow> reads0 m c t"
  using derefs_unique root_derefs unfolding reads_iff by metis

text \<open>\<open>sees\<close>: the source as it was when copying started is still there.\<close>

definition sees :: "heap source \<Rightarrow> (nat \<Rightarrow> cell option) \<Rightarrow> (cell \<Rightarrow> string) \<Rightarrow> cell set \<Rightarrow> copy_state \<Rightarrow> bool" where
  "sees src m0 nm C s \<longleftrightarrow> heap_inv (src_heap src s) \<and> (\<forall>x y. m0 x = Some y \<longrightarrow> mem (src_heap src s) x = Some y) \<and>
     (\<forall>c\<in>C. atom_name (src_heap src s) c = ok (nm c))"

lemma sees_grows:
  assumes "sees src m0 nm C s" "grows k (te_heap (cp_env s)) (te_heap (cp_env s'))"
  shows "sees src m0 nm C s'"
proof (cases src)
  case Own
  then show ?thesis using assms grows_mono [OF assms(2)] by (auto simp: sees_def src_heap_def grows_def)
qed (use assms in \<open>simp add: sees_def src_heap_def\<close>)

abbreviation cp_heap :: "copy_state \<Rightarrow> heap" where
  "cp_heap s \<equiv> te_heap (cp_env s)"

abbreviation mapped :: "copy_state \<Rightarrow> cell \<Rightarrow> cell \<Rightarrow> bool" where
  "mapped s a b \<equiv> term_map s a = Some b"

abbreviation copies :: "(cell \<Rightarrow> string) \<Rightarrow> copy_state \<Rightarrow> ttree \<Rightarrow> ttree \<Rightarrow> bool" where
  "copies nm s \<equiv> similar (mapped s) (same_con nm (cp_heap s))"

text \<open>\<open>hs\<close> is the size of the heap when copying started.\<close>

definition copy_inv :: "(nat \<Rightarrow> cell option) \<Rightarrow> (cell \<Rightarrow> string) \<Rightarrow> nat \<Rightarrow> copy_state \<Rightarrow> bool" where
  "copy_inv m0 nm hs s \<longleftrightarrow> heap_inv (cp_heap s) \<and> atoms_inv (cp_heap s) \<and> hs \<le> hp_size (cp_heap s) \<and>
     (\<forall>k v. mapped s k v \<longrightarrow> (\<exists>t t'. reads m0 k t \<and> reads (mem (cp_heap s)) v t' \<and> copies nm s t t')) \<and>
     (\<forall>k v. mapped s k v \<and> is_ref (cell_tag k) \<longrightarrow>
        v = ref_cell (cell_index v) \<and> hs \<le> cell_index v \<and> mem (cp_heap s) (cell_index v) = Some v) \<and>
     (\<forall>k k' v. mapped s k v \<and> mapped s k' v \<and> is_ref (cell_tag k) \<and> is_ref (cell_tag k') \<longrightarrow> k = k') \<and>
     (\<forall>f g. con_map s f = Some g \<longrightarrow> same_con nm (cp_heap s) f g)"

lemma copies_mono:
  assumes "copies nm s t t'" "\<And>a b. mapped s a b \<Longrightarrow> mapped s' a b" "grows k (cp_heap s) (cp_heap s')"
  shows "copies nm s' t t'"
  using assms(1) by (rule similar_mono) (use assms(2,3) same_con_grows in blast)+

text \<open>A change that lets the heap grow, maps no further term, and adds constants only, keeps the invariant.\<close>

lemma copy_inv_grows:
  assumes i: "copy_inv m0 nm hs s" and g: "grows k (cp_heap s) (cp_heap s')" and m: "term_map s' = term_map s"
    and c: "\<And>f h. con_map s' f = Some h \<Longrightarrow> con_map s f = Some h \<or> same_con nm (cp_heap s') f h"
  shows "copy_inv m0 nm hs s'"
  unfolding copy_inv_def m
proof (intro conjI allI impI)
  show "heap_inv (cp_heap s')" "atoms_inv (cp_heap s')" using g by (simp_all add: grows_def)
  show "hs \<le> hp_size (cp_heap s')" using i g by (simp add: copy_inv_def grows_def)
  fix f v assume "con_map s' f = Some v"
  then show "same_con nm (cp_heap s') f v"
    using c i same_con_grows [OF _ g] unfolding copy_inv_def by blast
next
  fix f v assume "term_map s f = Some v"
  then obtain t t' where t: "reads m0 f t" "reads (mem (cp_heap s)) v t'" "copies nm s t t'"
    using i unfolding copy_inv_def by blast
  have "copies nm s' t t'" using copies_mono [OF t(3) _ g] m by simp
  then show "\<exists>t t'. reads m0 f t \<and> reads (mem (cp_heap s')) v t' \<and> similar (\<lambda>a b. term_map s a = Some b) (same_con nm (cp_heap s')) t t'"
    using t grows_reads [OF g] m by auto
next
  fix k v assume "term_map s k = Some v \<and> is_ref (cell_tag k)"
  then show "v = ref_cell (cell_index v)" "hs \<le> cell_index v" "mem (cp_heap s') (cell_index v) = Some v"
    using i grows_mono [OF g] unfolding copy_inv_def by blast+
next
  fix k k' v assume "term_map s k = Some v \<and> term_map s k' = Some v \<and> is_ref (cell_tag k) \<and> is_ref (cell_tag k')"
  then show "k = k'" using i unfolding copy_inv_def by blast
qed

text \<open>Mapping one more term.\<close>

lemma copy_inv_map:
  assumes i: "copy_inv m0 nm hs s" and new: "term_map s c = None" and s': "cp_heap s' = cp_heap s" "term_map s' = (term_map s)(c \<mapsto> v)" "con_map s' = con_map s"
    and r: "reads m0 c t" "reads (mem (cp_heap s)) v t'" "copies nm s' t t'"
    and var: "is_ref (cell_tag c) \<Longrightarrow> v = ref_cell (cell_index v) \<and> hs \<le> cell_index v \<and> mem (cp_heap s) (cell_index v) = Some v"
    and fresh: "\<And>k. is_ref (cell_tag c) \<Longrightarrow> is_ref (cell_tag k) \<Longrightarrow> term_map s k \<noteq> Some v"
  shows "copy_inv m0 nm hs s'"
proof -
  have mono: "mapped s a b \<Longrightarrow> mapped s' a b" for a b using new s'(2) by (cases "a = c") auto
  have old: "\<exists>t t'. reads m0 k t \<and> reads (mem (cp_heap s)) w t' \<and> copies nm s' t t'" if w: "mapped s k w" for k w
  proof -
    obtain u u' where u: "reads m0 k u" "reads (mem (cp_heap s)) w u'" "copies nm s u u'" using i w unfolding copy_inv_def by blast
    have "copies nm s' u u'" using u(3) by (rule similar_mono) (use mono s'(1) in auto)
    then show ?thesis using u by blast
  qed
  have new': "mapped s' k w \<longleftrightarrow> (if k = c then w = v else mapped s k w)" for k w using s'(2) by auto
  show ?thesis
    unfolding copy_inv_def s'(1,3)
  proof (intro conjI allI impI)
    show "heap_inv (cp_heap s)" "atoms_inv (cp_heap s)" "hs \<le> hp_size (cp_heap s)" using i by (simp_all add: copy_inv_def)
  next
    fix k w assume "mapped s' k w"
    then show "\<exists>t t'. reads m0 k t \<and> reads (mem (cp_heap s)) w t' \<and> similar (mapped s') (same_con nm (cp_heap s)) t t'"
      using old [of k w] r new' [of k w] s'(1) by (cases "k = c") auto
  next
    fix k w assume "mapped s' k w \<and> is_ref (cell_tag k)"
    then show "w = ref_cell (cell_index w)" "hs \<le> cell_index w" "mem (cp_heap s) (cell_index w) = Some w"
      using i new' [of k w] var unfolding copy_inv_def by (cases "k = c"; metis)+
  next
    fix k k' w assume a: "mapped s' k w \<and> mapped s' k' w \<and> is_ref (cell_tag k) \<and> is_ref (cell_tag k')"
    consider "k = c" "k' = c" | "k = c" "k' \<noteq> c" | "k \<noteq> c" "k' = c" | "k \<noteq> c" "k' \<noteq> c" by blast
    then show "k = k'"
    proof cases
      case 2 then show ?thesis using a new' [of k w] new' [of k' w] fresh [of k'] by simp
    next
      case 3 then show ?thesis using a new' [of k w] new' [of k' w] fresh [of k] by simp
    next
      case 4 then show ?thesis using a new' [of k w] new' [of k' w] i unfolding copy_inv_def by metis
    qed simp
  next
    fix f g assume "con_map s f = Some g"
    then show "same_con nm (cp_heap s) f g" using i unfolding copy_inv_def by blast
  qed
qed

text \<open>What else a step of copying may change: it maps terms of at most a given size.\<close>

definition copy_frame :: "(nat \<Rightarrow> cell option) \<Rightarrow> nat \<Rightarrow> copy_state \<Rightarrow> copy_state \<Rightarrow> bool" where
  "copy_frame m0 n s s' \<longleftrightarrow> (\<forall>a b. mapped s a b \<longrightarrow> mapped s' a b) \<and>
     (\<forall>k. term_map s k = None \<and> term_map s' k \<noteq> None \<longrightarrow> (\<exists>t. reads m0 k t \<and> size t \<le> n)) \<and>
     cyclic_args s' = cyclic_args s \<and> {p \<in> current_path s'. cell_tag p = STR_T} = {p \<in> current_path s. cell_tag p = STR_T} \<and>
     trail (cp_env s') = trail (cp_env s) \<and> temp_trail (cp_env s') = temp_trail (cp_env s) \<and> register_hb (cp_env s') = register_hb (cp_env s)"

lemma copy_frame_trans: "copy_frame m0 n s s1 \<Longrightarrow> copy_frame m0 n s1 s2 \<Longrightarrow> copy_frame m0 n s s2"
  unfolding copy_frame_def by (metis (no_types, lifting))

lemma copy_frame_le: "copy_frame m0 j s s' \<Longrightarrow> j \<le> n \<Longrightarrow> copy_frame m0 n s s'"
  unfolding copy_frame_def by (meson le_trans)

text \<open>The path holds the structures whose arguments are being copied; they are larger than what is copied now.\<close>

definition path_above :: "(nat \<Rightarrow> cell option) \<Rightarrow> nat \<Rightarrow> copy_state \<Rightarrow> bool" where
  "path_above m0 n s \<longleftrightarrow> (\<forall>p\<in>current_path s. cell_tag p = STR_T \<longrightarrow> (\<forall>t. reads m0 p t \<longrightarrow> n < size t))"

lemma path_above_frame: "path_above m0 n s \<Longrightarrow> copy_frame m0 k s s' \<Longrightarrow> path_above m0 n s'"
  unfolding path_above_def copy_frame_def by blast

definition room :: "nat \<Rightarrow> heap \<Rightarrow> bool" where
  "room k h \<longleftrightarrow> hp_size h + k * NODE < addr_limit \<and> length (atom_name_to_index_table h) + k < 2 ^ 47"

lemma room_grows: "room (j + k) h \<Longrightarrow> grows j h h' \<Longrightarrow> room k h'"
  by (auto simp: room_def grows_def add_mult_distrib)

lemma room_le: "room k h \<Longrightarrow> j \<le> k \<Longrightarrow> room j h"
  unfolding room_def by (meson add_left_mono le_less_trans mult_le_mono1)

definition coin_free :: "(cell \<Rightarrow> string) \<Rightarrow> cell set \<Rightarrow> heap \<Rightarrow> bool" where
  "coin_free nm C h \<longleftrightarrow> (coin_security_enabled h \<longrightarrow> (\<forall>c\<in>C. \<not> (nm c = ''$coin'' \<and> arity c = 2)))"

definition copy_pre :: "heap source \<Rightarrow> (nat \<Rightarrow> cell option) \<Rightarrow> (cell \<Rightarrow> string) \<Rightarrow> cell set \<Rightarrow> nat \<Rightarrow> copy_state \<Rightarrow> bool" where
  "copy_pre src m0 nm C hs s \<longleftrightarrow> sees src m0 nm C s \<and> copy_inv m0 nm hs s \<and> coin_free nm C (cp_heap s) \<and> (\<forall>c\<in>C. con_ok nm c)"

lemma copy_pre_grows:
  assumes "copy_pre src m0 nm C hs s" "grows k (cp_heap s) (cp_heap s')" "copy_inv m0 nm hs s'"
  shows "copy_pre src m0 nm C hs s'"
  using assms sees_grows [OF _ assms(2)] by (auto simp: copy_pre_def coin_free_def grows_def)

text \<open>\<open>copied\<close>: the copy of \<open>t\<close> is on the temporary stack, and the stack is \<open>st\<close>.\<close>

definition copied :: "(nat \<Rightarrow> cell option) \<Rightarrow> (cell \<Rightarrow> string) \<Rightarrow> nat \<Rightarrow> ttree \<Rightarrow> cell list \<Rightarrow> copy_state \<Rightarrow> copy_state \<Rightarrow> bool" where
  "copied m0 nm hs t st s s' \<longleftrightarrow>
     (\<exists>v t'. stack (cp_env s') = st \<and> temp (cp_env s') = int_cell 0 # v # temp (cp_env s) \<and>
        reads (mem (cp_heap s')) v t' \<and> copies nm s' t t') \<and>
     copy_inv m0 nm hs s' \<and> grows (tree_weight t) (cp_heap s) (cp_heap s') \<and> copy_frame m0 (size t) s s'"

lemma copied_pre: "copied m0 nm hs t st s s' \<Longrightarrow> copy_pre src m0 nm C hs s \<Longrightarrow> copy_pre src m0 nm C hs s'"
  unfolding copied_def using copy_pre_grows by blast

subsection \<open>The rounds\<close>

lemma marks [simp]: "int_cell 0 \<noteq> int_cell 1" "int_cell 1 \<noteq> int_cell 0"
  by code_simp+

definition popped :: "copy_state \<Rightarrow> cell list \<Rightarrow> copy_state" where
  "popped s st = s\<lparr>cp_env := (cp_env s)\<lparr>stack := st\<rparr>, cp_cost := cp_cost s + 1\<rparr>"

lemma popped_simps [simp]:
  "cp_env (popped s st) = (cp_env s)\<lparr>stack := st\<rparr>" "term_map (popped s st) = term_map s" "con_map (popped s st) = con_map s"
  "cyclic_args (popped s st) = cyclic_args s" "current_path (popped s st) = current_path s"
  by (simp_all add: popped_def)

lemma state_ops [simp]:
  "cp_env (temp_push2 s c k) = (cp_env s)\<lparr>temp := int_cell k # c # temp (cp_env s)\<rparr>" "term_map (temp_push2 s c k) = term_map s"
  "con_map (temp_push2 s c k) = con_map s" "cyclic_args (temp_push2 s c k) = cyclic_args s" "current_path (temp_push2 s c k) = current_path s"
  "cp_env (push2 s c k) = (cp_env s)\<lparr>stack := int_cell k # c # stack (cp_env s)\<rparr>" "term_map (push2 s c k) = term_map s"
  "con_map (push2 s c k) = con_map s" "cyclic_args (push2 s c k) = cyclic_args s" "current_path (push2 s c k) = current_path s"
  "cp_env (leave_path s c) = cp_env s" "term_map (leave_path s c) = term_map s"
  "con_map (leave_path s c) = con_map s" "cyclic_args (leave_path s c) = cyclic_args s" "current_path (leave_path s c) = current_path s - {c}"
  by (simp_all add: temp_push2_def push2_def leave_path_def on_env_def temp_push_def push_def)

definition entered :: "copy_state \<Rightarrow> cell list \<Rightarrow> cell \<Rightarrow> copy_state" where
  "entered s st c = (popped s st)\<lparr>current_path := insert c (current_path s)\<rparr>"

lemma entered_simps [simp]:
  "cp_env (entered s st c) = (cp_env s)\<lparr>stack := st\<rparr>" "term_map (entered s st c) = term_map s" "con_map (entered s st c) = con_map s"
  "cyclic_args (entered s st c) = cyclic_args s" "current_path (entered s st c) = insert c (current_path s)"
  by (simp_all add: entered_def)

lemma copy_round_mapped:
  "stack (cp_env s) = int_cell 0 # c # st \<Longrightarrow> term_map s c = Some v \<Longrightarrow> copy_round dcb src names s = ok (temp_push2 (popped s st) v 0)"
  by (simp add: copy_round_def pop_def popped_def)

lemma copy_round_new:
  assumes "stack (cp_env s) = mark # c # st" "term_map s c = None" "cell_tag c = STR_T \<Longrightarrow> mark = int_cell 1 \<or> c \<notin> current_path s"
  shows "copy_round dcb src names s = (case cell_tag c of
             REF_T \<Rightarrow> copy_var names (entered s st c) c
           | RFW_T \<Rightarrow> copy_var names (entered s st c) c
           | CON_T \<Rightarrow> (if is_direct c then ok (leave_path (temp_push2 (entered s st c) c 0) c)
               else bindR (copy_con src (entered s st c) c) (\<lambda>(dst, s). ok (leave_path (temp_push2 s dst 0) c)))
           | INT_T \<Rightarrow> ok (leave_path (temp_push2 (entered s st c) c 0) c)
           | STR_T \<Rightarrow> copy_str src (entered s st c) c (mark = int_cell 1)
           | BIG_T \<Rightarrow> copy_big dcb src (entered s st c) c
           | _ \<Rightarrow> ok (entered s st c))"
  using assms unfolding entered_def popped_def
  by (cases "cell_tag c") (auto simp: copy_round_def pop_def Let_def)

lemma copy_loop_step:
  "d < stack_size (cp_env s) \<Longrightarrow> copy_round dcb src names s = ok s' \<Longrightarrow> copy_loop dcb src names d s = copy_loop dcb src names d s'"
  by (subst copy_loop.simps) simp

lemma copy_con_spec:
  assumes p: "copy_pre src m0 nm C hs s" and f: "f \<in> C" and r: "length (atom_name_to_index_table (cp_heap s)) < 2 ^ 47"
  obtains g s' where "copy_con src s f = ok (g, s')" "same_con nm (cp_heap s') f g" "grows 1 (cp_heap s) (cp_heap s')"
    "copy_inv m0 nm hs s'" "term_map s' = term_map s" "cyclic_args s' = cyclic_args s" "current_path s' = current_path s"
    "con_map s' f = Some g" "cp_env s' = (cp_env s)\<lparr>te_heap := cp_heap s'\<rparr>"
proof (cases "con_map s f")
  case None
  note i = p [unfolded copy_pre_def]
  have inv: "heap_inv (cp_heap s)" "atoms_inv (cp_heap s)" using i by (simp_all add: copy_inv_def)
  obtain h' g where h': "new_functor (cp_heap s) (nm f) (arity f) = ok (h', g)" "grows 1 (cp_heap s) h'" "same_con nm h' f g"
    using new_functor_grows [OF inv _ r, of nm f] i f by blast
  have nm: "atom_name (src_heap src s) f = ok (nm f)" using i f by (simp add: sees_def)
  let ?s = "(on_env s (\<lambda>e. e\<lparr>te_heap := h'\<rparr>))\<lparr>con_map := (con_map s)(f \<mapsto> g)\<rparr>"
  have s: "cp_heap ?s = h'" "term_map ?s = term_map s" "con_map ?s = (con_map s)(f \<mapsto> g)" by (simp_all add: on_env_def)
  have "copy_inv m0 nm hs ?s"
    using i h'(2,3) s by (intro copy_inv_grows [of m0 nm hs s 1 ?s]) (auto split: if_splits)
  then show thesis
    using None nm h' s by (intro that [of g ?s]) (simp_all add: copy_con_def on_env_def)
next
  case (Some g)
  then show thesis
    using p by (intro that [of g s]) (auto simp: copy_con_def copy_pre_def copy_inv_def intro: grows_refl)
qed

subsection \<open>Leaves\<close>

lemma copy_inv_cong: "copy_inv m0 nm hs s \<Longrightarrow> cp_heap s' = cp_heap s \<Longrightarrow> term_map s' = term_map s \<Longrightarrow> con_map s' = con_map s \<Longrightarrow> copy_inv m0 nm hs s'"
  by (simp add: copy_inv_def)

lemma copies_cong: "copies nm s t t' \<Longrightarrow> cp_heap s' = cp_heap s \<Longrightarrow> term_map s' = term_map s \<Longrightarrow> copies nm s' t t'"
  by simp

lemma copy_preD: "copy_pre src m0 nm C hs s \<Longrightarrow> heap_inv (cp_heap s)" "copy_pre src m0 nm C hs s \<Longrightarrow> atoms_inv (cp_heap s)"
  "copy_pre src m0 nm C hs s \<Longrightarrow> copy_inv m0 nm hs s" "copy_pre src m0 nm C hs s \<Longrightarrow> sees src m0 nm C s"
  by (simp_all add: copy_pre_def copy_inv_def)

text \<open>A copy that changes neither heap nor maps.\<close>

lemma copied_same:
  assumes p: "copy_pre src m0 nm C hs s" and s': "cp_env s' = (cp_env s)\<lparr>stack := st, temp := int_cell 0 # v # temp (cp_env s)\<rparr>"
    "term_map s' = term_map s" "con_map s' = con_map s" "cyclic_args s' = cyclic_args s"
    "{p \<in> current_path s'. cell_tag p = STR_T} = {p \<in> current_path s. cell_tag p = STR_T}"
    and r: "reads (mem (cp_heap s)) v t'" "copies nm s t t'"
  shows "copied m0 nm hs t st s s'"
  unfolding copied_def
proof (intro conjI exI)
  show "copy_inv m0 nm hs s'" by (rule copy_inv_cong [OF copy_preD(3) [OF p]]) (simp_all add: s')
  show "grows (tree_weight t) (cp_heap s) (cp_heap s')"
    using grows_refl [OF copy_preD(1) [OF p] copy_preD(2) [OF p]] by (simp add: s'(1))
  show "copy_frame m0 (size t) s s'" using s' by (auto simp: copy_frame_def)
  show "copies nm s' t t'" using r(2) s' by simp
qed (use r s' in simp_all)

lemma mapped_round:
  assumes p: "copy_pre src m0 nm C hs s" and st: "stack (cp_env s) = int_cell 0 # c # st" and m: "term_map s c = Some v" and r: "reads m0 c t"
  shows "copied m0 nm hs t st s (temp_push2 (popped s st) v 0)"
proof -
  obtain u u' where u: "reads m0 c u" "reads (mem (cp_heap s)) v u'" "copies nm s u u'"
    using copy_preD(3) [OF p] m unfolding copy_inv_def by blast
  then show ?thesis using p reads_unique [OF u(1) r] by (intro copied_same [of src m0 nm C hs s]) (simp_all)
qed

lemma direct_con_name: "is_direct c \<Longrightarrow> atom_name h c = atom_name h' c"
  by (simp add: atom_name_def)

lemma root_nonref: "\<not> is_ref (cell_tag c) \<Longrightarrow> derefs m c c"
  by (auto intro: derefs.intros)

lemma con_round:
  assumes p: "copy_pre src m0 nm C hs s" and st: "stack (cp_env s) = int_cell 0 # c # st" and m: "term_map s c = None"
    and c: "cell_tag c = CON_T" "c \<in> C" and r: "length (atom_name_to_index_table (cp_heap s)) < 2 ^ 47"
  shows "\<exists>s'. copy_round dcb src names s = ok s' \<and> copied m0 nm hs (TLeaf c) st s s'"
proof (cases "is_direct c")
  case True
  let ?s = "leave_path (temp_push2 (entered s st c) c 0) c"
  have rd: "copy_round dcb src names s = ok ?s" using True copy_round_new [OF st m] c by simp
  have "atom_name (cp_heap s) c = ok (nm c)"
    using copy_preD(4) [OF p] c(2) direct_con_name [OF True, of "src_heap src s" "cp_heap s"] by (simp add: sees_def)
  then have "copies nm s (TLeaf c) (TLeaf c)" using c by (intro similar.con) (simp_all add: same_con_def)
  moreover have "reads (mem (cp_heap s)) c (TLeaf c)" using c by (intro reads_as.leaf root_nonref) simp_all
  ultimately have "copied m0 nm hs (TLeaf c) st s ?s" using p c by (intro copied_same [of src m0 nm C hs s]) auto
  then show ?thesis using rd by blast
next
  case False
  have pe: "copy_pre src m0 nm C hs (entered s st c)"
    using p by (simp add: copy_pre_def sees_def src_heap_def copy_inv_def split: source.splits)
  have r': "length (atom_name_to_index_table (cp_heap (entered s st c))) < 2 ^ 47" using r by simp
  obtain g s' where h: "copy_con src (entered s st c) c = ok (g, s')" "same_con nm (cp_heap s') c g"
    "grows 1 (cp_heap (entered s st c)) (cp_heap s')" "copy_inv m0 nm hs s'" "term_map s' = term_map (entered s st c)"
    "cyclic_args s' = cyclic_args (entered s st c)" "current_path s' = current_path (entered s st c)"
    "con_map s' c = Some g" "cp_env s' = (cp_env (entered s st c))\<lparr>te_heap := cp_heap s'\<rparr>"
    by (rule copy_con_spec [OF pe c(2) r'])
  note s' = h [simplified]
  let ?s = "leave_path (temp_push2 s' g 0) c"
  have rd: "copy_round dcb src names s = ok ?s" using False copy_round_new [OF st m] c s'(1) by simp
  have env: "stack (cp_env s') = st" "temp (cp_env s') = temp (cp_env s)" "trail (cp_env s') = trail (cp_env s)"
    "temp_trail (cp_env s') = temp_trail (cp_env s)" "register_hb (cp_env s') = register_hb (cp_env s)" by (subst s'(9), simp)+
  have "copied m0 nm hs (TLeaf c) st s ?s"
    unfolding copied_def
  proof (intro conjI exI)
    show "copies nm ?s (TLeaf c) (TLeaf g)" using c s'(2) by (intro similar.con) (simp_all add: same_con_def)
    show "reads (mem (cp_heap ?s)) g (TLeaf g)" using s'(2) by (intro reads_as.leaf root_nonref) (simp_all add: same_con_def)
    show "copy_inv m0 nm hs ?s" using s'(4) by (rule copy_inv_cong) simp_all
    show "copy_frame m0 (size (TLeaf c)) s ?s" using s' env c by (auto simp: copy_frame_def)
  qed (use s' env in simp_all)
  then show ?thesis using rd by blast
qed

lemma int_round:
  assumes p: "copy_pre src m0 nm C hs s" and st: "stack (cp_env s) = int_cell 0 # c # st" and m: "term_map s c = None" and c: "cell_tag c = INT_T"
  shows "\<exists>s'. copy_round dcb src names s = ok s' \<and> copied m0 nm hs (TLeaf c) st s s'"
proof -
  let ?s = "leave_path (temp_push2 (entered s st c) c 0) c"
  have "copy_round dcb src names s = ok ?s" using copy_round_new [OF st m] c by simp
  moreover have "copied m0 nm hs (TLeaf c) st s ?s"
    using p c similar.int [OF c] reads_as.leaf [OF root_nonref, of c] by (intro copied_same [of src m0 nm C hs s]) auto
  ultimately show ?thesis by blast
qed

lemma on_env_simps [simp]: "cp_env (on_env s f) = f (cp_env s)" "term_map (on_env s f) = term_map s" "con_map (on_env s f) = con_map s"
  "cyclic_args (on_env s f) = cyclic_args s" "current_path (on_env s f) = current_path s"
  by (simp_all add: on_env_def)

lemma room_addr: "room 1 h \<Longrightarrow> a \<le> hp_size h + MAX_SIZE \<Longrightarrow> a < addr_limit"
  by (simp add: room_def NODE_def MAX_SIZE_def)

lemma var_round:
  assumes p: "copy_pre src m0 nm C hs s" and st: "stack (cp_env s) = int_cell 0 # c # st" and m: "term_map s c = None"
    and c: "is_ref (cell_tag c)" and r: "reads m0 c (TLeaf c)" and room: "room 1 (cp_heap s)"
  shows "\<exists>s'. copy_round dcb src names s = ok s' \<and> copied m0 nm hs (TLeaf c) st s s'"
proof -
  note inv = copy_preD [OF p]
  obtain h' a where h': "new_ref (cp_heap s) = ok (h', ref_cell a)" "heap_ext (cp_heap s) h'" "hp_size (cp_heap s) \<le> a"
    "hp_size h' = a + 1" "mem h' a = Some (ref_cell a)" "a \<le> hp_size (cp_heap s) + MAX_SIZE"
    using new_ref_spec [OF inv(1)] by blast
  let ?v = "ref_cell a"
  have a: "cell_index ?v = a" "is_ref (cell_tag ?v)" using room_addr [OF room h'(6)] by simp_all
  have g: "grows 1 (cp_heap s) h'" using h'(4,6) by (intro grows_ext [OF h'(2) inv(2)]) (simp add: NODE_def MAX_SIZE_def)
  define s1 where "s1 = on_env (entered s st c) (\<lambda>e. e\<lparr>te_heap := h'\<rparr>)"
  define s2 where "s2 = s1\<lparr>term_map := (term_map s1)(c \<mapsto> ?v)\<rparr>"
  define s3 where "s3 = (let vn = src_name names s2 c in if vn \<noteq> [] then on_env s2 (\<lambda>e. e\<lparr>var_naming := set_name (var_naming e) ?v vn\<rparr>) else s2)"
  let ?s = "leave_path (temp_push2 s3 ?v 0) c"
  have s1: "cp_heap s1 = h'" "term_map s1 = term_map s" "con_map s1 = con_map s" by (simp_all add: s1_def on_env_def)
  have s3: "cp_heap s3 = h'" "term_map s3 = (term_map s)(c \<mapsto> ?v)" "con_map s3 = con_map s" "stack (cp_env s3) = st"
    "temp (cp_env s3) = temp (cp_env s)" "cyclic_args s3 = cyclic_args s" "current_path s3 = insert c (current_path s)"
    "trail (cp_env s3) = trail (cp_env s)" "temp_trail (cp_env s3) = temp_trail (cp_env s)" "register_hb (cp_env s3) = register_hb (cp_env s)"
    by (simp_all add: s3_def s2_def s1_def on_env_def Let_def)
  have "copy_round dcb src names s = copy_var names (entered s st c) c"
    using copy_round_new [OF st m, of dcb src names] c by (cases "cell_tag c") auto
  also have "\<dots> = ok ?s" using h'(1) by (simp add: copy_var_def s3_def s2_def s1_def Let_def)
  finally have rd: "copy_round dcb src names s = ok ?s" .
  have v: "reads (mem h') ?v (TLeaf ?v)" using a h'(5) by (intro reads_as.leaf derefs.unbound) simp_all
  have cps: "copies nm ?s (TLeaf c) (TLeaf ?v)" using c a s3 by (intro similar.var) simp_all
  have i1: "copy_inv m0 nm hs s1" using inv(3) g s1 by (intro copy_inv_grows [of m0 nm hs s 1 s1]) simp_all
  have fresh: "term_map s k \<noteq> Some ?v" if "is_ref (cell_tag k)" for k
    using inv(3) that a h'(3) mem_size [of "cp_heap s" a] unfolding copy_inv_def by fastforce
  have i2: "copy_inv m0 nm hs ?s"
    by (rule copy_inv_map [OF i1, of c ?s ?v "TLeaf c" "TLeaf ?v"])
      (use m r v cps s1 s3 a h' fresh inv(3) in \<open>auto simp: copy_inv_def\<close>)
  have "copied m0 nm hs (TLeaf c) st s ?s"
    unfolding copied_def
  proof (intro conjI exI)
    show "copy_frame m0 (size (TLeaf c)) s ?s" using m s3 r c by (auto simp: copy_frame_def)
  qed (use s3 v cps i2 g in simp_all)
  then show ?thesis using rd by blast
qed

lemma grows_set:
  assumes "grows k h0 h" "hp_size h0 \<le> a" "a < hp_size h"
  obtains h' where "heap_set h a c = ok h'" "grows k h0 h'" "mem h' = (mem h)(a \<mapsto> c)" "hp_size h' = hp_size h"
proof -
  obtain h' where h': "heap_set h a c = ok h'" "heap_inv h'" "same_frame h h'" "mem h' = (mem h)(a \<mapsto> c)"
    using heap_set_mem [of h a c] assms unfolding grows_def by blast
  have fr: "hp_size h' = hp_size h" "atom_index_to_name_table h' = atom_index_to_name_table h" "coin_security_enabled h' = coin_security_enabled h"
    "atom_name_to_index_table h' = atom_name_to_index_table h" using h'(3) by (simp_all add: same_frame_def)
  have at: "atoms_inv h'" using assms(1) fr by (simp add: grows_def atoms_inv_def)
  have "grows k h0 h'" unfolding grows_def fr atom_name_tables [OF fr(2)] h'(4)
    using assms(1,2) h'(2) at by (simp add: grows_def)
  then show thesis using h' fr(1) by (intro that)
qed

lemma copy_dat_spec:
  assumes "sees src m0 nm C s0" "grows k (cp_heap s0) (cp_heap s)" "hp_size (cp_heap s0) \<le> dst" "dst + n \<le> hp_size (cp_heap s)"
    "\<And>i. i < n \<Longrightarrow> m0 (orig + i) = Some (g i)"
  shows "\<exists>h'. copy_dat src s dst orig n = ok (on_env s (\<lambda>e. e\<lparr>te_heap := h'\<rparr>)) \<and> grows k (cp_heap s0) h' \<and>
    (\<forall>i<n. mem h' (dst + i) = Some (g i)) \<and> (\<forall>x<dst. mem h' x = mem (cp_heap s) x)"
  using assms(2-)
proof (induction n arbitrary: s dst orig g)
  case 0
  then show ?case by (intro exI [of _ "cp_heap s"]) (simp add: on_env_def)
next
  case (Suc n)
  note se = sees_grows [OF assms(1) Suc.prems(1)]
  have get: "heap_get (src_heap src s) orig = ok (g 0)"
    using se Suc.prems(4) [of 0] heap_get_ok unfolding sees_def by fastforce
  obtain h1 where h1: "heap_set (cp_heap s) dst (g 0) = ok h1" "grows k (cp_heap s0) h1" "mem h1 = (mem (cp_heap s))(dst \<mapsto> g 0)"
    "hp_size h1 = hp_size (cp_heap s)"
    using grows_set [OF Suc.prems(1,2), of "g 0"] Suc.prems(3) by auto
  let ?s = "on_env s (\<lambda>e. e\<lparr>te_heap := h1\<rparr>)"
  obtain h' where h': "copy_dat src ?s (Suc dst) (Suc orig) n = ok (on_env ?s (\<lambda>e. e\<lparr>te_heap := h'\<rparr>))" "grows k (cp_heap s0) h'"
    "\<forall>i<n. mem h' (Suc dst + i) = Some (g (Suc i))" "\<forall>x<Suc dst. mem h' x = mem h1 x"
    using Suc.IH [of ?s "Suc dst" "Suc orig" "\<lambda>i. g (Suc i)"] h1 Suc.prems by fastforce
  have "mem h' (dst + i) = Some (g i)" if "i < Suc n" for i
    using h' h1(3) that by (cases i) auto
  then show ?case
    using get h1 h' by (auto simp: on_heap_def on_env_def intro!: exI [of _ h'])
qed

lemma num_bits_bound: "num_bits x < 2 ^ 29"
  unfolding num_bits_value unsigned_take_bit_eq by (rule take_bit_nat_less_exp)

lemma num_cells_big: "num_cells x = big_num_cells (num_bits x)"
  using big_cells_agree [OF num_bits_bound [of x]] num_bits_bound [of x] by (simp add: num_cells_def num_half_cells_def)

lemma big_area_num_cells: "big_area a ((num_bits x + 7) div 8) = {a..<a + num_cells x}"
  using big_area_cells [of "num_bits x" a] num_cells_big [of x]
  by (cases "num_bits x = 0") (auto simp: big_area_def big_num_cells_def)

lemma num_cells_node: "num_cells x \<le> NODE"
proof -
  have "num_bits x < 2 ^ 29" by (rule num_bits_bound)
  then have y: "(num_bits x + 7) div 8 \<le> 2 ^ 26" by simp
  have "(3 + y) div 8 \<le> 536870911" if "y \<le> 67108864" for y :: nat using that by linarith
  then show ?thesis unfolding num_cells_big big_num_cells_def Let_def NODE_def using y by (simp split: if_split)
qed

lemma big_round:
  assumes p: "copy_pre src m0 nm C hs s" and st: "stack (cp_env s) = int_cell 0 # c # st" and m: "term_map s c = None"
    and r: "reads0 m0 c (TBig n bs)" and room: "room 1 (cp_heap s)"
  shows "\<exists>s'. copy_round False src names s = ok s' \<and> copied m0 nm hs (TBig n bs) st s s'"
proof -
  note inv = copy_preD [OF p]
  let ?A = "hp_size (cp_heap s)"
  obtain x where x: "cell_tag c = BIG_T" "m0 (cell_index c) = Some x" "n = num_bits x" "has_cells m0 {cell_index c..<cell_index c + num_cells x}"
    "bs = big_data m0 (cell_index c) ((num_bits x + 7) div 8)"
    using r by (auto simp: big_area_num_cells num_ok_def)
  obtain h1 where h1: "new_big (cp_heap s) (num_bits x) = ok (h1, big_cell ?A)" "heap_ext (cp_heap s) h1" "hp_size h1 = ?A + num_cells x"
    using new_big_spec [OF inv(1) num_bits_bound [of x]] num_cells_big [of x] num_cells_big [of "dat_cell (num_bits x)"] num_bits_bound [of x]
    by (metis num_bits_dat)
  have g1: "grows 1 (cp_heap s) h1" using h1(3) num_cells_node [of x] by (intro grows_ext [OF h1(2) inv(2)]) simp
  define s1 where "s1 = on_env (entered s st c) (\<lambda>e. e\<lparr>te_heap := h1\<rparr>)"
  have s1: "cp_heap s1 = h1" by (simp add: s1_def)
  let ?g = "\<lambda>i. the (m0 (cell_index c + i))"
  have m0: "m0 (cell_index c + i) = Some (?g i)" if "i < num_cells x" for i
    using x(4) that by (auto simp: has_cells_def)
  obtain h' where h': "copy_dat src s1 ?A (cell_index c) (num_cells x) = ok (on_env s1 (\<lambda>e. e\<lparr>te_heap := h'\<rparr>))" "grows 1 (cp_heap s) h'"
    "\<forall>i<num_cells x. mem h' (?A + i) = Some (?g i)"
    using copy_dat_spec [OF inv(4), of 1 s1 ?A "num_cells x" "cell_index c" ?g] g1 h1(3) m0 by (auto simp: s1)
  have A: "cell_index (big_cell ?A) = ?A" "cell_tag (big_cell ?A) = BIG_T" using room_addr [OF room, of ?A] by simp_all
  let ?s = "temp_push2 (on_env s1 (\<lambda>e. e\<lparr>te_heap := h'\<rparr>)) (big_cell ?A) 0"
  have get: "heap_get (src_heap src (entered s st c)) (cell_index c) = ok x"
    using inv(4) x(2) heap_get_ok by (auto simp: sees_def src_heap_def split: source.splits)
  have "copy_round False src names s = copy_big False src (entered s st c) c"
    using copy_round_new [OF st m] x(1) by simp
  also have "\<dots> = ok ?s" using get h1(1) h'(1) A(1) by (simp add: copy_big_def s1_def)
  finally have rd: "copy_round False src names s = ok ?s" .
  have dat: "big_data (mem h') ?A ((num_bits x + 7) div 8) = bs"
    unfolding x(5) big_data_def data_bytes_def
  proof (rule map_cong [OF refl])
    fix i assume "i \<in> set [4..<4 + (num_bits x + 7) div 8]"
    then have "cell_index c + i div 8 \<in> big_area (cell_index c) ((num_bits x + 7) div 8)" by (intro in_big_area) auto
    then have "i div 8 < num_cells x" by (simp add: big_area_num_cells)
    then show "data_byte (mem h') ?A i = data_byte m0 (cell_index c) i" using h'(3) by (simp add: data_byte_def)
  qed
  have cells: "has_cells (mem h') {?A..<?A + num_cells x}"
    unfolding has_cells_def using h'(3) by (auto simp: nat_le_iff_add)
  have "mem h' ?A = Some x" using h'(3) x(2) num_cells_pos [of x] by fastforce
  then have v: "reads (mem h') (big_cell ?A) (TBig n bs)"
    using dat cells x(3) A unfolding reads_iff by (intro exI [of _ "big_cell ?A"]) (auto simp: big_area_num_cells num_ok_def intro!: root_nonref)
  have "copied m0 nm hs (TBig n bs) st s ?s"
    unfolding copied_def
  proof (intro conjI exI)
    show "copies nm ?s (TBig n bs) (TBig n bs)" by (rule similar.big)
    show "copy_inv m0 nm hs ?s" using h'(2) by (intro copy_inv_grows [OF inv(3), of 1]) (simp_all add: s1_def)
    show "copy_frame m0 (size (TBig n bs)) s ?s" using x(1) by (auto simp: copy_frame_def s1_def)
  qed (use v h'(2) in \<open>simp_all add: s1_def\<close>)
  then show ?thesis using rd by blast
qed

subsection \<open>Structures\<close>

definition marked :: "cell list \<Rightarrow> cell list" where
  "marked vs = concat (map (\<lambda>v. [int_cell 0, v]) vs)"

lemma marked_simps [simp]: "marked [] = []" "marked (v # vs) = int_cell 0 # v # marked vs" "marked (vs @ ws) = marked vs @ marked ws"
  by (simp_all add: marked_def)

text \<open>The run on one subterm as a big step.\<close>

definition copies_tree :: "heap source \<Rightarrow> naming_map source option \<Rightarrow> (nat \<Rightarrow> cell option) \<Rightarrow> (cell \<Rightarrow> string) \<Rightarrow> cell set \<Rightarrow> nat \<Rightarrow> nat \<Rightarrow> ttree \<Rightarrow> bool" where
  "copies_tree src names m0 nm C hs d t \<longleftrightarrow> (\<forall>s c st. copy_pre src m0 nm C hs s \<and> reads m0 c t \<and> root m0 c \<and> tree_cons t \<subseteq> C \<and>
     stack (cp_env s) = int_cell 0 # c # st \<and> d \<le> length st \<and> room (tree_weight t) (cp_heap s) \<and> path_above m0 (size t) s \<longrightarrow>
     (\<exists>s'. copy_loop False src names d s = copy_loop False src names d s' \<and> copied m0 nm hs t st s s'))"

lemma copies_treeI:
  assumes "\<And>s c st. copy_pre src m0 nm C hs s \<Longrightarrow> reads m0 c t \<Longrightarrow> root m0 c \<Longrightarrow> tree_cons t \<subseteq> C \<Longrightarrow> stack (cp_env s) = int_cell 0 # c # st \<Longrightarrow>
     d \<le> length st \<Longrightarrow> room (tree_weight t) (cp_heap s) \<Longrightarrow> path_above m0 (size t) s \<Longrightarrow> term_map s c = None \<Longrightarrow>
     \<exists>s'. copy_loop False src names d s = copy_loop False src names d s' \<and> copied m0 nm hs t st s s'"
  shows "copies_tree src names m0 nm C hs d t"
  unfolding copies_tree_def
proof (intro allI impI, elim conjE)
  fix s c st
  assume a: "copy_pre src m0 nm C hs s" "reads m0 c t" "root m0 c" "tree_cons t \<subseteq> C" "stack (cp_env s) = int_cell 0 # c # st"
    "d \<le> length st" "room (tree_weight t) (cp_heap s)" "path_above m0 (size t) s"
  show "\<exists>s'. copy_loop False src names d s = copy_loop False src names d s' \<and> copied m0 nm hs t st s s'"
  proof (cases "term_map s c")
    case None
    show ?thesis by (rule assms [OF a None])
  next
    case (Some v)
    have "copy_loop False src names d s = copy_loop False src names d (temp_push2 (popped s st) v 0)"
      using a(5,6) by (intro copy_loop_step copy_round_mapped [OF a(5) Some]) (simp add: stack_size_def)
    then show ?thesis using mapped_round [OF a(1,5) Some a(2)] by blast
  qed
qed

lemma copies_treeD:
  "copies_tree src names m0 nm C hs d t \<Longrightarrow> copy_pre src m0 nm C hs s \<Longrightarrow> reads m0 c t \<Longrightarrow> root m0 c \<Longrightarrow> tree_cons t \<subseteq> C \<Longrightarrow>
   stack (cp_env s) = int_cell 0 # c # st \<Longrightarrow> d \<le> length st \<Longrightarrow> room (tree_weight t) (cp_heap s) \<Longrightarrow> path_above m0 (size t) s \<Longrightarrow>
   \<exists>s'. copy_loop False src names d s = copy_loop False src names d s' \<and> copied m0 nm hs t st s s'"
  unfolding copies_tree_def by blast

lemma path_above_le: "path_above m0 n s \<Longrightarrow> k \<le> n \<Longrightarrow> path_above m0 k s"
  unfolding path_above_def by (meson le_less_trans)

lemma copy_list:
  assumes "\<forall>t\<in>set ts. copies_tree src names m0 nm C hs d t"
    and "list_all2 (\<lambda>g t. reads m0 g t \<and> root m0 g) gs ts" "\<forall>t\<in>set ts. tree_cons t \<subseteq> C \<and> size t \<le> n"
    and "copy_pre src m0 nm C hs s" "stack (cp_env s) = marked gs @ st" "d \<le> length st"
    and "room (sum_list (map tree_weight ts)) (cp_heap s)" "path_above m0 n s"
  shows "\<exists>s' vs us. copy_loop False src names d s = copy_loop False src names d s' \<and> stack (cp_env s') = st \<and>
    temp (cp_env s') = marked (rev vs) @ temp (cp_env s) \<and> list_all2 (reads (mem (cp_heap s'))) vs us \<and> list_all2 (copies nm s') ts us \<and>
    copy_pre src m0 nm C hs s' \<and> grows (sum_list (map tree_weight ts)) (cp_heap s) (cp_heap s') \<and> copy_frame m0 n s s'"
  using assms
proof (induction ts arbitrary: gs s)
  case Nil
  have "grows 0 (cp_heap s) (cp_heap s)" using copy_preD(1,2) [OF Nil.prems(4)] by (rule grows_refl)
  then show ?case using Nil.prems by (intro exI [of _ s] exI [of _ "[]"]) (auto simp: copy_frame_def)
next
  case (Cons t ts)
  obtain g gs' where gs: "gs = g # gs'" "reads m0 g t" "root m0 g" "list_all2 (\<lambda>g t. reads m0 g t \<and> root m0 g) gs' ts"
    using Cons.prems(2) by (auto simp: list_all2_Cons2)
  have rm: "room (tree_weight t) (cp_heap s)" using Cons.prems(7) by (rule room_le) simp
  have ct: "copies_tree src names m0 nm C hs d t" "tree_cons t \<subseteq> C" "size t \<le> n" using Cons.prems(1,3) by simp_all
  obtain s1 where s1: "copy_loop False src names d s = copy_loop False src names d s1" "copied m0 nm hs t (marked gs' @ st) s s1"
    using ct(1) [unfolded copies_tree_def, rule_format, of s g "marked gs' @ st"] Cons.prems(4-6) gs(1-3) ct(2) rm path_above_le [OF Cons.prems(8) ct(3)]
    by auto
  obtain v u where v: "stack (cp_env s1) = marked gs' @ st" "temp (cp_env s1) = int_cell 0 # v # temp (cp_env s)"
    "reads (mem (cp_heap s1)) v u" "copies nm s1 t u" and f1: "grows (tree_weight t) (cp_heap s) (cp_heap s1)" "copy_frame m0 (size t) s s1"
    using s1(2) unfolding copied_def by blast
  have f1': "copy_frame m0 n s s1" using f1(2) ct(3) by (rule copy_frame_le)
  obtain s2 vs us where s2: "copy_loop False src names d s1 = copy_loop False src names d s2" "stack (cp_env s2) = st"
    "temp (cp_env s2) = marked (rev vs) @ temp (cp_env s1)" "list_all2 (reads (mem (cp_heap s2))) vs us" "list_all2 (copies nm s2) ts us"
    "copy_pre src m0 nm C hs s2" and f2: "grows (sum_list (map tree_weight ts)) (cp_heap s1) (cp_heap s2)" "copy_frame m0 n s1 s2"
    using Cons.IH [OF _ gs(4) _ copied_pre [OF s1(2) Cons.prems(4)] v(1) Cons.prems(6) room_grows [OF _ f1(1)] path_above_frame [OF Cons.prems(8) f1']]
      Cons.prems(1,3,7) by auto
  have "copies nm s2 t u" using f2(2) by (intro copies_mono [OF v(4) _ f2(1)]) (simp add: copy_frame_def)
  then show ?case
    using s1(1) s2 v(2) grows_reads [OF f2(1) v(3)] grows_trans [OF f1(1) f2(1)] copy_frame_trans [OF f1' f2(2)]
    by (intro exI [of _ s2] exI [of _ "v # vs"] exI [of _ "u # us"]) simp
qed

lemma src_heap_push [simp]: "src_heap src (push2 s a k) = src_heap src s"
  by (simp add: src_heap_def split: source.splits)

lemma copy_push_args_spec:
  assumes "\<And>i. i < n \<Longrightarrow> arg (src_heap src s) c i = ok (g i)"
  shows "copy_push_args src s c n = ok (on_env s (\<lambda>e. e\<lparr>stack := marked (map g [0..<n]) @ stack e\<rparr>))"
  using assms
proof (induction n arbitrary: s)
  case (Suc n)
  have "copy_push_args src (push2 s (g n) 0) c n =
      ok (on_env (push2 s (g n) 0) (\<lambda>e. e\<lparr>stack := marked (map g [0..<n]) @ stack e\<rparr>))"
    using Suc.prems by (intro Suc.IH) simp
  then show ?case using Suc.prems [of n] by (simp add: on_env_def push2_def push_def)
qed (simp add: on_env_def)

lemma copy_args_spec:
  assumes "grows k h0 (cp_heap s)" "hp_size h0 \<le> Suc (cell_index str)" "Suc (cell_index str + n) \<le> hp_size (cp_heap s)"
    and "cell_tag str = STR_T" "temp (cp_env s) = marked (rev vs) @ tmp" "length vs = n"
  shows "\<exists>h'. copy_args s str n = ok (on_env s (\<lambda>e. e\<lparr>te_heap := h', temp := tmp\<rparr>)) \<and> grows k h0 h' \<and>
    (\<forall>i<n. mem h' (Suc (cell_index str + i)) = Some (vs ! i)) \<and> (\<forall>x\<le>cell_index str. mem h' x = mem (cp_heap s) x) \<and>
    (\<forall>x>cell_index str + n. mem h' x = mem (cp_heap s) x)"
  using assms
proof (induction n arbitrary: s vs)
  case 0
  then show ?case by (intro exI [of _ "cp_heap s"]) (simp add: on_env_def)
next
  case (Suc n)
  obtain ws w where vs: "vs = ws @ [w]" "length ws = n" using Suc.prems(6) by (cases vs rule: rev_cases) auto
  obtain h1 where h1: "heap_set (cp_heap s) (Suc (cell_index str + n)) w = ok h1" "grows k h0 h1"
    "mem h1 = (mem (cp_heap s))(Suc (cell_index str + n) \<mapsto> w)" "hp_size h1 = hp_size (cp_heap s)"
    using grows_set [OF Suc.prems(1), of "Suc (cell_index str + n)" w] Suc.prems(2,3) by auto
  let ?s = "on_env s (\<lambda>e. e\<lparr>temp := marked (rev ws) @ tmp, te_heap := h1\<rparr>)"
  obtain h' where h': "copy_args ?s str n = ok (on_env ?s (\<lambda>e. e\<lparr>te_heap := h', temp := tmp\<rparr>))" "grows k h0 h'"
    "\<forall>i<n. mem h' (Suc (cell_index str + i)) = Some (ws ! i)" "\<forall>x\<le>cell_index str. mem h' x = mem h1 x"
    "\<forall>x>cell_index str + n. mem h' x = mem h1 x"
    using Suc.IH [of ?s ws] h1 Suc.prems(2-4) vs(2) by auto
  have "set_arg (cp_heap s) str n w = ok h1" using h1(1) Suc.prems(4) by (simp add: set_arg_def)
  moreover have "mem h' (Suc (cell_index str + i)) = Some (vs ! i)" if "i < Suc n" for i
    using that h'(3,5) h1(3) vs by (cases "i = n") (auto simp: nth_append)
  ultimately show ?case
    using h' h1(3) Suc.prems(5) vs(1) by (intro exI [of _ h']) (auto simp: temp_pop_def on_heap_def on_env_def)
qed

lemma src_functor:
  assumes "sees src m0 nm C s" "reads0 m0 c (TStr f ts)"
  shows "functor_of (src_heap src s) c = ok f"
  using assms functor_of_str [of "src_heap src s" c f] by (simp add: sees_def)

lemma src_args:
  assumes se: "sees src m0 nm C s" and r: "reads0 m0 c (TStr f ts)"
  obtains g where "\<And>i. i < arity f \<Longrightarrow> arg (src_heap src s) c i = ok (g i)" "\<And>i. i < arity f \<Longrightarrow> reads m0 (g i) (ts ! i) \<and> root m0 (g i)"
proof -
  have "\<forall>i. \<exists>y. i < arity f \<longrightarrow> arg (src_heap src s) c i = ok y \<and> reads m0 y (ts ! i) \<and> root m0 y"
  proof (intro allI)
    fix i
    show "\<exists>y. i < arity f \<longrightarrow> arg (src_heap src s) c i = ok y \<and> reads m0 y (ts ! i) \<and> root m0 y"
    proof (cases "i < arity f")
      case True
      then obtain x where x: "m0 (Suc (cell_index c + i)) = Some x" "reads m0 x (ts ! i)" using r by auto
      then obtain y where y: "derefs m0 x y" "reads m0 y (ts ! i)" using reads_derefs by blast
      have sub: "m0 a = Some b \<Longrightarrow> mem (src_heap src s) a = Some b" for a b using se by (simp add: sees_def)
      have "derefs (mem (src_heap src s)) x y" using y(1) by induction (auto intro: derefs.intros sub)
      then have "arg (src_heap src s) c i = ok y"
        using x(1) r se sub deref_derefs [of "src_heap src s"] by (auto simp: arg_def sees_def heap_get_ok [THEN iffD2])
      then show ?thesis using y derefs_root by blast
    qed simp
  qed
  then show thesis using that by metis
qed

lemma same_con_coin:
  assumes "same_con nm h f g" "coin_free nm C h" "f \<in> C"
  shows "\<not> (coin_security_enabled h \<and> g = COIN)"
proof -
  have "is_direct COIN" "con_name COIN = ''$coin''" "arity COIN = 2" by code_simp+
  then have "atom_name h COIN = ok ''$coin''" by (simp add: atom_name_def)
  with \<open>arity COIN = 2\<close> show ?thesis using assms by (auto simp: same_con_def coin_free_def)
qed

lemma copy_pre_cong: "copy_pre src m0 nm C hs s \<Longrightarrow> cp_heap s' = cp_heap s \<Longrightarrow> term_map s' = term_map s \<Longrightarrow> con_map s' = con_map s \<Longrightarrow>
    copy_pre src m0 nm C hs s'"
  by (simp add: copy_pre_def sees_def src_heap_def copy_inv_def split: source.splits)

text \<open>The first visit of a structure: its arguments go on the stack.\<close>

lemma str_enter:
  assumes p: "copy_pre src m0 nm C hs s" and st: "stack (cp_env s) = int_cell 0 # c # st" and m: "term_map s c = None" "c \<notin> current_path s"
    and r: "reads0 m0 c (TStr f ts)" "f \<in> C" and tab: "length (atom_name_to_index_table (cp_heap s)) < 2 ^ 47"
  shows "\<exists>s' gs. copy_round dcb src names s = ok s' \<and> stack (cp_env s') = marked gs @ int_cell 1 # c # st \<and> temp (cp_env s') = temp (cp_env s) \<and>
    list_all2 (\<lambda>g t. reads m0 g t \<and> root m0 g) gs ts \<and> copy_pre src m0 nm C hs s' \<and> grows 1 (cp_heap s) (cp_heap s') \<and>
    term_map s' = term_map s \<and> cyclic_args s' = cyclic_args s \<and> current_path s' = insert c (current_path s) \<and>
    trail (cp_env s') = trail (cp_env s) \<and> temp_trail (cp_env s') = temp_trail (cp_env s) \<and> register_hb (cp_env s') = register_hb (cp_env s)"
proof -
  let ?e = "entered s st c"
  have pe: "copy_pre src m0 nm C hs ?e" using p by (rule copy_pre_cong) simp_all
  have tab': "length (atom_name_to_index_table (cp_heap ?e)) < 2 ^ 47" using tab by simp
  obtain k s1 where s1: "copy_con src ?e f = ok (k, s1)" "same_con nm (cp_heap s1) f k"
    "grows 1 (cp_heap ?e) (cp_heap s1)" "copy_inv m0 nm hs s1" "term_map s1 = term_map ?e"
    "cyclic_args s1 = cyclic_args ?e" "current_path s1 = current_path ?e"
    "con_map s1 f = Some k" "cp_env s1 = (cp_env ?e)\<lparr>te_heap := cp_heap s1\<rparr>"
    by (rule copy_con_spec [OF pe r(2) tab'])
  have env: "stack (cp_env s1) = st" "temp (cp_env s1) = temp (cp_env s)" "trail (cp_env s1) = trail (cp_env s)"
    "temp_trail (cp_env s1) = temp_trail (cp_env s)" "register_hb (cp_env s1) = register_hb (cp_env s)" by (subst s1(9), simp)+
  have p1: "copy_pre src m0 nm C hs s1" using copy_pre_grows [OF pe s1(3,4)] .
  obtain g where g: "\<And>i. i < arity f \<Longrightarrow> arg (src_heap src s1) c i = ok (g i)" "\<And>i. i < arity f \<Longrightarrow> reads m0 (g i) (ts ! i) \<and> root m0 (g i)"
    using src_args [OF copy_preD(4) [OF p1] r(1)] by blast
  let ?s = "on_env (push2 s1 c 1) (\<lambda>e. e\<lparr>stack := marked (map g [0..<arity f]) @ stack e\<rparr>)"
  have "copy_round dcb src names s = copy_str src ?e c False"
    using copy_round_new [OF st m(1)] m(2) r(1) by simp
  also have "\<dots> = ok ?s"
    using src_functor [OF copy_preD(4) [OF pe] r(1)] s1(1) g(1) by (simp add: copy_str_def copy_push_args_spec [where g = g])
  finally have rd: "copy_round dcb src names s = ok ?s" .
  have "list_all2 (\<lambda>g t. reads m0 g t \<and> root m0 g) (map g [0..<arity f]) ts"
    using g(2) r(1) by (simp add: list_all2_conv_all_nth)
  then show ?thesis
    using rd env s1 copy_pre_cong [OF p1, of ?s] by (intro exI [of _ ?s] exI [of _ "map g [0..<arity f]"]) simp
qed

text \<open>The second visit: the copies of the arguments are on the temporary stack.\<close>

lemma str_leave:
  assumes p: "copy_pre src m0 nm C hs s" and st: "stack (cp_env s) = int_cell 1 # c # st" and m: "term_map s c = None"
    and r: "reads0 m0 c (TStr f ts)" "f \<in> C" "root m0 c" and room: "room 2 (cp_heap s)" and tmp: "temp (cp_env s) = marked (rev vs) @ tmp"
    and vs: "list_all2 (reads (mem (cp_heap s))) vs us" "list_all2 (copies nm s) ts us"
  shows "\<exists>s' v t'. copy_round dcb src names s = ok s' \<and> stack (cp_env s') = st \<and> temp (cp_env s') = int_cell 0 # v # tmp \<and>
    reads (mem (cp_heap s')) v t' \<and> copies nm s' (TStr f ts) t' \<and> copy_inv m0 nm hs s' \<and> grows 2 (cp_heap s) (cp_heap s') \<and>
    term_map s' = (term_map s)(c \<mapsto> v) \<and> cyclic_args s' = cyclic_args s \<and> current_path s' = current_path s - {c} \<and>
    trail (cp_env s') = trail (cp_env s) \<and> temp_trail (cp_env s') = temp_trail (cp_env s) \<and> register_hb (cp_env s') = register_hb (cp_env s)"
proof -
  let ?e = "entered s st c"
  have pe: "copy_pre src m0 nm C hs ?e" using p by (rule copy_pre_cong) simp_all
  have tab': "length (atom_name_to_index_table (cp_heap ?e)) < 2 ^ 47" using room by (simp add: room_def)
  obtain g s1 where s1: "copy_con src ?e f = ok (g, s1)" "same_con nm (cp_heap s1) f g"
    "grows 1 (cp_heap ?e) (cp_heap s1)" "copy_inv m0 nm hs s1" "term_map s1 = term_map ?e"
    "cyclic_args s1 = cyclic_args ?e" "current_path s1 = current_path ?e"
    "con_map s1 f = Some g" "cp_env s1 = (cp_env ?e)\<lparr>te_heap := cp_heap s1\<rparr>"
    by (rule copy_con_spec [OF pe r(2) tab'])
  have env: "stack (cp_env s1) = st" "temp (cp_env s1) = temp (cp_env s)" "trail (cp_env s1) = trail (cp_env s)"
    "temp_trail (cp_env s1) = temp_trail (cp_env s)" "register_hb (cp_env s1) = register_hb (cp_env s)" by (subst s1(9), simp)+
  have p1: "copy_pre src m0 nm C hs s1" using copy_pre_grows [OF pe s1(3,4)] .
  note inv = copy_preD [OF p1]
  have cf: "coin_free nm C (cp_heap s1)" using p1 by (simp add: copy_pre_def)
  obtain h2 a where h2: "new_str (cp_heap s1) g = ok (h2, str_cell (a + 1))" "heap_ext (cp_heap s1) h2" "hp_size (cp_heap s1) \<le> a"
    "hp_size h2 = a + 2 + arity g" "mem h2 (a + 1) = Some g" "a \<le> hp_size (cp_heap s1) + MAX_SIZE"
    using new_str_spec [OF inv(1) same_con_coin [OF s1(2) cf r(2)]] by metis
  have ar: "arity g = arity f" "cell_tag g = CON_T" using s1(2) by (simp_all add: same_con_def)
  have g2: "grows 1 (cp_heap s1) h2"
    using h2(4,6) arity_bound [of g] by (intro grows_ext [OF h2(2) inv(2)]) (simp add: NODE_def MAX_SIZE_def)
  let ?v = "str_cell (a + 1)"
  have "room 1 (cp_heap s1)" using room_grows [of 1 1 "cp_heap s"] room s1(3) by (simp add: numeral_2_eq_2)
  then have v: "cell_index ?v = a + 1" "cell_tag ?v = STR_T" using h2(6) by (simp_all add: room_def NODE_def MAX_SIZE_def)
  let ?s2 = "(on_env s1 (\<lambda>e. e\<lparr>te_heap := h2\<rparr>))\<lparr>term_map := (term_map s1)(c \<mapsto> ?v)\<rparr>"
  have len: "length vs = arity f" "length us = arity f" using list_all2_lengthD [OF vs(1)] list_all2_lengthD [OF vs(2)] r(1) by simp_all
  obtain h3 where h3: "copy_args ?s2 ?v (arity f) = ok (on_env ?s2 (\<lambda>e. e\<lparr>te_heap := h3, temp := tmp\<rparr>))" "grows 1 (cp_heap s1) h3"
    "\<forall>i<arity f. mem h3 (Suc (cell_index ?v + i)) = Some (vs ! i)" "\<forall>x\<le>cell_index ?v. mem h3 x = mem h2 x"
    using copy_args_spec [of 1 "cp_heap s1" ?s2 ?v "arity f" vs tmp] g2 h2(3,4) v ar env tmp len by auto
  let ?s = "leave_path (temp_push2 (on_env ?s2 (\<lambda>e. e\<lparr>te_heap := h3, temp := tmp\<rparr>)) ?v 0) c"
  have "copy_round dcb src names s = copy_str src ?e c True"
    using copy_round_new [OF st m] r(1) by simp
  also have "\<dots> = ok ?s"
    using src_functor [OF copy_preD(4) [OF pe] r(1)] s1(1) h2(1) h3(1) by (simp add: copy_str_def Let_def)
  finally have rd: "copy_round dcb src names s = ok ?s" .
  have gg: "grows 2 (cp_heap s) h3" using grows_trans [of 1 "cp_heap s" "cp_heap s1" 1 h3] s1(3) h3(2) by (simp add: numeral_2_eq_2)
  have rv: "reads (mem h3) ?v (TStr g us)"
  proof (rule reads_as.str)
    show "derefs (mem h3) ?v ?v" using v by (simp add: root_nonref)
    show "mem h3 (cell_index ?v) = Some g" using h3(4) h2(5) v(1) by simp
    show "\<forall>i<arity g. \<exists>x. mem h3 (Suc (cell_index ?v + i)) = Some x \<and> reads (mem h3) x (us ! i)"
      using h3(3) ar len vs(1) grows_reads [OF gg] by (auto simp: list_all2_conv_all_nth)
  qed (use v ar len in simp_all)
  have mono: "mapped s x y \<Longrightarrow> mapped ?s x y" for x y using m s1(5) by (cases "x = c") auto
  have cps: "copies nm ?s (TStr f ts) (TStr g us)"
  proof (rule similar.str)
    show "same_con nm (cp_heap ?s) f g" using same_con_grows [OF s1(2) h3(2)] by simp
    show "length ts = length us" using vs(2) by (rule list_all2_lengthD)
    have "copies nm ?s (ts ! i) (us ! i)" if i: "i < length ts" for i
    proof (rule copies_mono [where s = s and k = 2])
      show "copies nm s (ts ! i) (us ! i)" using vs(2) i by (simp add: list_all2_conv_all_nth)
      show "grows 2 (cp_heap s) (cp_heap ?s)" using gg by simp
    qed (rule mono)
    then show "\<forall>i<length ts. copies nm ?s (ts ! i) (us ! i)" by blast
  qed
  let ?s3 = "on_env s1 (\<lambda>e. e\<lparr>te_heap := h3\<rparr>)"
  have i3: "copy_inv m0 nm hs ?s3" using h3(2) by (intro copy_inv_grows [OF inv(3), of 1]) simp_all
  have i4: "copy_inv m0 nm hs ?s"
    by (rule copy_inv_map [OF i3, of c ?s ?v "TStr f ts" "TStr g us"])
      (use m s1(5) r rv cps root_derefs [OF r(3)] in \<open>auto simp: reads_iff [of _ m0]\<close>)
  show ?thesis
    using rd rv cps i4 gg env s1(5-7) by (intro exI [of _ ?s] exI [of _ ?v] exI [of _ "TStr g us"]) simp
qed

subsection \<open>The loop\<close>

lemma copies_str:
  assumes IH: "\<And>t. t \<in> set ts \<Longrightarrow> copies_tree src names m0 nm C hs d t"
  shows "copies_tree src names m0 nm C hs d (TStr f ts)"
proof (rule copies_treeI)
  fix s c st
  assume p: "copy_pre src m0 nm C hs s" and rd: "reads m0 c (TStr f ts)" and rt: "root m0 c" and C: "tree_cons (TStr f ts) \<subseteq> C"
    and st: "stack (cp_env s) = int_cell 0 # c # st" and d: "d \<le> length st" and rm: "room (tree_weight (TStr f ts)) (cp_heap s)"
    and pa: "path_above m0 (size (TStr f ts)) s" and m: "term_map s c = None"
  let ?w = "sum_list (map tree_weight ts)" and ?n = "size_list size ts"
  have r: "reads0 m0 c (TStr f ts)" using root_reads0 [OF rt rd] .
  have tag: "cell_tag c = STR_T" using r by simp
  have np: "c \<notin> current_path s" using pa rd tag unfolding path_above_def by blast
  have rm1: "room (1 + (?w + 2)) (cp_heap s)" using rm by (simp add: numeral_3_eq_3)
  have tab: "length (atom_name_to_index_table (cp_heap s)) < 2 ^ 47" using rm by (simp add: room_def)
  obtain s1 gs where s1: "copy_round False src names s = ok s1" "stack (cp_env s1) = marked gs @ int_cell 1 # c # st" "temp (cp_env s1) = temp (cp_env s)"
    "list_all2 (\<lambda>g t. reads m0 g t \<and> root m0 g) gs ts" "copy_pre src m0 nm C hs s1" "grows 1 (cp_heap s) (cp_heap s1)"
    "term_map s1 = term_map s" "cyclic_args s1 = cyclic_args s" "current_path s1 = insert c (current_path s)"
    "trail (cp_env s1) = trail (cp_env s)" "temp_trail (cp_env s1) = temp_trail (cp_env s)" "register_hb (cp_env s1) = register_hb (cp_env s)"
    using str_enter [OF p st m np r _ tab, of False names] C by auto
  have pa1: "path_above m0 ?n s1"
    unfolding path_above_def s1(9) using pa reads_unique [OF rd] by (fastforce simp: path_above_def)
  have sz: "\<forall>t\<in>set ts. tree_cons t \<subseteq> C \<and> size t \<le> ?n" using C by (auto intro: size_list_estimation')
  have rm2: "room (?w + 2) (cp_heap s1)" using rm1 s1(6) by (rule room_grows)
  obtain s2 vs us where s2: "copy_loop False src names d s1 = copy_loop False src names d s2" "stack (cp_env s2) = int_cell 1 # c # st"
    "temp (cp_env s2) = marked (rev vs) @ temp (cp_env s1)" "list_all2 (reads (mem (cp_heap s2))) vs us" "list_all2 (copies nm s2) ts us"
    "copy_pre src m0 nm C hs s2" "grows ?w (cp_heap s1) (cp_heap s2)" "copy_frame m0 ?n s1 s2"
    using copy_list [where names = names and d = d, OF _ s1(4) sz s1(5,2) _ _ pa1] IH d room_le [OF rm2, of ?w] by auto
  have m2: "term_map s2 c = None"
  proof (rule ccontr)
    assume "term_map s2 c \<noteq> None"
    then obtain t where "reads m0 c t" "size t \<le> ?n" using s2(8) m s1(7) unfolding copy_frame_def by metis
    then show False using reads_unique [OF rd] by force
  qed
  have rm3: "room 2 (cp_heap s2)" using rm2 s2(7) by (rule room_grows)
  obtain s3 v t' where s3: "copy_round False src names s2 = ok s3" "stack (cp_env s3) = st" "temp (cp_env s3) = int_cell 0 # v # temp (cp_env s1)"
    "reads (mem (cp_heap s3)) v t'" "copies nm s3 (TStr f ts) t'" "copy_inv m0 nm hs s3" "grows 2 (cp_heap s2) (cp_heap s3)"
    "term_map s3 = (term_map s2)(c \<mapsto> v)" "cyclic_args s3 = cyclic_args s2" "current_path s3 = current_path s2 - {c}"
    "trail (cp_env s3) = trail (cp_env s2)" "temp_trail (cp_env s3) = temp_trail (cp_env s2)" "register_hb (cp_env s3) = register_hb (cp_env s2)"
    using str_leave [OF s2(6,2) m2 r _ rt rm3 s2(3-5), of False names] C by auto
  have loop: "copy_loop False src names d s = copy_loop False src names d s3"
    using copy_loop_step [OF _ s1(1)] copy_loop_step [OF _ s3(1)] s2(1) st s2(2) d by (simp add: stack_size_def)
  have gr: "grows (tree_weight (TStr f ts)) (cp_heap s) (cp_heap s3)"
    using grows_trans [OF grows_trans [OF s1(6) s2(7)] s3(7)] by (simp add: numeral_3_eq_3)
  have fr: "copy_frame m0 (size (TStr f ts)) s s3"
    unfolding copy_frame_def
  proof (intro conjI allI impI)
    fix a b assume "mapped s a b"
    then show "mapped s3 a b" using s1(7) s2(8) s3(8) m by (cases "a = c") (auto simp: copy_frame_def)
  next
    fix k assume k: "term_map s k = None \<and> term_map s3 k \<noteq> None"
    show "\<exists>t. reads m0 k t \<and> size t \<le> size (TStr f ts)"
    proof (cases "k = c")
      case False
      then have "term_map s1 k = None \<and> term_map s2 k \<noteq> None" using k s1(7) s3(8) by simp
      then obtain t where "reads m0 k t" "size t \<le> ?n" using s2(8) unfolding copy_frame_def by blast
      then show ?thesis by (intro exI [of _ t]) simp
    qed (use rd in blast)
  next
    show "{p \<in> current_path s3. cell_tag p = STR_T} = {p \<in> current_path s. cell_tag p = STR_T}"
      using s1(9) s2(8) s3(10) np by (auto simp: copy_frame_def)
  qed (use s1(8,10-12) s2(8) s3(9,11-13) in \<open>simp_all add: copy_frame_def\<close>)
  show "\<exists>s'. copy_loop False src names d s = copy_loop False src names d s' \<and> copied m0 nm hs (TStr f ts) st s s'"
    using loop s3(2-6) s1(3) gr fr unfolding copied_def by (intro exI [of _ s3]) auto
qed

lemma copies_all: "copies_tree src names m0 nm C hs d t"
proof (induction t)
  case (TLeaf x)
  show ?case
  proof (rule copies_treeI)
    fix s c st
    assume a: "copy_pre src m0 nm C hs s" "reads m0 c (TLeaf x)" "root m0 c" "tree_cons (TLeaf x) \<subseteq> C" "stack (cp_env s) = int_cell 0 # c # st"
      "d \<le> length st" "room (tree_weight (TLeaf x)) (cp_heap s)" "term_map s c = None"
    have c: "x = c" "is_ref (cell_tag c) \<or> cell_tag c = CON_T \<or> cell_tag c = INT_T" using root_reads0 [OF a(3,2)] by auto
    have rm: "room 1 (cp_heap s)" "length (atom_name_to_index_table (cp_heap s)) < 2 ^ 47" using a(7) by (simp_all add: room_def)
    have "\<exists>s'. copy_round False src names s = ok s' \<and> copied m0 nm hs (TLeaf c) st s s'"
      using c(2) var_round [OF a(1,5,8) _ _ rm(1)] con_round [OF a(1,5,8) _ _ rm(2)] int_round [OF a(1,5,8)] a(2,4) c(1) by auto
    then show "\<exists>s'. copy_loop False src names d s = copy_loop False src names d s' \<and> copied m0 nm hs (TLeaf x) st s s'"
      using copy_loop_step [of d s False src names] a(5,6) c(1) by (auto simp: stack_size_def)
  qed
next
  case (TBig n bs)
  show ?case
  proof (rule copies_treeI)
    fix s c st
    assume a: "copy_pre src m0 nm C hs s" "reads m0 c (TBig n bs)" "root m0 c" "stack (cp_env s) = int_cell 0 # c # st"
      "d \<le> length st" "room (tree_weight (TBig n bs)) (cp_heap s)" "term_map s c = None"
    have rm: "room 1 (cp_heap s)" using a(6) by simp
    show "\<exists>s'. copy_loop False src names d s = copy_loop False src names d s' \<and> copied m0 nm hs (TBig n bs) st s s'"
      using big_round [OF a(1,4,7) root_reads0 [OF a(3,2)] rm, of names] copy_loop_step [of d s False src names] a(4,5)
      by (auto simp: stack_size_def)
  qed
next
  case (TStr f ts)
  then show ?case by (intro copies_str)
qed

subsection \<open>Copying a term\<close>

text \<open>\<open>renaming h k V\<close>: \<open>V\<close> maps variables one to one to unbound variables of \<open>h\<close> that are not below \<open>k\<close>.\<close>

definition renaming :: "heap \<Rightarrow> nat \<Rightarrow> (cell \<Rightarrow> cell \<Rightarrow> bool) \<Rightarrow> bool" where
  "renaming h k V \<longleftrightarrow> (\<forall>a b. V a b \<longrightarrow> b = ref_cell (cell_index b) \<and> k \<le> cell_index b \<and> mem h (cell_index b) = Some b) \<and>
     (\<forall>a b b'. V a b \<and> V a b' \<longrightarrow> b = b') \<and> (\<forall>a a' b. V a b \<and> V a' b \<longrightarrow> a = a')"

lemma copy_inv_renaming:
  assumes "copy_inv m0 nm hs s"
  shows "renaming (cp_heap s) hs (\<lambda>a b. mapped s a b \<and> is_ref (cell_tag a))"
  unfolding renaming_def
proof (intro conjI allI impI)
  fix a b assume "mapped s a b \<and> is_ref (cell_tag a)"
  then show "b = ref_cell (cell_index b)" "hs \<le> cell_index b" "mem (cp_heap s) (cell_index b) = Some b"
    using assms unfolding copy_inv_def by blast+
next
  fix a a' b assume "(mapped s a b \<and> is_ref (cell_tag a)) \<and> (mapped s a' b \<and> is_ref (cell_tag a'))"
  then show "a = a'" using assms unfolding copy_inv_def by blast
qed auto

lemma similar_refs: "similar V K t u \<Longrightarrow> similar (\<lambda>a b. V a b \<and> is_ref (cell_tag a)) K t u"
  by (induction rule: similar.induct) (auto intro: similar.intros)

definition source_heap :: "heap source \<Rightarrow> tenv \<Rightarrow> heap" where
  "source_heap src e = (case src of Own \<Rightarrow> te_heap e | Other h \<Rightarrow> h)"

text \<open>C5: Copying a finite term.  The constants of the term must be within the limits of constant cells (\<open>con_ok\<close>: a name
  of up to seven characters is not empty, is ASCII and has an arity below 32; a longer one is shorter than
  \<open>MAX_NAME_LENGTH\<close> and has an arity below 4096), it must not hold a \<open>$coin/2\<close> structure while coin security is on
  (\<open>coin_free\<close>; the copy of one throws), and the addresses and the atom table must not run out (\<open>room\<close>).  Then copying ends
  without an exception.  The copy is the same tree with the same numbers and with constants of the same name and arity;
  its variables are new ones, renamed one to one.  No cell that was there before changes, and stack and trail are as
  before.  The source is the environment's own heap or another one.\<close>

theorem utils_copy_correct:
  assumes inv: "heap_inv (te_heap e)" "atoms_inv (te_heap e)" "heap_inv (source_heap src e)"
    and t: "reads (mem (source_heap src e)) c t"
    and nm: "\<forall>k\<in>tree_cons t. atom_name (source_heap src e) k = ok (nm k) \<and> con_ok nm k"
    and room: "room (tree_weight t) (te_heap e)" and coin: "coin_free nm (tree_cons t) (te_heap e)"
  shows "\<exists>r cost e' t' V. utils_copy False e c src names = ok (r, cost, e') \<and> reads (mem (te_heap e')) r t' \<and>
    similar V (same_con nm (te_heap e')) t t' \<and> renaming (te_heap e') (hp_size (te_heap e)) V \<and>
    (\<forall>x<hp_size (te_heap e). mem (te_heap e') x = mem (te_heap e) x) \<and> stack e' = stack e \<and> trail e' = trail e"
proof -
  let ?m = "mem (source_heap src e)" and ?C = "tree_cons t" and ?hs = "hp_size (te_heap e)" and ?d = "stack_size e"
  obtain c' where c': "derefs ?m c c'" "reads ?m c' t" using reads_derefs [OF t] by blast
  let ?s0 = "\<lparr>cp_env = temp_clear e, term_map = Map.empty, con_map = Map.empty, cyclic_args = [], current_path = {}, cp_cost = 0\<rparr>"
  let ?s = "push2 ?s0 c' 0"
  have sh: "src_heap src ?s0 = source_heap src e" by (simp add: src_heap_def source_heap_def temp_clear_def split: source.splits)
  have hp: "cp_heap ?s = te_heap e" "stack (cp_env ?s) = int_cell 0 # c' # stack e" by (simp_all add: temp_clear_def)
  have ci: "copy_inv ?m nm ?hs ?s" using inv(1,2) by (simp add: copy_inv_def hp(1)) (simp add: temp_clear_def)
  have "sees src ?m nm ?C ?s" using inv(3) nm sh by (simp add: sees_def)
  then have p: "copy_pre src ?m nm ?C ?hs ?s" using ci coin nm hp(1) by (simp add: copy_pre_def)
  obtain s' where s': "copy_loop False src names ?d ?s = copy_loop False src names ?d s'" "copied ?m nm ?hs t (stack e) ?s s'"
    using copies_treeD [OF copies_all p c'(2) derefs_root [OF c'(1)] order.refl hp(2), of ?d names] room hp(1)
    by (auto simp: stack_size_def path_above_def)
  obtain v t' where v: "stack (cp_env s') = stack e" "temp (cp_env s') = [int_cell 0, v]" "reads (mem (cp_heap s')) v t'" "copies nm s' t t'"
    using s'(2) by (auto simp: copied_def temp_clear_def)
  have fr: "copy_inv ?m nm ?hs s'" "grows (tree_weight t) (te_heap e) (cp_heap s')" "cyclic_args s' = []" "trail (cp_env s') = trail e"
    using s'(2) by (auto simp: copied_def copy_frame_def temp_clear_def)
  have "copy_loop False src names ?d ?s = ok s'" using s'(1) v(1) by (simp add: copy_loop.simps [of _ _ _ _ s'] stack_size_def)
  then have run: "utils_copy False e c src names = ok (v, cp_cost s', (cp_env s')\<lparr>temp := []\<rparr>)"
    using fr(3) v(2) sh deref_derefs [OF inv(3) c'(1)] by (simp add: utils_copy_def temp_pop_def Let_def)
  let ?V = "\<lambda>a b. mapped s' a b \<and> is_ref (cell_tag a)"
  have "similar ?V (same_con nm (cp_heap s')) t t'" using v(4) by (rule similar_refs)
  moreover have "renaming (cp_heap s') ?hs ?V" using fr(1) by (rule copy_inv_renaming)
  moreover have "\<forall>x<?hs. mem (cp_heap s') x = mem (te_heap e) x" using fr(2) by (simp add: grows_def)
  ultimately show ?thesis
    using run v fr(4)
    by (intro exI [of _ v] exI [of _ "cp_cost s'"] exI [of _ "(cp_env s')\<lparr>temp := []\<rparr>"] exI [of _ t'] exI [of _ ?V]) simp
qed

lemma walk_reads_list: "reads (mem walk_heap) (str_cell 11) (TStr DOTTED_PAIR [TLeaf (int_cell 1), TLeaf EMPTY_LIST])"
  using walk_lists(1) by simp

theorem utils_copy_correct_witness:
  "\<exists>r cost e' t' V. utils_copy False walk_env (str_cell 11) Own None = ok (r, cost, e') \<and> reads (mem (te_heap e')) r t' \<and>
    similar V (same_con con_name (te_heap e')) (TStr DOTTED_PAIR [TLeaf (int_cell 1), TLeaf EMPTY_LIST]) t' \<and>
    renaming (te_heap e') (hp_size (te_heap walk_env)) V \<and>
    (\<forall>x<hp_size (te_heap walk_env). mem (te_heap e') x = mem (te_heap walk_env) x) \<and> stack e' = stack walk_env \<and> trail e' = trail walk_env"
proof (rule utils_copy_correct)
  let ?t = "TStr DOTTED_PAIR [TLeaf (int_cell 1), TLeaf EMPTY_LIST]"
  show "heap_inv (te_heap walk_env)" "heap_inv (source_heap Own walk_env)" by (simp_all add: source_heap_def walk_heap_inv)
  show "atoms_inv (te_heap walk_env)" by (simp add: walk_heap_def atoms_inv_def heap_new_def)
  show "reads (mem (source_heap Own walk_env)) (str_cell 11) ?t" by (simp add: source_heap_def walk_reads_list)
  have "is_direct DOTTED_PAIR" "is_direct EMPTY_LIST" "con_ok con_name DOTTED_PAIR" "con_ok con_name EMPTY_LIST"
    unfolding con_ok_def by code_simp+
  then show "\<forall>k\<in>tree_cons ?t. atom_name (source_heap Own walk_env) k = ok (con_name k) \<and> con_ok con_name k"
    by (simp add: atom_name_def)
  show "room (tree_weight ?t) (te_heap walk_env)" by (simp add: room_def NODE_def addr_limit_def walk_heap_def heap_new_def)
  show "coin_free con_name (tree_cons ?t) (te_heap walk_env)"
    by (auto simp: coin_free_def walk_heap_def heap_new_def DOTTED_PAIR_def EMPTY_LIST_def) code_simp+
qed

end
