(* ===== verification/Fxp.thy ===== *)
theory Fxp
  imports Prelude
begin

section \<open>Fixed-point numbers\<close>

text \<open>
  \<^verbatim>\<open>src/src/pow/fxp.hpp\<close>: numbers with a 16-bit integer part and a 48-bit fraction, kept in a \<open>uint64_t\<close> as two's
  complement.  The proof of work is verified with them, so every node has to compute the same bits.  A value of the
  class is its only member \<open>data_\<close>.  The conversions from and to \<open>double\<close> and the trigonometric functions, which
  go through \<open>double\<close> and serve debugging only, are left out.  The shift amounts are natural numbers; the
  ones that occur are below 64 (\<open>Fxp_Correct\<close>), where \<open>push_bit\<close> and \<open>drop_bit\<close> are the shifts of C++.
\<close>

type_synonym fxp1648 = u64

subsection \<open>The most significant bit\<close>

definition msb_step :: "nat \<Rightarrow> u64 \<Rightarrow> u64 \<times> int \<Rightarrow> u64 \<times> int" where
  "msb_step k m s = (let (v, r) = s in if m AND v \<noteq> 0 then (drop_bit k v, r OR int k) else (v, r))"

definition fxp_msb :: "u64 \<Rightarrow> int" where
  "fxp_msb v =
     (if v \<noteq> 0 then
        let s = msb_step 32 0xFFFFFFFF00000000 (v, 0);
            s = msb_step 16 0x00000000FFFF0000 s;
            s = msb_step 8 0x000000000000FF00 s;
            s = msb_step 4 0x00000000000000F0 s;
            s = msb_step 2 0x000000000000000C s;
            (v, r) = s
        in if 0x0000000000000002 AND v \<noteq> 0 then r OR 1 else r
      else - 1)"

definition pos_msb :: "u64 \<Rightarrow> int" where
  "pos_msb v = (if drop_bit 63 v \<noteq> 0 then fxp_msb (NOT v + 1) else fxp_msb v)"

subsection \<open>Conversions\<close>

definition fxp_of_size :: "u64 \<Rightarrow> fxp1648" where
  "fxp_of_size v = push_bit 48 v"

definition fxp_of_int :: "int \<Rightarrow> fxp1648" where
  "fxp_of_int i = (if 0 \<le> i then push_bit 48 (word_of_int i) else NOT (push_bit 48 (word_of_int (- i))) + 1)"

definition fxp_write :: "fxp1648 \<Rightarrow> u8 list" where
  "fxp_write a =
     [ucast (drop_bit 56 a AND 0xff), ucast (drop_bit 48 a AND 0xff), ucast (drop_bit 40 a AND 0xff),
      ucast (drop_bit 32 a AND 0xff), ucast (drop_bit 24 a AND 0xff), ucast (drop_bit 16 a AND 0xff),
      ucast (drop_bit 8 a AND 0xff), ucast (drop_bit 0 a AND 0xff)]"

definition fxp_read :: "u8 list \<Rightarrow> fxp1648" where
  "fxp_read bytes =
     push_bit 56 (ucast (bytes ! 0)) OR push_bit 48 (ucast (bytes ! 1)) OR push_bit 40 (ucast (bytes ! 2)) OR
     push_bit 32 (ucast (bytes ! 3)) OR push_bit 24 (ucast (bytes ! 4)) OR push_bit 16 (ucast (bytes ! 5)) OR
     push_bit 8 (ucast (bytes ! 6)) OR push_bit 0 (ucast (bytes ! 7))"

definition fxp_to_int :: "fxp1648 \<Rightarrow> int" where
  "fxp_to_int a = sint (ucast (signed_drop_bit 48 a) :: u32)"

definition fxp_to_uint32 :: "fxp1648 \<Rightarrow> u32" where
  "fxp_to_uint32 a = ucast (drop_bit 48 a)"

subsection \<open>Limits and tests\<close>

definition fxp_eps :: "bool \<Rightarrow> fxp1648" where
  "fxp_eps positive = (if positive then 1 else - 1)"

definition fxp_min :: fxp1648 where "fxp_min = 0x8000000000000000"
definition fxp_max :: fxp1648 where "fxp_max = 0x7fffffffffffffff"

definition max_or_min :: "bool \<Rightarrow> fxp1648" where
  "max_or_min positive = (if positive then fxp_max else fxp_min)"

definition fxp_is_negative :: "fxp1648 \<Rightarrow> bool" where
  "fxp_is_negative a \<longleftrightarrow> drop_bit 63 a \<noteq> 0"

definition fxp_less :: "fxp1648 \<Rightarrow> fxp1648 \<Rightarrow> bool" where
  "fxp_less a b \<longleftrightarrow> drop_bit 63 (a - b) \<noteq> 0"

definition fxp_geq :: "fxp1648 \<Rightarrow> fxp1648 \<Rightarrow> bool" where
  "fxp_geq a b \<longleftrightarrow> drop_bit 63 (a - b) = 0"

definition fxp_leq :: "fxp1648 \<Rightarrow> fxp1648 \<Rightarrow> bool" where
  "fxp_leq a b \<longleftrightarrow> fxp_less a b \<or> a = b"

definition fxp_greater :: "fxp1648 \<Rightarrow> fxp1648 \<Rightarrow> bool" where
  "fxp_greater a b \<longleftrightarrow> fxp_geq a b \<and> a \<noteq> b"

subsection \<open>Shifts\<close>

definition shift_right_no_saturation :: "fxp1648 \<Rightarrow> nat \<Rightarrow> fxp1648" where
  "shift_right_no_saturation a n =
     (if 63 < n then if fxp_is_negative a then - 1 else 0 else signed_drop_bit n a)"

definition fxp_shr :: "fxp1648 \<Rightarrow> nat \<Rightarrow> fxp1648" where
  "fxp_shr a n =
     (if a = 0 then a
      else let v = shift_right_no_saturation a n
           in if v = 0 \<or> v = - 1 then fxp_eps (\<not> fxp_is_negative a) else v)"

definition fxp_shl :: "fxp1648 \<Rightarrow> nat \<Rightarrow> fxp1648" where
  "fxp_shl a n =
     (if fxp_is_negative a \<and> (a = fxp_min \<or> 62 - fxp_msb (NOT a + 1) < int n) then fxp_min
      else if \<not> fxp_is_negative a \<and> 62 - fxp_msb a < int n then fxp_max
      else push_bit n a)"

definition fxp_half :: "fxp1648 \<Rightarrow> fxp1648" where
  "fxp_half a = fxp_shr a 1"

subsection \<open>Arithmetic\<close>

definition fxp_add :: "fxp1648 \<Rightarrow> fxp1648 \<Rightarrow> fxp1648" where
  "fxp_add a b =
     (let r = a + b
      in if fxp_is_negative a = fxp_is_negative b \<and> fxp_is_negative r \<noteq> fxp_is_negative a
         then max_or_min (\<not> fxp_is_negative a) else r)"

definition fxp_sub :: "fxp1648 \<Rightarrow> fxp1648 \<Rightarrow> fxp1648" where
  "fxp_sub a b =
     (let r = a - b
      in if fxp_is_negative a \<noteq> fxp_is_negative b \<and> fxp_is_negative r \<noteq> fxp_is_negative a
         then max_or_min (\<not> fxp_is_negative a) else r)"

definition fxp_neg :: "fxp1648 \<Rightarrow> fxp1648" where
  "fxp_neg a = NOT a + 1"

definition fxp_mul3 :: "fxp1648 \<Rightarrow> fxp1648" where
  "fxp_mul3 a =
     (if fxp_greater a 0x2aaaaaaaaaaaaaaa then fxp_max
      else if fxp_less a 0xd555555555555556 then fxp_min
      else push_bit 1 a + a)"

definition mul_parts :: "u64 \<Rightarrow> u64 \<Rightarrow> u64 \<times> u64" where
  "mul_parts x y =
     (let ah = ucast (drop_bit 32 x) :: u32; al = ucast x :: u32;
          bh = ucast (drop_bit 32 y) :: u32; bl = ucast y :: u32;
          p0 = ucast al * ucast bl :: u64; p1 = ucast al * ucast bh :: u64;
          p2 = ucast ah * ucast bl :: u64; p3 = ucast ah * ucast bh :: u64;
          carry = ucast (drop_bit 32 (drop_bit 32 p0 + ucast (ucast p1 :: u32) + ucast (ucast p2 :: u32))) :: u32;
          lo = p0 + push_bit 32 p1 + push_bit 32 p2;
          hi = p3 + drop_bit 32 p2 + drop_bit 32 p1 + ucast carry
      in (hi, lo))"

definition fxp_mul :: "fxp1648 \<Rightarrow> fxp1648 \<Rightarrow> fxp1648" where
  "fxp_mul a b =
     (if a = 0 \<or> b = 0 then 0
      else let x_neg = fxp_is_negative a; y_neg = fxp_is_negative b;
               x = if x_neg then NOT a + 1 else a;
               y = if y_neg then NOT b + 1 else b;
               r_neg = (x_neg \<noteq> y_neg);
               (hi, lo) = mul_parts x y;
               p = push_bit 16 hi OR drop_bit 48 lo
           in if drop_bit 63 p \<noteq> 0 then max_or_min (\<not> r_neg)
              else if p = 0 then fxp_eps (\<not> r_neg)
              else if r_neg then NOT p + 1 else p)"

definition fxp_mul_int :: "fxp1648 \<Rightarrow> int \<Rightarrow> fxp1648" where
  "fxp_mul_int a x = fxp_mul a (fxp_of_int x)"

subsection \<open>Reciprocals and division\<close>

definition c_48_17 :: fxp1648 where "c_48_17 = 0x2d2d2d2d2d2d2"
definition c_32_17 :: fxp1648 where "c_32_17 = 0x1e1e1e1e1e1e1"
definition c_1 :: fxp1648 where "c_1 = 0x1000000000000"

definition newton_step :: "fxp1648 \<Rightarrow> fxp1648 \<Rightarrow> fxp1648" where
  "newton_step dp x = fxp_add x (fxp_mul x (fxp_sub c_1 (fxp_mul dp x)))"

definition scale_bits :: "int \<Rightarrow> u64 \<Rightarrow> u64" where
  "scale_bits scale2 d = (if scale2 < 0 then drop_bit (nat (- scale2)) d else push_bit (nat scale2) d)"

definition fxp_reciprocal :: "fxp1648 \<Rightarrow> fxp1648" where
  "fxp_reciprocal a =
     (let is_neg = fxp_is_negative a;
          d = (if is_neg then NOT a + 1 else a);
          scale2 = 47 - fxp_msb d;
          dp = scale_bits scale2 d;
          x = fxp_sub c_48_17 (fxp_mul c_32_17 dp);
          x = (newton_step dp ^^ 6) x
      in if 0 < scale2 \<and> 63 \<le> fxp_msb x + scale2 then max_or_min (\<not> is_neg)
         else let r = scale_bits scale2 x
              in if r = 0 then fxp_eps (\<not> is_neg)
                 else if is_neg then NOT r + 1 else r)"

definition fxp_div :: "fxp1648 \<Rightarrow> fxp1648 \<Rightarrow> fxp1648" where
  "fxp_div a b =
     (if a = 0 then a
      else if b = 0 then max_or_min (\<not> fxp_is_negative a)
      else let to_origin = 48 - pos_msb b;
               (a, b) = (if to_origin < 0 then (fxp_shr a (nat (- to_origin)), fxp_shr b (nat (- to_origin)))
                         else (fxp_shl a (nat to_origin), fxp_shl b (nat to_origin)))
           in fxp_mul a (fxp_reciprocal b))"

definition fxp_div_int :: "fxp1648 \<Rightarrow> int \<Rightarrow> fxp1648" where
  "fxp_div_int a x = fxp_div a (fxp_of_int x)"

definition fxp_div_size :: "fxp1648 \<Rightarrow> u64 \<Rightarrow> fxp1648" where
  "fxp_div_size a x = fxp_div a (fxp_of_size x)"

definition fxp_div_assign :: "fxp1648 \<Rightarrow> fxp1648 \<Rightarrow> fxp1648" where
  "fxp_div_assign a b =
     (if a = 0 then a
      else let to_origin = 48 - pos_msb b;
               (a, b) = (if to_origin < 0 then (fxp_shr a (nat (- to_origin)), fxp_shr b (nat (- to_origin)))
                         else (fxp_shl a (nat to_origin), fxp_shl b (nat to_origin)))
           in fxp_mul a (fxp_reciprocal b))"

subsection \<open>Square roots\<close>

definition INV_SQRT_2N :: "u64 list" where
  "INV_SQRT_2N =
     [0xb504f333f9de60, 0x80000000000000, 0x5a827999fcef30, 0x40000000000000, 0x2d413cccfe7798,
      0x20000000000000, 0x16a09e667f3bcc, 0x10000000000000, 0xb504f333f9de6, 0x8000000000000,
      0x5a827999fcef3, 0x4000000000000, 0x2d413cccfe779, 0x2000000000000, 0x16a09e667f3bc,
      0x1000000000000, 0xb504f333f9de, 0x800000000000, 0x5a827999fcef, 0x400000000000,
      0x2d413cccfe77, 0x200000000000, 0x16a09e667f3b, 0x100000000000, 0xb504f333f9d,
      0x80000000000, 0x5a827999fce, 0x40000000000, 0x2d413cccfe7, 0x20000000000,
      0x16a09e667f3, 0x10000000000, 0xb504f333f9, 0x8000000000, 0x5a827999fc,
      0x4000000000, 0x2d413cccfe, 0x2000000000, 0x16a09e667f, 0x1000000000,
      0xb504f333f, 0x800000000, 0x5a827999f, 0x400000000, 0x2d413cccf,
      0x200000000, 0x16a09e667, 0x100000000, 0xb504f333, 0x80000000,
      0x5a827999, 0x40000000, 0x2d413ccc, 0x20000000, 0x16a09e66,
      0x10000000, 0xb504f33, 0x8000000, 0x5a82799, 0x4000000,
      0x2d413cc, 0x2000000, 0x16a09e6, 0x1000000]"

definition RESCALE :: "u64 list" where
  "RESCALE =
     [0x0, 0xe8ba2e8ba2e8, 0xd55555555555, 0xc4ec4ec4ec4e, 0xb6db6db6db6d, 0xaaaaaaaaaaaa,
      0xa00000000000, 0x969696969696, 0x8e38e38e38e3, 0x86bca1af286b, 0x800000000000]"

definition RESCALE_INV_SQRT :: "u64 list" where
  "RESCALE_INV_SQRT =
     [0x0, 0xf4161fcec4f0, 0xe9b1e8c246e5, 0xe086dfd59e44, 0xd85c077c225d, 0xd105eb806161,
      0xca62c1d6d2da, 0xc457d14846c6, 0xbecfa67baa31, 0xb9b8cfc03f49, 0xb504f333f9de]"

definition c_3_2 :: fxp1648 where "c_3_2 = 0x1800000000000"
definition c_10 :: fxp1648 where "c_10 = 0xa000000000000"
definition inv_sqrt_limit :: fxp1648 where "inv_sqrt_limit = 0x40000"

definition inv_sqrt_step :: "fxp1648 \<Rightarrow> fxp1648 \<Rightarrow> fxp1648" where
  "inv_sqrt_step x2 y = fxp_mul y (fxp_sub c_3_2 (fxp_mul (fxp_mul x2 y) y))"

function scale_back :: "fxp1648 \<Rightarrow> int \<Rightarrow> fxp1648 \<times> int" where
  "scale_back y scale2 =
     (if 15 < scale2 then scale_back (fxp_mul y (INV_SQRT_2N ! 0)) (scale2 - 15) else (y, scale2))"
  by pat_completeness auto
termination by (relation "measure (\<lambda>(y, scale2). nat scale2)") auto

declare scale_back.simps [simp del]

definition fxp_inv_sqrt :: "fxp1648 \<Rightarrow> fxp1648" where
  "fxp_inv_sqrt a =
     (if fxp_is_negative a \<or> a = 0 then fxp_of_int 0
      else if fxp_less a inv_sqrt_limit then fxp_max
      else let scale2 = 48 - fxp_msb a;
               y_s = scale_bits scale2 a;
               tr = fxp_to_int (fxp_mul (fxp_sub y_s c_1) c_10);
               (rescale, y_s) = (if 0 < tr then (RESCALE_INV_SQRT ! nat tr, fxp_mul y_s (RESCALE ! nat tr))
                                 else (c_1, y_s));
               x2 = fxp_half y_s;
               y = (inv_sqrt_step x2 ^^ 6) y_s;
               (y, scale2) = scale_back y scale2;
               y = (if scale2 \<noteq> 0 then fxp_mul y (INV_SQRT_2N ! nat (15 - scale2)) else y);
               y = (if rescale \<noteq> c_1 then fxp_mul y rescale else y)
           in if y = 0 then fxp_eps True else y)"

text \<open>\<open>sqrt\<close> asserts that its argument is not negative; \<open>None\<close> when the assertion fails.\<close>

definition fxp_sqrt :: "fxp1648 \<Rightarrow> fxp1648 option" where
  "fxp_sqrt a =
     (if fxp_is_negative a then None
      else if a = 0 then Some a
      else Some (fxp_reciprocal (fxp_inv_sqrt a)))"

subsection \<open>Coordinates\<close>

definition c_1_2 :: fxp1648 where "c_1_2 = 0x800000000000"

definition uint64_to_fxp :: "u64 \<Rightarrow> fxp1648" where
  "uint64_to_fxp a = fxp_sub (drop_bit 16 a) c_1_2"

definition fxp_to_uint64 :: "fxp1648 \<Rightarrow> u64" where
  "fxp_to_uint64 a = push_bit 16 (fxp_add a c_1_2)"

end
