(* ===== verification/Fxp_Correct.thy ===== *)
theory Fxp_Correct
  imports Fxp
begin

section \<open>Correctness of the fixed-point numbers\<close>

text \<open>
  The operations of \<open>Fxp\<close> as operations on integers: \<open>sint a\<close> is the number in units of 2^-48.  Sums, differences and
  shifts saturate (\<open>clamp\<close>), the product is truncated and saturates unless its high bits are lost (\<open>mul_spec\<close>), and
  the most significant bit is found by the binary search of the code.
\<close>

subsection \<open>Words as integers\<close>

named_theorems fxp_arith \<open>fixed-point operations as integers\<close>

lemma sint_of_uint: "sint (a :: u64) = (if uint a < 2 ^ 63 then uint a else uint a - 2 ^ 64)"
proof -
  have u: "0 \<le> uint a" "uint a < 2 ^ 64"
    using uint_lt2p [of a] by simp_all
  have "sint a = signed_take_bit 63 (uint a)"
    by (simp add: sint_uint)
  also have "\<dots> = (uint a + 2 ^ 63) mod 2 ^ 64 - 2 ^ 63"
    by (simp add: signed_take_bit_eq_take_bit_shift take_bit_eq_mod)
  also have "\<dots> = (if uint a < 2 ^ 63 then uint a else uint a - 2 ^ 64)"
  proof (cases "uint a < 2 ^ 63")
    case True
    then have "(uint a + 2 ^ 63) mod 2 ^ 64 = uint a + 2 ^ 63"
      using u by (intro mod_pos_pos_trivial) simp_all
    then show ?thesis using True by simp
  next
    case False
    then have "(uint a + 2 ^ 63) mod 2 ^ 64 = (uint a + 2 ^ 63 - 2 ^ 64) mod 2 ^ 64"
      by (metis minus_mod_self2)
    also have "\<dots> = uint a + 2 ^ 63 - 2 ^ 64"
      using u False by (intro mod_pos_pos_trivial) simp_all
    finally show ?thesis using False by simp
  qed
  finally show ?thesis .
qed

lemma sint_bounds: "- (2 ^ 63) \<le> sint (a :: u64)" "sint (a :: u64) < 2 ^ 63"
  using sint_ge [of a] sint_lt [of a] by simp_all

lemma uint_bounds: "0 \<le> uint (a :: u64)" "uint (a :: u64) < 2 ^ 64"
  using uint_lt2p [of a] by simp_all

lemma ucast_u32_uint: "uint (ucast (x :: u64) :: u32) = uint x mod 2 ^ 32"
  by (simp add: unsigned_ucast_eq take_bit_eq_mod)

lemma ucast_u64_uint: "uint (ucast (x :: u32) :: u64) = uint x"
  by (simp add: unsigned_ucast_eq take_bit_eq_mod mod_pos_pos_trivial uint_bounded
      less_trans [OF uint_bounded])

lemma uint_drop_u64: "uint (drop_bit n (x :: u64)) = uint x div 2 ^ n"
proof -
  have "take_bit 64 (uint x) = uint x"
    using uint_bounds [of x] by (simp add: take_bit_eq_mod mod_pos_pos_trivial)
  then have "uint (drop_bit n x) = drop_bit n (uint x)"
    by (simp add: unsigned_drop_bit_eq)
  then show ?thesis by (simp add: drop_bit_eq_div)
qed

lemma uint_mult_u64: "uint (x * y :: u64) = uint x * uint y mod 2 ^ 64"
  by (simp add: uint_word_ariths)

lemma uint_push_u64: "uint (push_bit n (x :: u64)) = uint x * 2 ^ n mod 2 ^ 64"
proof -
  have "uint (push_bit n x) = take_bit 64 (push_bit n (uint x))"
    by (simp add: unsigned_push_bit_eq)
  then show ?thesis by (simp add: push_bit_eq_mult take_bit_eq_mod)
qed

lemma uint_add_u64: "uint (x + y :: u64) = (uint x + uint y) mod 2 ^ 64"
  by (simp add: uint_word_ariths)

lemma uint_neg_u64: "uint (NOT x + 1 :: u64) = (if x = 0 then 0 else 2 ^ 64 - uint x)"
proof -
  have "NOT x + 1 = - x" by (simp add: minus_eq_not_plus_1)
  moreover have "uint (- x) = (- uint x) mod 2 ^ 64" by (simp add: uint_word_ariths)
  moreover have "x \<noteq> 0 \<Longrightarrow> (- uint x) mod 2 ^ 64 = 2 ^ 64 - uint x"
  proof -
    assume "x \<noteq> 0"
    then have x: "0 < uint x" using uint_bounds [of x] uint_0_iff [of x] by linarith
    have "(- uint x) mod 2 ^ 64 = (2 ^ 64 - uint x) mod 2 ^ 64"
      by (metis add.commute diff_conv_add_uminus mod_add_self2)
    also have "\<dots> = 2 ^ 64 - uint x"
      using x uint_bounds [of x] by (intro mod_pos_pos_trivial) linarith+
    finally show "(- uint x) mod 2 ^ 64 = 2 ^ 64 - uint x" .
  qed
  ultimately show ?thesis by simp
qed

lemma top_bit: "drop_bit 63 (a :: u64) \<noteq> 0 \<longleftrightarrow> 2 ^ 63 \<le> uint a"
proof -
  have "drop_bit 63 a \<noteq> 0 \<longleftrightarrow> uint (drop_bit 63 a) \<noteq> 0"
    by (simp only: uint_0_iff)
  also have "\<dots> \<longleftrightarrow> uint a div 2 ^ 63 \<noteq> 0"
    by (simp only: uint_drop_u64)
  also have "\<dots> \<longleftrightarrow> 2 ^ 63 \<le> uint a"
    using uint_bounds [of a] zdiv_eq_0_iff [of "uint a" "2 ^ 63"] by auto
  finally show ?thesis .
qed

lemma is_negative_uint: "fxp_is_negative a \<longleftrightarrow> 2 ^ 63 \<le> uint a"
  by (simp add: fxp_is_negative_def top_bit)

lemma is_negative_sint: "fxp_is_negative a \<longleftrightarrow> sint a < 0"
  using uint_bounds [of a] by (auto simp: is_negative_uint sint_of_uint)

lemma sint_eq_iff: "sint (a :: u64) = sint b \<longleftrightarrow> a = b"
  by (auto intro: signed_word_eqI)

lemma sint_of_int_small: "- (2 ^ 63) \<le> z \<Longrightarrow> z < 2 ^ 63 \<Longrightarrow> sint (word_of_int z :: u64) = z"
  by (simp add: sint_sbintrunc' signed_take_bit_int_eq_self_iff)

definition clamp :: "int \<Rightarrow> int" where
  "clamp z = max (- (2 ^ 63)) (min (2 ^ 63 - 1) z)"

lemma clamp_id [simp]: "- (2 ^ 63) \<le> z \<Longrightarrow> z < 2 ^ 63 \<Longrightarrow> clamp z = z"
  by (simp add: clamp_def)

lemma clamp_high: "2 ^ 63 \<le> z \<Longrightarrow> clamp z = 2 ^ 63 - 1"
  by (simp add: clamp_def)

lemma clamp_low: "z < - (2 ^ 63) \<Longrightarrow> clamp z = - (2 ^ 63)"
  by (simp add: clamp_def)

lemma sint_limits [simp]: "sint fxp_max = 2 ^ 63 - 1" "sint fxp_min = - (2 ^ 63)"
  by (simp_all add: fxp_max_def fxp_min_def)

lemma sint_max_or_min: "sint (max_or_min p) = (if p then 2 ^ 63 - 1 else - (2 ^ 63))"
  by (simp add: max_or_min_def)

lemma sint_eps: "sint (fxp_eps p) = (if p then 1 else - 1)"
  by (simp add: fxp_eps_def)

subsection \<open>Addition and subtraction saturate\<close>

lemma sint_wrap:
  assumes "sint (r :: u64) = signed_take_bit 63 z" "- (2 ^ 64) \<le> z" "z < 2 ^ 64"
  shows "sint r = (if z < - (2 ^ 63) then z + 2 ^ 64 else if 2 ^ 63 \<le> z then z - 2 ^ 64 else z)"
proof -
  have s: "sint r = (z + 2 ^ 63) mod 2 ^ 64 - 2 ^ 63"
    using assms(1) by (simp add: signed_take_bit_eq_take_bit_shift take_bit_eq_mod)
  consider "z < - (2 ^ 63)" | "2 ^ 63 \<le> z" | "- (2 ^ 63) \<le> z" "z < 2 ^ 63" by linarith
  then show ?thesis
  proof cases
    case 1
    have "(z + 2 ^ 63) mod 2 ^ 64 = (z + 2 ^ 63 + 2 ^ 64) mod 2 ^ 64" by (metis mod_add_self2)
    also have "\<dots> = z + 2 ^ 63 + 2 ^ 64"
      using 1 assms(2) by (intro mod_pos_pos_trivial) simp_all
    finally show ?thesis using 1 s by simp
  next
    case 2
    have "(z + 2 ^ 63) mod 2 ^ 64 = (z + 2 ^ 63 - 2 ^ 64) mod 2 ^ 64" by (metis minus_mod_self2)
    also have "\<dots> = z + 2 ^ 63 - 2 ^ 64"
      using 2 assms(3) by (intro mod_pos_pos_trivial) simp_all
    finally show ?thesis using 2 s by simp
  next
    case 3
    then have "(z + 2 ^ 63) mod 2 ^ 64 = z + 2 ^ 63"
      by (intro mod_pos_pos_trivial) simp_all
    then show ?thesis using 3 s by simp
  qed
qed

lemma sint_add_wrap:
  "sint (a + b :: u64) =
     (let z = sint a + sint b in if z < - (2 ^ 63) then z + 2 ^ 64 else if 2 ^ 63 \<le> z then z - 2 ^ 64 else z)"
  using sint_wrap [of "a + b" "sint a + sint b"] sint_bounds [of a] sint_bounds [of b]
  by (simp add: sint_word_add Let_def)

lemma sint_diff_wrap:
  "sint (a - b :: u64) =
     (let z = sint a - sint b in if z < - (2 ^ 63) then z + 2 ^ 64 else if 2 ^ 63 \<le> z then z - 2 ^ 64 else z)"
  using sint_wrap [of "a - b" "sint a - sint b"] sint_bounds [of a] sint_bounds [of b]
  by (simp add: sint_word_diff Let_def)

lemma sint_fxp_add [fxp_arith]: "sint (fxp_add a b) = clamp (sint a + sint b)"
  using sint_bounds [of a] sint_bounds [of b]
  by (simp add: fxp_add_def Let_def is_negative_sint sint_max_or_min sint_add_wrap clamp_def) linarith

lemma sint_fxp_sub [fxp_arith]: "sint (fxp_sub a b) = clamp (sint a - sint b)"
  using sint_bounds [of a] sint_bounds [of b]
  by (simp add: fxp_sub_def Let_def is_negative_sint sint_max_or_min sint_diff_wrap clamp_def) linarith

lemma fxp_less_sint:
  "fxp_less a b \<longleftrightarrow>
     (if \<bar>sint a - sint b\<bar> < 2 ^ 63 then sint a < sint b else sint b < sint a \<and> sint a - sint b \<noteq> - (2 ^ 63) \<or>
      sint a - sint b = - (2 ^ 63))"
proof -
  have "fxp_less a b \<longleftrightarrow> sint (a - b) < 0"
    using is_negative_sint [of "a - b"] by (simp add: fxp_less_def fxp_is_negative_def)
  then show ?thesis
    using sint_bounds [of a] sint_bounds [of b] by (simp add: sint_diff_wrap Let_def) linarith
qed

lemma fxp_less_small:
  "\<bar>sint a - sint b\<bar> < 2 ^ 63 \<Longrightarrow> fxp_less a b \<longleftrightarrow> sint a < sint b"
  by (simp add: fxp_less_sint)

lemma fxp_geq_less: "fxp_geq a b \<longleftrightarrow> \<not> fxp_less a b"
  by (simp add: fxp_geq_def fxp_less_def)

subsection \<open>Multiplication\<close>

lemma magnitude: "uint (if fxp_is_negative a then NOT a + 1 else a) = \<bar>sint a\<bar>"
  using uint_bounds [of a] by (auto simp: uint_neg_u64 is_negative_uint sint_of_uint)

lemma carry_algebra:
  fixes B :: int
  assumes "p0 = q0 * B + r0" "p1 = q1 * B + r1" "p2 = q2 * B + r2" "q0 + r1 + r2 = c * B + t"
  shows "p0 + p1 * B + p2 * B = (r0 + t * B) + (c + q1 + q2) * (B * B)"
  using assms by algebra

lemma mul_carry:
  fixes al ah bl bh :: int
  assumes "0 \<le> al" "al < 2 ^ 32" "0 \<le> ah" "ah < 2 ^ 32" "0 \<le> bl" "bl < 2 ^ 32" "0 \<le> bh" "bh < 2 ^ 32"
  defines "p0 \<equiv> al * bl" and "p1 \<equiv> al * bh" and "p2 \<equiv> ah * bl" and "p3 \<equiv> ah * bh"
  defines "c \<equiv> (p0 div 2 ^ 32 + p1 mod 2 ^ 32 + p2 mod 2 ^ 32) div 2 ^ 32"
  shows "(p3 + p2 div 2 ^ 32 + p1 div 2 ^ 32 + c) * 2 ^ 64 + (p0 + p1 * 2 ^ 32 + p2 * 2 ^ 32) mod 2 ^ 64 =
     (ah * 2 ^ 32 + al) * (bh * 2 ^ 32 + bl)"
proof -
  define s where "s = p0 div 2 ^ 32 + p1 mod 2 ^ 32 + p2 mod 2 ^ 32"
  have s: "p0 div 2 ^ 32 + p1 mod 2 ^ 32 + p2 mod 2 ^ 32 = c * 2 ^ 32 + s mod 2 ^ 32"
    by (simp only: c_def s_def div_mult_mod_eq)
  have eq: "p0 + p1 * 2 ^ 32 + p2 * 2 ^ 32 =
      (p0 mod 2 ^ 32 + s mod 2 ^ 32 * 2 ^ 32) + (c + p1 div 2 ^ 32 + p2 div 2 ^ 32) * (2 ^ 32 * 2 ^ 32)"
    by (rule carry_algebra [OF _ _ _ s]) (simp_all only: div_mult_mod_eq)
  have bb: "(2 :: int) ^ 32 * 2 ^ 32 = 2 ^ 64" by simp
  note eq = eq [unfolded bb]
  have b: "0 \<le> p0 mod 2 ^ 32" "p0 mod 2 ^ 32 < 2 ^ 32" "0 \<le> s mod 2 ^ 32" "s mod 2 ^ 32 < 2 ^ 32"
    by simp_all
  have "(p0 + p1 * 2 ^ 32 + p2 * 2 ^ 32) mod 2 ^ 64 = (p0 mod 2 ^ 32 + s mod 2 ^ 32 * 2 ^ 32) mod 2 ^ 64"
    unfolding eq by (rule mod_mult_self1)
  also have "\<dots> = p0 mod 2 ^ 32 + s mod 2 ^ 32 * 2 ^ 32"
    using b by (intro mod_pos_pos_trivial) simp_all
  finally have lo: "(p0 + p1 * 2 ^ 32 + p2 * 2 ^ 32) mod 2 ^ 64 = p0 mod 2 ^ 32 + s mod 2 ^ 32 * 2 ^ 32" .
  have "(ah * 2 ^ 32 + al) * (bh * 2 ^ 32 + bl) = p3 * 2 ^ 64 + (p0 + p1 * 2 ^ 32 + p2 * 2 ^ 32)"
    unfolding p0_def p1_def p2_def p3_def bb [symmetric] by algebra
  moreover have "\<dots> = (p3 + p2 div 2 ^ 32 + p1 div 2 ^ 32 + c) * 2 ^ 64 + (p0 mod 2 ^ 32 + s mod 2 ^ 32 * 2 ^ 32)"
    unfolding eq by algebra
  ultimately show ?thesis using lo by simp
qed

lemma half_product:
  fixes a b :: int
  assumes "0 \<le> a" "a < 2 ^ 32" "0 \<le> b" "b < 2 ^ 32"
  shows "0 \<le> a * b" "a * b \<le> (2 ^ 32 - 1) * (2 ^ 32 - 1)" "a * b < 2 ^ 64"
proof -
  show "0 \<le> a * b" using assms by simp
  show le: "a * b \<le> (2 ^ 32 - 1) * (2 ^ 32 - 1)" using assms by (intro mult_mono) simp_all
  have "((2 :: int) ^ 32 - 1) * (2 ^ 32 - 1) < 2 ^ 64" by simp
  then show "a * b < 2 ^ 64" using le by linarith
qed

lemma mul_parts_correct:
  "mul_parts x y = (hi, lo) \<Longrightarrow> uint hi * 2 ^ 64 + uint lo = uint x * uint y"
proof -
  assume m: "mul_parts x y = (hi, lo)"
  define al ah bl bh where "al = uint x mod 2 ^ 32" and "ah = uint x div 2 ^ 32"
    and "bl = uint y mod 2 ^ 32" and "bh = uint y div 2 ^ 32"
  have r: "0 \<le> al" "al < 2 ^ 32" "0 \<le> ah" "ah < 2 ^ 32" "0 \<le> bl" "bl < 2 ^ 32" "0 \<le> bh" "bh < 2 ^ 32"
    using uint_bounds [of x] uint_bounds [of y] unfolding al_def ah_def bl_def bh_def
    by (simp_all add: pos_imp_zdiv_nonneg_iff)
  note pb = half_product [OF r(1,2,5,6)] half_product [OF r(1,2,7,8)] half_product [OF r(3,4,5,6)]
    half_product [OF r(3,4,7,8)]
  define p0 p1 p2 p3 where "p0 = al * bl" and "p1 = al * bh" and "p2 = ah * bl" and "p3 = ah * bh"
  define c where "c = (p0 div 2 ^ 32 + p1 mod 2 ^ 32 + p2 mod 2 ^ 32) div 2 ^ 32"
  have x: "uint x = ah * 2 ^ 32 + al" "uint y = bh * 2 ^ 32 + bl"
    by (simp_all add: al_def ah_def bl_def bh_def)
  have hx: "uint (ucast (drop_bit 32 x) :: u32) = ah" "uint (ucast x :: u32) = al"
    "uint (ucast (drop_bit 32 y) :: u32) = bh" "uint (ucast y :: u32) = bl"
    using r by (simp_all add: ucast_u32_uint uint_drop_u64 al_def ah_def bl_def bh_def mod_pos_pos_trivial)
  have P: "uint (ucast (ucast x :: u32) * ucast (ucast y :: u32) :: u64) = p0"
    "uint (ucast (ucast x :: u32) * ucast (ucast (drop_bit 32 y) :: u32) :: u64) = p1"
    "uint (ucast (ucast (drop_bit 32 x) :: u32) * ucast (ucast y :: u32) :: u64) = p2"
    "uint (ucast (ucast (drop_bit 32 x) :: u32) * ucast (ucast (drop_bit 32 y) :: u32) :: u64) = p3"
    using pb unfolding p0_def p1_def p2_def p3_def
    by (simp_all only: uint_mult_u64 ucast_u64_uint hx mod_pos_pos_trivial)
  note main = mul_carry [OF r, folded p0_def p1_def p2_def p3_def, folded c_def]
  define S where "S = p0 div 2 ^ 32 + p1 mod 2 ^ 32 + p2 mod 2 ^ 32"
  have pb: "0 \<le> p0" "p0 < 2 ^ 64" "0 \<le> p1" "p1 < 2 ^ 64" "0 \<le> p2" "p2 < 2 ^ 64" "0 \<le> p3" "p3 < 2 ^ 64"
    using pb unfolding p0_def p1_def p2_def p3_def by auto
  have q: "0 \<le> p0 div 2 ^ 32" "p0 div 2 ^ 32 < 2 ^ 32" "0 \<le> p1 div 2 ^ 32" "0 \<le> p2 div 2 ^ 32"
    using pb by (simp_all add: pos_imp_zdiv_nonneg_iff)
  have S: "0 \<le> S" "S < 3 * 2 ^ 32"
    using q pos_mod_bound [of "2 ^ 32" p1] pos_mod_bound [of "2 ^ 32" p2]
      pos_mod_sign [of "2 ^ 32" p1] pos_mod_sign [of "2 ^ 32" p2] unfolding S_def by simp_all
  have cb: "0 \<le> c" "c < 2 ^ 32"
    using S unfolding c_def S_def [symmetric] by (simp_all add: pos_imp_zdiv_nonneg_iff)
  note m = m [unfolded mul_parts_def Let_def prod.inject, THEN conjunct1, symmetric]
    m [unfolded mul_parts_def Let_def prod.inject, THEN conjunct2, symmetric]
  have lo: "uint lo = (p0 + p1 * 2 ^ 32 + p2 * 2 ^ 32) mod 2 ^ 64"
    unfolding m(2) by (simp only: uint_add_u64 uint_push_u64 P mod_add_left_eq mod_add_right_eq)
  have S': "S mod 2 ^ 64 = S" "c mod 2 ^ 32 = c"
    using S cb by (auto intro!: mod_pos_pos_trivial)
  have hi: "uint hi = (p3 + p2 div 2 ^ 32 + p1 div 2 ^ 32 + c) mod 2 ^ 64"
  proof -
    let ?hi = "p3 + p2 div 2 ^ 32 + p1 div 2 ^ 32 + c"
    have "uint hi = (((p3 + p2 div 2 ^ 32) mod 2 ^ 64 + p1 div 2 ^ 32) mod 2 ^ 64 + ((((p0 div 2 ^ 32 + p1 mod 2 ^ 32) mod 2 ^ 64 +
        p2 mod 2 ^ 32) mod 2 ^ 64) div 2 ^ 32) mod 2 ^ 32) mod 2 ^ 64"
      unfolding m(1) by (simp only: uint_add_u64 uint_drop_u64 ucast_u64_uint ucast_u32_uint P)
    also have "\<dots> = ?hi mod 2 ^ 64"
      using S' by (simp only: mod_add_left_eq S_def [symmetric] c_def [folded S_def, symmetric])
    finally show ?thesis .
  qed
  have xy: "uint x * uint y < 2 ^ 64 * 2 ^ 64"
    using uint_bounds [of x] uint_bounds [of y] by (intro mult_strict_mono) simp_all
  have "0 \<le> p3 + p2 div 2 ^ 32 + p1 div 2 ^ 32 + c"
    using pb q cb by simp
  moreover have "p3 + p2 div 2 ^ 32 + p1 div 2 ^ 32 + c < 2 ^ 64"
    using main xy pos_mod_sign [of "2 ^ 64" "p0 + p1 * 2 ^ 32 + p2 * 2 ^ 32"] unfolding x by simp
  ultimately have "uint hi = p3 + p2 div 2 ^ 32 + p1 div 2 ^ 32 + c"
    unfolding hi by (rule mod_pos_pos_trivial)
  then show ?thesis using main lo x by simp
qed

definition mul_spec :: "int \<Rightarrow> int \<Rightarrow> int" where
  "mul_spec x y =
     (let z = \<bar>x * y\<bar> div 2 ^ 48 mod 2 ^ 64; s = sgn (x * y)
      in if z < 2 ^ 63 then s * max 1 z else if 0 < s then 2 ^ 63 - 1 else - (2 ^ 63))"

lemma mul_bits:
  assumes "mul_parts x y = (hi, lo)"
  shows "uint (push_bit 16 hi OR drop_bit 48 lo) = uint x * uint y div 2 ^ 48 mod 2 ^ 64"
proof -
  have "push_bit 16 hi OR drop_bit 48 lo = push_bit 16 hi + drop_bit 48 lo"
    by (rule disjunctive_add_eq_or [symmetric]) (auto simp: bit_eq_iff bit_simps dest: bit_imp_le_length)
  then have "uint (push_bit 16 hi OR drop_bit 48 lo) = (uint hi * 2 ^ 16 + uint lo div 2 ^ 48) mod 2 ^ 64"
    by (simp only: uint_add_u64 uint_push_u64 uint_drop_u64 mod_add_left_eq)
  moreover have "uint x * uint y div 2 ^ 48 = uint hi * 2 ^ 16 + uint lo div 2 ^ 48"
  proof -
    have "uint x * uint y = uint lo + (uint hi * 2 ^ 16) * 2 ^ 48"
      using mul_parts_correct [OF assms] by simp
    then show ?thesis by (simp only: div_mult_self1 [OF power_not_zero [OF zero_neq_numeral [symmetric]]] add.commute)
  qed
  ultimately show ?thesis by simp
qed

lemma uint_eq_iff: "uint (a :: u64) = uint b \<longleftrightarrow> a = b"
  by (simp add: word_uint_eq_iff)

lemma sint_neg_u64: "sint (NOT x + 1 :: u64) = (if x = fxp_min then - (2 ^ 63) else - sint x)"
  using uint_bounds [of x] uint_eq_iff [of x fxp_min] by (auto simp: sint_of_uint uint_neg_u64 fxp_min_def)

lemma sint_fxp_mul [fxp_arith]:
  assumes "a \<noteq> 0" "b \<noteq> 0"
  shows "sint (fxp_mul a b) = mul_spec (sint a) (sint b)"
proof -
  let ?x = "if fxp_is_negative a then NOT a + 1 else a" and ?y = "if fxp_is_negative b then NOT b + 1 else b"
  obtain hi lo where m: "mul_parts ?x ?y = (hi, lo)" by (cases "mul_parts ?x ?y")
  define p where "p = push_bit 16 hi OR drop_bit 48 lo"
  have up: "uint p = \<bar>sint a * sint b\<bar> div 2 ^ 48 mod 2 ^ 64"
    using mul_bits [OF m] unfolding p_def magnitude abs_mult .
  have nz: "sint a \<noteq> 0" "sint b \<noteq> 0"
    using assms by (metis sint_0 sint_eq_iff)+
  have neg: "(fxp_is_negative a \<noteq> fxp_is_negative b) \<longleftrightarrow> sint a * sint b < 0"
    using nz by (auto simp: is_negative_sint mult_less_0_iff)
  have s: "sgn (sint a * sint b) = (if fxp_is_negative a \<noteq> fxp_is_negative b then - 1 else 1)"
    unfolding neg using nz by (auto simp: sgn_if)
  have f: "fxp_mul a b = (if drop_bit 63 p \<noteq> 0 then max_or_min (\<not> (fxp_is_negative a \<noteq> fxp_is_negative b))
     else if p = 0 then fxp_eps (\<not> (fxp_is_negative a \<noteq> fxp_is_negative b))
     else if fxp_is_negative a \<noteq> fxp_is_negative b then NOT p + 1 else p)"
    using assms m unfolding fxp_mul_def p_def Let_def by simp
  have p: "0 \<le> uint p" "p = 0 \<longleftrightarrow> uint p = 0"
    using uint_0_iff [of p] by simp_all
  show ?thesis
  proof -
    consider "2 ^ 63 \<le> uint p" | "p = 0" | "p \<noteq> 0" "0 < uint p" "uint p < 2 ^ 63" using p by linarith
    then show ?thesis
    proof cases
      case 1
      then show ?thesis unfolding f mul_spec_def Let_def up [symmetric] s by (simp add: top_bit sint_max_or_min)
    next
      case 2
      then show ?thesis unfolding f mul_spec_def Let_def up [symmetric] s by (simp add: sint_eps)
    next
      case 3
      then have "sint p = uint p" "p \<noteq> fxp_min" by (auto simp: sint_of_uint fxp_min_def)
      with 3 show ?thesis unfolding f mul_spec_def Let_def up [symmetric] s by (simp add: top_bit sint_neg_u64)
    qed
  qed
qed

lemma fxp_mul_0 [simp]: "fxp_mul 0 b = 0" "fxp_mul a 0 = 0"
  by (simp_all add: fxp_mul_def)

lemma fxp_mul_sign: "fxp_is_negative (fxp_mul a b) \<longleftrightarrow> sint a * sint b < 0"
proof (cases "a = 0 \<or> b = 0")
  case True
  then show ?thesis by (auto simp: is_negative_sint)
next
  case False
  then have "sint a * sint b \<noteq> 0" by (metis mult_eq_0_iff sint_0 sint_eq_iff)
  then show ?thesis
    using False pos_mod_sign [of "2 ^ 64" "\<bar>sint a * sint b\<bar> div 2 ^ 48"]
    by (auto simp: is_negative_sint sint_fxp_mul mul_spec_def Let_def sgn_if not_less less_le)
qed

subsection \<open>The most significant bit\<close>

lemma high_half:
  assumes m: "m = mask (2 * k) AND NOT (mask k)" and w: "uint (w :: u64) < 2 ^ (2 * k)"
  shows "m AND w \<noteq> 0 \<longleftrightarrow> 2 ^ k \<le> uint w"
proof -
  have t: "take_bit (2 * k) w = w"
    using w uint_bounds [of w] by (metis mod_pos_pos_trivial take_bit_eq_mod uint_eq_iff unsigned_take_bit_eq)
  have b: "n < 2 * k" if "bit w n" for n
    using that by (subst (asm) t [symmetric]) (simp add: bit_take_bit_iff)
  have "m AND w = 0 \<longleftrightarrow> drop_bit k w = 0"
  proof
    assume z: "m AND w = 0"
    show "drop_bit k w = 0"
    proof (rule bit_eqI)
      fix n
      assume "possible_bit TYPE(u64) n"
      have "\<not> bit w (k + n)"
      proof
        assume c: "bit w (k + n)"
        then have "bit (m AND w) (k + n)"
          using b [OF c] bit_imp_le_length [OF c] unfolding m by (simp add: bit_simps)
        then show False using z by simp
      qed
      then show "bit (drop_bit k w) n = bit 0 n" by (simp add: bit_drop_bit_eq)
    qed
  next
    assume z: "drop_bit k w = 0"
    have h: "\<not> bit w n" if "k \<le> n" for n
    proof -
      have "bit w (k + (n - k)) = bit (drop_bit k w) (n - k)" by (simp add: bit_drop_bit_eq)
      then show ?thesis using z that by simp
    qed
    show "m AND w = 0"
      by (rule bit_eqI) (use h in \<open>auto simp: m bit_simps not_less\<close>)
  qed
  also have "\<dots> \<longleftrightarrow> uint w div 2 ^ k = 0"
    using uint_0_iff [of "drop_bit k w"] by (simp only: uint_drop_u64)
  also have "\<dots> \<longleftrightarrow> uint w < 2 ^ k"
    using uint_bounds [of w] zdiv_eq_0_iff [of "uint w" "2 ^ k"] by auto
  finally show ?thesis by auto
qed

lemma or_step: "2 ^ Suc j dvd (r :: int) \<Longrightarrow> r OR 2 ^ j = r + 2 ^ j"
proof -
  assume "2 ^ Suc j dvd r"
  then obtain q where r: "r = push_bit (Suc j) q" by (auto simp: push_bit_eq_mult mult.commute)
  have "r AND 2 ^ j = 0"
    unfolding r by (rule bit_eqI) (auto simp: bit_and_iff bit_exp_iff bit_push_bit_iff simp del: push_bit_Suc)
  then show ?thesis by (simp only: disjunctive_add_eq_or)
qed

definition msb_state :: "nat \<Rightarrow> u64 \<Rightarrow> u64 \<times> int \<Rightarrow> bool" where
  "msb_state j v s \<longleftrightarrow> 0 \<le> snd s \<and> 2 ^ j dvd snd s \<and> 0 < uint (fst s) \<and> uint (fst s) < 2 ^ 2 ^ j \<and>
     uint (fst s) = uint v div 2 ^ nat (snd s)"

lemma msb_step_state:
  assumes "msb_state i v s" "i = Suc j" and m: "m = mask (2 * 2 ^ j) AND NOT (mask (2 ^ j))" and k: "k = 2 ^ j"
  shows "msb_state j v (msb_step k m s)"
proof -
  have s: "msb_state (Suc j) v s" using assms by simp
  obtain w r where sw: "s = (w, r)" by (cases s)
  from s have w: "0 \<le> r" "2 ^ Suc j dvd r" "0 < uint w" "uint w < 2 ^ (2 * 2 ^ j)" "uint w = uint v div 2 ^ nat r"
    by (simp_all add: msb_state_def sw)
  note h = high_half [OF m w(4)]
  show ?thesis
  proof (cases "m AND w = 0")
    case True
    then show ?thesis
      using w h by (auto simp: msb_state_def msb_step_def sw power_Suc dest: dvd_mult_right)
  next
    case False
    then have g: "2 ^ 2 ^ j \<le> uint w" using h by simp
    have o: "r OR 2 ^ j = r + 2 ^ j" using w(2) by (rule or_step)
    have n: "nat (r + 2 ^ j) = nat r + 2 ^ j"
      using w(1) by (simp add: nat_add_distrib nat_power_eq)
    have "uint v div 2 ^ nat (r + 2 ^ j) = uint w div 2 ^ 2 ^ j"
      unfolding n w(5) by (simp add: power_add zdiv_zmult2_eq)
    moreover have "0 < uint w div 2 ^ 2 ^ j"
      using g by (simp add: pos_imp_zdiv_pos_iff)
    moreover have "uint w div 2 ^ 2 ^ j < 2 ^ 2 ^ j"
    proof -
      have "uint w div 2 ^ 2 ^ j * 2 ^ 2 ^ j \<le> uint w"
        by (simp add: minus_mod_eq_div_mult [symmetric])
      also have "\<dots> < 2 ^ 2 ^ j * 2 ^ 2 ^ j"
        using w(4) by (simp add: power_add mult_2)
      finally show ?thesis by (rule mult_right_less_imp_less) simp
    qed
    moreover have "2 ^ j dvd r"
      using w(2) by (metis dvd_mult_right power_Suc)
    ultimately show ?thesis
      using False w(1) o by (simp add: msb_state_def msb_step_def sw uint_drop_u64 k)
  qed
qed

lemma last_step: "(case s of (v, r) \<Rightarrow> if m AND v \<noteq> 0 then r OR 1 else r) = snd (msb_step 1 m s)"
  by (cases s) (simp add: msb_step_def)

lemma fxp_msb_0 [simp]: "fxp_msb 0 = - 1"
  by (simp add: fxp_msb_def)

lemma fxp_msb_bounds:
  assumes "v \<noteq> 0"
  shows "0 \<le> fxp_msb v" "2 ^ nat (fxp_msb v) \<le> uint v" "uint v < 2 ^ Suc (nat (fxp_msb v))"
proof -
  have v0: "0 < uint v" using assms uint_bounds [of v] uint_0_iff [of v] by linarith
  have "msb_state 6 v (v, 0)" using v0 uint_bounds [of v] by (simp add: msb_state_def)
  then have "msb_state 5 v (msb_step 32 0xFFFFFFFF00000000 (v, 0))" (is "msb_state _ _ ?s5")
    by (rule msb_step_state) (simp_all add: mask_eq_exp_minus_1)
  then have "msb_state 4 v (msb_step 16 0x00000000FFFF0000 ?s5)" (is "msb_state _ _ ?s4")
    by (rule msb_step_state) (simp_all add: mask_eq_exp_minus_1)
  then have "msb_state 3 v (msb_step 8 0x000000000000FF00 ?s4)" (is "msb_state _ _ ?s3")
    by (rule msb_step_state) (simp_all add: mask_eq_exp_minus_1)
  then have "msb_state 2 v (msb_step 4 0x00000000000000F0 ?s3)" (is "msb_state _ _ ?s2")
    by (rule msb_step_state) (simp_all add: mask_eq_exp_minus_1)
  then have "msb_state 1 v (msb_step 2 0x000000000000000C ?s2)" (is "msb_state _ _ ?s1")
    by (rule msb_step_state) (simp_all add: mask_eq_exp_minus_1)
  then have e: "msb_state 0 v (msb_step 1 0x0000000000000002 ?s1)"
    by (rule msb_step_state) (simp_all add: mask_eq_exp_minus_1)
  have f: "fxp_msb v = snd (msb_step 1 0x0000000000000002 ?s1)"
    unfolding fxp_msb_def Let_def last_step using assms by (simp only: if_True not_False_eq_True refl)
  define r where "r = fxp_msb v"
  have r: "0 \<le> r" "uint v div 2 ^ nat r = 1"
    using e unfolding r_def f msb_state_def by simp_all
  have "uint v = 2 ^ nat r + uint v mod 2 ^ nat r"
    using div_mult_mod_eq [of "uint v" "2 ^ nat r"] r(2) by simp
  moreover have "0 \<le> uint v mod 2 ^ nat r" "uint v mod 2 ^ nat r < 2 ^ nat r"
    by simp_all
  ultimately have "2 ^ nat r \<le> uint v" "uint v < 2 ^ nat r + 2 ^ nat r"
    by linarith+
  then show "0 \<le> fxp_msb v" "2 ^ nat (fxp_msb v) \<le> uint v" "uint v < 2 ^ Suc (nat (fxp_msb v))"
    unfolding r_def [symmetric] using r(1) by simp_all
qed

lemma fxp_msb_eq:
  assumes "2 ^ n \<le> uint v" "uint v < 2 ^ Suc n"
  shows "fxp_msb v = int n"
proof -
  have "v \<noteq> 0" using assms(1) by (auto simp: not_le)
  note b = fxp_msb_bounds [OF this]
  have "(2 :: int) ^ n < 2 ^ Suc (nat (fxp_msb v))" "(2 :: int) ^ nat (fxp_msb v) < 2 ^ Suc n"
    using b assms by linarith+
  then have "n < Suc (nat (fxp_msb v))" "nat (fxp_msb v) < Suc n"
    by (auto intro: power_less_imp_less_exp [of "2 :: int"] simp del: power_Suc)
  then show ?thesis using b(1) by simp
qed

lemma fxp_msb_less: "uint v < 2 ^ n \<Longrightarrow> fxp_msb v < int n"
proof (cases "v = 0")
  case False
  assume "uint v < 2 ^ n"
  with fxp_msb_bounds(2) [OF False] have "(2 :: int) ^ nat (fxp_msb v) < 2 ^ n" by linarith
  then have "nat (fxp_msb v) < n" by (rule power_less_imp_less_exp [rotated], simp)
  then show ?thesis by simp
qed simp

lemma fxp_msb_ge: "2 ^ n \<le> uint v \<Longrightarrow> int n \<le> fxp_msb v"
proof -
  assume g: "2 ^ n \<le> uint v"
  then have "v \<noteq> 0" by (auto simp: not_le)
  note b = fxp_msb_bounds [OF this]
  have "(2 :: int) ^ n < 2 ^ Suc (nat (fxp_msb v))" using b g by linarith
  then have "n < Suc (nat (fxp_msb v))" by (rule power_less_imp_less_exp [rotated], simp)
  then show ?thesis using b(1) by simp
qed

lemma fxp_msb_range: "- 1 \<le> fxp_msb v" "fxp_msb v < 64"
  using fxp_msb_less [of v 64] uint_bounds [of v] fxp_msb_bounds(1) [of v] by (cases "v = 0"; simp)+

subsection \<open>Shifts\<close>

lemma sint_push_bit:
  assumes "- (2 ^ 63) \<le> sint (a :: u64) * 2 ^ n" "sint a * 2 ^ n < 2 ^ 63"
  shows "sint (push_bit n a) = sint a * 2 ^ n"
proof -
  have "push_bit n a = word_of_int (sint a * 2 ^ n)"
    by (simp add: push_bit_eq_mult)
  then show ?thesis using sint_of_int_small [OF assms] by (simp only:)
qed

lemma shift_fits:
  assumes "2 ^ k \<le> (z :: int)" "z < 2 ^ Suc k"
  shows "62 - int k < int n \<Longrightarrow> 2 ^ 63 \<le> z * 2 ^ n" "\<not> 62 - int k < int n \<Longrightarrow> z * 2 ^ n < 2 ^ 63"
proof -
  assume "62 - int k < int n"
  then have "(2 :: int) ^ 63 \<le> 2 ^ (k + n)" by (intro power_increasing) simp_all
  also have "\<dots> \<le> z * 2 ^ n" using assms(1) by (simp add: power_add)
  finally show "2 ^ 63 \<le> z * 2 ^ n" .
next
  assume "\<not> 62 - int k < int n"
  then have "Suc k + n \<le> 63" by simp
  have "z * 2 ^ n < 2 ^ Suc k * 2 ^ n" using assms(2) by (intro mult_strict_right_mono) simp_all
  also have "\<dots> = 2 ^ (Suc k + n)" by (simp only: power_add)
  also have "\<dots> \<le> (2 :: int) ^ 63" using \<open>Suc k + n \<le> 63\<close> by (intro power_increasing) simp_all
  finally show "z * 2 ^ n < 2 ^ 63" .
qed

lemma sint_fxp_shl [fxp_arith]:
  assumes "n < 64"
  shows "sint (fxp_shl a n) = clamp (sint a * 2 ^ n)"
proof (cases "fxp_is_negative a")
  case True
  define m where "m = NOT a + 1"
  have m: "uint m = - sint a" using magnitude [of a] True by (simp add: m_def is_negative_sint)
  show ?thesis
  proof (cases "a = fxp_min")
    case True
    have "clamp (- (2 ^ 63) * t) = - (2 ^ 63)" if "1 \<le> t" for t
      using that by (simp add: clamp_def)
    from this [of "2 ^ n"] have "clamp (- (2 ^ 63) * 2 ^ n) = - (2 ^ 63)" by simp
    then show ?thesis using True \<open>fxp_is_negative a\<close> by (simp add: fxp_shl_def)
  next
    case False
    have "m \<noteq> 0" using m True by (auto simp: is_negative_sint)
    from fxp_msb_bounds [OF this] obtain k where k: "fxp_msb m = int k" "2 ^ k \<le> - sint a" "- sint a < 2 ^ Suc k"
      unfolding m by (metis int_nat_eq)
    note f = shift_fits [OF k(2,3), of n]
    show ?thesis
    proof (cases "62 - int k < int n")
      case True
      with f(1) show ?thesis using False \<open>fxp_is_negative a\<close>
        by (simp add: fxp_shl_def clamp_def k(1) [unfolded m_def])
    next
      case sm: False
      have "sint a * 2 ^ n < 0"
        using True by (simp add: is_negative_sint mult_neg_pos)
      moreover from this have "sint (push_bit n a) = sint a * 2 ^ n"
        using f(2) sm by (intro sint_push_bit) simp_all
      ultimately show ?thesis
        using f(2) sm False True by (simp add: fxp_shl_def k(1) [unfolded m_def] clamp_def)
    qed
  qed
next
  case False
  have u: "uint a = sint a" using False by (simp add: is_negative_uint sint_of_uint not_le)
  show ?thesis
  proof (cases "a = 0")
    case True
    then show ?thesis using assms by (simp add: fxp_shl_def is_negative_sint)
  next
    case nz: False
    from fxp_msb_bounds [OF this] obtain k where k: "fxp_msb a = int k" "2 ^ k \<le> sint a" "sint a < 2 ^ Suc k"
      unfolding u by (metis int_nat_eq)
    note f = shift_fits [OF k(2,3), of n]
    show ?thesis
    proof (cases "62 - int k < int n")
      case True
      with f(1) show ?thesis using False
        by (simp add: fxp_shl_def clamp_def k(1))
    next
      case sm: False
      have "0 \<le> sint a * 2 ^ n"
        using False by (simp add: is_negative_sint)
      moreover from this have "sint (push_bit n a) = sint a * 2 ^ n"
        using f(2) sm by (intro sint_push_bit) simp_all
      ultimately show ?thesis
        using f(2) sm False by (simp add: fxp_shl_def k(1) clamp_def)
    qed
  qed
qed

lemma sint_shift_right: "n < 64 \<Longrightarrow> sint (shift_right_no_saturation a n) = sint a div 2 ^ n"
  by (simp add: shift_right_no_saturation_def sint_signed_drop_bit_eq drop_bit_eq_div)

lemma sint_fxp_shr [fxp_arith]:
  assumes "n < 64" "a \<noteq> 0"
  shows "sint (fxp_shr a n) = (if sint a div 2 ^ n = 0 then 1 else sint a div 2 ^ n)"
proof -
  define v where "v = shift_right_no_saturation a n"
  have v: "sint v = sint a div 2 ^ n" using assms(1) by (simp add: v_def sint_shift_right)
  have z: "v = 0 \<longleftrightarrow> sint v = 0" "v = - 1 \<longleftrightarrow> sint v = - 1"
    using sint_eq_iff [of v 0] sint_eq_iff [of v "- 1"] by simp_all
  have "sint a < 0 \<Longrightarrow> sint a div 2 ^ n < 0" by (simp add: div_neg_pos_less0)
  moreover have "0 \<le> sint a \<Longrightarrow> 0 \<le> sint a div 2 ^ n" by (simp add: pos_imp_zdiv_nonneg_iff)
  ultimately show ?thesis
    using assms(2) unfolding fxp_shr_def Let_def v_def [symmetric]
    by (cases "sint a < 0") (auto simp: z v sint_eps is_negative_sint)
qed

lemma sint_fxp_half: "a \<noteq> 0 \<Longrightarrow> sint (fxp_half a) = (if sint a = 1 then 1 else sint a div 2)"
  using sint_fxp_shr [of 1 a] sint_eq_iff [of a 0] by (auto simp: fxp_half_def)

text \<open>C38: Fixed-point arithmetic on the exact values, in units of 2^-48.  Sums and differences saturate at the limits of
  the range.  A product is the exact product truncated towards zero, one unit of the right sign when that would be
  zero, and saturated from 2^63 on; but the code drops the bits from 2^112 on before it looks for an overflow.\<close>

theorem fxp_arithmetic:
  "sint (fxp_add a b) = max (- (2 ^ 63)) (min (2 ^ 63 - 1) (sint a + sint b)) \<and>
   sint (fxp_sub a b) = max (- (2 ^ 63)) (min (2 ^ 63 - 1) (sint a - sint b)) \<and>
   sint (fxp_mul a b) =
     (let z = \<bar>sint a * sint b\<bar> mod 2 ^ 112 div 2 ^ 48; s = sgn (sint a * sint b)
      in if z < 2 ^ 63 then s * max 1 z else if 0 < s then 2 ^ 63 - 1 else - (2 ^ 63))"
proof -
  define y where "y = \<bar>sint a * sint b\<bar>"
  have "y mod (2 ^ 48 * 2 ^ 64) = 2 ^ 48 * (y div 2 ^ 48 mod 2 ^ 64) + y mod 2 ^ 48" by (rule zmod_zmult2_eq) simp
  then have "y mod 2 ^ 112 div 2 ^ 48 = y div 2 ^ 48 mod 2 ^ 64" by simp
  then have z: "\<bar>sint a * sint b\<bar> mod 2 ^ 112 div 2 ^ 48 = \<bar>sint a * sint b\<bar> div 2 ^ 48 mod 2 ^ 64"
    unfolding y_def .
  have "sint (fxp_mul a b) = mul_spec (sint a) (sint b)"
  proof (cases "a = 0 \<or> b = 0")
    case True
    then show ?thesis by (auto simp: mul_spec_def)
  next
    case False
    then show ?thesis by (simp add: sint_fxp_mul)
  qed
  then show ?thesis unfolding z mul_spec_def by (simp add: sint_fxp_add sint_fxp_sub clamp_def)
qed

text \<open>The high bits that are lost: 256 times 256 is the smallest positive number.\<close>

lemma fxp_mul_overflow: "fxp_mul (fxp_of_int 256) (fxp_of_int 256) = fxp_eps True"
proof -
  have s: "sint (fxp_of_int 256) = 2 ^ 56" by (simp add: fxp_of_int_def)
  then have "fxp_of_int 256 \<noteq> 0" by auto
  from sint_fxp_mul [OF this this] have "sint (fxp_mul (fxp_of_int 256) (fxp_of_int 256)) = sint (fxp_eps True)"
    by (simp add: s mul_spec_def sint_eps)
  then show ?thesis by (simp add: sint_eq_iff)
qed

text \<open>The order of numbers whose difference leaves the range: 20000 counts as less than -20000.\<close>

lemma fxp_less_overflow: "fxp_less (fxp_of_int 20000) (fxp_of_int (- 20000))"
  by (simp add: fxp_less_def fxp_of_int_def)

end
