(* ===== verification/Fxp_Newton.thy ===== *)
theory Fxp_Newton
  imports Fxp_Correct Complex_Main
begin

section \<open>Accuracy of the reciprocal\<close>

text \<open>
  Newton's iteration of \<open>reciprocal\<close> on a mantissa between one half and one: the relative error of the first guess is at
  most 1/17, it is squared by each of the six steps, and the truncated products add three units at the end.
\<close>

abbreviation one48 :: int where "one48 \<equiv> 2 ^ 48"

lemma mul_spec_pos:
  assumes "0 < x" "0 < y" "x * y < 2 ^ 110"
  shows "mul_spec x y = max 1 (x * y div 2 ^ 48)"
proof -
  have p: "0 < x * y" using assms by simp
  have "0 \<le> x * y div 2 ^ 48" "x * y div 2 ^ 48 < 2 ^ 63"
    using p assms(3) by (simp_all add: pos_imp_zdiv_nonneg_iff)
  moreover from this have "x * y div 2 ^ 48 mod 2 ^ 64 = x * y div 2 ^ 48"
    by (intro mod_pos_pos_trivial) simp_all
  moreover have "\<bar>x * y\<bar> = x * y" "sgn (x * y) = 1" using p by simp_all
  ultimately show ?thesis unfolding mul_spec_def Let_def by simp
qed

lemma mul_spec_small:
  assumes "\<bar>x * y\<bar> < 2 ^ 110"
  shows "\<bar>of_int (mul_spec x y) - of_int (x * y) / 2 ^ 48\<bar> \<le> (1 :: real)"
proof -
  define z where "z = \<bar>x * y\<bar> div 2 ^ 48"
  have z: "0 \<le> z" "z < 2 ^ 62"
    using assms by (simp_all add: z_def pos_imp_zdiv_nonneg_iff)
  have m: "z mod 2 ^ 64 = z" using z by (intro mod_pos_pos_trivial) simp_all
  have spec: "mul_spec x y = sgn (x * y) * max 1 z"
    using z unfolding mul_spec_def Let_def z_def [symmetric] m by simp
  have "z * 2 ^ 48 \<le> \<bar>x * y\<bar>" "\<bar>x * y\<bar> < (z + 1) * 2 ^ 48"
    using pos_mod_bound [of "2 ^ 48" "\<bar>x * y\<bar>"] pos_mod_sign [of "2 ^ 48" "\<bar>x * y\<bar>"]
      div_mult_mod_eq [of "\<bar>x * y\<bar>" "2 ^ 48"] unfolding z_def by simp_all
  then have "real_of_int (z * 2 ^ 48) \<le> of_int \<bar>x * y\<bar>" "real_of_int \<bar>x * y\<bar> < of_int ((z + 1) * 2 ^ 48)"
    by (simp_all only: of_int_le_iff of_int_less_iff)
  then have r: "of_int z \<le> of_int \<bar>x * y\<bar> / (2 :: real) ^ 48" "of_int \<bar>x * y\<bar> / (2 :: real) ^ 48 < of_int z + 1"
    by (simp_all add: field_simps)
  consider "x * y = 0" | "0 < x * y" | "x * y < 0" by linarith
  then show ?thesis
  proof cases
    case 1
    then show ?thesis by (simp add: spec del: mult_eq_0_iff)
  next
    case 2
    then have "mul_spec x y = max 1 z" "\<bar>x * y\<bar> = x * y" by (simp_all add: spec)
    then show ?thesis using r z by (auto simp: max_def)
  next
    case 3
    then have "mul_spec x y = - max 1 z" "\<bar>x * y\<bar> = - (x * y)" by (simp_all add: spec)
    then show ?thesis using r z by (auto simp: max_def)
  qed
qed

definition rel_error :: "int \<Rightarrow> int \<Rightarrow> real" where
  "rel_error D X = 1 - of_int D * of_int X / 2 ^ 96"

lemma newton_step_sint:
  assumes d: "2 ^ 47 \<le> sint dp" "sint dp \<le> 2 ^ 48" and x: "2 ^ 46 \<le> sint x" "sint x \<le> 2 ^ 50"
  obtains t where "sint (newton_step dp x) = sint x + t"
    "\<bar>of_int t - of_int (sint x) * (1 - of_int (sint dp * sint x div 2 ^ 48) / 2 ^ 48)\<bar> \<le> (1 :: real)"
proof -
  have p: "2 ^ 47 * 2 ^ 46 \<le> sint dp * sint x" "sint dp * sint x \<le> 2 ^ 48 * 2 ^ 50"
    using d x by (intro mult_mono; simp)+
  define t1 where "t1 = sint dp * sint x div 2 ^ 48"
  have t1: "1 \<le> t1" "t1 \<le> 2 ^ 50"
    using zdiv_mono1 [OF p(1), of "2 ^ 48"] zdiv_mono1 [OF p(2), of "2 ^ 48"] by (simp_all add: t1_def)
  have nz: "dp \<noteq> 0" "x \<noteq> 0" using d x by auto
  have "sint (fxp_mul dp x) = t1"
    using d x p t1 by (simp add: sint_fxp_mul nz mul_spec_pos t1_def)
  then have t2: "sint (fxp_sub c_1 (fxp_mul dp x)) = 2 ^ 48 - t1"
    using t1 by (simp add: sint_fxp_sub c_1_def)
  define t where "t = sint (fxp_mul x (fxp_sub c_1 (fxp_mul dp x)))"
  have m: "\<bar>sint x * (2 ^ 48 - t1)\<bar> \<le> 2 ^ 50 * 2 ^ 50"
    unfolding abs_mult using x t1 by (intro mult_mono) simp_all
  have t: "t = mul_spec (sint x) (2 ^ 48 - t1)"
  proof (cases "fxp_sub c_1 (fxp_mul dp x) = 0")
    case True
    then have "2 ^ 48 - t1 = 0" using t2 by simp
    then show ?thesis using True by (simp add: t_def mul_spec_def)
  next
    case False
    then show ?thesis by (simp add: t_def sint_fxp_mul nz t2)
  qed
  have r: "\<bar>of_int t - of_int (sint x * (2 ^ 48 - t1)) / 2 ^ 48\<bar> \<le> (1 :: real)"
    unfolding t using m by (intro mul_spec_small) simp
  show thesis
  proof
    show "\<bar>of_int t - of_int (sint x) * (1 - of_int (sint dp * sint x div 2 ^ 48) / 2 ^ 48)\<bar> \<le> (1 :: real)"
      using r unfolding t1_def [symmetric] by (simp add: field_simps)
    have "\<bar>real_of_int (sint x * (2 ^ 48 - t1)) / 2 ^ 48\<bar> \<le> 2 ^ 52"
    proof -
      have "real_of_int \<bar>sint x * (2 ^ 48 - t1)\<bar> \<le> of_int (2 ^ 50 * 2 ^ 50)" using m by (simp only: of_int_le_iff)
      then show ?thesis by (simp add: abs_divide)
    qed
    with r have "\<bar>real_of_int t\<bar> \<le> 2 ^ 53" by simp
    then have "\<bar>t\<bar> \<le> 2 ^ 53" by simp
    then show "sint (newton_step dp x) = sint x + t"
      using x by (simp add: newton_step_def sint_fxp_add t_def)
  qed
qed

lemma div_real: "of_int x / 2 ^ n - 1 < (of_int (x div 2 ^ n) :: real)" "(of_int (x div 2 ^ n) :: real) \<le> of_int x / 2 ^ n"
proof -
  have "x div 2 ^ n = \<lfloor>of_int x / (2 :: real) ^ n\<rfloor>"
    by (metis floor_divide_of_int_eq of_int_numeral of_int_power)
  then show "of_int x / 2 ^ n - 1 < (of_int (x div 2 ^ n) :: real)" "(of_int (x div 2 ^ n) :: real) \<le> of_int x / 2 ^ n"
    by linarith+
qed

lemma newton_step_error:
  assumes d: "2 ^ 47 \<le> sint dp" "sint dp \<le> 2 ^ 48" and x: "2 ^ 46 \<le> sint x" "sint x \<le> 2 ^ 50"
  defines "u \<equiv> rel_error (sint dp) (sint x)" and "v \<equiv> rel_error (sint dp) (sint (newton_step dp x))"
  shows "\<bar>v\<bar> \<le> u\<^sup>2 + (2 + \<bar>u\<bar>) / 2 ^ 48"
proof -
  obtain t where t: "sint (newton_step dp x) = sint x + t"
    "\<bar>of_int t - of_int (sint x) * (1 - of_int (sint dp * sint x div 2 ^ 48) / 2 ^ 48)\<bar> \<le> (1 :: real)"
    by (rule newton_step_sint [OF d x])
  define \<delta> where "\<delta> = of_int (sint dp * sint x) / 2 ^ 48 - (of_int (sint dp * sint x div 2 ^ 48) :: real)"
  define \<gamma> where "\<gamma> = of_int t - of_int (sint x) * (1 - of_int (sint dp * sint x div 2 ^ 48) / 2 ^ 48 :: real)"
  define D X :: real where "D = of_int (sint dp)" and "X = of_int (sint x)"
  have \<delta>: "0 \<le> \<delta>" "\<delta> \<le> 1" using div_real [of "sint dp * sint x" 48] unfolding \<delta>_def by linarith+
  have \<gamma>: "\<bar>\<gamma>\<bar> \<le> 1" using t(2) unfolding \<gamma>_def .
  have D: "0 \<le> D" "D \<le> 2 ^ 48"
    using d of_int_le_iff [of "sint dp" "2 ^ 48", where ?'a = real] of_int_le_iff [of 0 "sint dp", where ?'a = real]
    unfolding D_def by simp_all
  have q: "of_int (sint dp * sint x div 2 ^ 48) = D * X / 2 ^ 48 - \<delta>"
    by (simp add: \<delta>_def D_def X_def)
  have tt: "of_int t = X * (1 - (D * X / 2 ^ 48 - \<delta>) / 2 ^ 48) + \<gamma>"
    unfolding q [symmetric] by (simp add: \<gamma>_def X_def)
  have u: "u = 1 - D * X / 2 ^ 96" unfolding u_def rel_error_def D_def X_def ..
  have v: "v = 1 - D * (X + of_int t) / 2 ^ 96"
    unfolding v_def rel_error_def t(1) D_def X_def by simp
  have "v = u\<^sup>2 - \<delta> / 2 ^ 48 + u * \<delta> / 2 ^ 48 - D * \<gamma> / 2 ^ 96"
    unfolding v u tt by (simp add: power2_eq_square field_simps)
  moreover have "\<bar>D * \<gamma> / 2 ^ 96\<bar> \<le> 1 / 2 ^ 48"
  proof -
    have "\<bar>D * \<gamma>\<bar> \<le> 2 ^ 48 * 1" unfolding abs_mult using D \<gamma> by (intro mult_mono) simp_all
    then show ?thesis by (simp add: abs_divide)
  qed
  moreover have "\<bar>u * \<delta> / 2 ^ 48\<bar> \<le> \<bar>u\<bar> / 2 ^ 48"
    using \<delta> mult_left_mono [of \<delta> 1 "\<bar>u\<bar>"] by (simp add: abs_mult divide_right_mono)
  moreover have "\<bar>\<delta> / 2 ^ 48\<bar> \<le> 1 / 2 ^ 48" using \<delta> by simp
  moreover have "(2 + \<bar>u\<bar>) / 2 ^ 48 = 1 / 2 ^ 48 + \<bar>u\<bar> / 2 ^ 48 + 1 / 2 ^ (48 :: nat)"
    by (simp add: field_simps)
  ultimately show ?thesis using zero_le_power2 [of u] by linarith
qed

lemma rel_error_range:
  assumes d: "2 ^ 47 \<le> D" "D \<le> 2 ^ 48" and u: "\<bar>rel_error D X\<bar> \<le> 1 / 4"
  shows "2 ^ 46 \<le> X" "X \<le> 2 ^ 50"
proof -
  have "3 / 4 \<le> of_int D * of_int X / (2 :: real) ^ 96" "of_int D * of_int X / (2 :: real) ^ 96 \<le> 5 / 4"
    using u unfolding rel_error_def by linarith+
  then have "3 / 4 * 2 ^ 96 \<le> real_of_int (D * X)" "real_of_int (D * X) \<le> 5 / 4 * 2 ^ 96"
    by (simp_all add: field_simps)
  then have "real_of_int (3 * 2 ^ 94) \<le> of_int (D * X)" "real_of_int (D * X) \<le> of_int (5 * 2 ^ 94)"
    by simp_all
  then have dx: "3 * 2 ^ 94 \<le> D * X" "D * X \<le> 5 * 2 ^ 94"
    by (simp_all only: of_int_le_iff)
  have X: "0 < X" using dx(1) d(1) by (metis zero_less_mult_pos less_le_trans zero_less_power zero_less_numeral mult_pos_pos)
  have "3 * 2 ^ 94 \<le> 2 ^ 48 * X"
    using dx(1) mult_right_mono [OF d(2), of X] X by linarith
  then show "2 ^ 46 \<le> X" by simp
  have "2 ^ 47 * X \<le> 5 * 2 ^ 94"
    using dx(2) mult_right_mono [OF d(1), of X] X by linarith
  then show "X \<le> 2 ^ 50" by simp
qed

lemma newton_step_bound:
  assumes d: "2 ^ 47 \<le> sint dp" "sint dp \<le> 2 ^ 48"
    and u: "\<bar>rel_error (sint dp) (sint x)\<bar> \<le> b" "b \<le> 1 / 4" and c: "b\<^sup>2 + (2 + b) / 2 ^ 48 \<le> c"
  shows "\<bar>rel_error (sint dp) (sint (newton_step dp x))\<bar> \<le> c"
proof -
  have "\<bar>rel_error (sint dp) (sint x)\<bar> \<le> 1 / 4" using u by simp
  note e = newton_step_error [OF d rel_error_range [OF d this]]
  have "(rel_error (sint dp) (sint x))\<^sup>2 \<le> b\<^sup>2"
    using u(1) by (metis abs_ge_zero power2_abs power_mono)
  moreover have "(2 + \<bar>rel_error (sint dp) (sint x)\<bar>) / 2 ^ 48 \<le> (2 + b) / 2 ^ 48"
    using u(1) by (simp add: divide_right_mono)
  ultimately show ?thesis using e c by linarith
qed

lemma newton_converges:
  assumes d: "2 ^ 47 \<le> sint dp" "sint dp \<le> 2 ^ 48" and x: "\<bar>rel_error (sint dp) (sint x)\<bar> \<le> 1 / 16"
  shows "\<bar>rel_error (sint dp) (sint ((newton_step dp ^^ 6) x))\<bar> \<le> 3 / 2 ^ 48"
proof -
  note step = newton_step_bound [OF d]
  have "\<bar>rel_error (sint dp) (sint (newton_step dp x))\<bar> \<le> 1 / 250"
    using x by (rule step) (simp_all add: power2_eq_square)
  then have "\<bar>rel_error (sint dp) (sint (newton_step dp (newton_step dp x)))\<bar> \<le> 1 / 60000"
    by (rule step) (simp_all add: power2_eq_square)
  then have "\<bar>rel_error (sint dp) (sint (newton_step dp (newton_step dp (newton_step dp x))))\<bar> \<le> 1 / 3000000000"
    by (rule step) (simp_all add: power2_eq_square)
  then have "\<bar>rel_error (sint dp) (sint (newton_step dp (newton_step dp (newton_step dp (newton_step dp x)))))\<bar> \<le> 4 / 2 ^ 48"
    by (rule step) (simp_all add: power2_eq_square)
  then have "\<bar>rel_error (sint dp) (sint (newton_step dp (newton_step dp (newton_step dp (newton_step dp (newton_step dp x))))))\<bar> \<le> 3 / 2 ^ 48"
    by (rule step) (simp_all add: power2_eq_square)
  then have "\<bar>rel_error (sint dp) (sint (newton_step dp (newton_step dp (newton_step dp (newton_step dp (newton_step dp (newton_step dp x)))))))\<bar> \<le> 3 / 2 ^ 48"
    by (rule step) (simp_all add: power2_eq_square)
  moreover have "(newton_step dp ^^ 6) x =
      newton_step dp (newton_step dp (newton_step dp (newton_step dp (newton_step dp (newton_step dp x)))))"
    by (simp add: eval_nat_numeral)
  ultimately show ?thesis by simp
qed

lemma newton_start:
  assumes d: "2 ^ 47 \<le> sint dp" "sint dp \<le> 2 ^ 48"
  shows "\<bar>rel_error (sint dp) (sint (fxp_sub c_48_17 (fxp_mul c_32_17 dp)))\<bar> \<le> 1 / 16"
proof -
  have c: "sint c_48_17 = 0x2d2d2d2d2d2d2" "sint c_32_17 = 0x1e1e1e1e1e1e1"
    by (simp_all add: c_48_17_def c_32_17_def)
  define t where "t = 0x1e1e1e1e1e1e1 * sint dp div 2 ^ 48"
  have p: "2 ^ 49 \<le> 0x1e1e1e1e1e1e1 * sint dp" "0x1e1e1e1e1e1e1 * sint dp \<le> 2 ^ 49 * 2 ^ 48"
    using d by simp_all
  have t: "1 \<le> t" "t \<le> 2 ^ 49"
    using zdiv_mono1 [OF p(1), of "2 ^ 48"] zdiv_mono1 [OF p(2), of "2 ^ 48"] by (simp_all add: t_def)
  have nz: "c_32_17 \<noteq> 0" "dp \<noteq> 0" using d by (auto simp: c_32_17_def)
  have "sint (fxp_mul c_32_17 dp) = t"
    using d p t by (simp add: sint_fxp_mul nz c mul_spec_pos t_def)
  then have x: "sint (fxp_sub c_48_17 (fxp_mul c_32_17 dp)) = 0x2d2d2d2d2d2d2 - t"
    using t by (simp add: sint_fxp_sub c)
  define D :: real where "D = of_int (sint dp) / 2 ^ 48"
  define \<delta> where "\<delta> = of_int (0x1e1e1e1e1e1e1 * sint dp) / 2 ^ 48 - (of_int t :: real)"
  have \<delta>: "0 \<le> \<delta>" "\<delta> \<le> 1"
    using div_real [of "0x1e1e1e1e1e1e1 * sint dp" 48] unfolding \<delta>_def t_def by linarith+
  have D: "1 / 2 \<le> D" "D \<le> 1"
    using d of_int_le_iff [of "sint dp" "2 ^ 48", where ?'a = real] of_int_le_iff [of "2 ^ 47" "sint dp", where ?'a = real]
    unfolding D_def by simp_all
  define e1 e2 :: real where "e1 = 48 / 17 - 0x2d2d2d2d2d2d2 / 2 ^ 48" and "e2 = 32 / 17 - 0x1e1e1e1e1e1e1 / 2 ^ 48"
  have tt: "of_int t = 0x1e1e1e1e1e1e1 * D - \<delta>" by (simp add: \<delta>_def D_def)
  have "rel_error (sint dp) (0x2d2d2d2d2d2d2 - t) = 1 - D * ((0x2d2d2d2d2d2d2 - of_int t) / 2 ^ 48)"
    by (simp add: rel_error_def D_def)
  also have "\<dots> = 32 / 17 * (D - 3 / 4)\<^sup>2 - 1 / 17 + (e1 * D - e2 * D\<^sup>2 - D * \<delta> / 2 ^ 48)"
    unfolding tt e1_def e2_def by (simp add: power2_eq_square field_simps)
  finally have u: "rel_error (sint dp) (0x2d2d2d2d2d2d2 - t) =
      32 / 17 * (D - 3 / 4)\<^sup>2 - 1 / 17 + (e1 * D - e2 * D\<^sup>2 - D * \<delta> / 2 ^ 48)" .
  have "\<bar>D - 3 / 4\<bar> \<le> 1 / 4" using D by linarith
  then have "(D - 3 / 4)\<^sup>2 \<le> (1 / 4)\<^sup>2"
    by (metis abs_ge_zero power2_abs power_mono)
  then have main: "(D - 3 / 4)\<^sup>2 \<le> 1 / 16" "0 \<le> (D - 3 / 4)\<^sup>2" by (simp_all add: power2_eq_square)
  have e: "\<bar>e1\<bar> \<le> 1 / 1000" "\<bar>e2\<bar> \<le> 1 / 1000" by (simp_all add: e1_def e2_def)
  have "\<bar>e1 * D\<bar> \<le> 1 / 1000 * 1" unfolding abs_mult using e D by (intro mult_mono) simp_all
  moreover have "D\<^sup>2 \<le> 1" using D by (simp add: power_le_one)
  then have "\<bar>e2 * D\<^sup>2\<bar> \<le> 1 / 1000 * 1" unfolding abs_mult using e D by (intro mult_mono) simp_all
  moreover have "\<bar>D * \<delta>\<bar> \<le> 1 * 1" unfolding abs_mult using D \<delta> by (intro mult_mono) simp_all
  then have "\<bar>D * \<delta> / 2 ^ 48\<bar> \<le> 1 / 1000" by (simp add: abs_divide)
  ultimately show ?thesis unfolding x u using main by linarith
qed

text \<open>The reciprocal of a scaled number between one half and one, correct to three units in the last place.\<close>

definition newton_result :: "fxp1648 \<Rightarrow> int" where
  "newton_result dp = sint ((newton_step dp ^^ 6) (fxp_sub c_48_17 (fxp_mul c_32_17 dp)))"

lemma newton_result_error:
  assumes d: "2 ^ 47 \<le> sint dp" "sint dp \<le> 2 ^ 48"
  shows "\<bar>2 ^ 96 - sint dp * newton_result dp\<bar> \<le> 3 * 2 ^ 48"
    "2 ^ 48 - 3 \<le> newton_result dp" "newton_result dp \<le> 2 ^ 49 + 6"
proof -
  define D X where "D = sint dp" and "X = newton_result dp"
  have "\<bar>rel_error D X\<bar> \<le> 3 / 2 ^ 48"
    unfolding newton_result_def D_def X_def by (rule newton_converges [OF d newton_start [OF d]])
  then have "\<bar>rel_error D X * 2 ^ 96\<bar> \<le> 3 / 2 ^ 48 * 2 ^ 96"
    unfolding abs_mult by (intro mult_mono) simp_all
  then have "\<bar>real_of_int (2 ^ 96 - D * X)\<bar> \<le> of_int (3 * 2 ^ 48)"
    by (simp add: rel_error_def field_simps)
  then have e: "\<bar>2 ^ 96 - D * X\<bar> \<le> 3 * 2 ^ 48"
    by (simp only: of_int_abs [symmetric] of_int_le_iff)
  then show "\<bar>2 ^ 96 - sint dp * newton_result dp\<bar> \<le> 3 * 2 ^ 48" unfolding D_def X_def .
  have d: "2 ^ 47 \<le> D" "D \<le> 2 ^ 48" using d unfolding D_def by simp_all
  from e have dx: "2 ^ 96 - 3 * 2 ^ 48 \<le> D * X" "D * X \<le> 2 ^ 96 + 3 * 2 ^ 48" by linarith+
  have X: "0 < X"
  proof (rule ccontr)
    assume "\<not> 0 < X"
    then have "D * X \<le> 0" using d by (simp add: mult_nonneg_nonpos)
    then show False using dx(1) by simp
  qed
  have "2 ^ 96 - 3 * 2 ^ 48 \<le> 2 ^ 48 * X" using dx(1) mult_right_mono [OF d(2), of X] X by linarith
  then show "2 ^ 48 - 3 \<le> newton_result dp" unfolding X_def by simp
  have "2 ^ 47 * X \<le> 2 ^ 96 + 3 * 2 ^ 48" using dx(2) mult_right_mono [OF d(1), of X] X by linarith
  then show "newton_result dp \<le> 2 ^ 49 + 6" unfolding X_def by simp
qed

lemma sint_small: "uint (a :: u64) < 2 ^ 63 \<Longrightarrow> sint a = uint a"
  by (simp add: sint_of_uint)

lemma scale_bits_general:
  assumes "v \<noteq> 0" "k = fxp_msb v" and c: "c < 63"
  shows "k \<le> int c \<Longrightarrow> uint (scale_bits (int c - k) v) = uint v * 2 ^ nat (int c - k)"
    "int c < k \<Longrightarrow> uint (scale_bits (int c - k) v) = uint v div 2 ^ nat (k - int c)"
    "2 ^ c \<le> uint (scale_bits (int c - k) v)" "uint (scale_bits (int c - k) v) < 2 ^ Suc c"
proof -
  note b = fxp_msb_bounds [OF assms(1), folded assms(2)]
  define n where "n = nat k"
  have k: "k = int n" using b(1) by (simp add: n_def)
  note b = b(2,3) [unfolded k nat_int]
  have lo: "uint (scale_bits (int c - k) v) = uint v * 2 ^ nat (int c - k) \<and>
      2 ^ c \<le> uint v * 2 ^ nat (int c - k) \<and> uint v * 2 ^ nat (int c - k) < 2 ^ Suc c" if le: "k \<le> int c"
  proof -
    define m where "m = nat (int c - k)"
    have m: "n + m = c" "Suc n + m = Suc c" using le by (simp_all add: m_def k)
    have "2 ^ n * 2 ^ m \<le> uint v * 2 ^ m" "uint v * 2 ^ m < 2 ^ Suc n * 2 ^ m"
      using b by (intro mult_right_mono mult_strict_right_mono; simp)+
    then have r: "2 ^ c \<le> uint v * 2 ^ m" "uint v * 2 ^ m < 2 ^ Suc c"
      by (simp_all only: power_add [symmetric] m)
    have "(2 :: int) ^ Suc c \<le> 2 ^ 64" using c by (intro power_increasing) simp_all
    moreover have "0 \<le> uint v * 2 ^ m" by simp
    ultimately have "uint (push_bit m v) = uint v * 2 ^ m"
      unfolding uint_push_u64 using r(2) by (intro mod_pos_pos_trivial) linarith+
    then show ?thesis using r le unfolding m_def by (simp add: scale_bits_def)
  qed
  have hi: "uint (scale_bits (int c - k) v) = uint v div 2 ^ nat (k - int c) \<and>
      2 ^ c \<le> uint v div 2 ^ nat (k - int c) \<and> uint v div 2 ^ nat (k - int c) < 2 ^ Suc c" if gt: "int c < k"
  proof -
    define m where "m = nat (k - int c)"
    have m: "n = c + m" using gt by (simp add: m_def k)
    have p: "(2 :: int) ^ n = 2 ^ c * 2 ^ m" "(2 :: int) ^ Suc n = 2 ^ Suc c * 2 ^ m"
      by (simp_all add: m power_add)
    have "2 ^ c \<le> uint v div 2 ^ m"
      using zdiv_mono1 [OF b(1) [unfolded p], of "2 ^ m"] by simp
    moreover have "uint v div 2 ^ m * 2 ^ m \<le> uint v" by (simp add: minus_mod_eq_div_mult [symmetric])
    then have "uint v div 2 ^ m * 2 ^ m < 2 ^ Suc c * 2 ^ m" using b(2) unfolding p by linarith
    then have "uint v div 2 ^ m < 2 ^ Suc c" by (rule mult_right_less_imp_less) simp
    ultimately show ?thesis using gt unfolding m_def by (simp add: scale_bits_def uint_drop_u64)
  qed
  show "k \<le> int c \<Longrightarrow> uint (scale_bits (int c - k) v) = uint v * 2 ^ nat (int c - k)" using lo by simp
  show "int c < k \<Longrightarrow> uint (scale_bits (int c - k) v) = uint v div 2 ^ nat (k - int c)" using hi by simp
  show "2 ^ c \<le> uint (scale_bits (int c - k) v)" "uint (scale_bits (int c - k) v) < 2 ^ Suc c"
    using lo hi by (cases "k \<le> int c"; simp)+
qed

lemma scale_bits_uint:
  assumes "v \<noteq> 0" "k = fxp_msb v"
  shows "k \<le> 47 \<Longrightarrow> uint (scale_bits (47 - k) v) = uint v * 2 ^ nat (47 - k)"
    "47 < k \<Longrightarrow> uint (scale_bits (47 - k) v) = uint v div 2 ^ nat (k - 47)"
    "2 ^ 47 \<le> uint (scale_bits (47 - k) v)" "uint (scale_bits (47 - k) v) < 2 ^ 48"
  using scale_bits_general [OF assms, of 47] by simp_all

definition reciprocal_magnitude :: "int \<Rightarrow> int \<Rightarrow> int" where
  "reciprocal_magnitude k X = (if k \<le> 47 then X * 2 ^ nat (47 - k) else X div 2 ^ nat (k - 47))"

definition abs_word :: "fxp1648 \<Rightarrow> u64" where
  "abs_word a = (if fxp_is_negative a then NOT a + 1 else a)"

definition recip_mantissa :: "fxp1648 \<Rightarrow> int" where
  "recip_mantissa a = newton_result (scale_bits (47 - fxp_msb (abs_word a)) (abs_word a))"

definition recip_saturates :: "fxp1648 \<Rightarrow> bool" where
  "recip_saturates a \<longleftrightarrow> fxp_msb (abs_word a) < 47 \<and>
     63 \<le> fxp_msb (word_of_int (recip_mantissa a)) + (47 - fxp_msb (abs_word a))"

lemma uint_abs_word: "uint (abs_word a) = \<bar>sint a\<bar>"
  unfolding abs_word_def by (rule magnitude)

lemma reciprocal_cases:
  assumes "a \<noteq> 0"
  shows
    "\<not> recip_saturates a \<Longrightarrow>
      sint (fxp_reciprocal a) = sgn (sint a) * reciprocal_magnitude (fxp_msb (abs_word a)) (recip_mantissa a)" (is "_ \<Longrightarrow> ?result")
    and "0 < reciprocal_magnitude (fxp_msb (abs_word a)) (recip_mantissa a)" (is ?pos)
    and "recip_saturates a \<Longrightarrow> fxp_reciprocal a = max_or_min (\<not> fxp_is_negative a)" (is "_ \<Longrightarrow> ?sat")
    and "2 ^ 48 - 3 \<le> recip_mantissa a" (is ?lo) and "recip_mantissa a \<le> 2 ^ 49 + 6" (is ?hi)
    and "\<bar>2 ^ 96 - uint (scale_bits (47 - fxp_msb (abs_word a)) (abs_word a)) * recip_mantissa a\<bar> \<le> 3 * 2 ^ 48" (is ?err)
proof -
  define d where "d = abs_word a"
  define k where "k = fxp_msb d"
  have ud: "uint d = \<bar>sint a\<bar>" unfolding d_def by (rule uint_abs_word)
  have nz: "d \<noteq> 0"
    using ud assms(1) sint_eq_iff [of a 0] by auto
  define dp where "dp = scale_bits (47 - k) d"
  note sb = scale_bits_uint [OF nz k_def, folded dp_def]
  have sdp: "sint dp = uint dp" using sb by (intro sint_small) simp
  have dr: "2 ^ 47 \<le> sint dp" "sint dp \<le> 2 ^ 48" using sb(3,4) by (simp_all add: sdp)
  define x where "x = (newton_step dp ^^ 6) (fxp_sub c_48_17 (fxp_mul c_32_17 dp))"
  define X where "X = newton_result dp"
  have sx: "sint x = X" by (simp add: x_def X_def newton_result_def)
  note ne = newton_result_error [OF dr, folded X_def]
  have xw: "word_of_int X = x" unfolding sx [symmetric] by simp
  have ux: "uint x = X" using sx ne(2) uint_bounds(2) [of x] by (auto simp: sint_of_uint split: if_splits)
  have kr: "0 \<le> k" "k < 64" using fxp_msb_bounds(1) [OF nz] fxp_msb_range [of d] by (simp_all add: k_def)
  define r where "r = scale_bits (47 - k) x"
  define sat where "sat \<longleftrightarrow> k < 47 \<and> 63 \<le> fxp_msb x + (47 - k)"
  have f: "fxp_reciprocal a = (if sat then max_or_min (\<not> fxp_is_negative a)
      else if r = 0 then fxp_eps (\<not> fxp_is_negative a) else if fxp_is_negative a then NOT r + 1 else r)"
    by (simp add: fxp_reciprocal_def Let_def sat_def r_def x_def dp_def k_def d_def abs_word_def)
  have X: "recip_mantissa a = X" by (simp add: recip_mantissa_def X_def dp_def k_def d_def)
  have sat: "recip_saturates a \<longleftrightarrow> sat" by (simp add: recip_saturates_def X xw sat_def k_def d_def)
  have pos: "0 < reciprocal_magnitude k X"
  proof (cases "k \<le> 47")
    case True
    then show ?thesis using ne(2) by (simp add: reciprocal_magnitude_def)
  next
    case False
    have "nat (k - 47) \<le> 16" using kr by simp
    then have "(2 :: int) ^ nat (k - 47) \<le> 2 ^ 16" by (intro power_increasing) simp_all
    also have "\<dots> \<le> X" using ne(2) by simp
    finally show ?thesis using False by (simp add: reciprocal_magnitude_def pos_imp_zdiv_pos_iff)
  qed
  have R: "uint r = reciprocal_magnitude k X \<and> uint r < 2 ^ 63" if ns: "\<not> sat"
  proof (cases "47 < k")
    case True
    have "X div 2 ^ nat (k - 47) \<le> X"
      using zdiv_mono2 [of X 1 "2 ^ nat (k - 47)"] ne(2) by simp
    then show ?thesis using True ne(3)
      by (simp add: r_def scale_bits_def uint_drop_u64 ux reciprocal_magnitude_def)
  next
    case False
    define m where "m = nat (47 - k)"
    have "x \<noteq> 0" using ux ne(2) by auto
    have "X * 2 ^ m < 2 ^ 63"
    proof (cases "k = 47")
      case True
      then show ?thesis using ne(3) by (simp add: m_def)
    next
      case nk: False
      have "fxp_msb x + int m < 63" using ns False nk by (simp add: sat_def m_def)
      then have e: "Suc (nat (fxp_msb x)) + m \<le> 63" using fxp_msb_bounds(1) [OF \<open>x \<noteq> 0\<close>] by simp
      have "X * 2 ^ m < 2 ^ Suc (nat (fxp_msb x)) * 2 ^ m"
        using fxp_msb_bounds(3) [OF \<open>x \<noteq> 0\<close>] unfolding ux by (intro mult_strict_right_mono) simp_all
      also have "\<dots> = 2 ^ (Suc (nat (fxp_msb x)) + m)" by (simp only: power_add)
      also have "\<dots> \<le> 2 ^ 63" using e by (intro power_increasing) simp_all
      finally show ?thesis .
    qed
    moreover have "0 \<le> X * 2 ^ m" using ne(2) by simp
    ultimately have "X * 2 ^ m mod 2 ^ 64 = X * 2 ^ m" by (intro mod_pos_pos_trivial) simp_all
    then show ?thesis using False \<open>X * 2 ^ m < 2 ^ 63\<close>
      by (simp add: r_def scale_bits_def uint_push_u64 ux reciprocal_magnitude_def m_def)
  qed
  show ?pos ?lo ?hi ?err
    unfolding X d_def [symmetric] k_def [symmetric] using pos ne sdp by (simp_all add: dp_def)
  show "recip_saturates a \<Longrightarrow> ?sat" using f sat by simp
  show ?result if "\<not> recip_saturates a"
  proof -
    from that have ns: "\<not> sat" by (simp add: sat)
    note R = R [OF this]
    have rs: "sint r = reciprocal_magnitude k X" using R by (simp add: sint_small)
    then have "r \<noteq> 0" using pos by auto
    moreover have "r \<noteq> fxp_min" using rs pos by auto
    ultimately show ?thesis
      unfolding X d_def [symmetric] k_def [symmetric]
      using f ns rs assms sint_eq_iff [of a 0] by (auto simp: sint_neg_u64 is_negative_sint sgn_if)
  qed
qed

lemma fxp_reciprocal_sign:
  assumes a: "a \<noteq> 0"
  shows "fxp_is_negative (fxp_reciprocal a) \<longleftrightarrow> fxp_is_negative a"
proof (cases "recip_saturates a")
  case True
  then show ?thesis using reciprocal_cases(3) [OF a] by (simp add: is_negative_sint sint_max_or_min)
next
  case False
  have "sint a \<noteq> 0" using a sint_eq_iff [of a 0] by simp
  then show ?thesis
    using reciprocal_cases(1,2) [OF a] False by (simp add: is_negative_sint sgn_if)
qed

lemma recip_mantissa_msb: "a \<noteq> 0 \<Longrightarrow> fxp_msb (word_of_int (recip_mantissa a)) \<le> 49"
proof -
  assume "a \<noteq> 0"
  note b = reciprocal_cases(4,5) [OF this]
  have "uint (word_of_int (recip_mantissa a) :: u64) = recip_mantissa a"
    using b by (simp add: uint_word_of_int mod_pos_pos_trivial)
  then show ?thesis using b fxp_msb_less [of "word_of_int (recip_mantissa a)" 50] by simp
qed

lemma product_error:
  fixes M D X q :: int
  assumes M: "D * q \<le> M" "M < D * q + q" and q: "1 \<le> q" and X: "0 < X" and D: "0 < D"
    and e: "\<bar>2 ^ 96 - D * X\<bar> \<le> 3 * 2 ^ 48"
  shows "2 ^ 96 - 3 * 2 ^ 48 - D * q \<le> M * (X div q)" "M * (X div q) \<le> 2 ^ 96 + 3 * 2 ^ 48 + X"
proof -
  have r: "X div q * q \<le> X" "X < X div q * q + q"
    using q pos_mod_bound [of q X] pos_mod_sign [of q X] div_mult_mod_eq [of X q] by linarith+
  have r3: "0 \<le> X div q" using q X by (simp add: pos_imp_zdiv_nonneg_iff)
  have "D * X \<le> D * (X div q * q + q)" using r(2) D by (intro mult_left_mono) simp_all
  also have "\<dots> = (D * q) * (X div q) + D * q" by algebra
  also have "\<dots> \<le> M * (X div q) + D * q" using M(1) r3 by (simp add: mult_right_mono)
  finally show "2 ^ 96 - 3 * 2 ^ 48 - D * q \<le> M * (X div q)" using e by linarith
  have "M * (X div q) \<le> (D * q + q) * (X div q)" using M(2) r3 by (intro mult_right_mono) simp_all
  also have "\<dots> = D * (X div q * q) + X div q * q" by algebra
  also have "\<dots> \<le> D * X + X" using r(1) D by (simp add: add_mono mult_left_mono)
  finally show "M * (X div q) \<le> 2 ^ 96 + 3 * 2 ^ 48 + X" using e by linarith
qed

lemma reciprocal_product:
  assumes a: "a \<noteq> 0"
  shows "\<bar>\<bar>sint a\<bar> * reciprocal_magnitude (fxp_msb (abs_word a)) (recip_mantissa a) - 2 ^ 96\<bar> \<le> 6 * 2 ^ 48 + \<bar>sint a\<bar>"
proof -
  define M X k where "M = \<bar>sint a\<bar>" and "X = recip_mantissa a" and "k = fxp_msb (abs_word a)"
  have nz: "abs_word a \<noteq> 0" using uint_abs_word [of a] a sint_eq_iff [of a 0] by auto
  define D where "D = uint (scale_bits (47 - k) (abs_word a))"
  note sb = scale_bits_uint [OF nz k_def, folded D_def, unfolded uint_abs_word, folded M_def]
  note rc = reciprocal_cases(4-6) [OF a, folded k_def X_def, folded D_def]
  show ?thesis
    unfolding M_def [symmetric] X_def [symmetric] k_def [symmetric]
  proof (cases "k \<le> 47")
    case True
    then have "M * reciprocal_magnitude k X = D * X"
      using sb(1) by (simp add: reciprocal_magnitude_def)
    then show "\<bar>M * reciprocal_magnitude k X - 2 ^ 96\<bar> \<le> 6 * 2 ^ 48 + M"
      using rc(3) M_def by linarith
  next
    case False
    define q where "q = (2 :: int) ^ nat (k - 47)"
    have D: "D = M div q" using sb(2) False by (simp add: q_def)
    have q: "1 \<le> q" by (simp add: q_def)
    have "D * q \<le> M" "M < D * q + q"
      using q pos_mod_bound [of q M] pos_mod_sign [of q M] div_mult_mod_eq [of M q] unfolding D by linarith+
    note pe = product_error [OF this q _ _ rc(3)]
    have rm: "reciprocal_magnitude k X = X div q"
      using False by (simp add: reciprocal_magnitude_def q_def)
    have "0 < X" "0 < D" using rc sb by simp_all
    note pe = pe [OF this]
    have "0 \<le> M" by (simp add: M_def)
    then show "\<bar>M * reciprocal_magnitude k X - 2 ^ 96\<bar> \<le> 6 * 2 ^ 48 + M"
      unfolding rm using pe rc(2) \<open>D * q \<le> M\<close> by (simp add: abs_le_iff)
  qed
qed

text \<open>C37: The reciprocal of a fixed-point number is accurate.  For every number of absolute value at least 2^-14, whose
  reciprocal is well inside the range of the format, the result has the sign of the argument, and the product of the two
  raw values differs from the exact 2^96 by at most one unit in the last place of the result and a relative error
  below 2^-45.\<close>

theorem fxp_reciprocal_accurate:
  assumes "2 ^ 34 \<le> \<bar>sint a\<bar>"
  shows "sgn (sint (fxp_reciprocal a)) = sgn (sint a) \<and>
    \<bar>\<bar>sint a\<bar> * \<bar>sint (fxp_reciprocal a)\<bar> - 2 ^ 96\<bar> \<le> 6 * 2 ^ 48 + \<bar>sint a\<bar>"
proof
  have a: "a \<noteq> 0" using assms by auto
  have "34 \<le> fxp_msb (abs_word a)"
    using fxp_msb_ge [of 34 "abs_word a"] assms by (simp add: uint_abs_word)
  then have ns: "\<not> recip_saturates a"
    using recip_mantissa_msb [OF a] by (simp add: recip_saturates_def)
  note v = reciprocal_cases(1) [OF a ns] reciprocal_cases(2) [OF a]
  have "sint a \<noteq> 0" using a sint_eq_iff [of a 0] by simp
  then show "sgn (sint (fxp_reciprocal a)) = sgn (sint a)"
    using v by (simp add: sgn_mult)
  have "\<bar>sint (fxp_reciprocal a)\<bar> = reciprocal_magnitude (fxp_msb (abs_word a)) (recip_mantissa a)"
    using v \<open>sint a \<noteq> 0\<close> by (simp add: abs_mult)
  then show "\<bar>\<bar>sint a\<bar> * \<bar>sint (fxp_reciprocal a)\<bar> - 2 ^ 96\<bar> \<le> 6 * 2 ^ 48 + \<bar>sint a\<bar>"
    using reciprocal_product [OF a] by simp
qed

theorem fxp_reciprocal_accurate_witness:
  "\<bar>sint (3 * c_1) * sint (fxp_reciprocal (3 * c_1)) - 2 ^ 96\<bar> \<le> 9 * 2 ^ 48 \<and> 0 < sint (fxp_reciprocal (3 * c_1))"
proof -
  have c: "sint (3 * c_1) = 3 * 2 ^ 48" by (simp add: c_1_def)
  have "2 ^ 34 \<le> \<bar>sint (3 * c_1)\<bar>" by (simp add: c)
  note r = fxp_reciprocal_accurate [OF this]
  then have p: "0 < sint (fxp_reciprocal (3 * c_1))" unfolding c by (simp add: sgn_if split: if_splits)
  then show ?thesis using r unfolding c by simp
qed

end
