(* ===== verification/Fxp_Sqrt.thy ===== *)
theory Fxp_Sqrt
  imports Fxp_Newton
begin

section \<open>Square roots are never negative\<close>

text \<open>
  \<open>sqrt\<close> asserts that its argument is not negative, and its result is an argument of the next division and the
  next square root.  These lemmas show that the signs are right for every argument: the table indices of \<open>inv_sqrt\<close>
  are in range and the Newton iteration stays between zero and five quarters.
\<close>

lemma fxp_mul_pos: "0 < sint a \<Longrightarrow> 0 < sint b \<Longrightarrow> 0 < sint (fxp_mul a b)"
proof -
  assume p: "0 < sint a" "0 < sint b"
  then have "a \<noteq> 0" "b \<noteq> 0" by auto
  then show ?thesis using p by (simp add: sint_fxp_mul mul_spec_def Let_def sgn_mult less_max_iff_disj)
qed

lemma fxp_mul_nonneg: "0 \<le> sint a \<Longrightarrow> 0 \<le> sint b \<Longrightarrow> 0 \<le> sint (fxp_mul a b)"
proof -
  assume "0 \<le> sint a" "0 \<le> sint b"
  then have "\<not> sint a * sint b < 0" by (simp add: not_less)
  then show ?thesis using fxp_mul_sign [of a b] by (simp add: is_negative_sint)
qed

lemma sint_to_int: "fxp_to_int a = sint a div 2 ^ 48"
proof -
  define z where "z = sint a div 2 ^ 48"
  have "- (2 ^ 15) \<le> z" "z < 2 ^ 15"
    using zdiv_mono1 [OF sint_bounds(1) [of a], of "2 ^ 48"] sint_bounds(2) [of a] unfolding z_def by simp_all
  then have "signed_take_bit 31 z = z" by (intro signed_take_bit_int_eq_self) simp_all
  moreover have "ucast (signed_drop_bit 48 a) = (word_of_int z :: u32)"
  proof -
    have "signed_drop_bit 48 a = word_of_int z"
      using \<open>- (2 ^ 15) \<le> z\<close> \<open>z < 2 ^ 15\<close>
      by (intro sint_eq_iff [THEN iffD1]) (simp add: sint_signed_drop_bit_eq drop_bit_eq_div sint_of_int_small z_def)
    moreover have "ucast (word_of_int z :: u64) = (word_of_int z :: u32)"
      by (rule bit_word_eqI) (simp add: bit_simps)
    ultimately show ?thesis by simp
  qed
  ultimately show ?thesis by (simp add: fxp_to_int_def sint_sbintrunc' z_def)
qed

lemma div_bounds: "0 < q \<Longrightarrow> x div q * q \<le> x" "0 < q \<Longrightarrow> x < x div q * q + q" for x q :: int
  using pos_mod_bound [of q x] pos_mod_sign [of q x] div_mult_mod_eq [of x q] by linarith+

lemma fxp_reciprocal_pos: "0 < sint a \<Longrightarrow> 0 < sint (fxp_reciprocal a)"
proof -
  assume a: "0 < sint a"
  then have nz: "a \<noteq> 0" by auto
  show ?thesis
  proof (cases "recip_saturates a")
    case True
    then show ?thesis using reciprocal_cases(3) [OF nz] a by (simp add: is_negative_sint sint_max_or_min)
  next
    case False
    then show ?thesis using reciprocal_cases(1,2) [OF nz] a by simp
  qed
qed

lemma half_bounds: "2 \<le> sint a \<Longrightarrow> sint (fxp_half a) = sint a div 2"
  using sint_fxp_half [of a] sint_eq_iff [of a 0] by auto

lemma inv_sqrt_poly: "0 \<le> w \<Longrightarrow> w * (3 / 2 - w\<^sup>2 / 2) \<le> (1 :: real)"
proof -
  assume "0 \<le> w"
  then have "0 \<le> (w - 1)\<^sup>2 * (w + 2)" by simp
  then show ?thesis by (simp add: power2_eq_square field_simps)
qed

lemma inv_sqrt_step_bounds:
  assumes x: "2 ^ 47 - 2 \<le> sint x2" "sint x2 \<le> 2 ^ 47 + 2 ^ 45" and y: "0 < sint y" "sint y \<le> 2 ^ 48 + 2 ^ 46"
  shows "0 < sint (inv_sqrt_step x2 y)" "sint (inv_sqrt_step x2 y) \<le> 2 ^ 48 + 2 ^ 46"
proof -
  define X Y where "X = sint x2" and "Y = sint y"
  have b: "0 < X" "X \<le> 2 ^ 47 + 2 ^ 45" "2 ^ 47 - 2 \<le> X" "0 < Y" "Y \<le> 2 ^ 48 + 2 ^ 46"
    using x y by (simp_all add: X_def Y_def)
  have nz: "x2 \<noteq> 0" "y \<noteq> 0" using x y by auto
  define t1 where "t1 = sint (fxp_mul x2 y)"
  have xy: "X * Y \<le> (2 ^ 47 + 2 ^ 45) * (2 ^ 48 + 2 ^ 46)" using b by (intro mult_mono) simp_all
  have t1: "t1 = max 1 (X * Y div 2 ^ 48)"
    using b xy by (simp add: t1_def sint_fxp_mul nz mul_spec_pos X_def Y_def)
  have t1b: "0 < t1" "t1 \<le> 220000000000000"
    using zdiv_mono1 [OF xy, of "2 ^ 48"] unfolding t1 by (simp_all add: less_max_iff_disj)
  have t1r: "of_int X * of_int Y / 2 ^ 48 - 1 \<le> (of_int t1 :: real)"
    using div_real(1) [of "X * Y" 48] by (simp add: t1 max_def)
  have t1nz: "fxp_mul x2 y \<noteq> 0" using t1b by (auto simp: t1_def)
  define t2 where "t2 = sint (fxp_mul (fxp_mul x2 y) y)"
  have ty: "t1 * Y \<le> 220000000000000 * (2 ^ 48 + 2 ^ 46)" using b t1b by (intro mult_mono) simp_all
  have t2: "t2 = max 1 (t1 * Y div 2 ^ 48)"
    using b t1b ty by (simp add: t2_def sint_fxp_mul nz t1nz mul_spec_pos t1_def [symmetric] Y_def [symmetric])
  have t2b: "0 < t2" "t2 \<le> 275000000000000"
    using zdiv_mono1 [OF ty, of "2 ^ 48"] unfolding t2 by (simp_all add: less_max_iff_disj)
  have t2r: "of_int t1 * of_int Y / 2 ^ 48 - 1 \<le> (of_int t2 :: real)"
    using div_real(1) [of "t1 * Y" 48] by (simp add: t2 max_def)
  define r where "r = sint (fxp_sub c_3_2 (fxp_mul (fxp_mul x2 y) y))"
  have r: "r = 3 * 2 ^ 47 - t2"
    using t2b by (simp add: r_def sint_fxp_sub c_3_2_def t2_def [symmetric])
  have rb: "0 < r" "r < 3 * 2 ^ 47" using t2b by (simp_all add: r)
  have rnz: "fxp_sub c_3_2 (fxp_mul (fxp_mul x2 y) y) \<noteq> 0" using rb by (auto simp: r_def)
  have yr: "Y * r \<le> (2 ^ 48 + 2 ^ 46) * (3 * 2 ^ 47)" using b rb by (intro mult_mono) simp_all
  have res: "sint (inv_sqrt_step x2 y) = max 1 (Y * r div 2 ^ 48)"
    using b rb yr by (simp add: inv_sqrt_step_def sint_fxp_mul nz rnz mul_spec_pos r_def [symmetric] Y_def [symmetric])
  then show "0 < sint (inv_sqrt_step x2 y)" by (simp add: less_max_iff_disj)
  define S :: real where "S = 2 ^ 48"
  define w where "w = of_int Y / S"
  have w: "0 \<le> w" "w \<le> 5 / 4"
    using b of_int_le_iff [of Y "2 ^ 48 + 2 ^ 46", where ?'a = real] by (simp_all add: w_def S_def)
  have Yw: "of_int Y = w * S" by (simp add: w_def S_def)
  have Xr: "S / 2 - 2 \<le> of_int X"
    using b(3) of_int_le_iff [of "2 ^ 47 - 2" X, where ?'a = real] by (simp add: S_def)
  have "(S / 2 - 2) * w - 1 \<le> of_int t1"
    using t1r mult_right_mono [OF Xr w(1)] by (simp add: Yw S_def)
  then have "((S / 2 - 2) * w - 1) * w - 1 \<le> of_int t2"
    using t2r mult_right_mono [of "(S / 2 - 2) * w - 1" "of_int t1" w] w(1) by (simp add: Yw S_def)
  then have "of_int r \<le> 3 / 2 * S - (((S / 2 - 2) * w - 1) * w - 1)"
    by (simp add: r S_def)
  moreover have "3 / 2 * S - (((S / 2 - 2) * w - 1) * w - 1) = S * (3 / 2 - w\<^sup>2 / 2) + (2 * w\<^sup>2 + w + 1)"
    by (simp add: power2_eq_square algebra_simps)
  moreover have "w\<^sup>2 \<le> (5 / 4)\<^sup>2" using w by (intro power_mono) simp_all
  then have "2 * w\<^sup>2 + w + 1 \<le> 6" using w by (simp add: power2_eq_square)
  ultimately have "of_int r \<le> S * (3 / 2 - w\<^sup>2 / 2) + 6" by linarith
  then have "of_int r * w \<le> (S * (3 / 2 - w\<^sup>2 / 2) + 6) * w" using w by (intro mult_right_mono)
  also have "\<dots> = S * (w * (3 / 2 - w\<^sup>2 / 2)) + 6 * w" by (simp add: algebra_simps)
  also have "\<dots> \<le> S * 1 + 6 * (5 / 4)"
    using inv_sqrt_poly [OF w(1)] w by (intro add_mono mult_left_mono) (simp_all add: S_def)
  finally have "of_int (Y * r) / 2 ^ 48 \<le> S + 8" by (simp add: w_def S_def mult.commute)
  then have "of_int (Y * r div 2 ^ 48) \<le> S + 8" using div_real(2) [of "Y * r" 48] by linarith
  then have "Y * r div 2 ^ 48 \<le> 2 ^ 48 + 8" by (simp add: S_def)
  then show "sint (inv_sqrt_step x2 y) \<le> 2 ^ 48 + 2 ^ 46" by (simp add: res)
qed

lemma inv_sqrt_iterate_bounds:
  assumes "2 ^ 47 - 2 \<le> sint x2" "sint x2 \<le> 2 ^ 47 + 2 ^ 45" "0 < sint y" "sint y \<le> 2 ^ 48 + 2 ^ 46"
  shows "0 < sint ((inv_sqrt_step x2 ^^ n) y) \<and> sint ((inv_sqrt_step x2 ^^ n) y) \<le> 2 ^ 48 + 2 ^ 46"
proof (induction n)
  case 0
  then show ?case using assms(3,4) by simp
next
  case (Suc n)
  then show ?case using inv_sqrt_step_bounds [OF assms(1,2), of "(inv_sqrt_step x2 ^^ n) y"] by simp
qed

definition table_ok :: "int \<Rightarrow> bool" where
  "table_ok tr \<longleftrightarrow> 2 ^ 48 * 2 ^ 48 - 3 * 2 ^ 48 \<le> uint (RESCALE ! nat tr) * (2 ^ 48 * (10 + tr) div 10) \<and>
     uint (RESCALE ! nat tr) * (2 ^ 48 * (11 + tr) div 10 + 1) \<le> (2 ^ 48 + 2 ^ 46) * 2 ^ 48 \<and>
     0 < uint (RESCALE ! nat tr) \<and> uint (RESCALE ! nat tr) < 2 ^ 49 \<and>
     0 < uint (RESCALE_INV_SQRT ! nat tr) \<and> uint (RESCALE_INV_SQRT ! nat tr) < 2 ^ 49"

lemma tables_ok: "tr \<in> {1, 2, 3, 4, 5, 6, 7, 8, 9} \<Longrightarrow> table_ok tr"
  by (auto simp: table_ok_def RESCALE_def RESCALE_INV_SQRT_def)

lemma INV_SQRT_2N_pos: "n < 31 \<Longrightarrow> 0 < sint (INV_SQRT_2N ! n)"
proof -
  assume "n < 31"
  then have "n \<in> set [0..<31]" by simp
  then show ?thesis by (simp add: INV_SQRT_2N_def upt_rec) (elim disjE; simp)
qed

lemma inv_sqrt_scaled:
  assumes "0 < sint a" "\<not> fxp_less a inv_sqrt_limit"
  defines "scale2 \<equiv> 48 - fxp_msb a"
  shows "- 14 \<le> scale2" "scale2 \<le> 30" "2 ^ 48 \<le> sint (scale_bits scale2 a)" "sint (scale_bits scale2 a) < 2 ^ 49"
proof -
  have l: "sint inv_sqrt_limit = 2 ^ 18" by (simp add: inv_sqrt_limit_def)
  have "\<bar>sint a - sint inv_sqrt_limit\<bar> < 2 ^ 63"
    using assms(1) sint_bounds(2) [of a] by (simp add: l)
  then have a: "2 ^ 18 \<le> sint a"
    using assms(2) fxp_less_small [of a inv_sqrt_limit] l by simp
  then have ua: "uint a = sint a" using uint_bounds [of a] by (auto simp: sint_of_uint split: if_splits)
  show "scale2 \<le> 30" using fxp_msb_ge [of 18 a] a ua by (simp add: scale2_def)
  show "- 14 \<le> scale2" using fxp_msb_less [of a 63] sint_bounds(2) [of a] ua by (simp add: scale2_def)
  have "a \<noteq> 0" using a by auto
  note sb = scale_bits_general(3,4) [OF this refl, of 48, folded scale2_def]
  have "uint (scale_bits scale2 a) < 2 ^ 49" "2 ^ 48 \<le> uint (scale_bits scale2 a)"
    using sb by (simp_all add: scale2_def)
  moreover from this have "sint (scale_bits scale2 a) = uint (scale_bits scale2 a)"
    by (intro sint_small) simp
  ultimately show "2 ^ 48 \<le> sint (scale_bits scale2 a)" "sint (scale_bits scale2 a) < 2 ^ 49"
    by simp_all
qed

lemma table_index:
  assumes y: "2 ^ 48 \<le> sint y" "sint y < 2 ^ 49"
  defines "tr \<equiv> fxp_to_int (fxp_mul (fxp_sub y c_1) c_10)"
  shows "0 \<le> tr" "tr \<le> 9" "2 ^ 48 * (10 + tr) \<le> sint y * 10" "sint y * 10 < 2 ^ 48 * (11 + tr)"
proof -
  define e where "e = sint y - 2 ^ 48"
  have e: "0 \<le> e" "e < 2 ^ 48" using y by (simp_all add: e_def)
  have s: "sint (fxp_sub y c_1) = e" using e by (simp add: sint_fxp_sub c_1_def e_def)
  have c: "sint c_10 = 10 * 2 ^ 48" "c_10 \<noteq> 0" by (simp_all add: c_10_def)
  have "sint (fxp_mul (fxp_sub y c_1) c_10) = 10 * e"
  proof (cases "e = 0")
    case True
    then have "fxp_sub y c_1 = 0" using s sint_eq_iff [of "fxp_sub y c_1" 0] by simp
    then show ?thesis using True by simp
  next
    case False
    then have "fxp_sub y c_1 \<noteq> 0" using s by auto
    moreover have "mul_spec e (10 * 2 ^ 48) = max 1 (e * (10 * 2 ^ 48) div 2 ^ 48)"
      using False e by (intro mul_spec_pos) simp_all
    ultimately show ?thesis using False e by (simp add: sint_fxp_mul c s)
  qed
  then have tr: "tr = 10 * e div 2 ^ 48" by (simp add: tr_def sint_to_int)
  have "tr * 2 ^ 48 \<le> 10 * e" "10 * e < tr * 2 ^ 48 + 2 ^ 48"
    unfolding tr by (rule div_bounds, simp)+
  then show "2 ^ 48 * (10 + tr) \<le> sint y * 10" "sint y * 10 < 2 ^ 48 * (11 + tr)"
    by (simp_all add: e_def)
  show "0 \<le> tr" "tr \<le> 9"
    using e \<open>tr * 2 ^ 48 \<le> 10 * e\<close> \<open>10 * e < tr * 2 ^ 48 + 2 ^ 48\<close> by simp_all
qed

lemma rescaled_bounds:
  assumes y: "2 ^ 48 * (10 + tr) \<le> sint y * 10" "sint y * 10 < 2 ^ 48 * (11 + tr)" and tr: "1 \<le> tr" "tr \<le> 9"
  shows "2 ^ 48 - 3 \<le> sint (fxp_mul y (RESCALE ! nat tr))" "sint (fxp_mul y (RESCALE ! nat tr)) \<le> 2 ^ 48 + 2 ^ 46"
proof -
  have "tr \<in> {1, 2, 3, 4, 5, 6, 7, 8, 9}" using tr by auto
  then have t: "table_ok tr" by (rule tables_ok)
  define R Y where "R = uint (RESCALE ! nat tr)" and "Y = sint y"
  note t = t [unfolded table_ok_def, folded R_def]
  have sR: "sint (RESCALE ! nat tr) = R" using t by (simp add: R_def sint_small)
  have Y: "2 ^ 48 * (10 + tr) div 10 \<le> Y" "Y \<le> 2 ^ 48 * (11 + tr) div 10 + 1" "0 < Y" "Y \<le> 2 ^ 49"
    using y tr unfolding Y_def by auto
  have R: "0 < R" "R < 2 ^ 49" using t by simp_all
  have "Y * R \<le> 2 ^ 49 * 2 ^ 49" using Y R by (intro mult_mono) simp_all
  then have m: "sint (fxp_mul y (RESCALE ! nat tr)) = max 1 (Y * R div 2 ^ 48)"
    using Y(3) R sR by (subst sint_fxp_mul) (auto simp: Y_def mul_spec_pos)
  have "R * (2 ^ 48 * (10 + tr) div 10) \<le> Y * R"
    using mult_right_mono [OF Y(1), of R] R by (simp add: mult.commute)
  then have "(2 ^ 48 - 3) * 2 ^ 48 \<le> Y * R"
    using t [THEN conjunct1] unfolding left_diff_distrib by linarith
  then have lo: "2 ^ 48 - 3 \<le> Y * R div 2 ^ 48" using zdiv_mono1 [of "(2 ^ 48 - 3) * 2 ^ 48" "Y * R" "2 ^ 48"] by simp
  have "Y * R \<le> R * (2 ^ 48 * (11 + tr) div 10 + 1)"
    using mult_right_mono [OF Y(2), of R] R by (simp add: mult.commute)
  then have "Y * R \<le> (2 ^ 48 + 2 ^ 46) * 2 ^ 48" using t by linarith
  then have hi: "Y * R div 2 ^ 48 \<le> 2 ^ 48 + 2 ^ 46" using zdiv_mono1 [of "Y * R" "(2 ^ 48 + 2 ^ 46) * 2 ^ 48" "2 ^ 48"] by simp
  show "2 ^ 48 - 3 \<le> sint (fxp_mul y (RESCALE ! nat tr))" "sint (fxp_mul y (RESCALE ! nat tr)) \<le> 2 ^ 48 + 2 ^ 46"
    unfolding m using lo hi by simp_all
qed

lemma scale_back_pos:
  assumes "0 < sint y" "- 14 \<le> scale2" "scale2 \<le> 30"
  obtains y' s where "scale_back y scale2 = (y', s)" "0 < sint y'" "- 14 \<le> s" "s \<le> 15"
proof (cases "15 < scale2")
  case True
  then have "scale_back y scale2 = (fxp_mul y (INV_SQRT_2N ! 0), scale2 - 15)"
    using assms(3) by (simp add: scale_back.simps [of y scale2] scale_back.simps [of "fxp_mul y (INV_SQRT_2N ! 0)" "scale2 - 15"])
  then show thesis using assms True fxp_mul_pos [OF assms(1) INV_SQRT_2N_pos [of 0]] that by auto
next
  case False
  then show thesis using assms that by (simp add: scale_back.simps [of y scale2])
qed

lemma fxp_inv_sqrt_pos:
  assumes "0 < sint a"
  shows "0 < sint (fxp_inv_sqrt a)"
proof (cases "fxp_less a inv_sqrt_limit")
  case True
  moreover have "a \<noteq> 0" using assms by auto
  ultimately show ?thesis using assms by (simp add: fxp_inv_sqrt_def is_negative_sint)
next
  case False
  define scale2 where "scale2 = 48 - fxp_msb a"
  define y where "y = scale_bits scale2 a"
  note sc = inv_sqrt_scaled [OF assms False, folded scale2_def y_def]
  define tr where "tr = fxp_to_int (fxp_mul (fxp_sub y c_1) c_10)"
  note ti = table_index [OF sc(3,4), folded tr_def]
  define resc where "resc = (if 0 < tr then RESCALE_INV_SQRT ! nat tr else c_1)"
  define y1 where "y1 = (if 0 < tr then fxp_mul y (RESCALE ! nat tr) else y)"
  have y1: "2 ^ 48 - 3 \<le> sint y1" "sint y1 \<le> 2 ^ 48 + 2 ^ 46"
    using rescaled_bounds [OF ti(3,4)] ti sc(3) by (auto simp: y1_def)
  have resc: "0 < sint resc"
  proof (cases "0 < tr")
    case True
    have "tr \<in> {1, 2, 3, 4, 5, 6, 7, 8, 9}" using ti True by auto
    from tables_ok [OF this] show ?thesis using True by (simp add: resc_def table_ok_def sint_small)
  next
    case False
    then show ?thesis by (simp add: resc_def c_1_def)
  qed
  have h: "2 ^ 47 - 2 \<le> sint (fxp_half y1)" "sint (fxp_half y1) \<le> 2 ^ 47 + 2 ^ 45"
    using half_bounds [of y1] zdiv_mono1 [OF y1(1), of 2] zdiv_mono1 [OF y1(2), of 2] y1(1) by simp_all
  define y2 where "y2 = (inv_sqrt_step (fxp_half y1) ^^ 6) y1"
  have y2: "0 < sint y2"
    using inv_sqrt_iterate_bounds [OF h _ y1(2)] y1(1) by (simp add: y2_def)
  obtain y3 s where y3: "scale_back y2 scale2 = (y3, s)" "0 < sint y3" "- 14 \<le> s" "s \<le> 15"
    by (rule scale_back_pos [OF y2 sc(1,2)])
  define y4 where "y4 = (if s \<noteq> 0 then fxp_mul y3 (INV_SQRT_2N ! nat (15 - s)) else y3)"
  have y4: "0 < sint y4"
    using y3 by (auto simp: y4_def intro!: fxp_mul_pos INV_SQRT_2N_pos)
  define y5 where "y5 = (if resc \<noteq> c_1 then fxp_mul y4 resc else y4)"
  have y5: "0 < sint y5" using y4 resc by (auto simp: y5_def intro: fxp_mul_pos)
  have "fxp_inv_sqrt a = (if y5 = 0 then fxp_eps True else y5)"
  proof -
    have p: "(if 0 < tr then (RESCALE_INV_SQRT ! nat tr, fxp_mul y (RESCALE ! nat tr)) else (c_1, y)) = (resc, y1)"
      by (simp add: resc_def y1_def)
    have c: "\<not> (fxp_is_negative a \<or> a = 0)" using assms by (auto simp: is_negative_sint)
    show ?thesis
      unfolding fxp_inv_sqrt_def Let_def if_not_P [OF c] if_not_P [OF False] scale2_def [symmetric] y_def [symmetric]
        tr_def [symmetric] p prod.case y2_def [symmetric] y3(1) y4_def [symmetric] y5_def [symmetric] ..
  qed
  then show ?thesis using y5 by auto
qed

lemma fxp_sqrt_total:
  assumes "0 \<le> sint a"
  obtains r where "fxp_sqrt a = Some r" "0 \<le> sint r" "0 < sint a \<Longrightarrow> 0 < sint r"
proof (cases "a = 0")
  case True
  then show thesis using that by (simp add: fxp_sqrt_def is_negative_sint)
next
  case False
  then have "0 < sint a" using assms sint_eq_iff [of a 0] by simp
  then have i: "0 < sint (fxp_inv_sqrt a)" by (rule fxp_inv_sqrt_pos)
  then have "0 < sint (fxp_reciprocal (fxp_inv_sqrt a))" by (rule fxp_reciprocal_pos)
  then show thesis using False assms that by (simp add: fxp_sqrt_def is_negative_sint)
qed

end
