(* ===== verification/Siphash.thy ===== *)
theory Siphash
  imports Prelude
begin

section \<open>SipHash-2-4 on one, four and eight lanes\<close>

text \<open>
  \<^verbatim>\<open>src/src/pow/siphash.hpp\<close>: the keyed hash that places the stars.  A block of stars is hashed several lanes at a time
  with SSE2 instructions (the branch the build selects, \<^verbatim>\<open>-msse4.1\<close>), a single star with the scalar code.  A register of
  128 bits is a pair of 64-bit lanes; the intrinsics are written out on the lanes as Intel documents them.  The keys are
  the Blake2b digest of a message; \<^verbatim>\<open>blake2b\<close> is vendored code and a parameter (\<open>digest\<close>).
\<close>

datatype pow_error = Out_of_bounds | Assertion_failed | Int_overflow | Null_pointer

type_synonym 'a pow = "(pow_error, 'a) res"

subsection \<open>Keys\<close>

record siphash_keys =
  k0 :: u64
  k1 :: u64
  k2 :: u64
  k3 :: u64

definition l_shift :: "nat \<Rightarrow> u8 \<Rightarrow> u64" where
  "l_shift shift u = push_bit shift (ucast u)"

primrec u64_n :: "nat \<Rightarrow> u8 list \<Rightarrow> u64" where
  "u64_n 0 u8s = l_shift 0 (u8s ! 0)"
| "u64_n (Suc n) u8s = l_shift (Suc n * 8) (u8s ! Suc n) OR u64_n n u8s"

definition u64_of :: "nat \<Rightarrow> u8 list \<Rightarrow> u64" where
  "u64_of n u8s = u64_n (n - 1) u8s"

definition set_internal :: "u8 list \<Rightarrow> siphash_keys" where
  "set_internal d32 =
     \<lparr>k0 = u64_of 8 d32, k1 = u64_of 8 (drop 8 d32), k2 = u64_of 8 (drop 16 d32), k3 = u64_of 8 (drop 24 d32)\<rparr>"

definition siphash_keys_of :: "(u8 list \<Rightarrow> u8 list) \<Rightarrow> u8 list \<Rightarrow> siphash_keys" where
  "siphash_keys_of digest msg = set_internal (digest msg)"

definition siphash_keys_compat :: "(u8 list \<Rightarrow> u8 list) \<Rightarrow> u8 list \<Rightarrow> siphash_keys" where
  "siphash_keys_compat digest msg =
     (let k = set_internal (digest msg); a = k0 k; b = k1 k
      in \<lparr>k0 = a XOR 0x736f6d6570736575, k1 = b XOR 0x646f72616e646f6d,
          k2 = a XOR 0x6c7967656e657261, k3 = b XOR 0x7465646279746573\<rparr>)"

subsection \<open>The scalar hash\<close>

definition SIP_ROTL :: "u64 \<Rightarrow> nat \<Rightarrow> u64" where
  "SIP_ROTL x b = push_bit b x OR drop_bit (64 - b) x"

type_synonym 'a sip_state = "'a \<times> 'a \<times> 'a \<times> 'a"

definition SIPROUND :: "u64 sip_state \<Rightarrow> u64 sip_state" where
  "SIPROUND v =
     (let (v0, v1, v2, v3) = v;
          v0 = v0 + v1; v2 = v2 + v3; v1 = SIP_ROTL v1 13;
          v3 = SIP_ROTL v3 16; v1 = v1 XOR v0; v3 = v3 XOR v2;
          v0 = SIP_ROTL v0 32; v2 = v2 + v1; v0 = v0 + v3;
          v1 = SIP_ROTL v1 17; v3 = SIP_ROTL v3 21;
          v1 = v1 XOR v2; v3 = v3 XOR v0; v2 = SIP_ROTL v2 32
      in (v0, v1, v2, v3))"

definition siphash_1 :: "siphash_keys \<Rightarrow> u64 \<Rightarrow> u64" where
  "siphash_1 keys nonce =
     (let v = (k0 keys, k1 keys, k2 keys, k3 keys XOR nonce);
          v = SIPROUND (SIPROUND v);
          (v0, v1, v2, v3) = v;
          v = (v0 XOR nonce, v1, v2 XOR 0xff, v3);
          v = SIPROUND (SIPROUND (SIPROUND (SIPROUND v)));
          (v0, v1, v2, v3) = v
      in (v0 XOR v1) XOR (v2 XOR v3))"

subsection \<open>Registers of two lanes\<close>

type_synonym m128i = "u64 \<times> u64"

definition mm_set1_epi64x :: "u64 \<Rightarrow> m128i" where "mm_set1_epi64x x = (x, x)"
definition mm_set_epi64x :: "u64 \<Rightarrow> u64 \<Rightarrow> m128i" where "mm_set_epi64x hi lo = (lo, hi)"
definition mm_extract_epi64 :: "m128i \<Rightarrow> nat \<Rightarrow> u64" where "mm_extract_epi64 x i = (if i = 0 then fst x else snd x)"

definition SIP_ADD :: "m128i \<Rightarrow> m128i \<Rightarrow> m128i" where "SIP_ADD a b = (fst a + fst b, snd a + snd b)"
definition SIP_XOR :: "m128i \<Rightarrow> m128i \<Rightarrow> m128i" where "SIP_XOR a b = (fst a XOR fst b, snd a XOR snd b)"

definition mm_or :: "m128i \<Rightarrow> m128i \<Rightarrow> m128i" where "mm_or a b = (fst a OR fst b, snd a OR snd b)"
definition mm_slli_epi64 :: "m128i \<Rightarrow> nat \<Rightarrow> m128i" where "mm_slli_epi64 x n = (push_bit n (fst x), push_bit n (snd x))"
definition mm_srli_epi64 :: "m128i \<Rightarrow> nat \<Rightarrow> m128i" where "mm_srli_epi64 x n = (drop_bit n (fst x), drop_bit n (snd x))"

text \<open>The shuffles: \<open>_MM_SHUFFLE(s3,s2,s1,s0)\<close> puts part \<open>s0\<close> of the source lowest.\<close>

definition part :: "nat \<Rightarrow> nat \<Rightarrow> u64 \<Rightarrow> u64" where
  "part w i x = take_bit w (drop_bit (w * i) x)"

definition shuffle_16 :: "nat \<Rightarrow> nat \<Rightarrow> nat \<Rightarrow> nat \<Rightarrow> u64 \<Rightarrow> u64" where
  "shuffle_16 s3 s2 s1 s0 x =
     part 16 s0 x OR push_bit 16 (part 16 s1 x) OR push_bit 32 (part 16 s2 x) OR push_bit 48 (part 16 s3 x)"

definition mm_shufflelo_epi16 :: "nat \<Rightarrow> nat \<Rightarrow> nat \<Rightarrow> nat \<Rightarrow> m128i \<Rightarrow> m128i" where
  "mm_shufflelo_epi16 s3 s2 s1 s0 x = (shuffle_16 s3 s2 s1 s0 (fst x), snd x)"

definition mm_shufflehi_epi16 :: "nat \<Rightarrow> nat \<Rightarrow> nat \<Rightarrow> nat \<Rightarrow> m128i \<Rightarrow> m128i" where
  "mm_shufflehi_epi16 s3 s2 s1 s0 x = (fst x, shuffle_16 s3 s2 s1 s0 (snd x))"

definition mm_shuffle_epi32 :: "nat \<Rightarrow> nat \<Rightarrow> nat \<Rightarrow> nat \<Rightarrow> m128i \<Rightarrow> m128i" where
  "mm_shuffle_epi32 s3 s2 s1 s0 x =
     (let p = \<lambda>i. if i < 2 then part 32 i (fst x) else part 32 (i - 2) (snd x)
      in (p s0 OR push_bit 32 (p s1), p s2 OR push_bit 32 (p s3)))"

definition SIP_ROT13 :: "m128i \<Rightarrow> m128i" where "SIP_ROT13 x = mm_or (mm_slli_epi64 x 13) (mm_srli_epi64 x 51)"
definition SIP_ROT16 :: "m128i \<Rightarrow> m128i" where "SIP_ROT16 x = mm_shufflehi_epi16 2 1 0 3 (mm_shufflelo_epi16 2 1 0 3 x)"
definition SIP_ROT17 :: "m128i \<Rightarrow> m128i" where "SIP_ROT17 x = mm_or (mm_slli_epi64 x 17) (mm_srli_epi64 x 47)"
definition SIP_ROT21 :: "m128i \<Rightarrow> m128i" where "SIP_ROT21 x = mm_or (mm_slli_epi64 x 21) (mm_srli_epi64 x 43)"
definition SIP_ROT32 :: "m128i \<Rightarrow> m128i" where "SIP_ROT32 x = mm_shuffle_epi32 2 3 0 1 x"

definition SIPROUNDXN :: "m128i sip_state \<Rightarrow> m128i sip_state" where
  "SIPROUNDXN v =
     (let (v0, v1, v2, v3) = v;
          v0 = SIP_ADD v0 v1; v2 = SIP_ADD v2 v3; v1 = SIP_ROT13 v1;
          v3 = SIP_ROT16 v3; v1 = SIP_XOR v1 v0; v3 = SIP_XOR v3 v2;
          v0 = SIP_ROT32 v0; v2 = SIP_ADD v2 v1; v0 = SIP_ADD v0 v3;
          v1 = SIP_ROT17 v1; v3 = SIP_ROT21 v3;
          v1 = SIP_XOR v1 v2; v3 = SIP_XOR v3 v0; v2 = SIP_ROT32 v2
      in (v0, v1, v2, v3))"

definition SIPROUNDX2N :: "m128i sip_state \<times> m128i sip_state \<Rightarrow> m128i sip_state \<times> m128i sip_state" where
  "SIPROUNDX2N v =
     (let ((v0, v1, v2, v3), (v4, v5, v6, v7)) = v;
          v0 = SIP_ADD v0 v1; v4 = SIP_ADD v4 v5;
          v2 = SIP_ADD v2 v3; v6 = SIP_ADD v6 v7;
          v1 = SIP_ROT13 v1; v5 = SIP_ROT13 v5;
          v3 = SIP_ROT16 v3; v7 = SIP_ROT16 v7;
          v1 = SIP_XOR v1 v0; v5 = SIP_XOR v5 v4;
          v3 = SIP_XOR v3 v2; v7 = SIP_XOR v7 v6;
          v0 = SIP_ROT32 v0; v4 = SIP_ROT32 v4;
          v2 = SIP_ADD v2 v1; v6 = SIP_ADD v6 v5;
          v0 = SIP_ADD v0 v3; v4 = SIP_ADD v4 v7;
          v1 = SIP_ROT17 v1; v5 = SIP_ROT17 v5;
          v3 = SIP_ROT21 v3; v7 = SIP_ROT21 v7;
          v1 = SIP_XOR v1 v2; v5 = SIP_XOR v5 v6;
          v3 = SIP_XOR v3 v0; v7 = SIP_XOR v7 v4;
          v2 = SIP_ROT32 v2; v6 = SIP_ROT32 v6
      in ((v0, v1, v2, v3), (v4, v5, v6, v7)))"

definition siphash_2 :: "siphash_keys \<Rightarrow> u64 \<Rightarrow> u64 \<Rightarrow> u64 list" where
  "siphash_2 keys in1 in2 =
     (let v0 = mm_set1_epi64x (k0 keys); v1 = mm_set1_epi64x (k1 keys);
          v2 = mm_set1_epi64x (k2 keys); v3 = mm_set1_epi64x (k3 keys);
          mi = mm_set_epi64x in2 in1;
          v3 = SIP_XOR v3 mi;
          (v0, v1, v2, v3) = SIPROUNDXN (SIPROUNDXN (v0, v1, v2, v3));
          v0 = SIP_XOR v0 mi;
          v2 = SIP_XOR v2 (mm_set1_epi64x 0xff);
          (v0, v1, v2, v3) = SIPROUNDXN (SIPROUNDXN (SIPROUNDXN (SIPROUNDXN (v0, v1, v2, v3))));
          mi = SIP_XOR (SIP_XOR v0 v1) (SIP_XOR v2 v3)
      in [mm_extract_epi64 mi 0, mm_extract_epi64 mi 1])"

definition siphash_4 :: "siphash_keys \<Rightarrow> u64 \<Rightarrow> u64 \<Rightarrow> u64 \<Rightarrow> u64 \<Rightarrow> u64 list" where
  "siphash_4 keys in1 in2 in3 in4 =
     (let v0 = mm_set1_epi64x (k0 keys); v4 = v0; v1 = mm_set1_epi64x (k1 keys); v5 = v1;
          v2 = mm_set1_epi64x (k2 keys); v6 = v2; v3 = mm_set1_epi64x (k3 keys); v7 = v3;
          mi = mm_set_epi64x in2 in1; m2 = mm_set_epi64x in4 in3;
          v3 = SIP_XOR v3 mi; v7 = SIP_XOR v7 m2;
          ((v0, v1, v2, v3), (v4, v5, v6, v7)) =
            SIPROUNDX2N (SIPROUNDX2N ((v0, v1, v2, v3), (v4, v5, v6, v7)));
          v0 = SIP_XOR v0 mi; v4 = SIP_XOR v4 m2;
          v2 = SIP_XOR v2 (mm_set1_epi64x 0xff); v6 = SIP_XOR v6 (mm_set1_epi64x 0xff);
          ((v0, v1, v2, v3), (v4, v5, v6, v7)) =
            SIPROUNDX2N (SIPROUNDX2N (SIPROUNDX2N (SIPROUNDX2N ((v0, v1, v2, v3), (v4, v5, v6, v7)))));
          mi = SIP_XOR (SIP_XOR v0 v1) (SIP_XOR v2 v3); m2 = SIP_XOR (SIP_XOR v4 v5) (SIP_XOR v6 v7)
      in [mm_extract_epi64 mi 0, mm_extract_epi64 mi 1, mm_extract_epi64 m2 0, mm_extract_epi64 m2 1])"

definition siphash_8 :: "siphash_keys \<Rightarrow> u64 \<Rightarrow> u64 \<Rightarrow> u64 \<Rightarrow> u64 \<Rightarrow> u64 \<Rightarrow> u64 \<Rightarrow> u64 \<Rightarrow> u64 \<Rightarrow> u64 list" where
  "siphash_8 keys in1 in2 in3 in4 in5 in6 in7 in8 = siphash_4 keys in1 in2 in3 in4 @ siphash_4 keys in5 in6 in7 in8"

subsection \<open>Ranges\<close>

definition siphash_lanes :: "nat \<Rightarrow> siphash_keys \<Rightarrow> u64 \<Rightarrow> u64 list pow" where
  "siphash_lanes n keys nonce =
     (if n = 1 then ok [siphash_1 keys nonce]
      else if n = 4 then ok (siphash_4 keys nonce (nonce + 1) (nonce + 2) (nonce + 3))
      else if n = 8 then
        ok (siphash_8 keys nonce (nonce + 1) (nonce + 2) (nonce + 3) (nonce + 4) (nonce + 5) (nonce + 6) (nonce + 7))
      else throw Assertion_failed)"

text \<open>Writing \<open>n\<close> hashes from position \<open>i\<close> of the caller's array; past its end the behaviour is undefined.\<close>

definition siphash_at :: "nat \<Rightarrow> siphash_keys \<Rightarrow> u64 \<Rightarrow> nat \<Rightarrow> u64 list \<Rightarrow> u64 list pow" where
  "siphash_at n keys start i out =
     (if i + n \<le> length out then
        bindR (siphash_lanes n keys (start + of_nat i)) (\<lambda>hs. ok (take i out @ hs @ drop (i + n) out))
      else throw Out_of_bounds)"

function siphash_loop :: "nat \<Rightarrow> siphash_keys \<Rightarrow> u64 \<Rightarrow> nat \<Rightarrow> nat \<Rightarrow> u64 list \<Rightarrow> (nat \<times> u64 list) pow" where
  "siphash_loop lanes keys start n i out =
     (if (if lanes = 1 then i < n else i + lanes < n) \<and> lanes \<noteq> 0
      then bindR (siphash_at lanes keys start i out) (\<lambda>out. siphash_loop lanes keys start n (i + lanes) out)
      else ok (i, out))"
  by pat_completeness auto
termination by (relation "measure (\<lambda>(lanes, keys, start, n, i, out). n - i)") (auto split: if_splits)

declare siphash_loop.simps [simp del]

definition siphash :: "siphash_keys \<Rightarrow> u64 \<Rightarrow> u64 \<Rightarrow> u64 list \<Rightarrow> u64 list pow" where
  "siphash keys start stop out =
     (let n = unat (stop - start)
      in bindR (siphash_loop 8 keys start n 0 out) (\<lambda>(i, out).
         bindR (siphash_loop 4 keys start n i out) (\<lambda>(i, out).
         bindR (siphash_loop 1 keys start n i out) (\<lambda>(i, out). ok out))))"

subsection \<open>The lanes compute the scalar hash\<close>

lemma bit_beyond: "64 \<le> n \<Longrightarrow> \<not> bit (x :: u64) n"
  by (auto dest: bit_imp_le_length)

lemma rot16_shuffle: "shuffle_16 2 1 0 3 x = SIP_ROTL x 16"
proof (rule bit_word_eqI)
  fix n
  assume "n < LENGTH(64)"
  then consider "n < 16" | m where "n = 16 + m" "m < 16" | m where "n = 32 + m" "m < 16" | m where "n = 48 + m" "m < 16"
    using le_Suc_ex [of 16 n] le_Suc_ex [of 32 n] le_Suc_ex [of 48 n] by (cases "n < 16"; cases "n < 32"; cases "n < 48"; force)
  then show "bit (shuffle_16 2 1 0 3 x) n = bit (SIP_ROTL x 16) n"
    by cases (simp_all add: shuffle_16_def part_def SIP_ROTL_def bit_simps bit_beyond)
qed

lemma rot32_shuffle: "part 32 1 x OR push_bit 32 (part 32 0 x) = SIP_ROTL x 32"
proof (rule bit_word_eqI)
  fix n
  assume "n < LENGTH(64)"
  then consider "n < 32" | m where "n = 32 + m" "m < 32"
    using le_Suc_ex [of 32 n] by (cases "n < 32"; force)
  then show "bit (part 32 1 x OR push_bit 32 (part 32 0 x)) n = bit (SIP_ROTL x 32) n"
    by cases (simp_all add: part_def SIP_ROTL_def bit_simps bit_beyond)
qed

definition both :: "u64 sip_state \<Rightarrow> u64 sip_state \<Rightarrow> m128i sip_state" where
  "both a b = (let (a0, a1, a2, a3) = a; (b0, b1, b2, b3) = b in ((a0, b0), (a1, b1), (a2, b2), (a3, b3)))"

lemma lane_ops:
  "SIP_ADD (a, b) (c, d) = (a + c, b + d)" "SIP_XOR (a, b) (c, d) = (a XOR c, b XOR d)"
  "SIP_ROT13 (a, b) = (SIP_ROTL a 13, SIP_ROTL b 13)" "SIP_ROT16 (a, b) = (SIP_ROTL a 16, SIP_ROTL b 16)"
  "SIP_ROT17 (a, b) = (SIP_ROTL a 17, SIP_ROTL b 17)" "SIP_ROT21 (a, b) = (SIP_ROTL a 21, SIP_ROTL b 21)"
  "SIP_ROT32 (a, b) = (SIP_ROTL a 32, SIP_ROTL b 32)"
  by (simp_all add: SIP_ADD_def SIP_XOR_def SIP_ROT13_def SIP_ROT16_def SIP_ROT17_def SIP_ROT21_def SIP_ROT32_def
      mm_or_def mm_slli_epi64_def mm_srli_epi64_def mm_shufflelo_epi16_def mm_shufflehi_epi16_def mm_shuffle_epi32_def
      rot16_shuffle [unfolded One_nat_def] rot32_shuffle [unfolded One_nat_def] Let_def) (simp_all add: SIP_ROTL_def)

lemma SIPROUNDXN_both: "SIPROUNDXN (both a b) = both (SIPROUND a) (SIPROUND b)"
  by (cases a; cases b) (simp add: SIPROUNDXN_def SIPROUND_def both_def lane_ops Let_def)

lemma SIPROUNDX2N_pair: "SIPROUNDX2N (v, w) = (SIPROUNDXN v, SIPROUNDXN w)"
  by (cases v; cases w) (simp add: SIPROUNDX2N_def SIPROUNDXN_def Let_def)

lemma siphash_2_scalar: "siphash_2 keys in1 in2 = [siphash_1 keys in1, siphash_1 keys in2]"
proof -
  define a b where "a = SIPROUND (SIPROUND (k0 keys, k1 keys, k2 keys, k3 keys XOR in1))"
    and "b = SIPROUND (SIPROUND (k0 keys, k1 keys, k2 keys, k3 keys XOR in2))"
  obtain a0 a1 a2 a3 b0 b1 b2 b3 where ab: "a = (a0, a1, a2, a3)" "b = (b0, b1, b2, b3)" by (cases a; cases b)
  define c d where "c = SIPROUND (SIPROUND (SIPROUND (SIPROUND (a0 XOR in1, a1, a2 XOR 0xff, a3))))"
    and "d = SIPROUND (SIPROUND (SIPROUND (SIPROUND (b0 XOR in2, b1, b2 XOR 0xff, b3))))"
  obtain c0 c1 c2 c3 d0 d1 d2 d3 where cd: "c = (c0, c1, c2, c3)" "d = (d0, d1, d2, d3)" by (cases c; cases d)
  have 1: "SIPROUNDXN (SIPROUNDXN ((k0 keys, k0 keys), (k1 keys, k1 keys), (k2 keys, k2 keys), (k3 keys XOR in1, k3 keys XOR in2))) = both a b"
    using SIPROUNDXN_both [of "(k0 keys, k1 keys, k2 keys, k3 keys XOR in1)" "(k0 keys, k1 keys, k2 keys, k3 keys XOR in2)"]
    by (simp add: both_def [of "(k0 keys, k1 keys, k2 keys, k3 keys XOR in1)" "(k0 keys, k1 keys, k2 keys, k3 keys XOR in2)"] SIPROUNDXN_both a_def b_def)
  have 2: "SIPROUNDXN (SIPROUNDXN (SIPROUNDXN (SIPROUNDXN ((a0 XOR in1, b0 XOR in2), (a1, b1), (a2 XOR 0xff, b2 XOR 0xff), (a3, b3))))) = both c d"
    using SIPROUNDXN_both [of "(a0 XOR in1, a1, a2 XOR 0xff, a3)" "(b0 XOR in2, b1, b2 XOR 0xff, b3)"]
    by (simp add: both_def [of "(a0 XOR in1, a1, a2 XOR 0xff, a3)" "(b0 XOR in2, b1, b2 XOR 0xff, b3)"] SIPROUNDXN_both c_def d_def)
  have s: "siphash_1 keys in1 = (c0 XOR c1) XOR (c2 XOR c3)" "siphash_1 keys in2 = (d0 XOR d1) XOR (d2 XOR d3)"
    using ab cd by (simp_all add: siphash_1_def Let_def a_def b_def c_def d_def)
  show ?thesis
    by (simp add: siphash_2_def Let_def mm_set1_epi64x_def mm_set_epi64x_def lane_ops 1 2 both_def ab cd s mm_extract_epi64_def)
qed

lemma siphash_4_split: "siphash_4 keys in1 in2 in3 in4 = siphash_2 keys in1 in2 @ siphash_2 keys in3 in4"
  by (simp add: siphash_4_def siphash_2_def Let_def SIPROUNDX2N_pair split: prod.splits)

lemma siphash_8_scalar:
  "siphash_8 keys a b c d e f g h = map (siphash_1 keys) [a, b, c, d, e, f, g, h]"
  by (simp add: siphash_8_def siphash_4_split siphash_2_scalar)

definition scalar_block :: "siphash_keys \<Rightarrow> u64 \<Rightarrow> nat \<Rightarrow> u64 list" where
  "scalar_block keys start n = map (\<lambda>i. siphash_1 keys (start + of_nat i)) [0..<n]"

lemma siphash_lanes_scalar:
  "n \<in> {1, 4, 8} \<Longrightarrow> siphash_lanes n keys nonce = ok (scalar_block keys nonce n)"
  by (auto simp: siphash_lanes_def siphash_8_scalar siphash_4_split siphash_2_scalar scalar_block_def upt_rec)

lemma siphash_at_scalar:
  assumes "n \<in> {1, 4, 8}"
  shows "siphash_at n keys start i (scalar_block keys start i @ rest) =
     (if n \<le> length rest then ok (scalar_block keys start (i + n) @ drop n rest) else throw Out_of_bounds)"
proof -
  have b: "scalar_block keys start i @ scalar_block keys (start + of_nat i) n = scalar_block keys start (i + n)"
    by (rule nth_equalityI) (auto simp: scalar_block_def nth_append ac_simps of_nat_diff)
  have l: "length (scalar_block keys start i) = i" by (simp add: scalar_block_def)
  show ?thesis
    using assms by (simp add: siphash_at_def l siphash_lanes_scalar b [symmetric])
qed

text \<open>A loop stops at some position that is not past the end, with the array filled up to it, or runs over the array.\<close>

lemma siphash_loop_scalar:
  assumes "lanes \<in> {1, 4, 8}" and "i \<le> n" "n \<le> i + length rest"
  shows "\<exists>j rest'. siphash_loop lanes keys start n i (scalar_block keys start i @ rest) = ok (j, scalar_block keys start j @ rest') \<and>
     i \<le> j \<and> j \<le> n \<and> rest' = drop (j - i) rest \<and> (lanes = 1 \<longrightarrow> j = n)"
  using assms(2,3)
proof (induction "n - i" arbitrary: i rest rule: less_induct)
  case less
  let ?c = "if lanes = 1 then i < n else i + lanes < n"
  have l: "lanes \<noteq> 0" "lanes \<in> {1, 4, 8}" using assms(1) by auto
  show ?case
  proof (cases ?c)
    case True
    then have le: "i + lanes \<le> n" "lanes \<le> length rest" "i < n"
      using less.prems by (auto split: if_splits)
    have step: "siphash_loop lanes keys start n i (scalar_block keys start i @ rest) =
        siphash_loop lanes keys start n (i + lanes) (scalar_block keys start (i + lanes) @ drop lanes rest)"
      using True l(1) le(2) by (simp add: siphash_loop.simps [of lanes keys start n i] siphash_at_scalar [OF l(2)])
    have "n - (i + lanes) < n - i" "n \<le> i + lanes + length (drop lanes rest)" using le l less.prems by auto
    from less.hyps [OF this(1) le(1) this(2)] show ?thesis
      unfolding step by (auto simp: le_diff_conv2 add.commute)
  next
    case False
    then have s: "siphash_loop lanes keys start n i (scalar_block keys start i @ rest) = ok (i, scalar_block keys start i @ rest)"
      by (simp add: siphash_loop.simps [of lanes keys start n i])
    have "lanes = 1 \<longrightarrow> i = n" using False less.prems by (auto split: if_splits)
    then show ?thesis unfolding s using less.prems(1)
      by (intro exI [of _ i] exI [of _ rest]) simp
  qed
qed

lemma siphash_loop_overrun:
  assumes "lanes \<in> {1, 4, 8}" and "i + length rest < n"
  shows "siphash_loop lanes keys start n i (scalar_block keys start i @ rest) = throw Out_of_bounds \<or>
     lanes \<noteq> 1 \<and> (\<exists>j rest'. siphash_loop lanes keys start n i (scalar_block keys start i @ rest) =
       ok (j, scalar_block keys start j @ rest') \<and> j + length rest' < n)"
  using assms(2)
proof (induction "n - i" arbitrary: i rest rule: less_induct)
  case less
  let ?c = "if lanes = 1 then i < n else i + lanes < n"
  have l: "lanes \<noteq> 0" "lanes \<in> {1, 4, 8}" using assms(1) by auto
  show ?case
  proof (cases ?c)
    case True
    show ?thesis
    proof (cases "lanes \<le> length rest")
      case le: True
      have step: "siphash_loop lanes keys start n i (scalar_block keys start i @ rest) =
          siphash_loop lanes keys start n (i + lanes) (scalar_block keys start (i + lanes) @ drop lanes rest)"
        using True l(1) le by (simp add: siphash_loop.simps [of lanes keys start n i] siphash_at_scalar [OF l(2)])
      have "n - (i + lanes) < n - i" "i + lanes + length (drop lanes rest) < n" using True le l less.prems by auto
      from less.hyps [OF this] show ?thesis unfolding step .
    next
      case False
      then show ?thesis
        using True l(1) by (simp add: siphash_loop.simps [of lanes keys start n i] siphash_at_scalar [OF l(2)])
    qed
  next
    case False
    then have "siphash_loop lanes keys start n i (scalar_block keys start i @ rest) = ok (i, scalar_block keys start i @ rest)"
      by (simp add: siphash_loop.simps [of lanes keys start n i])
    moreover have "lanes \<noteq> 1" using False less.prems by auto
    ultimately show ?thesis using less.prems by blast
  qed
qed

lemma siphash_scalar:
  "siphash keys start stop out =
     (let n = unat (stop - start)
      in if n \<le> length out then ok (map (\<lambda>i. siphash_1 keys (start + of_nat i)) [0..<n] @ drop n out)
         else throw Out_of_bounds)"
proof -
  define n where "n = unat (stop - start)"
  have z: "out = scalar_block keys start 0 @ out" by (simp add: scalar_block_def)
  show ?thesis
  proof (cases "n \<le> length out")
    case True
    obtain i r1 where 1: "siphash_loop 8 keys start n 0 out = ok (i, scalar_block keys start i @ r1)"
      "i \<le> n" "r1 = drop i out"
      using siphash_loop_scalar [of 8 0 n out keys start] True by (auto simp: z [symmetric])
    have "n \<le> i + length r1" using 1 True by simp
    then obtain j r2 where 2: "siphash_loop 4 keys start n i (scalar_block keys start i @ r1) = ok (j, scalar_block keys start j @ r2)"
      "i \<le> j" "j \<le> n" "r2 = drop (j - i) r1"
      using siphash_loop_scalar [of 4 i n r1 keys start] 1(2) by auto
    have "n \<le> j + length r2" using 1 2 True by simp
    then obtain r3 where 3: "siphash_loop 1 keys start n j (scalar_block keys start j @ r2) = ok (n, scalar_block keys start n @ r3)"
      "r3 = drop (n - j) r2"
      using siphash_loop_scalar [of 1 j n r2 keys start] 2(3) by auto
    have "r3 = drop n out" using 1 2 3 by simp
    then show ?thesis using True 1(1) 2(1) 3(1)
      by (simp add: siphash_def n_def [symmetric] scalar_block_def)
  next
    case False
    consider "siphash_loop 8 keys start n 0 out = throw Out_of_bounds"
      | i r1 where "siphash_loop 8 keys start n 0 out = ok (i, scalar_block keys start i @ r1)" "i + length r1 < n"
      using siphash_loop_overrun [of 8 0 out n keys start] False by (auto simp: z [symmetric])
    then show ?thesis
    proof cases
      case 1
      then show ?thesis using False by (simp add: siphash_def n_def [symmetric])
    next
      case (2 i r1)
      consider "siphash_loop 4 keys start n i (scalar_block keys start i @ r1) = throw Out_of_bounds"
        | j r2 where "siphash_loop 4 keys start n i (scalar_block keys start i @ r1) = ok (j, scalar_block keys start j @ r2)"
          "j + length r2 < n"
        using siphash_loop_overrun [of 4 i r1 n keys start] 2(2) by auto
      then show ?thesis
      proof cases
        case 1
        then show ?thesis using False 2(1) by (simp add: siphash_def n_def [symmetric])
      next
        case (2 j r2)
        have "siphash_loop 1 keys start n j (scalar_block keys start j @ r2) = throw Out_of_bounds"
          using siphash_loop_overrun [of 1 j r2 n keys start] 2(2) by auto
        then show ?thesis
          using False 2(1) \<open>siphash_loop 8 keys start n 0 out = ok (i, scalar_block keys start i @ r1)\<close>
          by (simp add: siphash_def n_def [symmetric])
      qed
    qed
  qed
qed

text \<open>C36: The vectorised hash is the scalar one.  \<open>siphash(keys, from, to, out)\<close> computes eight, four and then single
  hashes with the SSE2 code; for every range it stores exactly the scalar hashes of \<open>from\<close>, \<open>from+1\<close>, ... in the
  caller's array and leaves the rest of it alone, and it runs past the array (undefined behaviour) exactly when the range,
  whose length is \<open>to - from\<close> modulo 2^64, is longer than the array.\<close>

theorem siphash_is_scalar:
  "siphash keys start stop out =
     (let n = unat (stop - start)
      in if n \<le> length out then ok (map (\<lambda>i. siphash_1 keys (start + of_nat i)) [0..<n] @ drop n out)
         else throw Out_of_bounds)"
  by (rule siphash_scalar)

end
