(* ===== verification/Flt.thy ===== *)
theory Flt
  imports Fxp_Sqrt Siphash
begin

section \<open>Floating-point difficulties\<close>

text \<open>
  \<^verbatim>\<open>src/src/pow/flt.hpp\<close> and class \<open>pow_difficulty\<close> of \<^verbatim>\<open>pow_verifier.hpp\<close>: a 16-bit exponent with a fixed-point mantissa between
  one half and one, and the target a proof has to stay below.  The conversions to \<open>double\<close> and to text are left out.
\<close>

record flt1648 =
  exponent :: int
  mantissa :: fxp1648

definition to_int16 :: "int \<Rightarrow> int" where
  "to_int16 z = signed_take_bit 15 z"

definition flt_normalize :: "flt1648 \<Rightarrow> flt1648" where
  "flt_normalize f =
     (let e = pos_msb (mantissa f) - 47
      in if e < 0 then f\<lparr>mantissa := fxp_shl (mantissa f) (nat (- e)), exponent := to_int16 (exponent f + e)\<rparr>
         else f\<lparr>mantissa := fxp_shr (mantissa f) (nat e), exponent := to_int16 (exponent f + e)\<rparr>)"

definition flt_make :: "int \<Rightarrow> fxp1648 \<Rightarrow> flt1648" where
  "flt_make e m = flt_normalize \<lparr>exponent = to_int16 e, mantissa = m\<rparr>"

definition flt_of_int :: "int \<Rightarrow> flt1648" where
  "flt_of_int value = flt_normalize \<lparr>exponent = 48, mantissa = word_of_int value\<rparr>"

definition flt_add :: "flt1648 \<Rightarrow> flt1648 \<Rightarrow> flt1648" where
  "flt_add a b =
     (let diff_exp = exponent a - exponent b
      in if 0 \<le> diff_exp
         then flt_make (exponent a) (fxp_add (mantissa a) (shift_right_no_saturation (mantissa b) (nat diff_exp)))
         else flt_make (exponent b) (fxp_add (shift_right_no_saturation (mantissa a) (nat (- diff_exp))) (mantissa b)))"

function from_digits :: "nat \<Rightarrow> fxp1648 \<Rightarrow> fxp1648" where
  "from_digits fraction p =
     (if fraction \<noteq> 0 then
        let p = fxp_add p (fxp_of_int (int (fraction mod 10)));
            p = fxp_div_assign p (fxp_of_int 10)
        in from_digits (fraction div 10) p
      else p)"
  by pat_completeness auto
termination by (relation "measure fst") auto

declare from_digits.simps [simp del]

definition flt_from :: "int \<Rightarrow> u32 \<Rightarrow> flt1648" where
  "flt_from int_part fraction_part = flt_add (flt_of_int int_part) (flt_make 0 (from_digits (unat fraction_part) 0))"

definition flt_sub :: "flt1648 \<Rightarrow> flt1648 \<Rightarrow> flt1648" where
  "flt_sub a b = flt_add a (flt_make (exponent b) (fxp_neg (mantissa b)))"

definition flt_mul :: "flt1648 \<Rightarrow> flt1648 \<Rightarrow> flt1648" where
  "flt_mul a b = flt_make (exponent a + exponent b) (fxp_mul (mantissa a) (mantissa b))"

definition flt_reciprocal :: "flt1648 \<Rightarrow> flt1648" where
  "flt_reciprocal a = flt_make (- exponent a) (fxp_reciprocal (mantissa a))"

definition flt_div :: "flt1648 \<Rightarrow> flt1648 \<Rightarrow> flt1648" where
  "flt_div a b = flt_make (exponent a - exponent b) (fxp_div (mantissa a) (mantissa b))"

definition flt_shl :: "flt1648 \<Rightarrow> nat \<Rightarrow> flt1648" where
  "flt_shl a n = flt_make (exponent a + int n) (mantissa a)"

definition flt_shr :: "flt1648 \<Rightarrow> nat \<Rightarrow> flt1648" where
  "flt_shr a n = flt_make (exponent a - int n) (mantissa a)"

text \<open>\<open>to_integer\<close> writes the bits of the number into an array.  The positions are computed as \<open>int\<close>s; a position
  outside the array is undefined behaviour.\<close>

definition put_byte :: "u8 list \<Rightarrow> int \<Rightarrow> u8 \<Rightarrow> u8 list pow" where
  "put_byte bytes i b =
     (if 0 \<le> i \<and> i < int (length bytes) then ok (bytes[nat i := b]) else throw Out_of_bounds)"

function to_integer_loop :: "nat \<Rightarrow> u8 list \<Rightarrow> int \<Rightarrow> u64 \<Rightarrow> u8 list pow" where
  "to_integer_loop len bytes byte_offset bits =
     (if bits = 0 then ok bytes
      else if 0 \<le> int len - byte_offset - 1 \<and> int len - byte_offset - 1 < int (length bytes) then
        to_integer_loop len (bytes[nat (int len - byte_offset - 1) := ucast (drop_bit 40 bits AND 0xff)])
          (byte_offset - 1) (push_bit 8 bits)
      else throw Out_of_bounds)"
  by pat_completeness auto
termination
  by (relation "measure (\<lambda>(len, bytes, byte_offset, bits). nat (int (length bytes) - (int len - byte_offset - 1)))") auto

declare to_integer_loop.simps [simp del]

definition to_integer :: "flt1648 \<Rightarrow> nat \<Rightarrow> u8 list pow" where
  "to_integer f bytes_len =
     (if exponent f < 0 then throw Assertion_failed
      else if int bytes_len * 8 < exponent f then throw Assertion_failed
      else let bits = mantissa f;
               bits_offset = nat (exponent f mod 8); byte_offset = exponent f div 8;
               bytes = replicate bytes_len 0;
               bits_mask = NOT (word_of_int (2 ^ (8 - bits_offset) - 1)) :: u8;
               bits_out = ucast (drop_bit (8 - bits_offset) (drop_bit 40 bits AND ucast bits_mask)) :: u8;
               i = int bytes_len - byte_offset - 1
           in bindR (put_byte bytes i ((bytes ! nat i) OR bits_out)) (\<lambda>bytes.
              to_integer_loop bytes_len bytes (byte_offset - 1) (push_bit bits_offset bits)))"

definition flt_write :: "flt1648 \<Rightarrow> u8 list" where
  "flt_write f =
     (fxp_write (mantissa f))[0 := word_of_int (drop_bit 8 (exponent f) AND 0xff), 1 := word_of_int (exponent f AND 0xff)]"

text \<open>\<open>read\<close> reads the mantissa into the temporary that \<open>mantissa()\<close> returns, so only the exponent changes.\<close>

definition flt_read :: "flt1648 \<Rightarrow> u8 list \<Rightarrow> flt1648" where
  "flt_read f bytes = f\<lparr>exponent := to_int16 (push_bit 8 (uint (bytes ! 0)) OR uint (bytes ! 1))\<rparr>"

subsection \<open>Targets\<close>

type_synonym pow_difficulty = flt1648

definition difficulty_scale :: "pow_difficulty \<Rightarrow> flt1648 \<Rightarrow> pow_difficulty" where
  "difficulty_scale d val = flt_mul d val"

definition get_target :: "pow_difficulty \<Rightarrow> u8 list pow" where
  "get_target difficulty =
     (if difficulty = flt_of_int 1 then ok (replicate 32 0xff)
      else to_integer (flt_reciprocal difficulty) 32)"

subsection \<open>No difficulty from four on has a target\<close>

definition normalized :: "flt1648 \<Rightarrow> bool" where
  "normalized f \<longleftrightarrow> 2 ^ 47 \<le> sint (mantissa f) \<and> sint (mantissa f) < 2 ^ 48 \<and>
     - (2 ^ 15) \<le> exponent f \<and> exponent f < 2 ^ 15"

lemma to_int16_id: "- (2 ^ 15) \<le> z \<Longrightarrow> z < 2 ^ 15 \<Longrightarrow> to_int16 z = z"
  unfolding to_int16_def by (rule signed_take_bit_int_eq_self) simp_all

lemma pos_msb_pos: "0 \<le> sint v \<Longrightarrow> pos_msb v = fxp_msb v"
  using top_bit [of v] uint_bounds [of v] by (simp add: pos_msb_def sint_of_uint split: if_splits)

lemma reciprocal_of_mantissa:
  assumes "2 ^ 47 \<le> sint a" "sint a < 2 ^ 48"
  shows "2 ^ 48 - 3 \<le> sint (fxp_reciprocal a)" "sint (fxp_reciprocal a) \<le> 2 ^ 49 + 6"
proof -
  have a: "a \<noteq> 0" using assms by auto
  have "fxp_msb (abs_word a) = int 47"
    using assms by (intro fxp_msb_eq) (simp_all add: uint_abs_word)
  then have m: "fxp_msb (abs_word a) = 47" by simp
  then have "\<not> recip_saturates a" by (simp add: recip_saturates_def)
  then have "sint (fxp_reciprocal a) = recip_mantissa a"
    using reciprocal_cases(1) [OF a] assms by (simp add: m reciprocal_magnitude_def)
  then show "2 ^ 48 - 3 \<le> sint (fxp_reciprocal a)" "sint (fxp_reciprocal a) \<le> 2 ^ 49 + 6"
    using reciprocal_cases(4,5) [OF a] by simp_all
qed

text \<open>C40: A difficulty of four or more has no target.  For every normalised difficulty whose exponent is at least
  three, \<open>get_target\<close> computes the reciprocal, whose exponent is negative, and \<open>to_integer\<close> fails its assertion: the factor
  2^256 the comment in the class announces is never applied.\<close>

theorem get_target_fails:
  assumes "normalized d" "3 \<le> exponent d"
  shows "get_target d = throw Assertion_failed"
proof -
  define R where "R = sint (fxp_reciprocal (mantissa d))"
  note n = assms(1) [unfolded normalized_def]
  have R: "2 ^ 48 - 3 \<le> R" "R \<le> 2 ^ 49 + 6"
    unfolding R_def using reciprocal_of_mantissa n by blast+
  have u: "uint (fxp_reciprocal (mantissa d)) = R"
    using R uint_bounds [of "fxp_reciprocal (mantissa d)"] unfolding R_def by (auto simp: sint_of_uint split: if_splits)
  define e where "e = pos_msb (fxp_reciprocal (mantissa d)) - 47"
  have "0 \<le> R" using R by simp
  then have "pos_msb (fxp_reciprocal (mantissa d)) = fxp_msb (fxp_reciprocal (mantissa d))"
    by (intro pos_msb_pos) (simp add: R_def)
  then have e: "0 \<le> e" "e \<le> 2"
    using fxp_msb_ge [of 47 "fxp_reciprocal (mantissa d)"] fxp_msb_less [of "fxp_reciprocal (mantissa d)" 50] R u
    by (simp_all add: e_def)
  have "exponent (flt_reciprocal d) = to_int16 (to_int16 (- exponent d) + e)"
    by (simp add: flt_reciprocal_def flt_make_def flt_normalize_def Let_def e_def)
  also have "to_int16 (- exponent d) = - exponent d"
    using n assms(2) by (intro to_int16_id) simp_all
  also have "to_int16 (- exponent d + e) = - exponent d + e"
    using n assms(2) e by (intro to_int16_id) simp_all
  finally have "exponent (flt_reciprocal d) < 0" using e assms(2) by simp
  moreover have "exponent (flt_of_int 1) = 1"
    by (simp add: flt_of_int_def flt_normalize_def Let_def pos_msb_def fxp_msb_def msb_step_def to_int16_def)
  then have "d \<noteq> flt_of_int 1" using assms(2) by auto
  ultimately show ?thesis by (simp add: get_target_def to_integer_def)
qed

theorem get_target_fails_witness: "get_target (flt_of_int 4) = throw Assertion_failed"
proof -
  have "flt_of_int 4 = \<lparr>exponent = 3, mantissa = 0x800000000000\<rparr>" by code_simp
  then have "normalized (flt_of_int 4)" "3 \<le> exponent (flt_of_int 4)" by (simp_all add: normalized_def)
  then show ?thesis by (rule get_target_fails)
qed

lemma get_target_one: "get_target (flt_of_int 1) = ok (replicate 32 0xff)"
  by (simp add: get_target_def)

lemma funpow_six: "(f ^^ 6) x = f (f (f (f (f (f x)))))" by (simp add: eval_nat_numeral)
lemmas newton_eval = newton_step_def fxp_mul_def mul_parts_def Let_def fxp_is_negative_def fxp_add_def fxp_sub_def c_1_def max_or_min_def fxp_eps_def
lemma half_newton_start: "fxp_sub c_48_17 (fxp_mul c_32_17 0x800000000000) = 529835250278882"
  by (simp add: c_48_17_def c_32_17_def newton_eval)
lemma half_newton_steps:
  "newton_step 0x800000000000 529835250278882 = 561002029707051"
  "newton_step 0x800000000000 561002029707051 = 562943213200848"
  "newton_step 0x800000000000 562943213200848 = 562949953340611"
  "newton_step 0x800000000000 562949953340611 = 562949953421312"
  "newton_step 0x800000000000 562949953421312 = 562949953421312"
  by (simp_all add: newton_eval)
lemma reciprocal_half: "fxp_reciprocal 0x800000000000 = 0x2000000000000"
proof -
  have m: "fxp_msb 0x800000000000 = 47" by (simp add: fxp_msb_def msb_step_def)
  have n: "fxp_is_negative 0x800000000000 = False" by (simp add: fxp_is_negative_def)
  show ?thesis
    unfolding fxp_reciprocal_def Let_def n if_False m funpow_six by (simp add: scale_bits_def half_newton_start half_newton_steps)
qed
text \<open>A difficulty of two makes \<open>to_integer\<close> write behind the end of the target.\<close>

lemma get_target_two: "get_target (flt_of_int 2) = throw Out_of_bounds"
proof -
  have d: "flt_of_int 2 = \<lparr>exponent = 2, mantissa = 0x800000000000\<rparr>" "flt_of_int 1 = \<lparr>exponent = 1, mantissa = 0x800000000000\<rparr>" by code_simp+
  have "flt_reciprocal (flt_of_int 2) = \<lparr>exponent = 0, mantissa = 0x800000000000\<rparr>"
    by (simp add: d flt_reciprocal_def reciprocal_half flt_make_def flt_normalize_def Let_def pos_msb_def fxp_msb_def msb_step_def fxp_shr_def shift_right_no_saturation_def to_int16_def)
  then show ?thesis
    by (simp add: get_target_def d to_integer_def put_byte_def to_integer_loop.simps Let_def)
qed

lemma flt_read_keeps_mantissa: "mantissa (flt_read f (flt_write g)) = mantissa f"
  by (simp add: flt_read_def)

end
