(* ===== verification/Galaxy.thy ===== *)
theory Galaxy
  imports Flt
begin

section \<open>Stars, the galaxy and the camera\<close>

text \<open>
  \<^verbatim>\<open>star.hpp\<close>, \<^verbatim>\<open>vec3.hpp\<close>, \<^verbatim>\<open>conv.hpp\<close>, \<^verbatim>\<open>galaxy.hpp\<close> and \<^verbatim>\<open>camera.hpp\<close> of \<^verbatim>\<open>src/src/pow\<close> for the coordinate type of the
  verifier, \<open>fxp1648\<close>: a star is three hashes of its number, and the camera projects it on a screen of 4096 by 4096
  points.  The galaxy is never filled when a proof is verified, so its buckets do not occur; \<open>take_picture\<close> and the
  buckets serve the miner, which computes with \<open>double\<close>.
\<close>

record star =
  star_id :: u64
  star_x :: u64
  star_y :: u64
  star_z :: u64

record projected_star =
  ps_id :: u32
  ps_x :: u32
  ps_y :: u32
  ps_r :: u32

definition projected_star_clear :: projected_star where
  "projected_star_clear = \<lparr>ps_id = 0, ps_x = 0, ps_y = 0, ps_r = 0\<rparr>"

record vec3 =
  vx :: fxp1648
  vy :: fxp1648
  vz :: fxp1648

definition make_vec3 :: "fxp1648 \<Rightarrow> fxp1648 \<Rightarrow> fxp1648 \<Rightarrow> vec3" where
  "make_vec3 x y z = \<lparr>vx = x, vy = y, vz = z\<rparr>"

definition vec_add :: "vec3 \<Rightarrow> vec3 \<Rightarrow> vec3" where
  "vec_add a b = make_vec3 (fxp_add (vx a) (vx b)) (fxp_add (vy a) (vy b)) (fxp_add (vz a) (vz b))"

definition vec_add_scalar :: "vec3 \<Rightarrow> fxp1648 \<Rightarrow> vec3" where
  "vec_add_scalar a s = make_vec3 (fxp_add (vx a) s) (fxp_add (vy a) s) (fxp_add (vz a) s)"

definition vec_sub :: "vec3 \<Rightarrow> vec3 \<Rightarrow> vec3" where
  "vec_sub a b = make_vec3 (fxp_sub (vx a) (vx b)) (fxp_sub (vy a) (vy b)) (fxp_sub (vz a) (vz b))"

definition vec_mul :: "vec3 \<Rightarrow> fxp1648 \<Rightarrow> vec3" where
  "vec_mul a s = make_vec3 (fxp_mul (vx a) s) (fxp_mul (vy a) s) (fxp_mul (vz a) s)"

definition vec_div :: "vec3 \<Rightarrow> fxp1648 \<Rightarrow> vec3" where
  "vec_div a s = make_vec3 (fxp_div (vx a) s) (fxp_div (vy a) s) (fxp_div (vz a) s)"

definition dot :: "vec3 \<Rightarrow> vec3 \<Rightarrow> fxp1648" where
  "dot a b = fxp_add (fxp_add (fxp_mul (vx a) (vx b)) (fxp_mul (vy a) (vy b))) (fxp_mul (vz a) (vz b))"

definition cross :: "vec3 \<Rightarrow> vec3 \<Rightarrow> vec3" where
  "cross a b =
     make_vec3 (fxp_sub (fxp_mul (vy a) (vz b)) (fxp_mul (vz a) (vy b)))
          (fxp_sub (fxp_mul (vz a) (vx b)) (fxp_mul (vx a) (vz b)))
          (fxp_sub (fxp_mul (vx a) (vy b)) (fxp_mul (vy a) (vx b)))"

definition pow_sqrt :: "fxp1648 \<Rightarrow> fxp1648 pow" where
  "pow_sqrt v = (case fxp_sqrt v of None \<Rightarrow> throw Assertion_failed | Some r \<Rightarrow> ok r)"

definition vec_length :: "vec3 \<Rightarrow> fxp1648 pow" where
  "vec_length a =
     pow_sqrt (fxp_add (fxp_add (fxp_mul (vx a) (vx a)) (fxp_mul (vy a) (vy a))) (fxp_mul (vz a) (vz a)))"

definition inv_length :: "vec3 \<Rightarrow> fxp1648" where
  "inv_length a =
     fxp_inv_sqrt (fxp_add (fxp_add (fxp_mul (vx a) (vx a)) (fxp_mul (vy a) (vy a))) (fxp_mul (vz a) (vz a)))"

definition vec_norm :: "vec3 \<Rightarrow> vec3" where
  "vec_norm a = vec_mul a (inv_length a)"

subsection \<open>The galaxy\<close>

text \<open>\<open>3*id\<close> and \<open>3*id+3\<close> are computed with 32 bits and only then widened.\<close>

definition get_star :: "siphash_keys \<Rightarrow> u32 \<Rightarrow> star pow" where
  "get_star keys i =
     bindR (siphash keys (ucast (3 * i)) (ucast (3 * i + 3)) (replicate 3 0)) (\<lambda>out.
       ok \<lparr>star_id = ucast i, star_x = out ! 0, star_y = out ! 1, star_z = out ! 2\<rparr>)"

definition star_to_vector :: "star \<Rightarrow> vec3" where
  "star_to_vector s = make_vec3 (uint64_to_fxp (star_x s)) (uint64_to_fxp (star_y s)) (uint64_to_fxp (star_z s))"

definition num_buckets :: "nat \<Rightarrow> u64" where
  "num_buckets num_bits = push_bit num_bits 1"

definition step_vector_length :: "nat \<Rightarrow> fxp1648" where
  "step_vector_length num_bits = fxp_div_size (fxp_of_int 1) (num_buckets num_bits)"

subsection \<open>The camera\<close>

definition SCREEN_WIDTH :: int where "SCREEN_WIDTH = 4096"
definition SCREEN_HEIGHT :: int where "SCREEN_HEIGHT = 4096"
definition SCREEN_DEPTH :: int where "SCREEN_DEPTH = 4096"

record camera =
  cam_keys :: siphash_keys
  volume :: fxp1648
  origin :: vec3
  target :: vec3

definition new_camera :: "nat \<Rightarrow> siphash_keys \<Rightarrow> camera" where
  "new_camera num_bits keys =
     (let N = fxp_of_size (num_buckets num_bits)
      in \<lparr>cam_keys = keys,
          volume = fxp_div (fxp_div (fxp_div (fxp_mul_int (fxp_of_int 1) 32) N) N) N,
          origin = make_vec3 (fxp_of_int 0) (fxp_of_int 0) (fxp_of_int 0),
          target = make_vec3 (fxp_div_int (fxp_of_int 1) 10) (fxp_of_int 0) (fxp_of_int 0)\<rparr>)"

definition set_target_vec :: "camera \<Rightarrow> vec3 \<Rightarrow> camera" where
  "set_target_vec cam v = cam\<lparr>target := vec_add (origin cam) v\<rparr>"

definition set_target :: "camera \<Rightarrow> u64 \<Rightarrow> u32 \<Rightarrow> camera pow" where
  "set_target cam nonce_offset nonce =
     (let nonce_begin = nonce_offset + ucast (3 * nonce); nonce_end = nonce_begin + 3
      in bindR (siphash (cam_keys cam) nonce_begin nonce_end (replicate 3 0)) (\<lambda>out.
           ok (set_target_vec cam
             (make_vec3 (uint64_to_fxp (out ! 0)) (uint64_to_fxp (out ! 1)) (uint64_to_fxp (out ! 2))))))"

text \<open>\<open>None\<close> for a star that is not on the screen.\<close>

definition cam_project_star :: "camera \<Rightarrow> u32 \<Rightarrow> projected_star option pow" where
  "cam_project_star cam i =
     (let one = fxp_of_int 1; half = fxp_div_int (fxp_of_int 1) 2; minus_half = fxp_neg (fxp_div_int (fxp_of_int 1) 2)
      in bindR (get_star (cam_keys cam) i) (\<lambda>st.
         let sv = star_to_vector st; svd = vec_sub sv (origin cam)
         in bindR (vec_length svd) (\<lambda>sd.
            let diff = vec_sub (target cam) (origin cam); dir = vec_norm diff
            in bindR (vec_length diff) (\<lambda>h.
               bindR (pow_sqrt (fxp_div (fxp_mul_int (volume cam) 3) h)) (\<lambda>l.
               let sdl_inv = fxp_div h (fxp_mul l sd);
                   proxy_up = make_vec3 (fxp_of_int 0) (fxp_of_int 0) (fxp_of_int 1);
                   dir_x = vec_norm (cross dir proxy_up);
                   dir_y = cross dir dir_x;
                   proj_x = fxp_mul (dot svd dir_x) sdl_inv;
                   proj_y = fxp_mul (dot svd dir_y) sdl_inv;
                   proj_r = fxp_div sd h
               in if fxp_geq proj_x minus_half \<and> fxp_less proj_x half \<and>
                     fxp_geq proj_y minus_half \<and> fxp_less proj_y half \<and> fxp_less proj_r one
                  then ok (Some
                    \<lparr>ps_id = i,
                     ps_x = fxp_to_uint32 (fxp_mul_int (fxp_add proj_x half) SCREEN_WIDTH),
                     ps_y = fxp_to_uint32 (fxp_mul_int (fxp_add proj_y half) SCREEN_HEIGHT),
                     ps_r = fxp_to_uint32 (fxp_mul_int proj_r SCREEN_DEPTH)\<rparr>)
                  else ok None)))))"

subsection \<open>Which stars exist\<close>

text \<open>The 32-bit product of a star number may wrap around between its two bounds; then the range is nearly 2^64 long.\<close>

definition star_in_range :: "u32 \<Rightarrow> bool" where
  "star_in_range i \<longleftrightarrow> 3 * unat i mod 2 ^ 32 < 2 ^ 32 - 3"

lemma star_range_length:
  "unat (ucast (3 * i + 3 :: u32) - ucast (3 * i :: u32) :: u64) = (if star_in_range i then 3 else 2 ^ 64 - 2 ^ 32 + 3)"
proof -
  define a where "a = 3 * unat i mod 2 ^ 32"
  have a: "unat (3 * i) = a" by (simp add: a_def unat_word_ariths)
  have b: "unat (3 * i + 3) = (a + 3) mod 2 ^ 32" by (simp add: unat_word_ariths a_def)
  have al: "a < 2 ^ 32" by (simp add: a_def)
  have sr: "star_in_range i \<longleftrightarrow> a < 2 ^ 32 - 3" by (simp add: star_in_range_def a_def)
  have ca: "ucast (3 * i) = (of_nat a :: u64)" unfolding a [symmetric] by simp
  show ?thesis
  proof (cases "star_in_range i")
    case True
    then have "a + 3 < 2 ^ 32" by (simp add: sr)
    then have "unat (3 * i + 3) = a + 3" using b by simp
    moreover have "ucast (3 * i + 3) = (of_nat (unat (3 * i + 3)) :: u64)" by simp
    ultimately have "ucast (3 * i + 3) = (of_nat (a + 3) :: u64)" by (simp only:)
    then show ?thesis using True by (simp add: ca)
  next
    case False
    then have g: "2 ^ 32 \<le> a + 3" by (simp add: sr)
    then have "unat (3 * i + 3) = a + 3 - 2 ^ 32" using b al by (simp add: le_mod_geq)
    moreover have "ucast (3 * i + 3) = (of_nat (unat (3 * i + 3)) :: u64)" by simp
    ultimately have c: "ucast (3 * i + 3) = (of_nat (a + 3 - 2 ^ 32) :: u64)" by (simp only:)
    have "of_nat (a + 3 - 2 ^ 32) - of_nat a = (3 - 2 ^ 32 :: u64)"
      using g by (simp add: of_nat_diff)
    then show ?thesis using False by (simp add: ca c)
  qed
qed

lemma get_star_in_range:
  "star_in_range i \<Longrightarrow> get_star keys i =
     ok \<lparr>star_id = ucast i, star_x = siphash_1 keys (ucast (3 * i)), star_y = siphash_1 keys (ucast (3 * i) + 1),
         star_z = siphash_1 keys (ucast (3 * i) + 2)\<rparr>"
  by (simp add: get_star_def siphash_scalar star_range_length Let_def upt_rec)

lemma get_star_overrun: "\<not> star_in_range i \<Longrightarrow> get_star keys i = throw Out_of_bounds"
  by (simp add: get_star_def siphash_scalar star_range_length Let_def)

text \<open>C39: Reading a star from the galaxy runs over the caller's array exactly for the three star numbers whose tripled
  value lies within three of 2^32.  For every other number the star's coordinates are the scalar hashes of the three
  consecutive nonces.\<close>

theorem get_star_defined:
  "get_star keys i =
     (if star_in_range i then
        ok \<lparr>star_id = ucast i, star_x = siphash_1 keys (ucast (3 * i)), star_y = siphash_1 keys (ucast (3 * i) + 1),
            star_z = siphash_1 keys (ucast (3 * i) + 2)\<rparr>
      else throw Out_of_bounds)"
  by (simp add: get_star_in_range get_star_overrun)

end
