(* ===== verification/Dipper.thy ===== *)
theory Dipper
  imports Galaxy "HOL-Library.Signed_Division"
begin

section \<open>The dipper detector\<close>

text \<open>
  \<^verbatim>\<open>src/src/pow/dipper_detector.hpp\<close>, \<^verbatim>\<open>dipper_detector.cpp\<close> and \<^verbatim>\<open>isqrt.hpp\<close>: the search for seven stars that form the Big
  Dipper, and the check of \<open>verify_pow\<close> that seven given stars form it.  An \<open>int32_t\<close> is an \<open>int\<close>; \<open>int32s\<close> lists the
  results of the arithmetic that has to stay within 32 bits, and division is truncated (\<open>sdiv\<close>).
\<close>

definition in_int32 :: "int \<Rightarrow> bool" where
  "in_int32 z \<longleftrightarrow> - (2 ^ 31) \<le> z \<and> z < 2 ^ 31"

definition int32s :: "int list \<Rightarrow> 'a pow \<Rightarrow> 'a pow" where
  "int32s zs m = (if list_all in_int32 zs then m else throw Int_overflow)"

subsection \<open>Integer square roots\<close>

function isqrt_loop :: "int \<Rightarrow> int \<Rightarrow> nat \<Rightarrow> nat \<Rightarrow> int" where
  "isqrt_loop val g b bshft =
     (let temp = push_bit bshft (push_bit 1 g + int b);
          (g, val) = (if temp \<le> val then (g + int b, val - temp) else (g, val));
          b = b div 2
      in if b \<noteq> 0 then isqrt_loop val g b (bshft - 1) else g)"
  by pat_completeness auto
termination by (relation "measure (\<lambda>(val, g, b, bshft). b)") auto

declare isqrt_loop.simps [simp del]

definition isqrt :: "int \<Rightarrow> int" where
  "isqrt val = isqrt_loop val 0 0x8000 15"

subsection \<open>The template\<close>

definition dipper_dx :: "int list" where "dipper_dx = [0, 185, 325, 502, 588, 830, 805]"
definition dipper_dy :: "int list" where "dipper_dy = [0, 116, 99, 93, - 30, 63, 236]"
definition dipper_dr :: "int list" where "dipper_dr = [9, 9, 9, 29, 9, 16, 9]"

definition dx12 :: int where "dx12 = 185"
definition dy12 :: int where "dy12 = 116"
definition dl12 :: int where "dl12 = isqrt (dx12 * dx12 + dy12 * dy12)"

definition TOLERANCE :: int where "TOLERANCE = 800"

subsection \<open>The check of the verifier\<close>

definition star_matches :: "int \<Rightarrow> int \<Rightarrow> int \<Rightarrow> int \<Rightarrow> int \<Rightarrow> projected_star list \<Rightarrow> nat \<Rightarrow> bool pow" where
  "star_matches R_00 R_01 x0 y0 r2 stars i =
     (let R_10 = - R_01; R_11 = R_00; dx1i = dipper_dx ! i; dy1i = dipper_dy ! i;
          xs = R_00 * dx1i + R_01 * dy1i; ys = R_10 * dx1i + R_11 * dy1i;
          xip = xs sdiv dl12 + x0; yip = ys sdiv dl12 + y0;
          xi = sint (ps_x (stars ! i)); yi = sint (ps_y (stars ! i));
          dx = xi - xip; dy = yi - yip
      in int32s [R_10, R_00 * dx1i, R_01 * dy1i, xs, R_10 * dx1i, R_11 * dy1i, ys, xip, yip, dx, dy,
                 dx * dx, dy * dy, dx * dx + dy * dy, 100 * (dx * dx + dy * dy)]
           (ok (\<not> r2 < 100 * (dx * dx + dy * dy))))"

fun check_stars :: "int \<Rightarrow> int \<Rightarrow> int \<Rightarrow> int \<Rightarrow> int \<Rightarrow> projected_star list \<Rightarrow> nat list \<Rightarrow> bool pow" where
  "check_stars R_00 R_01 x0 y0 r2 stars [] = ok True"
| "check_stars R_00 R_01 x0 y0 r2 stars (i # is) =
     bindR (star_matches R_00 R_01 x0 y0 r2 stars i) (\<lambda>m.
       if m then check_stars R_00 R_01 x0 y0 r2 stars is else ok False)"

definition check_dipper :: "projected_star list \<Rightarrow> bool pow" where
  "check_dipper stars =
     (let x0 = sint (ps_x (stars ! 0)); y0 = sint (ps_y (stars ! 0));
          x1 = sint (ps_x (stars ! 1)); y1 = sint (ps_y (stars ! 1));
          dx01 = x1 - x0; dy01 = y1 - y0;
          d01_2 = dx01 * dx01 + dy01 * dy01
      in int32s [dx01, dy01, dx01 * dx01, dy01 * dy01, d01_2]
        (if d01_2 < 25 then ok False
         else let d01 = isqrt d01_2;
                  tol = TOLERANCE * d01 sdiv dl12;
                  r2 = tol * tol sdiv 100;
                  R_00 = (dx12 * dx01 + dy12 * dy01) sdiv dl12;
                  R_01 = (dy12 * dx01 - dx12 * dy01) sdiv dl12
              in int32s [TOLERANCE * d01, tol * tol, dx12 * dx01, dy12 * dy01, dx12 * dx01 + dy12 * dy01,
                         dy12 * dx01, dx12 * dy01, dy12 * dx01 - dx12 * dy01]
                   (check_stars R_00 R_01 x0 y0 r2 stars [2..<7])))"

subsection \<open>The grid of the detector\<close>

definition GRID_SIZE :: int where "GRID_SIZE = 32"

type_synonym star_grid = "projected_star list list list"

definition to_grid_x :: "int \<Rightarrow> nat" where "to_grid_x x = nat (x * GRID_SIZE div SCREEN_WIDTH)"
definition to_grid_y :: "int \<Rightarrow> nat" where "to_grid_y y = nat (y * GRID_SIZE div SCREEN_HEIGHT)"

fun sort_into :: "star_grid \<Rightarrow> projected_star list \<Rightarrow> star_grid pow" where
  "sort_into grid [] = ok grid"
| "sort_into grid (s # stars) =
     (let gx = to_grid_x (uint (ps_x s)); gy = to_grid_y (uint (ps_y s))
      in if gx < 32 \<and> gy < 32
         then sort_into (grid[gx := (grid ! gx)[gy := grid ! gx ! gy @ [s]]]) stars
         else throw Out_of_bounds)"

definition sort_grid :: "projected_star list \<Rightarrow> star_grid pow" where
  "sort_grid stars = sort_into (replicate 32 (replicate 32 [])) stars"

fun first_near :: "int \<Rightarrow> int \<Rightarrow> int \<Rightarrow> projected_star list \<Rightarrow> projected_star option pow" where
  "first_near dx0 dy0 r2 [] = ok None"
| "first_near dx0 dy0 r2 (s # ss) =
     (let diff_x = sint (ps_x s) - dx0; diff_y = sint (ps_y s) - dy0
      in int32s [diff_x, diff_y, diff_x * diff_x, diff_y * diff_y, diff_x * diff_x + diff_y * diff_y,
                 100 * (diff_x * diff_x + diff_y * diff_y)]
           (if 100 * (diff_x * diff_x + diff_y * diff_y) \<le> r2 then ok (Some s) else first_near dx0 dy0 r2 ss))"

function find_dy :: "star_grid \<Rightarrow> int \<Rightarrow> int \<Rightarrow> int \<Rightarrow> int \<Rightarrow> int \<Rightarrow> int \<Rightarrow> projected_star option pow" where
  "find_dy grid dx0 dy0 r2 dx dy dy2 =
     (if dy < dy2 then
        bindR (if 0 \<le> dx \<and> dx < SCREEN_WIDTH \<and> 0 \<le> dy \<and> dy < SCREEN_HEIGHT
               then first_near dx0 dy0 r2 (grid ! to_grid_x dx ! to_grid_y dy) else ok None)
          (\<lambda>found. case found of Some s \<Rightarrow> ok (Some s) | None \<Rightarrow> find_dy grid dx0 dy0 r2 dx (dy + GRID_SIZE) dy2)
      else ok None)"
  by pat_completeness auto
termination by (relation "measure (\<lambda>(grid, dx0, dy0, r2, dx, dy, dy2). nat (dy2 - dy))") (auto simp: GRID_SIZE_def)

function find_dx :: "star_grid \<Rightarrow> int \<Rightarrow> int \<Rightarrow> int \<Rightarrow> int \<Rightarrow> int \<Rightarrow> int \<Rightarrow> int \<Rightarrow> projected_star option pow" where
  "find_dx grid dx0 dy0 r2 dx dx2 dy1 dy2 =
     (if dx < dx2 then
        bindR (find_dy grid dx0 dy0 r2 dx dy1 dy2)
          (\<lambda>found. case found of Some s \<Rightarrow> ok (Some s) | None \<Rightarrow> find_dx grid dx0 dy0 r2 (dx + GRID_SIZE) dx2 dy1 dy2)
      else ok None)"
  by pat_completeness auto
termination by (relation "measure (\<lambda>(grid, dx0, dy0, r2, dx, dx2, dy1, dy2). nat (dx2 - dx))") (auto simp: GRID_SIZE_def)

declare find_dy.simps [simp del] find_dx.simps [simp del]

definition find_star :: "star_grid \<Rightarrow> int \<Rightarrow> int \<Rightarrow> int \<Rightarrow> projected_star option pow" where
  "find_star grid dx0 dy0 tol =
     (let dx1 = (dx0 * 100 - tol) sdiv 100; dx2 = (dx0 * 100 + tol) sdiv 100;
          dy1 = (dy0 * 100 - tol) sdiv 100; dy2 = (dy0 * 100 + tol) sdiv 100;
          r2 = tol * tol sdiv 100
      in int32s [dx0 * 100, dx0 * 100 - tol, dx0 * 100 + tol, dy0 * 100, dy0 * 100 - tol, dy0 * 100 + tol, tol * tol]
           (find_dx grid dx0 dy0 r2 dx1 dx2 dy1 dy2))"

subsection \<open>The search\<close>

text \<open>The star at the place of star \<open>k\<close> of the template.\<close>

definition search_star :: "star_grid \<Rightarrow> int \<Rightarrow> int \<Rightarrow> int \<Rightarrow> int \<Rightarrow> int \<Rightarrow> int \<Rightarrow> nat \<Rightarrow> projected_star option pow" where
  "search_star grid R_00 R_01 xi yi tol dlij k =
     (let R_10 = - R_01; R_11 = R_00; dx1k = dipper_dx ! k; dy1k = dipper_dy ! k;
          xs = R_00 * dx1k + R_01 * dy1k; ys = R_10 * dx1k + R_11 * dy1k;
          dx = xs sdiv dl12 + xi; dy = ys sdiv dl12 + yi
      in int32s [R_10, R_00 * dx1k, R_01 * dy1k, xs, R_10 * dx1k, R_11 * dy1k, ys, dx, dy, dipper_dr ! k * dlij, tol * 20]
           (find_star grid dx dy tol))"

text \<open>The last five stars, for a given pair of first stars; the result says whether all of them were found.\<close>

fun search_rest :: "star_grid \<Rightarrow> int \<Rightarrow> int \<Rightarrow> int \<Rightarrow> int \<Rightarrow> int \<Rightarrow> int \<Rightarrow> nat list \<Rightarrow> projected_star list
    \<Rightarrow> (projected_star list \<times> bool) pow" where
  "search_rest grid R_00 R_01 xi yi tol dlij [] found1 = ok (found1, False)"
| "search_rest grid R_00 R_01 xi yi tol dlij (k # ks) found1 =
     bindR (search_star grid R_00 R_01 xi yi tol dlij k) (\<lambda>found. case found of
       Some s \<Rightarrow> if k = 6 then ok (found1 @ [s], True)
                else search_rest grid R_00 R_01 xi yi tol dlij ks (found1 @ [s])
     | None \<Rightarrow> ok (found1, False))"

text \<open>One pair of first stars: the seven stars when the other five are found.\<close>

definition search_pair :: "projected_star list \<Rightarrow> star_grid \<Rightarrow> nat \<Rightarrow> nat \<Rightarrow> projected_star list option pow" where
  "search_pair stars grid i j =
     (let xi = sint (ps_x (stars ! i)); yi = sint (ps_y (stars ! i));
          xj = sint (ps_x (stars ! j)); yj = sint (ps_y (stars ! j));
          dxij = xj - xi; dyij = yj - yi;
          dlij2 = dxij * dxij + dyij * dyij
      in int32s [dxij, dyij, dxij * dxij, dyij * dyij, dlij2]
        (if dlij2 < 25 then ok None
         else let dlij = isqrt dlij2;
                  R_00 = (dx12 * dxij + dy12 * dyij) sdiv dl12;
                  R_01 = (dy12 * dxij - dx12 * dyij) sdiv dl12;
                  tol = TOLERANCE * dlij sdiv dl12
              in int32s [dx12 * dxij, dy12 * dyij, dx12 * dxij + dy12 * dyij,
                         dy12 * dxij, dx12 * dyij, dy12 * dxij - dx12 * dyij, TOLERANCE * dlij]
                (bindR (search_rest grid R_00 R_01 xi yi tol dlij [2..<7] [stars ! i, stars ! j])
                  (\<lambda>(found1, success). ok (if success then Some found1 else None)))))"

fun search_second :: "projected_star list \<Rightarrow> star_grid \<Rightarrow> nat \<Rightarrow> nat \<Rightarrow> nat list \<Rightarrow> projected_star list list
    \<Rightarrow> (projected_star list list \<times> bool) pow" where
  "search_second stars grid n i [] found = ok (found, False)"
| "search_second stars grid n i (j # js) found =
     (if i = j then search_second stars grid n i js found
      else bindR (search_pair stars grid i j) (\<lambda>r. case r of
        None \<Rightarrow> search_second stars grid n i js found
      | Some found1 \<Rightarrow>
          if length found + 1 < n then search_second stars grid n i js (found @ [found1])
          else ok (found @ [found1], True)))"

fun search_first :: "projected_star list \<Rightarrow> star_grid \<Rightarrow> nat \<Rightarrow> nat list \<Rightarrow> projected_star list list
    \<Rightarrow> (projected_star list list \<times> bool) pow" where
  "search_first stars grid n [] found = ok (found, False)"
| "search_first stars grid n (i # is) found =
     bindR (search_second stars grid n i [0..<length stars] found) (\<lambda>(found, success).
       if success then ok (found, True) else search_first stars grid n is found)"

definition search_n :: "projected_star list \<Rightarrow> nat \<Rightarrow> (projected_star list list \<times> bool) pow" where
  "search_n stars n =
     bindR (sort_grid stars) (\<lambda>grid. search_first stars grid n [0..<length stars] [])"

definition search :: "projected_star list \<Rightarrow> projected_star list option pow" where
  "search stars =
     bindR (search_n stars 1) (\<lambda>(found_n, success). ok (if success then Some (found_n ! 0) else None))"

subsection \<open>Values of the constants\<close>

lemma isqrt_invariant:
  assumes "0 \<le> val" "val < 2 ^ Suc bshft * (2 * g + 2 ^ Suc bshft)" "0 \<le> g" "2 ^ Suc bshft dvd g"
  defines "r \<equiv> isqrt_loop val g (2 ^ bshft) bshft"
  shows "g * g + val - r * r < 2 * r + 1" "0 \<le> g * g + val - r * r" "g \<le> r" "r < g + 2 ^ Suc bshft"
proof -
  have "(\<exists>v. 0 \<le> v \<and> v < 2 * r + 1 \<and> g * g + val = r * r + v) \<and> g \<le> r \<and> r < g + 2 ^ Suc bshft"
    using assms(1-4) unfolding r_def
  proof (induction bshft arbitrary: val g)
    case 0
    then show ?case
      by (cases "1 + g * 2 \<le> val")
        (auto simp: isqrt_loop.simps Let_def algebra_simps intro: exI [of _ "val - (1 + g * 2)"])
  next
    case (Suc n)
    define b where "b = (2 :: int) ^ Suc n"
    define temp where "temp = b * (2 * g + b)"
    have t: "push_bit (Suc n) (push_bit 1 g + int (2 ^ Suc n)) = temp"
      by (simp add: temp_def b_def push_bit_eq_mult algebra_simps)
    have bb: "2 ^ Suc (Suc n) = 2 * b" by (simp add: b_def)
    define g' val' where "g' = (if temp \<le> val then g + b else g)" and "val' = (if temp \<le> val then val - temp else val)"
    have rec: "isqrt_loop val g (2 ^ Suc n) (Suc n) = isqrt_loop val' g' (2 ^ n) n"
      by (subst isqrt_loop.simps) (simp add: t [simplified] Let_def g'_def val'_def b_def)
    have sq: "g' * g' + val' = g * g + val"
      by (simp add: g'_def val'_def temp_def algebra_simps)
    have v: "0 \<le> val'" using Suc.prems(1) by (simp add: val'_def)
    have b: "val' < 2 ^ Suc n * (2 * g' + 2 ^ Suc n)"
      using Suc.prems(2) unfolding b_def [symmetric] bb
      by (auto simp: val'_def g'_def temp_def algebra_simps)
    have g: "0 \<le> g'" using Suc.prems(3) by (simp add: g'_def b_def)
    have "2 ^ Suc n dvd g" using Suc.prems(4) by (metis dvd_mult_right power_Suc)
    then have d: "2 ^ Suc n dvd g'" by (simp add: g'_def b_def)
    have "g \<le> g'" "g' \<le> g + b" by (simp_all add: g'_def b_def)
    then show ?case
      using Suc.IH [OF v b g d] unfolding rec sq bb b_def [symmetric] by auto
  qed
  then show "g * g + val - r * r < 2 * r + 1" "0 \<le> g * g + val - r * r" "g \<le> r" "r < g + 2 ^ Suc bshft"
    by auto
qed

lemma isqrt_correct:
  assumes "0 \<le> val" "val < 2 ^ 32"
  shows "isqrt val * isqrt val \<le> val" "val < (isqrt val + 1) * (isqrt val + 1)" "0 \<le> isqrt val"
proof -
  have "int 0x8000 = 2 ^ 15" by simp
  then have e: "isqrt val = isqrt_loop val 0 (2 ^ 15) 15" by (simp add: isqrt_def)
  have "val < 2 ^ Suc 15 * (2 * 0 + 2 ^ Suc 15)" using assms(2) by simp
  note i = isqrt_invariant [OF assms(1) this, folded e]
  show "isqrt val * isqrt val \<le> val" "val < (isqrt val + 1) * (isqrt val + 1)" "0 \<le> isqrt val"
    using i by (simp_all add: algebra_simps)
qed

lemma isqrt_unique:
  assumes "0 \<le> val" "val < 2 ^ 32" "0 \<le> r" "r * r \<le> val" "val < (r + 1) * (r + 1)"
  shows "isqrt val = r"
proof -
  note i = isqrt_correct [OF assms(1,2)]
  have "isqrt val < r + 1"
  proof (rule ccontr)
    assume "\<not> isqrt val < r + 1"
    then have "(r + 1) * (r + 1) \<le> isqrt val * isqrt val" using assms(3) by (intro mult_mono) simp_all
    then show False using i(1) assms(5) by simp
  qed
  moreover have "r < isqrt val + 1"
  proof (rule ccontr)
    assume "\<not> r < isqrt val + 1"
    then have "(isqrt val + 1) * (isqrt val + 1) \<le> r * r" using i(3) by (intro mult_mono) simp_all
    then show False using i(2) assms(4) by simp
  qed
  ultimately show ?thesis by simp
qed

lemma dl12_value: "dl12 = 218"
  unfolding dl12_def by (rule isqrt_unique) (simp_all add: dx12_def dy12_def)

lemma isqrt_bound: "0 \<le> val \<Longrightarrow> val < 2 ^ 32 \<Longrightarrow> val < (b + 1) * (b + 1) \<Longrightarrow> 0 \<le> b \<Longrightarrow> isqrt val \<le> b"
proof (rule ccontr)
  assume a: "0 \<le> val" "val < 2 ^ 32" "val < (b + 1) * (b + 1)" "0 \<le> b" "\<not> isqrt val \<le> b"
  then have "(b + 1) * (b + 1) \<le> isqrt val * isqrt val" by (intro mult_mono) simp_all
  then show False using isqrt_correct(1) [OF a(1,2)] a(3) by simp
qed

subsection \<open>The detector finds what the verifier accepts\<close>

lemma int32s_ok: "int32s zs m = ok r \<longleftrightarrow> list_all in_int32 zs \<and> m = ok r"
  by (simp add: int32s_def)

lemma int32s_guard:
  "int32s zs (if b then ok None else int32s zs' m) = ok (Some r) \<longleftrightarrow>
     list_all in_int32 zs \<and> \<not> b \<and> list_all in_int32 zs' \<and> m = ok (Some r)"
  by (simp add: int32s_ok)

lemma first_near_found:
  "first_near dx0 dy0 r2 ss = ok (Some s) \<Longrightarrow> s \<in> set ss \<and>
     (let dx = sint (ps_x s) - dx0; dy = sint (ps_y s) - dy0
      in list_all in_int32 [dx, dy, dx * dx, dy * dy, dx * dx + dy * dy, 100 * (dx * dx + dy * dy)] \<and>
         100 * (dx * dx + dy * dy) \<le> r2)"
  by (induction ss) (auto simp: int32s_ok Let_def split: if_splits)

definition grid_stars :: "star_grid \<Rightarrow> projected_star set" where
  "grid_stars grid = {s. \<exists>x<32. \<exists>y<32. s \<in> set (grid ! x ! y)}"

definition grid_shape :: "star_grid \<Rightarrow> bool" where
  "grid_shape grid \<longleftrightarrow> length grid = 32 \<and> (\<forall>x<32. length (grid ! x) = 32)"

lemma sort_into_stars:
  "sort_into grid stars = ok grid' \<Longrightarrow> grid_shape grid \<Longrightarrow>
     grid_shape grid' \<and> grid_stars grid' = grid_stars grid \<union> set stars"
proof (induction stars arbitrary: grid)
  case (Cons s stars)
  define gx gy where "gx = to_grid_x (uint (ps_x s))" and "gy = to_grid_y (uint (ps_y s))"
  define g where "g = grid[gx := (grid ! gx)[gy := grid ! gx ! gy @ [s]]]"
  have xy: "gx < 32" "gy < 32" and r: "sort_into g stars = ok grid'"
    using Cons.prems(1) by (auto simp: Let_def gx_def gy_def g_def split: if_splits)
  have sh: "grid_shape g"
    using Cons.prems(2) xy by (auto simp: grid_shape_def g_def nth_list_update)
  have cell: "t \<in> set (g ! x ! y) \<longleftrightarrow> t \<in> set (grid ! x ! y) \<or> x = gx \<and> y = gy \<and> t = s" if "x < 32" "y < 32" for x y t
    using that xy Cons.prems(2) by (auto simp: g_def grid_shape_def nth_list_update)
  have "t \<in> grid_stars g \<longleftrightarrow> t \<in> grid_stars grid \<union> {s}" for t
    using xy by (simp add: grid_stars_def cell cong: conj_cong) blast
  then have "grid_stars g = grid_stars grid \<union> {s}" by blast
  then show ?case using Cons.IH [OF r sh] by auto
qed auto

lemma sort_grid_stars: "sort_grid stars = ok grid \<Longrightarrow> grid_stars grid = set stars"
  using sort_into_stars [of "replicate 32 (replicate 32 [])" stars grid]
  by (auto simp: sort_grid_def grid_shape_def grid_stars_def)

definition near :: "int \<Rightarrow> int \<Rightarrow> int \<Rightarrow> projected_star \<Rightarrow> bool" where
  "near dx0 dy0 r2 s \<longleftrightarrow>
     (let dx = sint (ps_x s) - dx0; dy = sint (ps_y s) - dy0
      in list_all in_int32 [dx, dy, dx * dx, dy * dy, dx * dx + dy * dy, 100 * (dx * dx + dy * dy)] \<and>
         100 * (dx * dx + dy * dy) \<le> r2)"

lemma to_grid_less: "0 \<le> x \<Longrightarrow> x < 4096 \<Longrightarrow> to_grid_x x < 32 \<and> to_grid_y x < 32"
  by (simp add: to_grid_x_def to_grid_y_def GRID_SIZE_def SCREEN_WIDTH_def SCREEN_HEIGHT_def nat_less_iff)

lemma find_dy_found:
  "find_dy grid dx0 dy0 r2 dx dy dy2 = ok (Some s) \<Longrightarrow> s \<in> grid_stars grid \<and> near dx0 dy0 r2 s"
proof (induction grid dx0 dy0 r2 dx dy dy2 rule: find_dy.induct)
  case (1 grid dx0 dy0 r2 dx dy dy2)
  then have dy: "dy < dy2" by (subst (asm) (2) find_dy.simps) (auto split: if_splits)
  let ?m = "if 0 \<le> dx \<and> dx < SCREEN_WIDTH \<and> 0 \<le> dy \<and> dy < SCREEN_HEIGHT
      then first_near dx0 dy0 r2 (grid ! to_grid_x dx ! to_grid_y dy) else ok None"
  obtain f where f: "?m = ok f" "(case f of Some s \<Rightarrow> ok (Some s) | None \<Rightarrow> find_dy grid dx0 dy0 r2 dx (dy + GRID_SIZE) dy2) = ok (Some s)"
    using 1(2) dy by (subst (asm) find_dy.simps) (auto elim!: bindR_okE)
  show ?case
  proof (cases f)
    case None
    then show ?thesis using 1(1) [OF dy] f by simp
  next
    case (Some s')
    then have "first_near dx0 dy0 r2 (grid ! to_grid_x dx ! to_grid_y dy) = ok (Some s)"
      and r: "0 \<le> dx" "dx < 4096" "0 \<le> dy" "dy < 4096"
      using f by (auto simp: SCREEN_WIDTH_def SCREEN_HEIGHT_def split: if_splits)
    from first_near_found [OF this(1)] have "s \<in> set (grid ! to_grid_x dx ! to_grid_y dy)" "near dx0 dy0 r2 s"
      by (simp_all add: near_def)
    then show ?thesis using to_grid_less [of dx] to_grid_less [of dy] r unfolding grid_stars_def by blast
  qed
qed

lemma find_dx_found:
  "find_dx grid dx0 dy0 r2 dx dx2 dy1 dy2 = ok (Some s) \<Longrightarrow> s \<in> grid_stars grid \<and> near dx0 dy0 r2 s"
proof (induction grid dx0 dy0 r2 dx dx2 dy1 dy2 rule: find_dx.induct)
  case (1 grid dx0 dy0 r2 dx dx2 dy1 dy2)
  then have dx: "dx < dx2" by (subst (asm) (2) find_dx.simps) (auto split: if_splits)
  obtain f where f: "find_dy grid dx0 dy0 r2 dx dy1 dy2 = ok f"
    "(case f of Some s \<Rightarrow> ok (Some s) | None \<Rightarrow> find_dx grid dx0 dy0 r2 (dx + GRID_SIZE) dx2 dy1 dy2) = ok (Some s)"
    using 1(2) dx by (subst (asm) find_dx.simps) (auto elim!: bindR_okE)
  show ?case
    using f 1(1) [OF dx] find_dy_found [of grid dx0 dy0 r2 dx dy1 dy2] by (cases f) auto
qed

lemma find_star_found:
  "find_star grid dx0 dy0 tol = ok (Some s) \<Longrightarrow>
     s \<in> grid_stars grid \<and> near dx0 dy0 (tol * tol sdiv 100) s \<and> in_int32 (tol * tol)"
  by (auto simp: find_star_def Let_def int32s_ok dest: find_dx_found)

lemma search_star_found:
  assumes "search_star grid R_00 R_01 xi yi tol dlij k = ok (Some s)" and "stars ! k = s"
  shows "s \<in> grid_stars grid \<and> in_int32 (tol * tol) \<and>
     star_matches R_00 R_01 xi yi (tol * tol sdiv 100) stars k = ok True"
proof -
  define xs ys where "xs = (R_00 * dipper_dx ! k + R_01 * dipper_dy ! k) sdiv dl12 + xi"
    and "ys = (- R_01 * dipper_dx ! k + R_00 * dipper_dy ! k) sdiv dl12 + yi"
  from assms(1) have c: "list_all in_int32 [- R_01, R_00 * dipper_dx ! k, R_01 * dipper_dy ! k, R_00 * dipper_dx ! k + R_01 * dipper_dy ! k,
      - R_01 * dipper_dx ! k, R_00 * dipper_dy ! k, - R_01 * dipper_dx ! k + R_00 * dipper_dy ! k, xs, ys]"
    and f: "find_star grid xs ys tol = ok (Some s)"
    unfolding search_star_def Let_def int32s_ok xs_def [symmetric] ys_def [symmetric] by simp_all
  from find_star_found [OF f] show ?thesis
    using c assms(2) unfolding star_matches_def Let_def near_def xs_def [symmetric] ys_def [symmetric] int32s_def
    by (simp add: int32s_def)
qed

lemma search_rest_found:
  assumes "search_rest grid R_00 R_01 xi yi tol dlij [k..<7] found1 = ok (found, True)" "length found1 = k" "k < 7"
  shows "\<exists>ext. found = found1 @ ext \<and> length found = 7 \<and> set ext \<subseteq> grid_stars grid \<and> in_int32 (tol * tol) \<and>
     check_stars R_00 R_01 xi yi (tol * tol sdiv 100) found [k..<7] = ok True"
  using assms
proof (induction "7 - k" arbitrary: k found1)
  case (Suc n)
  have u: "[k..<7] = k # [Suc k..<7]" using Suc.prems(3) by (simp add: upt_conv_Cons)
  obtain f where f: "search_star grid R_00 R_01 xi yi tol dlij k = ok f"
    "(case f of Some s \<Rightarrow> if k = 6 then ok (found1 @ [s], True)
        else search_rest grid R_00 R_01 xi yi tol dlij [Suc k..<7] (found1 @ [s]) | None \<Rightarrow> ok (found1, False)) = ok (found, True)"
    using Suc.prems(1) unfolding u search_rest.simps by (rule bindR_okE)
  obtain s where s: "f = Some s" using f(2) by (cases f) auto
  note sf = search_star_found [OF f(1) [unfolded s]]
  show ?case
  proof (cases "k = 6")
    case True
    then have found: "found = found1 @ [s]" using f(2) s by simp
    then have "found ! k = s" using Suc.prems(2) by (simp add: nth_append)
    from sf [OF this] show ?thesis
      using True found Suc.prems(2) unfolding u by (intro exI [of _ "[s]"]) simp
  next
    case False
    then have r: "search_rest grid R_00 R_01 xi yi tol dlij [Suc k..<7] (found1 @ [s]) = ok (found, True)"
      using f(2) s by simp
    have "n = 7 - Suc k" "length (found1 @ [s]) = Suc k" "Suc k < 7"
      using Suc.hyps(2) Suc.prems(2,3) False by simp_all
    from Suc.hyps(1) [OF this(1) r this(2,3)] obtain ext where e: "found = (found1 @ [s]) @ ext" "length found = 7"
      "set ext \<subseteq> grid_stars grid" "in_int32 (tol * tol)"
      "check_stars R_00 R_01 xi yi (tol * tol sdiv 100) found [Suc k..<7] = ok True" by blast
    have "found ! k = s" using e(1) Suc.prems(2) by (simp add: nth_append)
    from sf [OF this] show ?thesis
      using e unfolding u by (intro exI [of _ "s # ext"]) simp
  qed
qed simp

definition is_dipper :: "projected_star list \<Rightarrow> bool" where
  "is_dipper ss \<longleftrightarrow> length ss = 7 \<and> check_dipper ss = ok True"

lemma search_pair_found:
  assumes "search_pair stars grid i j = ok (Some ss)" "i < length stars" "j < length stars" "grid_stars grid = set stars"
  shows "is_dipper ss \<and> set ss \<subseteq> set stars"
proof -
  define xi yi xj yj where "xi = sint (ps_x (stars ! i))" and "yi = sint (ps_y (stars ! i))"
    and "xj = sint (ps_x (stars ! j))" and "yj = sint (ps_y (stars ! j))"
  define d2 where "d2 = (xj - xi) * (xj - xi) + (yj - yi) * (yj - yi)"
  define tol where "tol = TOLERANCE * isqrt d2 sdiv dl12"
  define R_00 R_01 where "R_00 = (dx12 * (xj - xi) + dy12 * (yj - yi)) sdiv dl12"
    and "R_01 = (dy12 * (xj - xi) - dx12 * (yj - yi)) sdiv dl12"
  from assms(1) have c: "list_all in_int32 [xj - xi, yj - yi, (xj - xi) * (xj - xi), (yj - yi) * (yj - yi), d2]"
    "\<not> d2 < 25"
    "list_all in_int32 [dx12 * (xj - xi), dy12 * (yj - yi), dx12 * (xj - xi) + dy12 * (yj - yi),
       dy12 * (xj - xi), dx12 * (yj - yi), dy12 * (xj - xi) - dx12 * (yj - yi), TOLERANCE * isqrt d2]"
    and m: "bindR (search_rest grid R_00 R_01 xi yi tol (isqrt d2) [2..<7] [stars ! i, stars ! j])
      (\<lambda>(found1, success). ok (if success then Some found1 else None)) = ok (Some ss)"
    unfolding search_pair_def Let_def xi_def [symmetric] yi_def [symmetric] xj_def [symmetric] yj_def [symmetric]
      d2_def [symmetric] tol_def [symmetric] R_00_def [symmetric] R_01_def [symmetric]
    unfolding int32s_guard by blast+
  have r: "search_rest grid R_00 R_01 xi yi tol (isqrt d2) [2..<7] [stars ! i, stars ! j] = ok (ss, True)"
  proof (rule bindR_okE [OF m])
    fix p
    assume p: "search_rest grid R_00 R_01 xi yi tol (isqrt d2) [2..<7] [stars ! i, stars ! j] = ok p"
      and q: "(case p of (found1, success) \<Rightarrow> ok (if success then Some found1 else None)) = ok (Some ss)"
    have "p = (ss, True)" using q by (cases p) (simp split: if_splits)
    then show ?thesis using p by (simp only:)
  qed
  obtain ext where e: "ss = [stars ! i, stars ! j] @ ext" "length ss = 7" "set ext \<subseteq> grid_stars grid" "in_int32 (tol * tol)"
    "check_stars R_00 R_01 xi yi (tol * tol sdiv 100) ss [2..<7] = ok True"
    using search_rest_found [OF r] by auto
  have n: "sint (ps_x (ss ! 0)) = xi" "sint (ps_y (ss ! 0)) = yi" "sint (ps_x (ss ! 1)) = xj" "sint (ps_y (ss ! 1)) = yj"
    using e(1) by (simp_all add: xi_def yi_def xj_def yj_def)
  have "check_dipper ss = ok True"
    using c e(4,5) unfolding check_dipper_def Let_def n d2_def [symmetric] tol_def [symmetric] R_00_def [symmetric] R_01_def [symmetric]
    by (simp add: int32s_def)
  moreover have "set ss \<subseteq> set stars" using e(1,3) assms(2-4) by auto
  ultimately show ?thesis using e(2) by (simp add: is_dipper_def)
qed

lemma search_second_found:
  assumes "search_second stars grid n i js found = ok (found', success)" "i < length stars" "\<forall>j\<in>set js. j < length stars"
    "grid_stars grid = set stars" "\<forall>ss\<in>set found. is_dipper ss \<and> set ss \<subseteq> set stars"
  shows "(\<forall>ss\<in>set found'. is_dipper ss \<and> set ss \<subseteq> set stars) \<and> (success \<longrightarrow> found' \<noteq> [])"
  using assms
proof (induction js arbitrary: found)
  case Nil
  then show ?case by simp
next
  case (Cons j js)
  note rec = Cons.IH [OF _ Cons.prems(2) _ Cons.prems(4)]
  have js: "\<forall>j\<in>set js. j < length stars" and j: "j < length stars" using Cons.prems(3) by simp_all
  show ?case
  proof (cases "i = j")
    case True
    then have "search_second stars grid n i js found = ok (found', success)" using Cons.prems(1) by simp
    from rec [OF this js Cons.prems(5)] show ?thesis .
  next
    case False
    have "bindR (search_pair stars grid i j) (\<lambda>r. case r of None \<Rightarrow> search_second stars grid n i js found
        | Some found1 \<Rightarrow> if length found + 1 < n then search_second stars grid n i js (found @ [found1])
            else ok (found @ [found1], True)) = ok (found', success)"
      using Cons.prems(1) unfolding search_second.simps if_not_P [OF False] .
    then obtain r where r: "search_pair stars grid i j = ok r"
      "(case r of None \<Rightarrow> search_second stars grid n i js found
        | Some found1 \<Rightarrow> if length found + 1 < n then search_second stars grid n i js (found @ [found1])
            else ok (found @ [found1], True)) = ok (found', success)"
      by (rule bindR_okE)
    show ?thesis
    proof (cases r)
      case None
      then have "search_second stars grid n i js found = ok (found', success)" using r(2) by simp
      from rec [OF this js Cons.prems(5)] show ?thesis .
    next
      case (Some ss)
      have "is_dipper ss \<and> set ss \<subseteq> set stars"
        using search_pair_found [OF r(1) [unfolded Some] Cons.prems(2) j Cons.prems(4)] .
      then have ss: "\<forall>ss\<in>set (found @ [ss]). is_dipper ss \<and> set ss \<subseteq> set stars" using Cons.prems(5) by simp
      show ?thesis
      proof (cases "length found + 1 < n")
        case True
        then have "search_second stars grid n i js (found @ [ss]) = ok (found', success)" using r(2) Some by simp
        from rec [OF this js ss] show ?thesis .
      next
        case False
        then have "found' = found @ [ss]" using r(2) Some by simp
        then show ?thesis using ss by simp
      qed
    qed
  qed
qed

lemma search_first_found:
  assumes "search_first stars grid n is found = ok (found', success)" "\<forall>i\<in>set is. i < length stars"
    "grid_stars grid = set stars" "\<forall>ss\<in>set found. is_dipper ss \<and> set ss \<subseteq> set stars"
  shows "(\<forall>ss\<in>set found'. is_dipper ss \<and> set ss \<subseteq> set stars) \<and> (success \<longrightarrow> found' \<noteq> [])"
  using assms
proof (induction "is" arbitrary: found)
  case (Cons i "is")
  obtain f s where f: "search_second stars grid n i [0..<length stars] found = ok (f, s)"
    "(if s then ok (f, True) else search_first stars grid n is f) = ok (found', success)"
    using Cons.prems(1) by (auto elim!: bindR_okE)
  have "(\<forall>ss\<in>set f. is_dipper ss \<and> set ss \<subseteq> set stars) \<and> (s \<longrightarrow> f \<noteq> [])"
    using search_second_found [OF f(1)] Cons.prems by simp
  then show ?case using f(2) Cons.IH [of f] Cons.prems by (cases s) auto
qed auto

text \<open>C35: What the detector finds is what the verifier accepts.  Whenever \<open>search\<close> finds a dipper among any
  projected stars, it consists of seven of these stars, and they pass the check of \<open>verify_pow\<close>, which is
  written a second time without the grid: the two implementations agree on every dipper that is found.\<close>

theorem detector_sound:
  assumes "search stars = ok (Some ss)"
  shows "length ss = 7 \<and> set ss \<subseteq> set stars \<and> check_dipper ss = ok True"
proof -
  obtain grid f where g: "sort_grid stars = ok grid" and f: "search_first stars grid 1 [0..<length stars] [] = ok (f, True)"
    "ss = f ! 0"
    using assms by (auto simp: search_def search_n_def elim!: bindR_okE split: if_splits)
  have "(\<forall>ss\<in>set f. is_dipper ss \<and> set ss \<subseteq> set stars) \<and> f \<noteq> []"
    using search_first_found [OF f(1)] sort_grid_stars [OF g] by simp
  then show ?thesis using f(2) by (metis is_dipper_def length_greater_0_conv nth_mem)
qed

text \<open>Seven stars that form a small dipper, all in the first cell of the grid.\<close>

definition projected :: "nat \<Rightarrow> nat \<Rightarrow> projected_star" where
  "projected x y = \<lparr>ps_id = 0, ps_x = of_nat x, ps_y = of_nat y, ps_r = 1\<rparr>"

definition picture :: "projected_star list" where
  "picture = [projected 64 64, projected 69 64, projected 70 63, projected 74 62, projected 74 59,
     projected 79 58, projected 80 61]"

definition picture_grid :: star_grid where
  "picture_grid = (replicate 32 (replicate 32 []))[0 := (replicate 32 [])[0 := picture]]"

lemma picture_sorted: "sort_grid picture = ok picture_grid"
proof -
  have e: "to_grid_x x = 0" "to_grid_y x = 0" if "x < 128" for x
    using that by (simp_all add: to_grid_x_def to_grid_y_def GRID_SIZE_def SCREEN_WIDTH_def SCREEN_HEIGHT_def)
  show ?thesis by (simp add: sort_grid_def picture_def picture_grid_def projected_def e)
qed

lemma picture_cell: "find_star picture_grid x y 18 = find_dx picture_grid x y 3 ((x * 100 - 18) sdiv 100) ((x * 100 + 18) sdiv 100)
   ((y * 100 - 18) sdiv 100) ((y * 100 + 18) sdiv 100)" if "0 \<le> x" "x < 128" "0 \<le> y" "y < 128"
  using that by (simp add: find_star_def int32s_def in_int32_def Let_def)

lemma find_picture:
  assumes "0 < x" "x < 128" "0 < y" "y < 128"
  shows "find_star picture_grid x y 18 = first_near x y 3 picture"
proof -
  have d: "(z * 100 - 18) sdiv 100 = z - 1" "(z * 100 + 18) sdiv 100 = z" if "0 < z" for z :: int
    using that by (auto simp: signed_divide_int_def sgn_if)
  have g: "picture_grid ! to_grid_x (x - 1) ! to_grid_y (y - 1) = picture"
    using assms by (simp add: picture_grid_def to_grid_x_def to_grid_y_def GRID_SIZE_def SCREEN_WIDTH_def SCREEN_HEIGHT_def)
  have same: "bindR m (\<lambda>f. case f of None \<Rightarrow> ok None | Some s \<Rightarrow> ok (Some s)) = m" for m :: "projected_star option pow"
    by (cases m; cases "the m") (auto simp: bindR_def split: option.splits)
  have "find_dy picture_grid x y 3 (x - 1) (y - 1 + GRID_SIZE) y = ok None"
    by (subst find_dy.simps) (simp add: GRID_SIZE_def)
  then have dy: "find_dy picture_grid x y 3 (x - 1) (y - 1) y = first_near x y 3 picture"
    using assms by (subst find_dy.simps) (simp add: g same SCREEN_WIDTH_def SCREEN_HEIGHT_def)
  have "find_dx picture_grid x y 3 (x - 1 + GRID_SIZE) x (y - 1) y = ok None"
    by (subst find_dx.simps) (simp add: GRID_SIZE_def)
  then have "find_dx picture_grid x y 3 (x - 1) x (y - 1) y = first_near x y 3 picture"
    by (subst find_dx.simps) (simp add: dy same)
  then show ?thesis using assms by (simp add: picture_cell d)
qed

lemma picture_pair: "search_pair picture picture_grid 0 1 = ok (Some picture)"
proof -
  have i: "isqrt 25 = 5" by (rule isqrt_unique) simp_all
  have p: "sint (ps_x (picture ! 0)) = 64" "sint (ps_y (picture ! 0)) = 64"
    "sint (ps_x (picture ! Suc 0)) = 69" "sint (ps_y (picture ! Suc 0)) = 64"
    by (simp_all add: picture_def projected_def)
  have s: "search_star picture_grid 4 2 64 64 18 5 k = ok (Some (picture ! k))" if "k \<in> set [2..<7]" for k
  proof -
    from that have "k = 2 \<or> k = 3 \<or> k = 4 \<or> k = 5 \<or> k = 6" by auto
    then show ?thesis
      by (elim disjE) (simp_all add: search_star_def Let_def int32s_def in_int32_def dipper_dx_def dipper_dy_def dipper_dr_def
          dl12_value find_picture, simp_all add: picture_def projected_def Let_def int32s_def in_int32_def)
  qed
  have u: "[2..<7] = [2, 3, 4, 5, 6 :: nat]" by (simp add: upt_rec)
  have "search_rest picture_grid 4 2 64 64 18 5 [2..<7] [picture ! 0, picture ! 1] =
      ok (picture, True)"
    using s by (simp add: u del: One_nat_def) (simp add: picture_def)
  then show ?thesis
    by (simp add: search_pair_def p Let_def int32s_def in_int32_def dx12_def dy12_def TOLERANCE_def dl12_value i
        del: upt_rec_numeral search_rest.simps)
qed

lemma picture_found: "search picture = ok (Some picture)"
proof -
  have n: "[0..<length picture] = 0 # 1 # [2..<length picture]" by (simp add: picture_def upt_conv_Cons)
  have "search_second picture picture_grid 1 0 [0..<length picture] [] = ok ([picture], True)"
    unfolding n search_second.simps picture_pair by simp
  then have "search_first picture picture_grid 1 [0..<length picture] [] = ok ([picture], True)"
    by (subst n) (simp only: search_first.simps bindR_simps prod.case if_True)
  then show ?thesis
    by (simp only: search_def search_n_def picture_sorted bindR_simps prod.case if_True) simp
qed

theorem detector_sound_witness: "length picture = 7 \<and> set picture \<subseteq> set picture \<and> check_dipper picture = ok True"
  using detector_sound [OF picture_found] .

end
