(* ===== verification/Dipper_Check.thy ===== *)
theory Dipper_Check
  imports Dipper
begin

section \<open>What the check of seven stars decides\<close>

text \<open>
  The check of \<open>verify_pow\<close> over the integers, and what the 32-bit code makes of it: for stars on the screen the only
  product that can leave the 32-bit range is the last one of the comparison with the tolerance.
\<close>

definition exact_offset :: "int \<Rightarrow> int \<Rightarrow> int \<Rightarrow> int \<Rightarrow> projected_star list \<Rightarrow> nat \<Rightarrow> int \<times> int" where
  "exact_offset R_00 R_01 x0 y0 ss i =
     (sint (ps_x (ss ! i)) - ((R_00 * dipper_dx ! i + R_01 * dipper_dy ! i) sdiv dl12 + x0),
      sint (ps_y (ss ! i)) - ((- R_01 * dipper_dx ! i + R_00 * dipper_dy ! i) sdiv dl12 + y0))"

definition square :: "int \<times> int \<Rightarrow> int" where
  "square d = fst d * fst d + snd d * snd d"

definition exact_dipper :: "projected_star list \<Rightarrow> bool" where
  "exact_dipper ss =
     (let x0 = sint (ps_x (ss ! 0)); y0 = sint (ps_y (ss ! 0));
          d = (sint (ps_x (ss ! 1)) - x0, sint (ps_y (ss ! 1)) - y0);
          tol = TOLERANCE * isqrt (square d) sdiv dl12;
          R_00 = (dx12 * fst d + dy12 * snd d) sdiv dl12;
          R_01 = (dy12 * fst d - dx12 * snd d) sdiv dl12
      in 25 \<le> square d \<and>
         list_all (\<lambda>i. 100 * square (exact_offset R_00 R_01 x0 y0 ss i) \<le> tol * tol sdiv 100) [2..<7])"

definition on_screen :: "projected_star \<Rightarrow> bool" where
  "on_screen s \<longleftrightarrow> uint (ps_x s) < SCREEN_WIDTH \<and> uint (ps_y s) < SCREEN_HEIGHT"

lemma sdiv_abs: "0 < b \<Longrightarrow> \<bar>a sdiv b\<bar> = \<bar>a\<bar> div (b :: int)"
  by (auto simp: signed_divide_int_def sgn_if abs_mult pos_imp_zdiv_nonneg_iff)

lemma sdiv_bound: "0 < b \<Longrightarrow> \<bar>a\<bar> \<le> b * k + (b - 1) \<Longrightarrow> \<bar>a sdiv b\<bar> \<le> (k :: int)"
proof -
  assume "0 < b" "\<bar>a\<bar> \<le> b * k + (b - 1)"
  then have "\<bar>a\<bar> div b \<le> (b * k + (b - 1)) div b" by (intro zdiv_mono1) simp_all
  also have "\<dots> = k" using \<open>0 < b\<close> by (simp add: div_pos_pos_trivial)
  finally have "\<bar>a\<bar> div b < k + 1" by simp
  then show ?thesis using \<open>0 < b\<close> by (simp add: sdiv_abs)
qed

lemma abs_mult_le: "\<bar>a\<bar> \<le> A \<Longrightarrow> \<bar>b\<bar> \<le> B \<Longrightarrow> \<bar>a * b\<bar> \<le> A * (B :: int)"
  by (simp add: abs_mult mult_mono)

lemma in_int32_abs: "\<bar>z\<bar> < 2147483648 \<Longrightarrow> in_int32 z"
  unfolding in_int32_def by (simp add: abs_less_iff)

lemma on_screen_sint:
  assumes "on_screen s"
  shows "0 \<le> sint (ps_x s)" "sint (ps_x s) < 4096" "0 \<le> sint (ps_y s)" "sint (ps_y s) < 4096"
proof -
  have "sint w = uint w" if "uint w < 4096" for w :: u32
  proof -
    have "sint w = signed_take_bit 31 (uint w)" by (simp add: sint_uint)
    also have "\<dots> = uint w" using that by (intro signed_take_bit_int_eq_self) (simp_all add: order_trans [OF _ unsigned_greater_eq])
    finally show ?thesis .
  qed
  then show "0 \<le> sint (ps_x s)" "sint (ps_x s) < 4096" "0 \<le> sint (ps_y s)" "sint (ps_y s) < 4096"
    using assms by (simp_all add: on_screen_def SCREEN_WIDTH_def SCREEN_HEIGHT_def)
qed

lemma template_bounds: "i \<in> {2..<7} \<Longrightarrow> \<bar>dipper_dx ! i\<bar> \<le> 830 \<and> \<bar>dipper_dy ! i\<bar> \<le> 236"
proof -
  assume "i \<in> {2..<7}"
  then have "i = 2 \<or> i = 3 \<or> i = 4 \<or> i = 5 \<or> i = 6" by auto
  then show ?thesis by (elim disjE) (simp_all add: dipper_dx_def dipper_dy_def)
qed

lemma star_matches_exact:
  assumes R: "\<bar>R_00\<bar> \<le> 5656" "\<bar>R_01\<bar> \<le> 5656" and xy: "0 \<le> x0" "x0 < 4096" "0 \<le> y0" "y0 < 4096"
    and s: "on_screen (ss ! i)" and i: "i \<in> {2..<7}"
  defines "d \<equiv> square (exact_offset R_00 R_01 x0 y0 ss i)"
  shows "star_matches R_00 R_01 x0 y0 r2 ss i = (if 100 * d < 2 ^ 31 then ok (100 * d \<le> r2) else throw Int_overflow)"
proof -
  define a b where "a = dipper_dx ! i" and "b = dipper_dy ! i"
  have t: "\<bar>a\<bar> \<le> 830" "\<bar>b\<bar> \<le> 236" using template_bounds [OF i] by (simp_all add: a_def b_def)
  note m = abs_mult_le [OF R(1) t(1)] abs_mult_le [OF R(1) t(2)] abs_mult_le [OF R(2) t(1)] abs_mult_le [OF R(2) t(2)]
  define xs ys where "xs = R_00 * a + R_01 * b" and "ys = - R_01 * a + R_00 * b"
  have l: "\<bar>xs\<bar> \<le> 6029296" "\<bar>ys\<bar> \<le> 6029296" using m unfolding xs_def ys_def by linarith+
  then have q: "\<bar>xs sdiv dl12\<bar> \<le> 27658" "\<bar>ys sdiv dl12\<bar> \<le> 27658" by (auto intro!: sdiv_bound simp: dl12_value)
  define px py where "px = xs sdiv dl12 + x0" and "py = ys sdiv dl12 + y0"
  define dx dy where "dx = sint (ps_x (ss ! i)) - px" and "dy = sint (ps_y (ss ! i)) - py"
  have p: "\<bar>px\<bar> \<le> 31753" "\<bar>py\<bar> \<le> 31753" using q xy unfolding px_def py_def by linarith+
  have o: "\<bar>dx\<bar> \<le> 31753" "\<bar>dy\<bar> \<le> 31753"
    using q xy on_screen_sint [OF s] unfolding dx_def dy_def px_def py_def by linarith+
  note sq = abs_mult_le [OF o(1) o(1)] abs_mult_le [OF o(2) o(2)]
  have d: "d = dx * dx + dy * dy"
    by (simp add: d_def square_def exact_offset_def dx_def dy_def px_def py_def xs_def ys_def a_def b_def)
  have dd: "\<bar>d\<bar> < 2147483648" using sq unfolding d by linarith
  have "0 \<le> d" by (simp add: d)
  then have h: "in_int32 (100 * d) \<longleftrightarrow> 100 * d < 2 ^ 31" by (simp add: in_int32_def)
  have rest: "list_all in_int32 [- R_01, R_00 * a, R_01 * b, xs, - R_01 * a, R_00 * b, ys, px, py, dx, dy, dx * dx, dy * dy, d]"
    using R m l p o sq dd by (simp add: in_int32_abs)
  have "star_matches R_00 R_01 x0 y0 r2 ss i =
      int32s [- R_01, R_00 * a, R_01 * b, xs, - R_01 * a, R_00 * b, ys, px, py, dx, dy, dx * dx, dy * dy, d, 100 * d]
        (ok (\<not> r2 < 100 * d))"
    unfolding star_matches_def Let_def d dx_def dy_def px_def py_def xs_def ys_def a_def b_def ..
  then show ?thesis using rest by (simp add: int32s_def h not_less)
qed

lemma check_stars_exact:
  assumes R: "\<bar>R_00\<bar> \<le> 5656" "\<bar>R_01\<bar> \<le> 5656" and xy: "0 \<le> x0" "x0 < 4096" "0 \<le> y0" "y0 < 4096"
    and s: "\<And>i. i \<in> {2..<7} \<Longrightarrow> on_screen (ss ! i)" and r2: "r2 < 2 ^ 31" and i: "set is \<subseteq> {2..<7}"
  defines "d i \<equiv> square (exact_offset R_00 R_01 x0 y0 ss i)"
  shows "(check_stars R_00 R_01 x0 y0 r2 ss is = ok True \<longleftrightarrow> list_all (\<lambda>i. 100 * d i \<le> r2) is) \<and>
    check_stars R_00 R_01 x0 y0 r2 ss is \<in> {ok True, ok False, throw Int_overflow}"
  using i
proof (induction "is")
  case (Cons i "is")
  then have "i \<in> {2..<7}" by simp
  from star_matches_exact [OF R xy s [OF this] this, of r2, folded d_def]
  have m: "star_matches R_00 R_01 x0 y0 r2 ss i = (if 100 * d i < 2 ^ 31 then ok (100 * d i \<le> r2) else throw Int_overflow)" .
  show ?case
  proof (cases "100 * d i \<le> r2")
    case True
    then have "check_stars R_00 R_01 x0 y0 r2 ss (i # is) = check_stars R_00 R_01 x0 y0 r2 ss is"
      using r2 by (simp only: check_stars.simps m) simp
    then show ?thesis using Cons.IH Cons.prems True by (auto simp del: check_stars.simps)
  next
    case False
    then show ?thesis by (simp add: m)
  qed
qed simp

lemma check_dipper_on_screen:
  assumes "length ss = 7" "list_all on_screen ss"
  shows "(check_dipper ss = ok True \<longleftrightarrow> exact_dipper ss) \<and> check_dipper ss \<in> {ok True, ok False, throw Int_overflow}"
proof -
  have o: "on_screen (ss ! i)" if "i < 7" for i using assms that by (simp add: list_all_length)
  define x0 y0 dx dy where "x0 = sint (ps_x (ss ! 0))" and "y0 = sint (ps_y (ss ! 0))"
    and "dx = sint (ps_x (ss ! 1)) - x0" and "dy = sint (ps_y (ss ! 1)) - y0"
  define q where "q = dx * dx + dy * dy"
  have xy: "0 \<le> x0" "x0 < 4096" "0 \<le> y0" "y0 < 4096" using on_screen_sint [OF o [of 0]] by (simp_all add: x0_def y0_def)
  have d: "\<bar>dx\<bar> \<le> 4095" "\<bar>dy\<bar> \<le> 4095"
    using xy on_screen_sint [OF o [of 1]] unfolding dx_def dy_def by simp_all
  note sq = abs_mult_le [OF d(1) d(1)] abs_mult_le [OF d(2) d(2)]
  have q: "0 \<le> q" "\<bar>q\<bar> \<le> 33538050" using sq unfolding q_def by (simp, linarith)
  have s: "0 \<le> isqrt q" "isqrt q \<le> 5792"
    using q by (simp_all add: isqrt_correct isqrt_bound)
  define tol where "tol = TOLERANCE * isqrt q sdiv dl12"
  have t: "\<bar>tol\<bar> \<le> 21255" unfolding tol_def using s by (intro sdiv_bound) (simp_all add: TOLERANCE_def dl12_value)
  note tt = abs_mult_le [OF t t]
  have r2: "\<bar>tol * tol sdiv 100\<bar> \<le> 4517751" using tt by (intro sdiv_bound) simp_all
  define A B where "A = dx12 * dx + dy12 * dy" and "B = dy12 * dx - dx12 * dy"
  have AB: "\<bar>A\<bar> \<le> 1232595" "\<bar>B\<bar> \<le> 1232595" using d unfolding A_def B_def dx12_def dy12_def by linarith+
  then have R: "\<bar>A sdiv dl12\<bar> \<le> 5656" "\<bar>B sdiv dl12\<bar> \<le> 5656" by (auto intro!: sdiv_bound simp: dl12_value)
  have g: "list_all in_int32 [dx, dy, dx * dx, dy * dy, q]" using d sq q by (simp add: in_int32_abs)
  have "\<bar>dx12 * dx\<bar> < 2147483648" "\<bar>dy12 * dy\<bar> < 2147483648" "\<bar>dy12 * dx\<bar> < 2147483648" "\<bar>dx12 * dy\<bar> < 2147483648"
    "\<bar>TOLERANCE * isqrt q\<bar> < 2147483648"
    using d s unfolding dx12_def dy12_def TOLERANCE_def by linarith+
  then have h: "list_all in_int32 [TOLERANCE * isqrt q, tol * tol, dx12 * dx, dy12 * dy, A, dy12 * dx, dx12 * dy, B]"
    using tt AB by (simp add: in_int32_abs)
  define body where "body = check_stars (A sdiv dl12) (B sdiv dl12) x0 y0 (tol * tol sdiv 100) ss [2..<7]"
  define good where "good = list_all (\<lambda>i. 100 * square (exact_offset (A sdiv dl12) (B sdiv dl12) x0 y0 ss i) \<le> tol * tol sdiv 100) [2..<7]"
  have body: "(body = ok True \<longleftrightarrow> good) \<and> body \<in> {ok True, ok False, throw Int_overflow}"
    unfolding body_def good_def using r2 by (intro check_stars_exact R xy o) (simp_all add: atLeastLessThan_iff)
  have c: "check_dipper ss = (if q < 25 then ok False else body)"
    using g h unfolding check_dipper_def Let_def body_def int32s_def x0_def [symmetric] y0_def [symmetric]
      dx_def [symmetric] dy_def [symmetric] q_def [symmetric] tol_def [symmetric] A_def [symmetric] B_def [symmetric] by simp
  have e: "exact_dipper ss \<longleftrightarrow> 25 \<le> q \<and> good"
    unfolding exact_dipper_def Let_def square_def fst_conv snd_conv good_def x0_def [symmetric] y0_def [symmetric]
      dx_def [symmetric] dy_def [symmetric] q_def [symmetric] tol_def [symmetric] A_def [symmetric] B_def [symmetric] ..
  show ?thesis using body by (cases "q < 25") (auto simp: c e)
qed

text \<open>Two stars five points apart and five stars in the opposite corner: the 32-bit product of the comparison
  overflows.  (A machine that wraps around gets a negative number and accepts the star.)\<close>

lemma check_dipper_overflow:
  "check_dipper (projected 0 0 # projected 5 0 # replicate 5 (projected 4095 4095)) = throw Int_overflow"
proof -
  have i: "isqrt 25 = 5" by (rule isqrt_unique) simp_all
  have u: "[2..<7] = 2 # [3..<7]" by (simp add: upt_rec)
  have p: "sint (4095 :: u32) = 4095" by simp
  show ?thesis
    unfolding check_dipper_def Let_def u
    by (simp add: star_matches_def Let_def projected_def i dl12_value dx12_def dy12_def TOLERANCE_def int32s_def in_int32_def
        dipper_dx_def dipper_dy_def del: upt_rec_numeral)
qed

end
