(* ===== verification/Pow_Verify.thy ===== *)
theory Pow_Verify
  imports Dipper_Check Fxp_Sqrt Flt
begin

section \<open>Proofs of work and their verification\<close>

text \<open>
  \<^verbatim>\<open>pow_proof\<close> and \<^verbatim>\<open>pow_verifier\<close> of \<^verbatim>\<open>src/src/pow/pow_verifier.hpp\<close>, \<^verbatim>\<open>pow_verifier.cpp\<close>, and \<open>validate_pow\<close> of
  \<^verbatim>\<open>src/src/global/meta_entry.cpp\<close>.  A proof is four rows of nine words: a star visible at the row's nonce offset, the
  nonce that turns the camera, and the seven stars of the dipper seen then.  The galaxy of a verifier holds only the keys,
  so the state is the camera.  \<open>verify_pow\<close> computes the Blake2 digest of the proof and never reads it; the call is left out.
\<close>

subsection \<open>The proof\<close>

definition NUM_ROWS :: nat where "NUM_ROWS = 4"
definition ROW_SIZE :: nat where "ROW_SIZE = 9"

type_synonym pow_proof = "u32 list"

definition empty_proof :: pow_proof where
  "empty_proof = replicate (NUM_ROWS * ROW_SIZE) 0"

definition get_row :: "pow_proof \<Rightarrow> nat \<Rightarrow> u32 list" where
  "get_row p n = take ROW_SIZE (drop (n * ROW_SIZE) p)"

definition set_row :: "pow_proof \<Rightarrow> nat \<Rightarrow> u32 list \<Rightarrow> pow_proof" where
  "set_row p n row = take (n * ROW_SIZE) p @ take ROW_SIZE row @ drop (n * ROW_SIZE + ROW_SIZE) p"

definition word_bytes :: "u32 \<Rightarrow> u8 list" where
  "word_bytes w =
     [ucast (drop_bit 24 w AND 0xff), ucast (drop_bit 16 w AND 0xff), ucast (drop_bit 8 w AND 0xff), ucast (drop_bit 0 w AND 0xff)]"

definition proof_write :: "pow_proof \<Rightarrow> u8 list" where
  "proof_write p =
     concat (map (\<lambda>row. concat (map (\<lambda>j. word_bytes (p ! (row * ROW_SIZE + j))) [0..<ROW_SIZE])) [0..<NUM_ROWS])"

definition bytes_word :: "u8 list \<Rightarrow> nat \<Rightarrow> u32" where
  "bytes_word bytes i =
     (let b0 = bytes ! (4 * i); b1 = bytes ! (4 * i + 1); b2 = bytes ! (4 * i + 2); b3 = bytes ! (4 * i + 3)
      in push_bit 24 (ucast b0) OR push_bit 16 (ucast b1) OR push_bit 8 (ucast b2) OR ucast b3)"

definition proof_read :: "u8 list \<Rightarrow> pow_proof" where
  "proof_read bytes =
     concat (map (\<lambda>row. map (\<lambda>j. bytes_word bytes (row * ROW_SIZE + j)) [0..<ROW_SIZE]) [0..<NUM_ROWS])"

subsection \<open>The verifier\<close>

record pow_verifier =
  v_key :: siphash_keys
  super_difficulty :: nat
  v_camera :: "camera option"

definition new_verifier :: "siphash_keys \<Rightarrow> nat \<Rightarrow> pow_verifier" where
  "new_verifier key sd = \<lparr>v_key = key, super_difficulty = sd, v_camera = None\<rparr>"

definition setup_t :: "nat \<Rightarrow> pow_verifier \<Rightarrow> u64 \<Rightarrow> u32 \<Rightarrow> pow_verifier pow" where
  "setup_t N v nonce_offset nonce =
     (let cam = (case v_camera v of None \<Rightarrow> new_camera N (v_key v) | Some cam \<Rightarrow> cam)
      in bindR (set_target cam nonce_offset nonce) (\<lambda>cam. ok (v\<lparr>v_camera := Some cam\<rparr>)))"

definition verifier_setup :: "pow_verifier \<Rightarrow> u64 \<Rightarrow> u32 \<Rightarrow> pow_verifier pow" where
  "verifier_setup v nonce_offset nonce =
     (if super_difficulty v = 7 then setup_t 7 v nonce_offset nonce
      else if super_difficulty v = 8 then setup_t 8 v nonce_offset nonce
      else if super_difficulty v = 9 then setup_t 9 v nonce_offset nonce
      else throw Assertion_failed)"

definition project_star_t :: "pow_verifier \<Rightarrow> u32 \<Rightarrow> projected_star option pow" where
  "project_star_t v i = (case v_camera v of None \<Rightarrow> throw Null_pointer | Some cam \<Rightarrow> cam_project_star cam i)"

definition project_star :: "pow_verifier \<Rightarrow> u32 \<Rightarrow> projected_star option pow" where
  "project_star v i =
     (if super_difficulty v = 7 \<or> super_difficulty v = 8 \<or> super_difficulty v = 9 then project_star_t v i
      else throw Assertion_failed)"

subsection \<open>The check of one dipper by the detector\<close>

fun project_visible :: "pow_verifier \<Rightarrow> u32 list \<Rightarrow> projected_star list pow" where
  "project_visible v [] = ok []"
| "project_visible v (i # is) =
     bindR (project_star v i) (\<lambda>s. bindR (project_visible v is) (\<lambda>ss.
       ok (case s of None \<Rightarrow> ss | Some s \<Rightarrow> s # ss)))"

definition verify_dipper :: "siphash_keys \<Rightarrow> nat \<Rightarrow> u64 \<Rightarrow> u32 \<Rightarrow> u32 list \<Rightarrow> bool pow" where
  "verify_dipper key sd nonce_offset nonce star_ids =
     bindR (verifier_setup (new_verifier key sd) nonce_offset nonce) (\<lambda>v.
     bindR (project_visible v (take 7 star_ids)) (\<lambda>stars.
       if length stars \<noteq> 7 then ok False
       else bindR (search stars) (\<lambda>r. ok (r \<noteq> None))))"

subsection \<open>The check of a proof\<close>

fun project_all :: "pow_verifier \<Rightarrow> u32 list \<Rightarrow> projected_star list option pow" where
  "project_all v [] = ok (Some [])"
| "project_all v (i # is) =
     bindR (project_star v i) (\<lambda>s. case s of
       None \<Rightarrow> ok None
     | Some s \<Rightarrow> bindR (project_all v is) (\<lambda>ss. ok (map_option ((#) s) ss)))"

definition verify_row :: "pow_verifier \<Rightarrow> u64 \<Rightarrow> u32 list \<Rightarrow> (pow_verifier \<times> bool) pow" where
  "verify_row v nonce_offset row =
     bindR (verifier_setup v nonce_offset 0) (\<lambda>v.
     bindR (project_star v (row ! 0)) (\<lambda>first_visible_star.
       if first_visible_star = None then ok (v, False)
       else bindR (verifier_setup v nonce_offset (row ! 1)) (\<lambda>v.
            bindR (project_all v (map (\<lambda>star_no. row ! (2 + star_no)) [0..<7])) (\<lambda>stars. case stars of
              None \<Rightarrow> ok (v, False)
            | Some stars \<Rightarrow> bindR (check_dipper stars) (\<lambda>good. ok (v, good))))))"

fun verify_rows :: "pow_verifier \<Rightarrow> u32 \<Rightarrow> u32 list list \<Rightarrow> bool pow" where
  "verify_rows v nonce_sum [] = ok True"
| "verify_rows v nonce_sum (row # rows) =
     bindR (verify_row v (push_bit 32 (ucast nonce_sum)) row) (\<lambda>(v, good).
       if good then verify_rows v (nonce_sum + (row ! 1 + 1)) rows else ok False)"

text \<open>\<open>memcmp\<close> returns a positive value when the first differing byte of the first argument is the greater one.\<close>

fun memcmp_positive :: "u8 list \<Rightarrow> u8 list \<Rightarrow> bool" where
  "memcmp_positive (a # as) (b # bs) = (if a = b then memcmp_positive as bs else b < a)"
| "memcmp_positive _ _ = False"

definition verify_pow :: "siphash_keys \<Rightarrow> nat \<Rightarrow> pow_difficulty \<Rightarrow> pow_proof \<Rightarrow> bool \<Rightarrow> bool pow" where
  "verify_pow key sd difficulty p simple =
     bindR (verify_rows (new_verifier key sd) 0 (map (get_row p) [0..<(if simple then 1 else NUM_ROWS)])) (\<lambda>good.
       if \<not> good then ok False
       else let proof_bytes = proof_write p
            in bindR (get_target difficulty) (\<lambda>target.
                 if memcmp_positive (take 32 proof_bytes) target then ok False else ok True))"

definition verify_pow_simple :: "siphash_keys \<Rightarrow> nat \<Rightarrow> pow_difficulty \<Rightarrow> pow_proof \<Rightarrow> bool pow" where
  "verify_pow_simple key sd difficulty p = verify_pow key sd difficulty p True"

subsection \<open>The check of a block header\<close>

datatype pow_mode_t = POW_NONE | POW_SIMPLE | POW_NORMAL

definition DEFAULT_SUPER_DIFFICULTY :: nat where "DEFAULT_SUPER_DIFFICULTY = 8"

definition validate_pow :: "(u8 list \<Rightarrow> u8 list) \<Rightarrow> u8 list \<Rightarrow> pow_difficulty \<Rightarrow> pow_proof \<Rightarrow> pow_mode_t \<Rightarrow> bool pow" where
  "validate_pow digest meta_id difficulty p mode =
     (if mode = POW_NONE then ok True
      else let key = siphash_keys_of digest meta_id
           in if mode = POW_SIMPLE then verify_pow_simple key DEFAULT_SUPER_DIFFICULTY difficulty p
              else verify_pow key DEFAULT_SUPER_DIFFICULTY difficulty p False)"

subsection \<open>Reading what was written\<close>

lemma word_bytes_length [simp]: "length (word_bytes w) = 4"
  by (simp add: word_bytes_def)

lemma low_byte: "ucast (w AND 0xff :: u32) = (ucast w :: u8)"
proof -
  have m: "w AND 0xff = take_bit 8 w" by (simp add: take_bit_eq_mask mask_eq_exp_minus_1)
  show ?thesis unfolding m by (rule bit_word_eqI) (simp add: bit_simps)
qed

lemma bytes_word_of_bytes:
  "push_bit 24 (ucast (word_bytes w ! 0)) OR push_bit 16 (ucast (word_bytes w ! Suc 0)) OR push_bit 8 (ucast (word_bytes w ! 2)) OR
     ucast (word_bytes w ! 3) = (w :: u32)"
proof (rule bit_word_eqI)
  fix n
  assume "n < LENGTH(32)"
  then consider "n < 8" | "8 \<le> n" "n < 16" | "16 \<le> n" "n < 24" | "24 \<le> n" "n < 32" by fastforce
  then show "bit (push_bit 24 (ucast (word_bytes w ! 0)) OR push_bit 16 (ucast (word_bytes w ! Suc 0)) OR
      push_bit 8 (ucast (word_bytes w ! 2)) OR ucast (word_bytes w ! 3) :: u32) n = bit w n"
    by cases (auto simp: word_bytes_def low_byte bit_simps)
qed

lemma concat_words_nth:
  "i < n \<Longrightarrow> k < 4 \<Longrightarrow> concat (map (\<lambda>j. word_bytes (f j)) [0..<n]) ! (4 * i + k) = word_bytes (f i) ! k"
proof (induction n)
  case (Suc n)
  have l: "length (concat (map (\<lambda>j. word_bytes (f j)) [0..<n])) = 4 * n"
    by (simp add: length_concat comp_def sum_list_triv)
  show ?case
  proof (cases "i = n")
    case True
    then show ?thesis using Suc.prems l by (simp add: nth_append)
  next
    case False
    then have "4 * i + k < 4 * n" using Suc.prems by simp
    then show ?thesis using Suc False l by (simp add: nth_append)
  qed
qed simp

lemma nested_words:
  "concat (map (\<lambda>r. concat (map (\<lambda>j. word_bytes (f (r * n + j))) [0..<n])) [0..<m]) = concat (map (\<lambda>i. word_bytes (f i)) [0..<m * n])"
proof (induction m)
  case (Suc m)
  have "[0..<Suc m * n] = [0..<m * n] @ map (\<lambda>j. m * n + j) [0..<n]"
    using upt_add_eq_append [of 0 "m * n" n] map_add_upt [of "m * n" n] by (simp add: add.commute)
  then show ?case using Suc by (simp add: comp_def)
qed simp

lemma nested_map: "concat (map (\<lambda>r. map (\<lambda>j. f (r * n + j)) [0..<n]) [0..<m]) = map f [0..<m * n]"
proof (induction m)
  case (Suc m)
  have "[0..<Suc m * n] = [0..<m * n] @ map (\<lambda>j. m * n + j) [0..<n]"
    using upt_add_eq_append [of 0 "m * n" n] map_add_upt [of "m * n" n] by (simp add: add.commute)
  then show ?case using Suc by (simp add: comp_def)
qed simp

lemma proof_write_words: "proof_write p = concat (map (\<lambda>i. word_bytes (p ! i)) [0..<36])"
  using nested_words [of "(!) p" ROW_SIZE NUM_ROWS] by (simp add: proof_write_def ROW_SIZE_def NUM_ROWS_def)

lemma proof_round_trip: "length p = 36 \<Longrightarrow> proof_read (proof_write p) = p"
proof -
  assume l: "length p = 36"
  have w: "bytes_word (proof_write p) i = p ! i" if "i < 36" for i
    using concat_words_nth [OF that, of 0 "(!) p"] concat_words_nth [OF that, of 1 "(!) p"]
      concat_words_nth [OF that, of 2 "(!) p"] concat_words_nth [OF that, of 3 "(!) p"]
    by (simp add: bytes_word_def Let_def proof_write_words bytes_word_of_bytes)
  have "proof_read (proof_write p) = map (bytes_word (proof_write p)) [0..<36]"
    using nested_map [of "bytes_word (proof_write p)" ROW_SIZE NUM_ROWS] by (simp add: proof_read_def ROW_SIZE_def NUM_ROWS_def)
  also have "\<dots> = p" using l w by (intro nth_equalityI) simp_all
  finally show ?thesis .
qed

subsection \<open>Projecting a star never fails\<close>

lemma fxp_add_nonneg: "0 \<le> sint a \<Longrightarrow> 0 \<le> sint b \<Longrightarrow> 0 \<le> sint (fxp_add a b)"
  by (simp add: sint_fxp_add clamp_def)

lemma fxp_square_nonneg: "0 \<le> sint (fxp_mul a a)"
  using fxp_mul_sign [of a a] by (simp add: is_negative_sint not_less [symmetric])

lemma fxp_shl_pos: "n < 64 \<Longrightarrow> 0 < sint a \<Longrightarrow> 0 < sint (fxp_shl a n)"
proof -
  assume "n < 64" "0 < sint a"
  moreover from this have "0 < sint a * 2 ^ n" by simp
  ultimately show ?thesis unfolding sint_fxp_shl [OF \<open>n < 64\<close>] clamp_def by (simp add: less_max_iff_disj)
qed

lemma fxp_shr_pos: "n < 64 \<Longrightarrow> 0 < sint a \<Longrightarrow> 0 < sint (fxp_shr a n)"
proof -
  assume n: "n < 64" and a: "0 < sint a"
  then have "a \<noteq> 0" by auto
  moreover have "0 \<le> sint a div 2 ^ n" using a by (simp add: pos_imp_zdiv_nonneg_iff)
  ultimately show ?thesis using sint_fxp_shr [OF n, of a] by auto
qed

lemma pos_msb_range: "0 < sint b \<Longrightarrow> 0 \<le> pos_msb b \<and> pos_msb b < 64"
proof -
  assume b: "0 < sint b"
  then have "b \<noteq> 0" by auto
  moreover have "pos_msb b = fxp_msb b" using b by (intro pos_msb_pos) simp
  ultimately show ?thesis using fxp_msb_range [of b] fxp_msb_bounds(1) [of b] by auto
qed

lemma fxp_div_nonneg:
  assumes "0 \<le> sint a" "0 \<le> sint b"
  shows "0 \<le> sint (fxp_div a b)"
proof -
  consider "a = 0" | "a \<noteq> 0" "b = 0" | "0 < sint a" "0 < sint b"
    using assms sint_eq_iff [of a 0] sint_eq_iff [of b 0] by force
  then show ?thesis
  proof cases
    case 3
    then have nz: "a \<noteq> 0" "b \<noteq> 0" by auto
    define t where "t = 48 - pos_msb b"
    have t: "nat t < 64" "nat (- t) < 64" using pos_msb_range [OF 3(2)] by (auto simp: t_def)
    define a' b' where "a' = (if t < 0 then fxp_shr a (nat (- t)) else fxp_shl a (nat t))"
      and "b' = (if t < 0 then fxp_shr b (nat (- t)) else fxp_shl b (nat t))"
    have "0 < sint a'" "0 < sint b'" using 3 t by (simp_all add: a'_def b'_def fxp_shl_pos fxp_shr_pos)
    then have "0 \<le> sint (fxp_mul a' (fxp_reciprocal b'))" by (intro fxp_mul_nonneg) (simp_all add: fxp_reciprocal_pos less_imp_le)
    moreover have "fxp_div a b = fxp_mul a' (fxp_reciprocal b')"
      using nz by (simp add: fxp_div_def t_def [symmetric] a'_def b'_def)
    ultimately show ?thesis by simp
  qed (use assms in \<open>simp_all add: fxp_div_def sint_max_or_min is_negative_sint\<close>)
qed

lemma vec_length_ok: "\<exists>r. vec_length v = ok r \<and> 0 \<le> sint r"
proof -
  have "0 \<le> sint (fxp_add (fxp_add (fxp_mul (vx v) (vx v)) (fxp_mul (vy v) (vy v))) (fxp_mul (vz v) (vz v)))"
    by (intro fxp_add_nonneg fxp_square_nonneg)
  then obtain r where "fxp_sqrt (fxp_add (fxp_add (fxp_mul (vx v) (vx v)) (fxp_mul (vy v) (vy v))) (fxp_mul (vz v) (vz v))) = Some r"
    "0 \<le> sint r" by (rule fxp_sqrt_total)
  then show ?thesis by (simp add: vec_length_def pow_sqrt_def)
qed

lemma reciprocal_one: "fxp_reciprocal 0x1000000000000 = 0x1000000000000"
proof -
  have m: "fxp_msb 0x1000000000000 = 48" by (simp add: fxp_msb_def msb_step_def)
  have n: "fxp_is_negative 0x1000000000000 = False" by (simp add: fxp_is_negative_def)
  show ?thesis
    unfolding fxp_reciprocal_def Let_def n if_False m funpow_six by (simp add: scale_bits_def half_newton_start half_newton_steps)
qed

lemma half_value:
  "sint (fxp_div_int (fxp_of_int 1) 2) = 2 ^ 47" "sint (fxp_neg (fxp_div_int (fxp_of_int 1) 2)) = - (2 ^ 47)"
proof -
  have m: "pos_msb 0x2000000000000 = 49" by (simp add: pos_msb_def fxp_msb_def msb_step_def)
  have s: "fxp_shr 0x1000000000000 (Suc 0) = 0x800000000000" "fxp_shr 0x2000000000000 (Suc 0) = 0x1000000000000"
    by (simp_all add: fxp_shr_def shift_right_no_saturation_def)
  have "fxp_mul 0x800000000000 0x1000000000000 = 0x800000000000" by (simp add: newton_eval)
  then have h: "fxp_div_int (fxp_of_int 1) 2 = 0x800000000000"
    by (simp add: fxp_div_int_def fxp_div_def fxp_of_int_def m s reciprocal_one)
  show "sint (fxp_div_int (fxp_of_int 1) 2) = 2 ^ 47" "sint (fxp_neg (fxp_div_int (fxp_of_int 1) 2)) = - (2 ^ 47)"
    by (simp_all add: h fxp_neg_def)
qed

lemma in_unit:
  assumes "fxp_geq p (fxp_neg (fxp_div_int (fxp_of_int 1) 2))" "fxp_less p (fxp_div_int (fxp_of_int 1) 2)"
  shows "- (2 ^ 47) \<le> sint p" "sint p < 2 ^ 47"
  using assms sint_bounds [of p] by (auto simp: fxp_geq_less fxp_less_sint half_value split: if_splits)

lemma screen_coordinate:
  assumes "fxp_geq p (fxp_neg (fxp_div_int (fxp_of_int 1) 2))" "fxp_less p (fxp_div_int (fxp_of_int 1) 2)"
  shows "uint (fxp_to_uint32 (fxp_mul_int (fxp_add p (fxp_div_int (fxp_of_int 1) 2)) 4096)) < 4096"
proof -
  define q where "q = fxp_add p (fxp_div_int (fxp_of_int 1) 2)"
  have q: "0 \<le> sint q" "sint q < 2 ^ 48"
    using in_unit [OF assms] by (simp_all add: q_def sint_fxp_add half_value)
  define r where "r = fxp_mul_int q 4096"
  have c: "sint (fxp_of_int 4096) = 2 ^ 60" by (simp add: fxp_of_int_def)
  then have c0: "fxp_of_int 4096 \<noteq> 0" by auto
  have "0 \<le> sint r \<and> sint r < 2 ^ 60"
  proof (cases "q = 0")
    case True
    then show ?thesis by (simp add: r_def fxp_mul_int_def)
  next
    case False
    then have q0: "0 < sint q" using q sint_eq_iff [of q 0] by simp
    have "sint q * 2 ^ 60 < 2 ^ 48 * 2 ^ 60" using q(2) by simp
    then have "sint q * 2 ^ 60 < 2 ^ 110" by (rule less_trans) simp
    then have "sint r = max 1 (sint q * 2 ^ 60 div 2 ^ 48)"
      using mul_spec_pos [of "sint q" "2 ^ 60"] q0 sint_fxp_mul [OF False c0] by (simp add: r_def fxp_mul_int_def c)
    moreover have "sint q * 2 ^ 60 div 2 ^ 48 = sint q * 2 ^ 12" by simp
    ultimately show ?thesis using q q0 by simp
  qed
  then have "uint r < 2 ^ 60" "0 \<le> uint r" using uint_bounds [of r] by (auto simp: sint_of_uint split: if_splits)
  then have "uint (drop_bit 48 r) < 2 ^ 12" by (simp add: uint_drop_u64 div_less_iff_less_mult)
  moreover have "uint (fxp_to_uint32 r) = uint (drop_bit 48 r) mod 2 ^ 32"
    unfolding fxp_to_uint32_def by (rule ucast_u32_uint)
  moreover have "uint (drop_bit 48 r) mod 2 ^ 32 \<le> uint (drop_bit 48 r)" by (rule zmod_le_nonneg_dividend) simp
  ultimately show ?thesis by (simp add: r_def q_def)
qed

definition camera_ok :: "camera \<Rightarrow> bool" where
  "camera_ok cam \<longleftrightarrow> 0 \<le> sint (volume cam)"

lemma volume_nonneg: "sd \<in> {7, 8, 9} \<Longrightarrow> camera_ok (new_camera sd key)"
proof -
  assume "sd \<in> {7, 8, 9}"
  then have "0 \<le> sint (fxp_of_size (num_buckets sd))" by (auto simp: fxp_of_size_def num_buckets_def)
  moreover have "0 \<le> sint (fxp_mul_int (fxp_of_int 1) 32)"
    unfolding fxp_mul_int_def by (rule fxp_mul_nonneg) (simp_all add: fxp_of_int_def)
  ultimately show ?thesis by (simp add: camera_ok_def new_camera_def Let_def fxp_div_nonneg)
qed

lemma project_star_ok:
  assumes "camera_ok cam" "star_in_range i"
  shows "\<exists>r. cam_project_star cam i = ok r"
proof -
  obtain st where st: "get_star (cam_keys cam) i = ok st" using get_star_in_range [OF assms(2)] by blast
  define svd where "svd = vec_sub (star_to_vector st) (origin cam)"
  define diff where "diff = vec_sub (target cam) (origin cam)"
  obtain sd where sd: "vec_length svd = ok sd" using vec_length_ok [of svd] by auto
  obtain h where h: "vec_length diff = ok h" "0 \<le> sint h" using vec_length_ok [of diff] by auto
  have "0 \<le> sint (fxp_mul_int (volume cam) 3)"
    unfolding fxp_mul_int_def using assms(1) by (intro fxp_mul_nonneg) (simp_all add: camera_ok_def fxp_of_int_def)
  then have "0 \<le> sint (fxp_div (fxp_mul_int (volume cam) 3) h)" using h(2) by (rule fxp_div_nonneg)
  then obtain l where "fxp_sqrt (fxp_div (fxp_mul_int (volume cam) 3) h) = Some l" by (rule fxp_sqrt_total)
  then have l: "pow_sqrt (fxp_div (fxp_mul_int (volume cam) 3) h) = ok l" by (simp add: pow_sqrt_def)
  show ?thesis
    unfolding cam_project_star_def Let_def st bindR_simps svd_def [symmetric] diff_def [symmetric] sd h(1) l
    by (auto split: if_splits)
qed

lemma project_star_on_screen:
  assumes "cam_project_star cam i = ok (Some s)"
  shows "on_screen s"
  using assms unfolding cam_project_star_def Let_def
  by (elim bindR_okE)
    (auto simp: on_screen_def SCREEN_WIDTH_def SCREEN_HEIGHT_def dest: screen_coordinate split: if_splits)

subsection \<open>The state of the verifier\<close>

text \<open>The camera that looks at a nonce: whatever the verifier did before, \<open>setup\<close> turns its camera there.\<close>

definition aimed :: "siphash_keys \<Rightarrow> nat \<Rightarrow> u64 \<Rightarrow> u32 \<Rightarrow> camera" where
  "aimed key sd nonce_offset nonce =
     (let start = nonce_offset + ucast (3 * nonce); cam = new_camera sd key
      in set_target_vec cam
           (make_vec3 (uint64_to_fxp (siphash_1 key start)) (uint64_to_fxp (siphash_1 key (start + 1)))
                 (uint64_to_fxp (siphash_1 key (start + 2)))))"

definition verifier_ok :: "siphash_keys \<Rightarrow> nat \<Rightarrow> pow_verifier \<Rightarrow> bool" where
  "verifier_ok key sd v \<longleftrightarrow> v_key v = key \<and> super_difficulty v = sd \<and>
     (\<forall>cam. v_camera v = Some cam \<longrightarrow> (\<exists>t. cam = set_target_vec (new_camera sd key) t))"

lemma set_target_value:
  "set_target cam off n =
     (let start = off + ucast (3 * n)
      in ok (set_target_vec cam
           (make_vec3 (uint64_to_fxp (siphash_1 (cam_keys cam) start)) (uint64_to_fxp (siphash_1 (cam_keys cam) (start + 1)))
                 (uint64_to_fxp (siphash_1 (cam_keys cam) (start + 2))))))"
  by (simp add: set_target_def siphash_scalar Let_def upt_rec)

lemma new_verifier_ok: "verifier_ok key sd (new_verifier key sd)"
  by (simp add: verifier_ok_def new_verifier_def)

lemma new_camera_keys [simp]: "cam_keys (new_camera sd key) = key"
  by (simp add: new_camera_def Let_def)

lemma set_target_vec_again [simp]:
  "cam_keys (set_target_vec cam t) = cam_keys cam" "set_target_vec (set_target_vec cam t) t' = set_target_vec cam t'"
  "volume (set_target_vec cam t) = volume cam"
  by (simp_all add: set_target_vec_def)

lemma verifier_setup_value:
  assumes "verifier_ok key sd v"
  shows "verifier_setup v off n =
    (if sd \<in> {7, 8, 9} then ok (v\<lparr>v_camera := Some (aimed key sd off n)\<rparr>) else throw Assertion_failed)"
proof -
  have "setup_t sd v off n = ok (v\<lparr>v_camera := Some (aimed key sd off n)\<rparr>)"
    using assms by (cases "v_camera v")
      (auto simp: setup_t_def set_target_value verifier_ok_def aimed_def Let_def)
  then show ?thesis using assms by (auto simp: verifier_setup_def verifier_ok_def)
qed

lemma aimed_verifier_ok:
  "verifier_ok key sd v \<Longrightarrow> verifier_ok key sd (v\<lparr>v_camera := Some (aimed key sd off n)\<rparr>)"
  by (auto simp: verifier_ok_def aimed_def Let_def)

lemma aimed_camera_ok: "sd \<in> {7, 8, 9} \<Longrightarrow> camera_ok (aimed key sd off n)"
  using volume_nonneg [of sd key] by (simp add: aimed_def camera_ok_def Let_def)

lemma project_star_aimed:
  assumes "verifier_ok key sd v" "sd \<in> {7, 8, 9}" "v_camera v = Some cam"
  shows "project_star v i = cam_project_star cam i"
  using assms by (auto simp: project_star_def project_star_t_def verifier_ok_def)

lemma project_all_some:
  "project_all v is = ok (Some ss) \<longleftrightarrow> list_all2 (\<lambda>i s. project_star v i = ok (Some s)) is ss"
proof (induction "is" arbitrary: ss)
  case Nil
  then show ?case by auto
next
  case (Cons i "is")
  show ?case
  proof
    assume "project_all v (i # is) = ok (Some ss)"
    then obtain s where s: "project_star v i = ok s"
      "(case s of None \<Rightarrow> ok None | Some s \<Rightarrow> bindR (project_all v is) (\<lambda>ss. ok (map_option ((#) s) ss))) = ok (Some ss)"
      unfolding project_all.simps by (rule bindR_okE)
    then obtain t where t: "s = Some t" "bindR (project_all v is) (\<lambda>ss. ok (map_option ((#) t) ss)) = ok (Some ss)"
      by (cases s) simp_all
    from t(2) obtain us where "project_all v is = ok us" "map_option ((#) t) us = Some ss" by (auto elim!: bindR_okE)
    then obtain ss' where "project_all v is = ok (Some ss')" "ss = t # ss'" by auto
    then show "list_all2 (\<lambda>i s. project_star v i = ok (Some s)) (i # is) ss" using s(1) t(1) Cons.IH by simp
  next
    assume "list_all2 (\<lambda>i s. project_star v i = ok (Some s)) (i # is) ss"
    then show "project_all v (i # is) = ok (Some ss)" by (cases ss) (simp_all add: Cons.IH [symmetric])
  qed
qed

subsection \<open>What is accepted\<close>

definition row_accepted :: "siphash_keys \<Rightarrow> nat \<Rightarrow> u64 \<Rightarrow> u32 list \<Rightarrow> bool" where
  "row_accepted key sd off row \<longleftrightarrow>
     (\<exists>s. cam_project_star (aimed key sd off 0) (row ! 0) = ok (Some s)) \<and>
     (\<exists>ss. list_all2 (\<lambda>k s. cam_project_star (aimed key sd off (row ! 1)) (row ! (2 + k)) = ok (Some s)) [0..<7] ss \<and>
        exact_dipper ss)"

lemma exact_dipper_projected:
  assumes "list_all2 (\<lambda>k s. cam_project_star cam (f k) = ok (Some s)) [0..<7] ss"
  shows "(check_dipper ss = ok True \<longleftrightarrow> exact_dipper ss) \<and> check_dipper ss \<in> {ok True, ok False, throw Int_overflow}"
proof (rule check_dipper_on_screen)
  show "length ss = 7" using assms by (simp add: list_all2_lengthD [symmetric])
  show "list_all on_screen ss"
    using assms unfolding list_all_length list_all2_conv_all_nth by (auto intro: project_star_on_screen)
qed

lemma verify_row_value:
  fixes off :: u64
  assumes "verifier_ok key sd v" "sd \<in> {7, 8, 9}"
  defines "turned n \<equiv> v\<lparr>v_camera := Some (aimed key sd off n)\<rparr>"
  shows "verify_row v off row =
    bindR (cam_project_star (aimed key sd off 0) (row ! 0)) (\<lambda>f.
      if f = None then ok (turned 0, False)
      else bindR (project_all (turned (row ! 1)) (map (\<lambda>k. row ! (2 + k)) [0..<7])) (\<lambda>stars. case stars of
        None \<Rightarrow> ok (turned (row ! 1), False)
      | Some ss \<Rightarrow> bindR (check_dipper ss) (\<lambda>good. ok (turned (row ! 1), good))))"
proof -
  have ok0: "verifier_ok key sd (turned n)" for n unfolding turned_def using assms(1) by (rule aimed_verifier_ok)
  have s0: "verifier_setup v off 0 = ok (turned 0)" using assms(1,2) by (simp add: verifier_setup_value turned_def)
  have s1: "verifier_setup (turned 0) off n = ok (turned n)" for n
    using verifier_setup_value [OF ok0 [of 0]] assms(2) by (simp add: turned_def)
  have p0: "project_star (turned 0) i = cam_project_star (aimed key sd off 0) i" for i
    using project_star_aimed [OF ok0 assms(2)] by (simp add: turned_def)
  show ?thesis unfolding verify_row_def s0 s1 p0 bindR_simps ..
qed

lemma verify_row_state:
  assumes "verifier_ok key sd v" "verify_row v off row = ok (v', b)"
  shows "verifier_ok key sd v' \<and> sd \<in> {7, 8, 9}"
proof (cases "sd \<in> {7, 8, 9}")
  case True
  then show ?thesis
    using assms(2) aimed_verifier_ok [OF assms(1)] unfolding verify_row_value [OF assms(1) True]
    by (auto elim!: bindR_okE split: if_splits option.splits)
next
  case False
  then show ?thesis using assms by (simp add: verify_row_def verifier_setup_value)
qed

lemma verify_row_accepts:
  assumes v: "verifier_ok key sd v" and sd: "sd \<in> {7, 8, 9}"
  shows "(\<exists>v'. verify_row v off row = ok (v', True)) \<longleftrightarrow> row_accepted key sd off row"
proof -
  define turned where "turned n = v\<lparr>v_camera := Some (aimed key sd off n)\<rparr>" for n
  have p: "project_star (turned n) i = cam_project_star (aimed key sd off n) i" for n i
    using project_star_aimed [OF aimed_verifier_ok [OF v] sd] by (simp add: turned_def)
  have all: "project_all (turned n) (map (\<lambda>k. row ! (2 + k)) [0..<7]) = ok (Some ss) \<longleftrightarrow>
      list_all2 (\<lambda>k s. cam_project_star (aimed key sd off n) (row ! (2 + k)) = ok (Some s)) [0..<7] ss" for n ss
    unfolding project_all_some list.rel_map p ..
  show ?thesis
  proof
    assume "\<exists>v'. verify_row v off row = ok (v', True)"
    then obtain v' where "verify_row v off row = ok (v', True)" ..
    then obtain f where f: "cam_project_star (aimed key sd off 0) (row ! 0) = ok f"
      "(if f = None then ok (turned 0, False)
        else bindR (project_all (turned (row ! 1)) (map (\<lambda>k. row ! (2 + k)) [0..<7])) (\<lambda>stars. case stars of
          None \<Rightarrow> ok (turned (row ! 1), False)
        | Some ss \<Rightarrow> bindR (check_dipper ss) (\<lambda>good. ok (turned (row ! 1), good)))) = ok (v', True)"
      unfolding verify_row_value [OF v sd] turned_def by (rule bindR_okE)
    then obtain s where s: "f = Some s" by (cases f) auto
    have "bindR (project_all (turned (row ! 1)) (map (\<lambda>k. row ! (2 + k)) [0..<7])) (\<lambda>stars. case stars of
          None \<Rightarrow> ok (turned (row ! 1), False)
        | Some ss \<Rightarrow> bindR (check_dipper ss) (\<lambda>good. ok (turned (row ! 1), good))) = ok (v', True)"
      using f(2) unfolding s by (simp only: option.distinct(2) if_False)
    then obtain stars where st: "project_all (turned (row ! 1)) (map (\<lambda>k. row ! (2 + k)) [0..<7]) = ok stars"
      "(case stars of None \<Rightarrow> ok (turned (row ! 1), False)
        | Some ss \<Rightarrow> bindR (check_dipper ss) (\<lambda>good. ok (turned (row ! 1), good))) = ok (v', True)"
      by (rule bindR_okE)
    then obtain ss where ss: "stars = Some ss" by (cases stars) auto
    then have c: "check_dipper ss = ok True" using st(2) by (auto elim!: bindR_okE)
    note l = st(1) [unfolded ss all]
    then show "row_accepted key sd off row"
      using f(1) c exact_dipper_projected [OF l] unfolding s row_accepted_def by blast
  next
    assume "row_accepted key sd off row"
    then obtain s ss where s: "cam_project_star (aimed key sd off 0) (row ! 0) = ok (Some s)"
      and l: "list_all2 (\<lambda>k s. cam_project_star (aimed key sd off (row ! 1)) (row ! (2 + k)) = ok (Some s)) [0..<7] ss"
      and d: "exact_dipper ss"
      unfolding row_accepted_def by blast
    have "check_dipper ss = ok True" using exact_dipper_projected [OF l] d by simp
    moreover note all [THEN iffD2, OF l]
    ultimately show "\<exists>v'. verify_row v off row = ok (v', True)"
      unfolding verify_row_value [OF v sd] s turned_def [symmetric]
      by (simp only: bindR_simps option.distinct if_False option.case) blast
  qed
qed

text \<open>The nonce offset of a row: the sum of the nonces of the rows before it, each plus one, in 32 bits.\<close>

definition row_offset :: "u32 list list \<Rightarrow> nat \<Rightarrow> u64" where
  "row_offset rows n = push_bit 32 (ucast (sum_list (map (\<lambda>row. row ! 1 + 1) (take n rows))))"

lemma verify_rows_accepts:
  assumes "verifier_ok key sd v" "sd \<in> {7, 8, 9}"
  shows "verify_rows v acc rows = ok True \<longleftrightarrow>
    list_all (\<lambda>n. row_accepted key sd (push_bit 32 (ucast (acc + sum_list (map (\<lambda>row. row ! 1 + 1) (take n rows))))) (rows ! n))
      [0..<length rows]"
  using assms(1)
proof (induction rows arbitrary: v acc)
  case Nil
  then show ?case by simp
next
  case (Cons row rows)
  define P where "P s rs = (\<lambda>n. row_accepted key sd (push_bit 32 (ucast (s + sum_list (map (\<lambda>row. row ! 1 + 1) (take n rs))))) (rs ! n))"
    for s and rs :: "u32 list list"
  have split: "list_all (P acc (row # rows)) [0..<length (row # rows)] \<longleftrightarrow>
      row_accepted key sd (push_bit 32 (ucast acc)) row \<and> list_all (P (acc + (row ! 1 + 1)) rows) [0..<length rows]"
  proof -
    have "[0..<length (row # rows)] = 0 # map Suc [0..<length rows]" by (simp add: map_Suc_upt upt_conv_Cons del: upt_Suc)
    then show ?thesis by (simp add: P_def list.pred_map comp_def add.assoc del: upt_Suc)
  qed
  have "verify_rows v acc (row # rows) = ok True \<longleftrightarrow>
      (\<exists>v'. verify_row v (push_bit 32 (ucast acc)) row = ok (v', True) \<and> verify_rows v' (acc + (row ! 1 + 1)) rows = ok True)"
    by (auto simp: bindR_ok_iff split: if_splits prod.splits)
  also have "\<dots> \<longleftrightarrow> (\<exists>v'. verify_row v (push_bit 32 (ucast acc)) row = ok (v', True)) \<and> list_all (P (acc + (row ! 1 + 1)) rows) [0..<length rows]"
    using Cons.IH verify_row_state [OF Cons.prems] unfolding P_def by blast
  also have "\<dots> \<longleftrightarrow> list_all (P acc (row # rows)) [0..<length (row # rows)]"
    unfolding split verify_row_accepts [OF Cons.prems assms(2)] ..
  finally show ?case unfolding P_def .
qed

text \<open>C33: What \<open>verify_pow\<close> accepts.  Either a product of the check overflows its 32 bits, which is undefined in C++, so that
  nothing is claimed of the run; or the proof is accepted exactly when the galaxy has 2^7, 2^8 or 2^9 buckets to the
  side, each of its rows (the first alone, in the simple mode) shows a visible star and an exact dipper from the camera
  that the row's nonce and the nonces before it determine, and the first 32 bytes of the proof itself do not exceed the
  target.  No earlier row leaves anything behind in the verifier but the sum of the nonces.  The comments ask for a hash
  of the proof below the target; the code computes a digest, but compares the bytes of the proof.\<close>

theorem verify_pow_accepts:
  "verify_pow key sd difficulty p simple = throw Int_overflow \<or>
   (verify_pow key sd difficulty p simple = ok True \<longleftrightarrow>
     (let rows = map (get_row p) [0..<(if simple then 1 else 4)]
      in sd \<in> {7, 8, 9} \<and> list_all (\<lambda>n. row_accepted key sd (row_offset rows n) (rows ! n)) [0..<length rows] \<and>
         (\<exists>target. get_target difficulty = ok target \<and> \<not> memcmp_positive (take 32 (proof_write p)) target)))"
proof -
  define rows where "rows = map (get_row p) [0..<(if simple then 1 else 4)]"
  have ne: "rows \<noteq> []" by (simp add: rows_def)
  have "verify_pow key sd difficulty p simple = ok True \<longleftrightarrow> verify_rows (new_verifier key sd) 0 rows = ok True \<and>
      (\<exists>target. get_target difficulty = ok target \<and> \<not> memcmp_positive (take 32 (proof_write p)) target)"
    unfolding verify_pow_def NUM_ROWS_def rows_def [symmetric]
    by (auto simp: bindR_ok_iff Let_def split: if_splits)
  moreover have "verify_rows (new_verifier key sd) 0 rows = ok True \<longleftrightarrow>
      sd \<in> {7, 8, 9} \<and> list_all (\<lambda>n. row_accepted key sd (row_offset rows n) (rows ! n)) [0..<length rows]"
  proof (cases "sd \<in> {7, 8, 9}")
    case True
    then show ?thesis using verify_rows_accepts [where acc = 0 and rows = rows, OF new_verifier_ok True] by (simp add: row_offset_def)
  next
    case False
    then show ?thesis using ne new_verifier_ok [of key sd]
      by (cases rows) (simp_all add: verify_row_def verifier_setup_value)
  qed
  ultimately show ?thesis unfolding Let_def rows_def [symmetric] by (intro disjI2) blast
qed

subsection \<open>What may go wrong\<close>

lemma project_all_ok:
  "(\<And>i. i \<in> set is \<Longrightarrow> \<exists>r. project_star v i = ok r) \<Longrightarrow> \<exists>r. project_all v is = ok r"
proof (induction "is")
  case (Cons i "is")
  then obtain r rs where "project_star v i = ok r" "project_all v is = ok rs" by fastforce
  then show ?case by (cases r) simp_all
qed simp

definition safe :: "'a pow \<Rightarrow> bool" where
  "safe m \<longleftrightarrow> (\<exists>r. m = ok r) \<or> m = throw Int_overflow"

lemma safe_bind: "safe m \<Longrightarrow> (\<And>r. m = ok r \<Longrightarrow> safe (f r)) \<Longrightarrow> safe (bindR m f)"
  by (auto simp: safe_def)

lemma safe_ok [simp]: "safe (ok r)"
  by (simp add: safe_def)

definition row_ids :: "u32 list \<Rightarrow> u32 list" where
  "row_ids row = row ! 0 # map (\<lambda>k. row ! (2 + k)) [0..<7]"

lemma verify_row_safe:
  assumes v: "verifier_ok key sd v" and sd: "sd \<in> {7, 8, 9}" and ids: "list_all star_in_range (row_ids row)"
  shows "safe (verify_row v off row)"
proof -
  define turned where "turned n = v\<lparr>v_camera := Some (aimed key sd off n)\<rparr>" for n
  have p: "project_star (turned n) i = cam_project_star (aimed key sd off n) i" for n i
    using project_star_aimed [OF aimed_verifier_ok [OF v] sd] by (simp add: turned_def)
  note total = project_star_ok [OF aimed_camera_ok [OF sd]]
  have f: "\<exists>r. cam_project_star (aimed key sd off 0) (row ! 0) = ok r"
    using ids by (intro total) (simp add: row_ids_def)
  have "\<exists>r. project_all (turned (row ! 1)) (map (\<lambda>k. row ! (2 + k)) [0..<7]) = ok r"
    using ids unfolding row_ids_def by (intro project_all_ok) (auto simp: p list_all_iff intro!: total)
  moreover have "safe (check_dipper ss)" if "project_all (turned (row ! 1)) (map (\<lambda>k. row ! (2 + k)) [0..<7]) = ok (Some ss)" for ss
    using that exact_dipper_projected [of "aimed key sd off (row ! 1)" "\<lambda>k. row ! (2 + k)" ss]
    unfolding project_all_some list.rel_map p safe_def by auto
  ultimately show ?thesis
    unfolding verify_row_value [OF v sd] turned_def [symmetric] using f
    by (auto intro!: safe_bind split: option.splits simp del: upt_rec_numeral)
qed

lemma verify_rows_safe:
  assumes "verifier_ok key sd v" "sd \<in> {7, 8, 9}" "list_all (\<lambda>row. list_all star_in_range (row_ids row)) rows"
  shows "safe (verify_rows v acc rows)"
  using assms(1,3)
proof (induction rows arbitrary: v acc)
  case (Cons row rows)
  have "safe (verify_row v (push_bit 32 (ucast acc)) row)"
    using verify_row_safe [OF Cons.prems(1) assms(2)] Cons.prems(2) by simp
  then show ?case
    using Cons.IH Cons.prems verify_row_state [OF Cons.prems(1)]
    by (auto intro!: safe_bind split: prod.splits)
qed simp

text \<open>C34: No proof can crash the check of a block header but through the star numbers and the 32-bit comparison.  At
  difficulty one and with star numbers whose triple does not wrap around, \<open>verify_pow\<close> reads no memory out of
  bounds and trips no assertion: the square roots never get a negative argument, every projected star lies on the
  screen, the camera always exists, and only the product compared with the tolerance can overflow.\<close>

theorem verify_pow_safe:
  assumes "sd \<in> {7, 8, 9}" "list_all (\<lambda>n. list_all star_in_range (row_ids (get_row p n))) [0..<4]"
  shows "verify_pow key sd (flt_of_int 1) p simple \<in> {ok True, ok False, throw Int_overflow}"
proof -
  have t: "get_target (flt_of_int 1) = ok (replicate 32 0xff)" by (rule get_target_one)
  have "list_all (\<lambda>row. list_all star_in_range (row_ids row)) (map (get_row p) [0..<(if simple then 1 else NUM_ROWS)])"
    using assms(2) by (auto simp: list_all_iff NUM_ROWS_def)
  then have "safe (verify_pow key sd (flt_of_int 1) p simple)"
    unfolding verify_pow_def t
    by (intro safe_bind verify_rows_safe [OF new_verifier_ok assms(1)]) (simp_all add: Let_def)
  then show ?thesis by (auto simp: safe_def)
qed

theorem verify_pow_safe_witness:
  "verify_pow (siphash_keys_of (\<lambda>msg. msg) (replicate 32 0)) 8 (flt_of_int 1) empty_proof False \<in> {ok True, ok False, throw Int_overflow}"
  by (rule verify_pow_safe) (simp_all add: empty_proof_def get_row_def row_ids_def ROW_SIZE_def NUM_ROWS_def star_in_range_def list_all_iff)

end
