(* ===== verification/Spec2Isabelle.thy ===== *)
theory Spec2Isabelle
  imports Prelude Bits Cells Heap Heap_Ops Lru_Cache Merkle_Trie Term_Env Unify_Store Unify Term_Walk Term_Tree
    Serializer Serializer_Cells Serializer_Read Term_Copy Copy_Correct
    Fxp Fxp_Correct Fxp_Newton Fxp_Sqrt Siphash Flt Galaxy Dipper Dipper_Check Pow_Verify
begin

text \<open>
  \<^bold>\<open>A verification library for the term engine and the proof of work of epilog.\<close>

  Epilog is a Prolog system with a blockchain.  Everything it computes is a term: 64-bit tagged cells on a heap of
  blocks (\<^verbatim>\<open>src/src/common/term.hpp\<close>, \<^verbatim>\<open>term.cpp\<close>), handled by a term environment with a stack, a trail and names
  (\<^verbatim>\<open>term_env.hpp\<close>, \<^verbatim>\<open>term_env.cpp\<close>), sent and stored as bytes by the serializer (\<^verbatim>\<open>term_serializer.hpp\<close>,
  \<^verbatim>\<open>term_serializer.cpp\<close>), and hashed into Merkle tries (\<^verbatim>\<open>merkle_trie.hpp\<close>) whose pages are cached (\<^verbatim>\<open>lru_cache.hpp\<close>).
  The interpreter, the database, the network node and the wallet use these parts.  A block header is accepted when its
  proof of work shows the Big Dipper seven stars at a time in a galaxy of hashed coordinates (\<^verbatim>\<open>src/src/pow\<close>); every node
  repeats the projection of the stars in its own fixed-point arithmetic.

  \<^bold>\<open>Theories.\<close>
  \<^item> \<open>Prelude\<close>: the result monad (\<open>None\<close> = the loop never ends, \<open>Inl\<close> = exception or undefined behaviour, \<open>Inr\<close> = result).
  \<^item> \<open>Bits\<close>: \<^verbatim>\<open>bits.hpp\<close>; lowest and highest bits, bit reversal, little-endian integers (a locale for byte codecs).
  \<^item> \<open>Cells\<close>: tags, integers, constants, character chunks and data headers in one 64-bit word, with their round trips.
  \<^item> \<open>Heap\<close>, \<open>Heap_Ops\<close>: blocks, allocation, atom tables, dereferencing, construction of terms and big numbers.  \<open>mem\<close> views
    a heap in its invariant \<open>heap_inv\<close> as a partial map from addresses to cells; allocation only extends it.  The iterator
    over the bytes of a big number is modelled with the cell it caches.  It looks at the first cell of the next block even
    when the number is over; \<open>big_cells\<close> says where that is harmless, and the theorem on writing and reading back shows
    that a number which fills the last block of the heap cannot be written.
  \<^item> \<open>Term_Env\<close>: the record of an environment; stacks, trail, equality, hashing, cost and unification.
  \<^item> \<open>Unify_Store\<close>, \<open>Unify\<close>: unification on stores that may hold cyclic terms.  It ends, decides whether the terms have a
    common (possibly infinite) instance, is most general, is undone when it fails and trails what backtracking needs.
  \<^item> \<open>Term_Walk\<close>, \<open>Term_Tree\<close>: the standard order, iterators, naming of variables and strings; \<open>reads\<close> relates a cell to
    the finite tree it stands for, the reference for equality, hash, order and groundness, and \<open>walks\<close> asks in addition
    that its big numbers can be walked over.  The walks that compare two terms share the locale \<open>pair_walk\<close>.
  \<^item> \<open>Term_Copy\<close>, \<open>Copy_Correct\<close>: copying terms within and between environments; a copy is the same tree with its variables
    renamed one to one to new ones.
  \<^item> \<open>Serializer\<close>, \<open>Serializer_Cells\<close>, \<open>Serializer_Read\<close>: writing terms as bytes, reading them back and the integrity check of
    what was read.  Buffers are sequences of the byte codec; reading ends on every sequence of bytes, and is safe on
    all but two kinds of them (an indexed constant as the version, and a forwarding cell on a heap of one cell), which a
    small logic of results (\<open>returns\<close>) shows from the loops up to \<open>read\<close>.
  \<^item> \<open>Lru_Cache\<close>: the cache, its invariant and eviction order (locale \<open>read_through_cache\<close>).
  \<^item> \<open>Merkle_Trie\<close>: insertion, lookup, removal and hashing; the trie implements a map (locale \<open>map_store\<close>) and its root
    hash depends on the contents only.
  \<^item> \<open>Fxp\<close>, \<open>Fxp_Correct\<close>, \<open>Fxp_Newton\<close>, \<open>Fxp_Sqrt\<close>: the 16.48 fixed-point numbers of \<^verbatim>\<open>fxp.hpp\<close> as operations on integers; the
    error of Newton's reciprocal; square roots are total and never negative.
  \<^item> \<open>Flt\<close>: \<^verbatim>\<open>flt.hpp\<close>, difficulties and targets.  \<open>Siphash\<close>: \<^verbatim>\<open>siphash.hpp\<close>; the SSE2 lanes compute the scalar hash.
  \<^item> \<open>Galaxy\<close>: stars, vectors and the camera (\<^verbatim>\<open>star.hpp\<close>, \<^verbatim>\<open>vec3.hpp\<close>, \<^verbatim>\<open>galaxy.hpp\<close>, \<^verbatim>\<open>camera.hpp\<close>) at the verifier's number type.
  \<^item> \<open>Dipper\<close>, \<open>Dipper_Check\<close>: \<^verbatim>\<open>dipper_detector.cpp\<close> and the check of seven stars in \<^verbatim>\<open>pow_verifier.cpp\<close>; what the detector finds passes
    the check, and for stars on the screen the check decides the exact relation unless one product overflows.
  \<^item> \<open>Pow_Verify\<close>: \<^verbatim>\<open>pow_verifier.hpp\<close>, \<^verbatim>\<open>pow_verifier.cpp\<close> and \<open>validate_pow\<close>; what \<open>verify_pow\<close> accepts when no
    product overflows, and that no proof can make it fail but in the ways the properties name.

  \<^bold>\<open>Conventions.\<close>  A class is a record, an operation a function that returns the new record; machine words keep their width
  where the code can overflow.  Loops that could run for ever are \<^theory_text>\<open>partial_function (option)\<close>, so that a property
  that an operation returns is proved as such.  Fuel appears in one place: \<open>rehash_all\<close> and
  \<open>internal_integrity_check\<close> of the Merkle trie recurse on a bound of the depth.  The number of levels is enough, since no
  branch lies deeper, and both are proved to return with it.  Addresses are natural numbers; \<open>addr_limit = 2^61\<close> bounds
  what a cell can hold and appears in the properties that allocate.  Boost's \<open>cpp_int\<close> import and export, the result of
  \<^verbatim>\<open>std::string::compare\<close> (\<open>compare_doc\<close>: only its sign is specified) are parameters, with their
  documented behaviour as named hypotheses; the hash of the Merkle trie is a parameter of which nothing is assumed.  In the proof of work an \<open>int32_t\<close>
  is an \<open>int\<close> whose operations list their intermediate results, and signed overflow is an error value.

  \<^bold>\<open>Not modelled.\<close>  Tokenizer, parser and printer of terms, the operator table, the garbage collector, the small utilities
  and the cryptographic hashes of \<^verbatim>\<open>src/src/common\<close>; the WAM interpreter and its compiler and built-ins
  (\<^verbatim>\<open>src/src/interp\<close>), the on-disk trie (\<^verbatim>\<open>src/src/db\<close>), the global state (\<^verbatim>\<open>src/src/global\<close>), networking
  (\<^verbatim>\<open>src/src/node\<close>), keys, coins, wallet and front ends.  Of \<^verbatim>\<open>src/src/pow\<close>, the miner and the server: they compute with
  \<open>double\<close> and threads and are checked by the verifier; and Blake2, which is vendored.  In the modelled parts: debug
  printing, the callbacks by which the database supplies heap blocks, the Blake2 hash of serialized terms, and the
  iterators of the Merkle trie.
\<close>

end
